(* ===== verification/HDS_Prelude.thy ===== *)
theory HDS_Prelude
  imports Main "HOL-Library.Word"
begin

unbundle bit_operations_syntax

text \<open>
  Shared vocabulary of the development.  The code is compiled for LP64 Linux (x86-64):
  \<open>int\<close> and \<open>unsigned int\<close> are 32 bits, \<open>long\<close> and \<open>unsigned long\<close> 64 bits, memory is
  little-endian.  A machine integer is a word of its width; where the source type is signed the
  model reads it with \<open>sint\<close> (comparisons with \<open>\<le>s\<close> and \<open><s\<close>, right shifts with
  \<open>signed_drop_bit\<close>).

  The theory holds the generic facts the components share: single-bit masks of words, the
  little-endian byte layout of words with its round trips, overwriting a range of a byte buffer,
  and first/last position searches.  They are collected in \<open>bit_facts\<close> and \<open>buf_facts\<close>.
\<close>

named_theorems bit_facts "bits of words, masks and shifts"
named_theorems buf_facts "byte buffers and their overwriting"

type_synonym u8 = "8 word"
type_synonym u16 = "16 word"
type_synonym u32 = "32 word"
type_synonym u64 = "64 word"

section \<open>Single bits of words\<close>

lemma bit_two_power [bit_facts]:
  "bit ((2 :: 'a::len word) ^ n) m \<longleftrightarrow> m = n \<and> n < LENGTH('a)"
  by (metis bit_exp_iff possible_bit_word)

lemma and_two_power [bit_facts]:
  fixes v :: "'a::len word"
  shows "v AND 2 ^ n = (if bit v n then 2 ^ n else 0)"
  by (rule bit_word_eqI) (auto simp: bit_and_iff bit_two_power)

lemma and_two_power_eq_0 [bit_facts]:
  fixes v :: "'a::len word"
  shows "v AND 2 ^ n = 0 \<longleftrightarrow> \<not> bit v n"
  by (auto simp: and_two_power bit_two_power dest: bit_imp_le_length
      intro!: exI [of _ n] simp: bit_eq_iff [of "2 ^ n"])

lemma sgreater_0_iff [bit_facts]:
  fixes w :: "'a::len word"
  shows "0 <s w \<longleftrightarrow> \<not> bit w (LENGTH('a) - 1) \<and> w \<noteq> 0"
  using bit_last_iff [of w] signed_eq_0_iff [of w]
  by (auto simp: word_sless_alt order_less_le not_less)

lemma sgreater_two_power [bit_facts]:
  "0 <s (2 :: 'a::len word) ^ n \<longleftrightarrow> n < LENGTH('a) - 1"
proof -
  have "(2 :: 'a word) ^ n = 0 \<longleftrightarrow> LENGTH('a) \<le> n"
    by (simp add: bit_eq_iff [of "2 ^ n"] bit_two_power linorder_not_less)
  then show ?thesis
    by (auto simp: sgreater_0_iff bit_two_power)
qed

lemma signed_drop_two_power [bit_facts]:
  assumes "n < LENGTH('a::len)"
  shows "signed_drop_bit n ((2 :: 'a word) ^ n) = (if n = LENGTH('a) - 1 then - 1 else 1)"
  using assms
  by (intro bit_word_eqI) (auto simp: bit_signed_drop_bit_iff bit_two_power bit_1_iff)

section \<open>Little-endian bytes of words\<close>

text \<open>The four bytes at which a 32-bit word is stored, lowest address first, and back; the same
  for 16 bits.\<close>

definition le_bytes32 :: "u32 \<Rightarrow> u8 list" where
  "le_bytes32 x = [ucast x, ucast (drop_bit 8 x), ucast (drop_bit 16 x), ucast (drop_bit 24 x)]"

definition le_word32 :: "u8 list \<Rightarrow> u32" where
  "le_word32 bs = ucast (bs ! 0) OR push_bit 8 (ucast (bs ! 1))
     OR push_bit 16 (ucast (bs ! 2)) OR push_bit 24 (ucast (bs ! 3))"

definition le_bytes16 :: "u16 \<Rightarrow> u8 list" where
  "le_bytes16 x = [ucast x, ucast (drop_bit 8 x)]"

definition le_word16 :: "u8 list \<Rightarrow> u16" where
  "le_word16 bs = ucast (bs ! 0) OR push_bit 8 (ucast (bs ! 1))"

lemma length_le_bytes [simp]:
  "length (le_bytes32 x) = 4" "length (le_bytes16 y) = 2"
  by (simp_all add: le_bytes32_def le_bytes16_def)

lemma le_word32_bytes [simp]: "le_word32 (le_bytes32 x) = x"
proof (rule bit_word_eqI)
  fix n assume "n < LENGTH(32)"
  then consider "n < 8" | "8 \<le> n" "n < 16" | "16 \<le> n" "n < 24" | "24 \<le> n" "n < 32"
    by fastforce
  then show "bit (le_word32 (le_bytes32 x)) n = bit x n"
    by cases (auto simp: le_word32_def le_bytes32_def bit_simps)
qed

lemma le_word16_bytes [simp]: "le_word16 (le_bytes16 x) = x"
proof (rule bit_word_eqI)
  fix n assume "n < LENGTH(16)"
  then consider "n < 8" | "8 \<le> n" "n < 16" by fastforce
  then show "bit (le_word16 (le_bytes16 x)) n = bit x n"
    by cases (auto simp: le_word16_def le_bytes16_def bit_simps)
qed

lemma le_bytes32_inject [simp]: "le_bytes32 x = le_bytes32 y \<longleftrightarrow> x = y"
  by (metis le_word32_bytes)

section \<open>Byte buffers\<close>

text \<open>\<open>overwrite buf n xs\<close> is the buffer after a \<open>memcpy\<close> of \<open>xs\<close> to offset \<open>n\<close>.  The
  code never checks bounds; a write that leaves the buffer is \<open>None\<close>.\<close>

definition overwrite :: "'a list \<Rightarrow> nat \<Rightarrow> 'a list \<Rightarrow> 'a list option" where
  "overwrite buf n xs =
     (if n + length xs \<le> length buf then Some (take n buf @ xs @ drop (n + length xs) buf)
      else None)"

lemma overwrite_length [buf_facts]:
  "overwrite buf n xs = Some buf' \<Longrightarrow> length buf' = length buf"
  by (auto simp: overwrite_def split: if_splits)

lemma overwrite_nth [buf_facts]:
  "overwrite buf n xs = Some buf' \<Longrightarrow> i < length buf \<Longrightarrow>
   buf' ! i = (if n \<le> i \<and> i < n + length xs then xs ! (i - n) else buf ! i)"
  by (auto simp: overwrite_def nth_append min_def split: if_splits)

lemma overwrite_take [buf_facts]:
  "overwrite buf n xs = Some buf' \<Longrightarrow> take (n + length xs) buf' = take n buf @ xs"
  by (auto simp: overwrite_def split: if_splits)

lemma overwrite_slice [buf_facts]:
  "overwrite buf n xs = Some buf' \<Longrightarrow> take (length xs) (drop n buf') = xs"
  by (auto simp: overwrite_def split: if_splits)

lemma overwrite_take_before [buf_facts]:
  "overwrite buf n xs = Some buf' \<Longrightarrow> m \<le> n \<Longrightarrow> take m buf' = take m buf"
  by (auto simp: overwrite_def split: if_splits)

lemma overwrite_drop_after [buf_facts]:
  "overwrite buf n xs = Some buf' \<Longrightarrow> n + length xs \<le> m \<Longrightarrow> drop m buf' = drop m buf"
  by (auto simp: overwrite_def split: if_splits)

lemma overwrite_fits: "n + length xs \<le> length buf \<Longrightarrow> \<exists>buf'. overwrite buf n xs = Some buf'"
  by (simp add: overwrite_def)

section \<open>First and last positions\<close>

lemma find_append: "find P (xs @ ys) = (case find P xs of None \<Rightarrow> find P ys | Some x \<Rightarrow> Some x)"
  by (induction xs) auto

lemma find_map: "find P (map f xs) = map_option f (find (\<lambda>x. P (f x)) xs)"
  by (induction xs) auto

lemma find_upt_split:
  "a \<le> m \<Longrightarrow> m \<le> b \<Longrightarrow>
   find P [a..<b] = (case find P [a..<m] of None \<Rightarrow> find P [m..<b] | Some x \<Rightarrow> Some x)"
proof -
  assume "a \<le> m" "m \<le> b"
  then have "[a..<b] = [a..<m] @ [m..<b]"
    by (metis le_add_diff_inverse upt_add_eq_append)
  then show ?thesis by (simp add: find_append)
qed

lemma find_upt_Some:
  "find P [a..<b] = Some x \<longleftrightarrow> a \<le> x \<and> x < b \<and> P x \<and> (\<forall>k. a \<le> k \<and> k < x \<longrightarrow> \<not> P k)"
  (is "?l = ?r")
proof
  show "?l \<Longrightarrow> ?r"
    by (auto simp: find_Some_iff) (metis le_add_diff_inverse less_diff_conv2 add.commute nat_add_left_cancel_less)
  assume r: ?r
  then show ?l
    by (auto simp: find_Some_iff intro!: exI [of _ "x - a"])
qed

lemma find_upt_None: "find P [a..<b] = None \<longleftrightarrow> (\<forall>k. a \<le> k \<and> k < b \<longrightarrow> \<not> P k)"
  by (auto simp: find_None_iff)

lemma find_rev_upt_Some:
  "find P (rev [0..<n]) = Some x \<longleftrightarrow> x < n \<and> P x \<and> (\<forall>k. x < k \<and> k < n \<longrightarrow> \<not> P k)"
  by (induction n) (auto simp: less_Suc_eq)

lemma find_rev_upt_None: "find P (rev [0..<n]) = None \<longleftrightarrow> (\<forall>k < n. \<not> P k)"
  by (auto simp: find_None_iff)

lemma find_shift:
  "find P [d + a..<d + b] = map_option ((+) d) (find (\<lambda>k. P (d + k)) [a..<b])"
proof -
  have "[d + a..<d + b] = map ((+) d) [a..<b]"
    by (rule nth_equalityI) auto
  then show ?thesis by (simp only: find_map)
qed

lemma find_cong_set: "(\<And>x. x \<in> set xs \<Longrightarrow> P x = Q x) \<Longrightarrow> find P xs = find Q xs"
  by (induction xs) auto


section \<open>Words and natural numbers\<close>

lemma unat_of_nat_le:
  fixes x :: "'a::len word"
  assumes "n \<le> unat x"
  shows "unat (of_nat n :: 'a word) = n"
proof -
  have "n < 2 ^ LENGTH('a)" by (rule le_less_trans [OF assms unsigned_less])
  then show ?thesis by (simp add: unat_of_nat take_bit_nat_eq_self)
qed

lemma unat_diff_of_nat:
  fixes x :: "'a::len word"
  assumes "n \<le> unat x"
  shows "unat (x - of_nat n) = unat x - n"
  using assms by (subst unat_sub) (simp_all add: word_le_nat_alt unat_of_nat_le)

section \<open>Signed arithmetic without overflow\<close>

lemma sint_plus_small:
  fixes x y :: "'a::len word"
  assumes "- (2 ^ (LENGTH('a) - 1)) \<le> sint x + sint y" "sint x + sint y < 2 ^ (LENGTH('a) - 1)"
  shows "sint (x + y) = sint x + sint y"
  using assms by (simp add: sint_word_ariths signed_take_bit_int_eq_self)

lemma sint_minus_small:
  fixes x y :: "'a::len word"
  assumes "- (2 ^ (LENGTH('a) - 1)) \<le> sint x - sint y" "sint x - sint y < 2 ^ (LENGTH('a) - 1)"
  shows "sint (x - y) = sint x - sint y"
  using assms by (simp add: sint_word_ariths signed_take_bit_int_eq_self)

lemma sint_mult_small:
  fixes x y :: "'a::len word"
  assumes "- (2 ^ (LENGTH('a) - 1)) \<le> sint x * sint y" "sint x * sint y < 2 ^ (LENGTH('a) - 1)"
  shows "sint (x * y) = sint x * sint y"
  using assms by (simp add: sint_word_ariths signed_take_bit_int_eq_self)


lemma sint_of_nat32: "n < 2 ^ 31 \<Longrightarrow> sint (of_nat n :: u32) = int n"
  by (simp add: signed_of_nat signed_take_bit_int_eq_self)

lemma unat_ucast_32_64: "unat (ucast (x :: u32) :: u64) = unat x"
proof -
  have "unat x < 2 ^ 64" by (rule less_trans [OF unsigned_less]) simp
  then show ?thesis by (simp add: unsigned_ucast_eq take_bit_nat_eq_self)
qed

end
