(* ===== verification/HDS_Config.thy ===== *)
theory HDS_Config
  imports HDS_Prelude
begin

text \<open>
  The protocol constants of \<open>config/HDS_UDP_Kernel_Config.h\<close>.  The header's macros are untyped
  text, so they are polymorphic abbreviations here: each use takes the type of its context, as
  the C preprocessor has it.
\<close>

section \<open>Packets\<close>

abbreviation (input) MAX_UDP_PACKET_SIZE :: "'a::numeral" where
  "MAX_UDP_PACKET_SIZE \<equiv> 1472"

abbreviation (input) HDS_UDP_PACKET_MAX_HEADER_LENGTH :: "'a::numeral" where
  "HDS_UDP_PACKET_MAX_HEADER_LENGTH \<equiv> 20"

text \<open>\<open>MAX_UDP_PACKET_SIZE - HDS_UDP_PACKET_MAX_HEADER_LENGTH\<close>, that is \<open>1472 - 20\<close>.\<close>

abbreviation (input) HDS_UDP_PACKET_MAX_DATA_LENGTH :: "'a::numeral" where
  "HDS_UDP_PACKET_MAX_DATA_LENGTH \<equiv> 1452"

lemma data_length_is_packet_minus_header:
  "HDS_UDP_PACKET_MAX_DATA_LENGTH = (MAX_UDP_PACKET_SIZE - HDS_UDP_PACKET_MAX_HEADER_LENGTH :: nat)"
  by simp

section \<open>Connection table\<close>

abbreviation (input) HDS_UDP_CONNECTION_MARK_BITS :: nat where
  "HDS_UDP_CONNECTION_MARK_BITS \<equiv> 20"

text \<open>\<open>1 << HDS_UDP_CONNECTION_MARK_BITS\<close> and that minus one.\<close>

abbreviation (input) HDS_UDP_MAX_CONNECTION_COUNT :: "'a::numeral" where
  "HDS_UDP_MAX_CONNECTION_COUNT \<equiv> 1048576"

abbreviation (input) HDS_UDP_CONNECTION_OFFSET_SHIRT :: "'a::numeral" where
  "HDS_UDP_CONNECTION_OFFSET_SHIRT \<equiv> 1048575"

section \<open>Message types\<close>

type_synonym MsgType = u32

abbreviation (input) HDS_UDP_TRANS_SIMPLE_FILE_REQUIRE :: MsgType where
  "HDS_UDP_TRANS_SIMPLE_FILE_REQUIRE \<equiv> 115"
abbreviation (input) HDS_UDP_TRANS_SIMPLE_FILE_DATA :: MsgType where
  "HDS_UDP_TRANS_SIMPLE_FILE_DATA \<equiv> 116"
abbreviation (input) HDS_UDP_TRANS_SIMPLE_FILE_ACK :: MsgType where
  "HDS_UDP_TRANS_SIMPLE_FILE_ACK \<equiv> 117"
abbreviation (input) HDS_UDP_TRANS_SIMPLE_FILE_REJECTED :: MsgType where
  "HDS_UDP_TRANS_SIMPLE_FILE_REJECTED \<equiv> 118"
abbreviation (input) HDS_UDP_TRANS_SIMPLE_FILE_REQUIRE_DUPLICATE :: MsgType where
  "HDS_UDP_TRANS_SIMPLE_FILE_REQUIRE_DUPLICATE \<equiv> 119"
abbreviation (input) HDS_UDP_TRANS_COMPLEX_FILE_REQUIRE :: MsgType where
  "HDS_UDP_TRANS_COMPLEX_FILE_REQUIRE \<equiv> 100"
abbreviation (input) HDS_UDP_TRANS_COMPLEX_FILE_DATA :: MsgType where
  "HDS_UDP_TRANS_COMPLEX_FILE_DATA \<equiv> 101"
abbreviation (input) HDS_UDP_TRANS_COMPLEX_FILE_ACK :: MsgType where
  "HDS_UDP_TRANS_COMPLEX_FILE_ACK \<equiv> 102"
abbreviation (input) HDS_UDP_TRANS_COMPLEX_FILE_REJECTED :: MsgType where
  "HDS_UDP_TRANS_COMPLEX_FILE_REJECTED \<equiv> 103"
abbreviation (input) HDS_UDP_TRANS_COMPLEX_FILE_SACK :: MsgType where
  "HDS_UDP_TRANS_COMPLEX_FILE_SACK \<equiv> 104"
abbreviation (input) HDS_UDP_TRANS_COMPLEX_FILE_REQUIRE_DUPLICATE :: MsgType where
  "HDS_UDP_TRANS_COMPLEX_FILE_REQUIRE_DUPLICATE \<equiv> 105"
abbreviation (input) HDS_UDP_TRANS_RESET :: MsgType where
  "HDS_UDP_TRANS_RESET \<equiv> 106"

section \<open>Windows, file sizes and timers\<close>

abbreviation (input) HDS_UDP_DEFAULT_MAX_WINDOWS_SIZE :: u64 where
  "HDS_UDP_DEFAULT_MAX_WINDOWS_SIZE \<equiv> - 1"

text \<open>\<open>64*HDS_UDP_PACKET_MAX_DATA_LENGTH\<close> and \<open>16*HDS_UDP_PACKET_MAX_DATA_LENGTH\<close>.\<close>

abbreviation (input) HDS_UDP_DEFAULT_SSTHRESH_SIZE :: "'a::numeral" where
  "HDS_UDP_DEFAULT_SSTHRESH_SIZE \<equiv> 92928"
abbreviation (input) SMALL_FILE_MAX_SIZE :: "'a::numeral" where
  "SMALL_FILE_MAX_SIZE \<equiv> 23232"
abbreviation (input) HDS_UDP_CONNECTION_RECV_BITMAP_SIZE :: "'a::numeral" where
  "HDS_UDP_CONNECTION_RECV_BITMAP_SIZE \<equiv> 384"

lemma window_sizes_are_packet_multiples:
  "HDS_UDP_DEFAULT_SSTHRESH_SIZE = (64 * HDS_UDP_PACKET_MAX_DATA_LENGTH :: nat)"
  "SMALL_FILE_MAX_SIZE = (16 * HDS_UDP_PACKET_MAX_DATA_LENGTH :: nat)"
  by simp_all

abbreviation (input) HDS_UDP_CONNECTION_DEFAULT_RTO :: "'a::numeral" where
  "HDS_UDP_CONNECTION_DEFAULT_RTO \<equiv> 3000"
abbreviation (input) HDS_UDP_CONNECTION_MAX_SUSPEND_TIME :: "'a::numeral" where
  "HDS_UDP_CONNECTION_MAX_SUSPEND_TIME \<equiv> 1000"
abbreviation (input) HDS_UDP_RESET_REACTION_TIME :: "'a::numeral" where
  "HDS_UDP_RESET_REACTION_TIME \<equiv> 2000"
abbreviation (input) HDS_UDP_RECV_ACK_TIMER :: "'a::numeral" where
  "HDS_UDP_RECV_ACK_TIMER \<equiv> 200"
abbreviation (input) HDS_UDP_RECVER_SUCC_TIMER :: "'a::numeral" where
  "HDS_UDP_RECVER_SUCC_TIMER \<equiv> 100"
abbreviation (input) HDS_UDP_CONNECTION_RECV_CHECK_DEAD_TIME :: "'a::numeral" where
  "HDS_UDP_CONNECTION_RECV_CHECK_DEAD_TIME \<equiv> 75000"
abbreviation (input) HDS_UDP_CONNECTION_SEND_TRY_TIME :: "'a::numeral" where
  "HDS_UDP_CONNECTION_SEND_TRY_TIME \<equiv> 7"
abbreviation (input) HDS_UDP_CONNECTION_MIN_RTO :: "'a::numeral" where
  "HDS_UDP_CONNECTION_MIN_RTO \<equiv> 1000"
abbreviation (input) HDS_UDP_CONNECTION_MAX_RTO :: "'a::numeral" where
  "HDS_UDP_CONNECTION_MAX_RTO \<equiv> 8000"

end
