(* ===== verification/Atomic_T.thy ===== *)
theory Atomic_T
  imports HDS_Config
begin

unbundle bit_operations_syntax

text \<open>
  \<open>common/atomic_t.h\<close> on Linux.  Each member function of \<open>atomic_t<T>\<close> is one indivisible step
  on the cell's value: it is a function from the value before the step to the pair of the
  returned value and the value after it.  The bit operations are modelled at \<open>T = long\<close>, the
  type of every status word and bitmap word of the library: masks are \<open>1L << offset\<close>, the
  result of the test is shifted down with the signed shift of \<open>long\<close>.
\<close>

section \<open>Word operations\<close>

definition AtomicExchange :: "'a \<Rightarrow> 'a \<Rightarrow> 'a \<times> 'a" where
  "AtomicExchange val t1 = (val, t1)"

definition post_increment :: "u64 \<Rightarrow> u64 \<times> u64" where
  "post_increment val = (val, val + 1)"

definition post_decrement :: "u64 \<Rightarrow> u64 \<times> u64" where
  "post_decrement val = (val, val - 1)"

text \<open>The prefix operators return \<open>int\<close>: the new value is truncated to 32 bits.\<close>

definition pre_increment :: "u64 \<Rightarrow> u32 \<times> u64" where
  "pre_increment val = (ucast (val + 1), val + 1)"

definition pre_decrement :: "u64 \<Rightarrow> u32 \<times> u64" where
  "pre_decrement val = (ucast (val - 1), val - 1)"

definition atomic_add :: "u64 \<Rightarrow> u64 \<Rightarrow> u64 \<times> u64" where
  "atomic_add val t1 = (val, val + t1)"

definition CompareExchange :: "'a \<Rightarrow> 'a \<Rightarrow> 'a \<Rightarrow> 'a \<times> 'a" where
  "CompareExchange val set_value comparend = (val, if val = comparend then set_value else val)"

section \<open>Bit operations\<close>

definition AtomicBitTestAndSet :: "u64 \<Rightarrow> nat \<Rightarrow> u64 \<times> u64" where
  "AtomicBitTestAndSet val offset =
     (let offset_t = push_bit offset 1
      in (signed_drop_bit offset (val AND offset_t), val OR offset_t))"

definition AtomicBitTestAndReset :: "u64 \<Rightarrow> nat \<Rightarrow> u64 \<times> u64" where
  "AtomicBitTestAndReset val offset =
     (let offset_t = push_bit offset 1
      in (signed_drop_bit offset (val AND offset_t), val AND NOT offset_t))"

text \<open>\<open>lock btcl\<close> toggles the bit and leaves its old value in the carry flag, which \<open>sbbl\<close>
  spreads over \<open>old\<close>; the function returns \<open>old != 0\<close>.\<close>

definition AtomicBitTestAndComplement :: "u64 \<Rightarrow> nat \<Rightarrow> u64 \<times> u64" where
  "AtomicBitTestAndComplement val offset =
     (if bit val offset then 1 else 0, val XOR push_bit offset 1)"

definition BitTest :: "u64 \<Rightarrow> nat \<Rightarrow> u64" where
  "BitTest val offset = (if 0 <s (val AND push_bit offset 1) then 1 else 0)"

section \<open>Laws\<close>

lemmas atomic_defs = AtomicExchange_def post_increment_def post_decrement_def pre_increment_def
  pre_decrement_def atomic_add_def CompareExchange_def

lemma test_and_set_state [simp]:
  "bit (snd (AtomicBitTestAndSet val n)) m \<longleftrightarrow> bit val m \<or> m = n \<and> n < 64"
  by (auto simp: AtomicBitTestAndSet_def Let_def bit_or_iff bit_two_power)

lemma test_and_reset_state [simp]:
  "bit (snd (AtomicBitTestAndReset val n)) m \<longleftrightarrow> bit val m \<and> m \<noteq> n"
  by (auto simp: AtomicBitTestAndReset_def Let_def bit_simps bit_two_power dest: bit_imp_le_length)

lemma test_and_complement_state [simp]:
  "bit (snd (AtomicBitTestAndComplement val n)) m \<longleftrightarrow> (bit val m \<noteq> (m = n \<and> n < 64))"
  by (auto simp: AtomicBitTestAndComplement_def bit_simps bit_two_power)

text \<open>The value handed back: the old bit below the sign bit, and minus the old bit at it.\<close>

lemma test_and_set_result:
  "n < 64 \<Longrightarrow> fst (AtomicBitTestAndSet val n) =
     (if bit val n then if n = 63 then - 1 else 1 else 0)"
  by (auto simp: AtomicBitTestAndSet_def Let_def and_two_power signed_drop_two_power)

lemma test_and_reset_result:
  "n < 64 \<Longrightarrow> fst (AtomicBitTestAndReset val n) =
     (if bit val n then if n = 63 then - 1 else 1 else 0)"
  by (auto simp: AtomicBitTestAndReset_def Let_def and_two_power signed_drop_two_power)

lemma test_and_set_zero_iff [simp]:
  "n < 64 \<Longrightarrow> fst (AtomicBitTestAndSet val n) = 0 \<longleftrightarrow> \<not> bit val n"
  by (simp add: test_and_set_result)

lemma test_and_reset_zero_iff [simp]:
  "n < 64 \<Longrightarrow> fst (AtomicBitTestAndReset val n) = 0 \<longleftrightarrow> \<not> bit val n"
  by (simp add: test_and_reset_result)

lemma BitTest_eq: "BitTest val n = (if bit val n \<and> n < 63 then 1 else 0)"
  by (auto simp: BitTest_def and_two_power sgreater_two_power)

end
