(* ===== verification/Atomic_Bitmap.thy ===== *)
theory Atomic_Bitmap
  imports Atomic_T
begin

unbundle bit_operations_syntax

text \<open>
  \<open>common/Atomic_Bitmap.h\<close>: a bitmap over an array of \<open>atomic_t<long>\<close>.  The array of words is
  a list; \<open>wa_bit\<close> reads the bit at a bit position of such an array and \<open>wa_update\<close> applies one
  of the atomic bit operations to the word that holds it (the acknowledgement collector uses the
  same array form).  The sizes the constructor is given are taken as natural numbers.  A
  position argument is an \<open>int\<close>: below zero the code indexes outside the array, which is
  \<open>None\<close>.
\<close>

section \<open>Arrays of words\<close>

definition wa_bit :: "u64 list \<Rightarrow> nat \<Rightarrow> bool" where
  "wa_bit ws i \<longleftrightarrow> bit (ws ! (i div 64)) (i mod 64)"

definition wa_update :: "(u64 \<Rightarrow> nat \<Rightarrow> u64 \<times> u64) \<Rightarrow> u64 list \<Rightarrow> nat \<Rightarrow> u64 \<times> u64 list" where
  "wa_update f ws i = (let (r, v) = f (ws ! (i div 64)) (i mod 64) in (r, ws[i div 64 := v]))"

section \<open>The bitmap\<close>

record Atomic_Bitmap =
  bit_num :: nat
  lsize :: nat
  pbits :: "u64 list"

abbreviation (input) LONG_HAS_BIT :: nat where
  "LONG_HAS_BIT \<equiv> 64"

definition bitmap_new :: "nat \<Rightarrow> Atomic_Bitmap" where
  "bitmap_new bitNum =
     (let n = bitNum div LONG_HAS_BIT + (if bitNum - bitNum div LONG_HAS_BIT > 0 then 1 else 0)
      in \<lparr>bit_num = bitNum, lsize = n, pbits = replicate n 0\<rparr>)"

definition bitmap_copy :: "Atomic_Bitmap \<Rightarrow> Atomic_Bitmap" where
  "bitmap_copy bm = \<lparr>bit_num = bit_num bm, lsize = lsize bm, pbits = take (lsize bm) (pbits bm)\<rparr>"

text \<open>The three updating members share their shape: a position at or beyond the size returns
  \<open>-1\<close>, otherwise the word's atomic operation runs and its \<open>long\<close> result is returned as
  \<open>int\<close>.\<close>

definition bitmap_op ::
  "(u64 \<Rightarrow> nat \<Rightarrow> u64 \<times> u64) \<Rightarrow> Atomic_Bitmap \<Rightarrow> int \<Rightarrow> (int \<times> Atomic_Bitmap) option" where
  "bitmap_op f bm pos =
     (if int (bit_num bm) \<le> pos then Some (- 1, bm)
      else if pos < 0 then None
      else let (r, ws) = wa_update f (pbits bm) (nat pos) in Some (sint r, bm\<lparr>pbits := ws\<rparr>))"

definition bitmap_set :: "Atomic_Bitmap \<Rightarrow> int \<Rightarrow> (int \<times> Atomic_Bitmap) option" where
  "bitmap_set bm pos = bitmap_op AtomicBitTestAndSet bm pos"

definition bitmap_reset :: "Atomic_Bitmap \<Rightarrow> int \<Rightarrow> (int \<times> Atomic_Bitmap) option" where
  "bitmap_reset bm pos = bitmap_op AtomicBitTestAndReset bm pos"

definition bitmap_flip :: "Atomic_Bitmap \<Rightarrow> int \<Rightarrow> (int \<times> Atomic_Bitmap) option" where
  "bitmap_flip bm pos = bitmap_op AtomicBitTestAndComplement bm pos"

definition bitmap_clear :: "Atomic_Bitmap \<Rightarrow> bool \<Rightarrow> Atomic_Bitmap" where
  "bitmap_clear bm tagClear =
     (if tagClear then bm\<lparr>pbits := replicate (lsize bm) (- 1)\<rparr>
      else bm\<lparr>pbits := replicate (lsize bm) 0\<rparr>)"

definition bitmap_test :: "Atomic_Bitmap \<Rightarrow> int \<Rightarrow> bool option" where
  "bitmap_test bm pos =
     (if int (bit_num bm) \<le> pos then Some False
      else if pos < 0 then None
      else Some (0 <s (pbits bm ! (nat pos div 64) AND push_bit (nat pos mod 64) 1)))"

definition get_bit_size :: "Atomic_Bitmap \<Rightarrow> nat" where
  "get_bit_size bm = bit_num bm"

definition get_char_size :: "Atomic_Bitmap \<Rightarrow> nat" where
  "get_char_size bm = lsize bm * 8"

section \<open>Searching\<close>

text \<open>
  The search loops test \<open>_pbits[eleIndex]\<close> before they compare \<open>eleIndex\<close> with the end of the
  array, so they read one word outside it: \<open>junk\<close> stands for whatever is stored there.
\<close>

definition word_at :: "u64 \<Rightarrow> Atomic_Bitmap \<Rightarrow> int \<Rightarrow> u64" where
  "word_at junk bm ele = (if 0 \<le> ele \<and> ele < int (lsize bm) then pbits bm ! nat ele else junk)"

text \<open>The x86 scans \<open>bsf\<close> and \<open>bsr\<close>: lowest and highest set bit of a nonzero word.\<close>

definition bsf :: "u64 \<Rightarrow> nat" where
  "bsf v = length (takeWhile (\<lambda>n. \<not> bit v n) [0..<64])"

definition bsr :: "u64 \<Rightarrow> nat" where
  "bsr v = 63 - length (takeWhile (\<lambda>n. \<not> bit v n) (rev [0..<64]))"

text \<open>The inner \<open>while\<close> skips words equal to \<open>w\<close> (all clear or all set).\<close>

function skip_words :: "u64 \<Rightarrow> Atomic_Bitmap \<Rightarrow> u64 \<Rightarrow> int \<Rightarrow> nat \<Rightarrow> int \<times> nat" where
  "skip_words junk bm w ele bi =
     (if word_at junk bm ele = w \<and> ele < int (lsize bm) then skip_words junk bm w (ele + 1) 0
      else (ele, bi))"
  by pat_completeness auto
termination
  by (relation "measure (\<lambda>(junk, bm, w, ele, bi). nat (int (lsize bm) - ele))") auto

function skip_words_R :: "u64 \<Rightarrow> Atomic_Bitmap \<Rightarrow> u64 \<Rightarrow> int \<Rightarrow> nat \<Rightarrow> int \<times> nat" where
  "skip_words_R junk bm w ele bi =
     (if word_at junk bm ele = w \<and> 0 \<le> ele then skip_words_R junk bm w (ele - 1) 63
      else (ele, bi))"
  by pat_completeness auto
termination
  by (relation "measure (\<lambda>(junk, bm, w, ele, bi). nat (ele + 1))") auto

declare skip_words.simps [simp del] skip_words_R.simps [simp del]

lemma skip_words_ge: "ele \<le> fst (skip_words junk bm w ele bi)"
  by (induction junk bm w ele bi rule: skip_words.induct)
     (subst skip_words.simps, use order_trans in fastforce)

lemma skip_words_R_le: "fst (skip_words_R junk bm w ele bi) \<le> ele"
  by (induction junk bm w ele bi rule: skip_words_R.induct)
     (subst skip_words_R.simps, use order_trans in fastforce)

text \<open>The outer loops.  Both start inside the array; an index beyond the one word past it is
  outside every run and gives \<open>None\<close>.\<close>

function find_set_loop :: "u64 \<Rightarrow> Atomic_Bitmap \<Rightarrow> int \<Rightarrow> nat \<Rightarrow> int option" where
  "find_set_loop junk bm ele bi =
     (let (e, b) = skip_words junk bm 0 ele bi in
      if e = int (lsize bm) then Some (- 1)
      else if e > int (lsize bm) then None
      else let val = word_at junk bm e AND push_bit b (- 1)
           in if val = 0 then find_set_loop junk bm (e + 1) 0
              else Some (e * 64 + int (bsf val)))"
  by pat_completeness auto
termination
proof (relation "measure (\<lambda>(junk, bm, ele, bi). nat (int (lsize bm) - ele))", goal_cases)
  case (2 junk bm ele bi x e b val)
  then have "fst (skip_words junk bm (0) ele bi) = e" by (metis fst_conv)
  with 2 show ?case using skip_words_ge [of ele junk bm 0 bi] by auto
qed simp

function find_unset_loop :: "u64 \<Rightarrow> Atomic_Bitmap \<Rightarrow> int \<Rightarrow> nat \<Rightarrow> int option" where
  "find_unset_loop junk bm ele bi =
     (let (e, b) = skip_words junk bm (- 1) ele bi in
      if e = int (lsize bm) then Some (- 1)
      else if e > int (lsize bm) then None
      else let val = NOT (word_at junk bm e OR NOT (push_bit b (- 1)))
           in if val = 0 then find_unset_loop junk bm (e + 1) 0
              else Some (e * 64 + int (bsf val)))"
  by pat_completeness auto
termination
proof (relation "measure (\<lambda>(junk, bm, ele, bi). nat (int (lsize bm) - ele))", goal_cases)
  case (2 junk bm ele bi x e b val)
  then have "fst (skip_words junk bm (- 1) ele bi) = e" by (metis fst_conv)
  with 2 show ?case using skip_words_ge [of ele junk bm "- 1" bi] by auto
qed simp

function find_set_loop_R :: "u64 \<Rightarrow> Atomic_Bitmap \<Rightarrow> int \<Rightarrow> nat \<Rightarrow> int option" where
  "find_set_loop_R junk bm ele bi =
     (let (e, b) = skip_words_R junk bm 0 ele bi in
      if e = - 1 then Some (- 1)
      else if e < - 1 then None
      else let val = word_at junk bm e AND drop_bit (64 - b - 1) (- 1)
           in if val = 0 then find_set_loop_R junk bm (e - 1) 63
              else Some (e * 64 + int (bsr val)))"
  by pat_completeness auto
termination
proof (relation "measure (\<lambda>(junk, bm, ele, bi). nat (ele + 1))", goal_cases)
  case (2 junk bm ele bi x e b val)
  then have "fst (skip_words_R junk bm (0) ele bi) = e" by (metis fst_conv)
  with 2 show ?case using skip_words_R_le [of junk bm 0 ele bi] by auto
qed simp

function find_unset_loop_R :: "u64 \<Rightarrow> Atomic_Bitmap \<Rightarrow> int \<Rightarrow> nat \<Rightarrow> int option" where
  "find_unset_loop_R junk bm ele bi =
     (let (e, b) = skip_words_R junk bm (- 1) ele bi in
      if e = - 1 then Some (- 1)
      else if e < - 1 then None
      else let val = NOT (word_at junk bm e OR NOT (drop_bit (64 - b - 1) (- 1)))
           in if val = 0 then find_unset_loop_R junk bm (e - 1) 63
              else Some (e * 64 + int (bsr val)))"
  by pat_completeness auto
termination
proof (relation "measure (\<lambda>(junk, bm, ele, bi). nat (ele + 1))", goal_cases)
  case (2 junk bm ele bi x e b val)
  then have "fst (skip_words_R junk bm (- 1) ele bi) = e" by (metis fst_conv)
  with 2 show ?case using skip_words_R_le [of junk bm "- 1" ele bi] by auto
qed simp

declare find_set_loop.simps [simp del] find_unset_loop.simps [simp del]
  find_set_loop_R.simps [simp del] find_unset_loop_R.simps [simp del]

text \<open>The four searches start at the word and the bit of \<open>start_pos\<close>.\<close>

definition find_from ::
  "(u64 \<Rightarrow> Atomic_Bitmap \<Rightarrow> int \<Rightarrow> nat \<Rightarrow> int option) \<Rightarrow> u64 \<Rightarrow> Atomic_Bitmap \<Rightarrow> int \<Rightarrow> int option" where
  "find_from loop junk bm start_pos =
     (if int (bit_num bm) \<le> start_pos then Some (- 1)
      else if start_pos < 0 then None
      else loop junk bm (start_pos div 64) (nat start_pos mod 64))"

definition findFirstSetBit :: "u64 \<Rightarrow> Atomic_Bitmap \<Rightarrow> int \<Rightarrow> int option" where
  "findFirstSetBit junk bm start_pos = find_from find_set_loop junk bm start_pos"

definition findFirstUnsetBit :: "u64 \<Rightarrow> Atomic_Bitmap \<Rightarrow> int \<Rightarrow> int option" where
  "findFirstUnsetBit junk bm start_pos = find_from find_unset_loop junk bm start_pos"

definition findFirstSetBit_R :: "u64 \<Rightarrow> Atomic_Bitmap \<Rightarrow> int \<Rightarrow> int option" where
  "findFirstSetBit_R junk bm start_pos = find_from find_set_loop_R junk bm start_pos"

definition findFirstUnsetBit_R :: "u64 \<Rightarrow> Atomic_Bitmap \<Rightarrow> int \<Rightarrow> int option" where
  "findFirstUnsetBit_R junk bm start_pos = find_from find_unset_loop_R junk bm start_pos"


section \<open>Laws of word arrays\<close>

lemma wa_update_length [simp]: "length (snd (wa_update f ws i)) = length ws"
  by (simp add: wa_update_def case_prod_beta)

lemma wa_bit_update:
  assumes "i < 64 * length ws"
  shows "wa_bit (snd (wa_update f ws i)) j =
    (if j div 64 = i div 64 then bit (snd (f (ws ! (i div 64)) (i mod 64))) (j mod 64)
     else wa_bit ws j)"
  using assms by (auto simp: wa_bit_def wa_update_def case_prod_beta nth_list_update)

lemma same_word_bit: "(j::nat) div 64 = i div 64 \<Longrightarrow> j mod 64 = i mod 64 \<longleftrightarrow> j = i"
  by (metis div_mult_mod_eq)

lemma wa_bit_set:
  "i < 64 * length ws \<Longrightarrow> wa_bit (snd (wa_update AtomicBitTestAndSet ws i)) j \<longleftrightarrow> wa_bit ws j \<or> j = i"
  by (simp add: wa_bit_update, simp add: wa_bit_def) (auto simp: same_word_bit)

lemma wa_bit_reset:
  "i < 64 * length ws \<Longrightarrow> wa_bit (snd (wa_update AtomicBitTestAndReset ws i)) j \<longleftrightarrow> wa_bit ws j \<and> j \<noteq> i"
  by (simp add: wa_bit_update, simp add: wa_bit_def) (auto simp: same_word_bit)

lemma wa_bit_flip:
  "i < 64 * length ws \<Longrightarrow>
   wa_bit (snd (wa_update AtomicBitTestAndComplement ws i)) j \<longleftrightarrow> (wa_bit ws j \<noteq> (j = i))"
  by (simp add: wa_bit_update, simp add: wa_bit_def) (auto simp: same_word_bit)

lemma wa_set_zero_iff: "fst (wa_update AtomicBitTestAndSet ws i) = 0 \<longleftrightarrow> \<not> wa_bit ws i"
  by (simp add: wa_update_def case_prod_beta wa_bit_def)

lemma wa_reset_zero_iff: "fst (wa_update AtomicBitTestAndReset ws i) = 0 \<longleftrightarrow> \<not> wa_bit ws i"
  by (simp add: wa_update_def case_prod_beta wa_bit_def)

text \<open>The contract clients of a bit array rely on.\<close>

locale bit_array =
  fixes bits :: "'s \<Rightarrow> nat \<Rightarrow> bool"
    and cap :: "'s \<Rightarrow> nat"
    and setb :: "'s \<Rightarrow> nat \<Rightarrow> 's"
    and resetb :: "'s \<Rightarrow> nat \<Rightarrow> 's"
  assumes bits_set: "i < cap s \<Longrightarrow> bits (setb s i) j \<longleftrightarrow> bits s j \<or> j = i"
    and bits_reset: "i < cap s \<Longrightarrow> bits (resetb s i) j \<longleftrightarrow> bits s j \<and> j \<noteq> i"
    and cap_set: "cap (setb s i) = cap s"
    and cap_reset: "cap (resetb s i) = cap s"
begin

lemma bits_set_many:
  "\<forall>i \<in> set is. i < cap s \<Longrightarrow> bits (fold (\<lambda>i s. setb s i) is s) j \<longleftrightarrow> bits s j \<or> j \<in> set is"
  by (induction "is" arbitrary: s) (auto simp: bits_set cap_set)

lemma bits_reset_many:
  "\<forall>i \<in> set is. i < cap s \<Longrightarrow> bits (fold (\<lambda>i s. resetb s i) is s) j \<longleftrightarrow> bits s j \<and> j \<notin> set is"
  by (induction "is" arbitrary: s) (auto simp: bits_reset cap_reset)

lemma cap_set_many: "cap (fold (\<lambda>i s. setb s i) is s) = cap s"
  by (induction "is" arbitrary: s) (auto simp: cap_set)

end

interpretation wa: bit_array wa_bit "\<lambda>ws. 64 * length ws"
  "\<lambda>ws i. snd (wa_update AtomicBitTestAndSet ws i)"
  "\<lambda>ws i. snd (wa_update AtomicBitTestAndReset ws i)"
  by unfold_locales (auto simp: wa_bit_set wa_bit_reset)

section \<open>Searching words\<close>

lemma bsf_props:
  assumes "v \<noteq> 0"
  shows "bsf v < 64" and "bit v (bsf v)" and "k < bsf v \<Longrightarrow> \<not> bit v k"
proof -
  let ?t = "takeWhile (\<lambda>n. \<not> bit v n) [0..<64]"
  from assms obtain n where n: "bit v n" "n < 64"
    by (auto simp: bit_eq_iff [of v 0] dest: bit_imp_le_length)
  have "length ?t \<noteq> length [0..<64::nat]"
  proof
    assume "length ?t = length [0..<64::nat]"
    then have "?t = [0..<64]" by (metis takeWhile_eq_take take_all le_refl)
    then have "\<forall>m \<in> set [0..<64]. \<not> bit v m" by (metis takeWhile_eq_all_conv)
    with n show False by auto
  qed
  then have lt: "length ?t < length [0..<64::nat]"
    using length_takeWhile_le [of "\<lambda>n. \<not> bit v n" "[0..<64]"] by linarith
  then show l: "bsf v < 64" by (simp add: bsf_def)
  from nth_length_takeWhile [OF lt] show "bit v (bsf v)"
    using l by (simp add: bsf_def)
  show "\<not> bit v k" if "k < bsf v"
  proof -
    from that l have "?t ! k = k" by (simp add: takeWhile_nth bsf_def)
    moreover have "?t ! k \<in> set ?t" using that by (simp add: bsf_def)
    ultimately show ?thesis by (metis set_takeWhileD)
  qed
qed

lemma bit_high_mask: "bit (NOT (mask b) :: u64) k \<longleftrightarrow> b \<le> k \<and> k < 64"
  by (auto simp: bit_not_iff bit_mask_iff)

lemma find_word_forward:
  assumes "b < 64"
  shows "find (bit v) [b..<64] =
    (if v AND NOT (mask b) = (0::u64) then None else Some (bsf (v AND NOT (mask b))))"
proof (cases "v AND NOT (mask b) = 0")
  case True
  then have "\<not> bit v k" if "b \<le> k" "k < 64" for k
    using that bit_high_mask [of b k] by (metis bit_0_eq bit_and_iff bot_apply bot_bool_def)
  with True show ?thesis by (simp add: find_upt_None)
next
  case False
  note p = bsf_props [OF False, unfolded bit_and_iff bit_high_mask]
  have "find (bit v) [b..<64] = Some (bsf (v AND NOT (mask b)))"
    unfolding find_upt_Some using p by auto
  with False show ?thesis by simp
qed

lemma bsr_props:
  assumes "v \<noteq> 0"
  shows "bsr v < 64" and "bit v (bsr v)" and "bsr v < k \<Longrightarrow> \<not> bit v k"
proof -
  let ?L = "rev [0..<64::nat]"
  let ?t = "takeWhile (\<lambda>n. \<not> bit v n) ?L"
  from assms obtain n where n: "bit v n" "n < 64"
    by (auto simp: bit_eq_iff [of v 0] dest: bit_imp_le_length)
  have nth: "?L ! m = 63 - m" if "m < 64" for m
    using that by (simp add: rev_nth)
  have "length ?t \<noteq> length ?L"
  proof
    assume "length ?t = length ?L"
    then have "?t = ?L" by (metis takeWhile_eq_take take_all le_refl)
    then have "\<forall>m \<in> set ?L. \<not> bit v m" by (metis takeWhile_eq_all_conv)
    with n show False by auto
  qed
  then have lt: "length ?t < length ?L"
    using length_takeWhile_le [of "\<lambda>n. \<not> bit v n" ?L] by linarith
  then have lt64: "length ?t < 64" by simp
  show "bsr v < 64" by (simp add: bsr_def)
  from nth_length_takeWhile [OF lt] show "bit v (bsr v)"
    unfolding nth [OF lt64] by (simp add: bsr_def)
  show "\<not> bit v k" if "bsr v < k"
  proof (cases "k < 64")
    case True
    with that lt64 have k: "63 - k < length ?t" by (auto simp: bsr_def)
    then have "?t ! (63 - k) = k" using True by (simp add: takeWhile_nth nth)
    moreover have "?t ! (63 - k) \<in> set ?t" using k by (rule nth_mem)
    ultimately show ?thesis by (metis set_takeWhileD)
  qed (auto dest: bit_imp_le_length)
qed

lemma find_word_backward:
  assumes "b < 64"
  shows "find (bit v) (rev [0..<Suc b]) =
    (if v AND mask (Suc b) = (0::u64) then None else Some (bsr (v AND mask (Suc b))))"
proof (cases "v AND mask (Suc b) = 0")
  case True
  then have "\<not> bit v k" if "k < Suc b" for k
    using that bit_imp_le_length [of v k]
    by (auto simp: bit_eq_iff bit_and_iff bit_mask_iff)
  with True show ?thesis by (simp add: find_rev_upt_None del: upt_Suc)
next
  case False
  note p = bsr_props [OF False, unfolded bit_and_iff bit_mask_iff]
  have "\<not> bit v k" if "bsr (v AND mask (Suc b)) < k" "k < Suc b" for k
    using p(3) [OF that(1)] that(2) assms by auto
  then have "find (bit v) (rev [0..<Suc b]) = Some (bsr (v AND mask (Suc b)))"
    unfolding find_rev_upt_Some using p(2) by auto
  with False show ?thesis by simp
qed

section \<open>The searches against a linear scan\<close>

definition bitmap_wf :: "Atomic_Bitmap \<Rightarrow> bool" where
  "bitmap_wf bm \<longleftrightarrow> length (pbits bm) = lsize bm \<and> bit_num bm \<le> 64 * lsize bm"

definition scan_result :: "nat option \<Rightarrow> int" where
  "scan_result r = (case r of None \<Rightarrow> - 1 | Some x \<Rightarrow> int x)"

lemma wa_bit_word: "k < 64 \<Longrightarrow> wa_bit ws (64 * e + k) \<longleftrightarrow> bit (ws ! e) k"
  by (simp add: wa_bit_def)

lemma scan_word:
  assumes "e < n" "b < 64"
  shows "find (wa_bit ws) [64 * e + b..<64 * n] =
    (case find (bit (ws ! e)) [b..<64] of
       None \<Rightarrow> find (wa_bit ws) [64 * Suc e + 0..<64 * n] | Some k \<Rightarrow> Some (64 * e + k))"
proof -
  have "find (wa_bit ws) [64 * e + b..<64 * e + 64] = map_option ((+) (64 * e)) (find (bit (ws ! e)) [b..<64])"
    unfolding find_shift by (intro arg_cong [where f = "map_option _"] find_cong_set) (simp add: wa_bit_word)
  then show ?thesis
    using assms find_upt_split [of "64 * e + b" "64 * e + 64" "64 * n" "wa_bit ws"]
    by (auto simp: add.commute split: option.splits)
qed

lemma scan_word_R:
  assumes "b < 64"
  shows "find (wa_bit ws) (rev [0..<64 * e + Suc b]) =
    (case find (bit (ws ! e)) (rev [0..<Suc b]) of
       None \<Rightarrow> find (wa_bit ws) (rev [0..<64 * e]) | Some k \<Rightarrow> Some (64 * e + k))"
proof -
  have "rev [0..<64 * e + Suc b] = map ((+) (64 * e)) (rev [0..<Suc b]) @ rev [0..<64 * e]"
    by (rule nth_equalityI) (auto simp: nth_append rev_nth simp del: upt_Suc)
  moreover have "find (\<lambda>k. wa_bit ws (64 * e + k)) (rev [0..<Suc b]) = find (bit (ws ! e)) (rev [0..<Suc b])"
    using assms by (intro find_cong_set) (auto simp: wa_bit_word simp del: upt_Suc)
  ultimately show ?thesis
    by (simp only: find_append find_map) (auto split: option.splits)
qed

lemma find_set_loop_scan:
  assumes "bitmap_wf bm" "0 \<le> ele" "ele \<le> int (lsize bm)" "bi < 64"
  shows "find_set_loop junk bm ele bi =
    Some (scan_result (find (wa_bit (pbits bm)) [64 * nat ele + bi..<64 * lsize bm]))"
  using assms
proof (induction "nat (int (lsize bm) - ele)" arbitrary: ele bi rule: less_induct)
  case less
  show ?case
  proof (cases "ele = int (lsize bm)")
    case True
    then show ?thesis
      by (subst find_set_loop.simps, subst skip_words.simps) (simp add: scan_result_def)
  next
    case False
    let ?e = "nat ele"
    from False less.prems have e: "?e < lsize bm" by auto
    note IH = less.hyps [of "ele + 1" 0]
    have next_w: "find_set_loop junk bm (ele + 1) 0 =
      Some (scan_result (find (wa_bit (pbits bm)) [64 * Suc ?e + 0..<64 * lsize bm]))"
      using IH less.prems e by (simp add: nat_add_distrib)
    have w: "word_at junk bm ele = pbits bm ! ?e"
      using e less.prems by (auto simp: word_at_def)
    note sw = scan_word [OF e less.prems(4), of "pbits bm"]
    show ?thesis
    proof (cases "pbits bm ! ?e = 0")
      case True
      then have "find_set_loop junk bm ele bi = find_set_loop junk bm (ele + 1) 0"
        using e less.prems False
        by (subst (1 2) find_set_loop.simps, subst skip_words.simps) (simp add: w)
      moreover have "find (bit (0::u64)) [bi..<64] = None" by (simp add: find_None_iff)
      ultimately show ?thesis using next_w sw True by simp
    next
      case wnz: False
      then have "skip_words junk bm 0 ele bi = (ele, bi)"
        by (subst skip_words.simps) (simp add: w)
      then show ?thesis
        using next_w sw e less.prems find_word_forward [OF less.prems(4), of "pbits bm ! ?e"]
        by (subst find_set_loop.simps) (auto simp: w scan_result_def Let_def)
    qed
  qed
qed

lemma find_set_loop_R_scan:
  assumes "bitmap_wf bm" "- 1 \<le> ele" "ele < int (lsize bm)" "bi < 64"
  shows "find_set_loop_R junk bm ele bi =
    Some (scan_result (if ele = - 1 then None else find (wa_bit (pbits bm)) (rev [0..<64 * nat ele + Suc bi])))"
  using assms
proof (induction "nat (ele + 1)" arbitrary: ele bi rule: less_induct)
  case less
  show ?case
  proof (cases "ele = - 1")
    case True
    then show ?thesis
      by (subst find_set_loop_R.simps, subst skip_words_R.simps) (simp add: scan_result_def)
  next
    case False
    let ?e = "nat ele"
    from False less.prems have e: "?e < lsize bm" "0 \<le> ele" by auto
    have idx: "64 * nat (ele - 1) + Suc 63 = 64 * ?e" if "1 \<le> ele"
      using that by (simp add: nat_diff_distrib)
    have next_w: "find_set_loop_R junk bm (ele - 1) 63 =
      Some (scan_result (find (wa_bit (pbits bm)) (rev [0..<64 * ?e])))"
      using less.hyps [of "ele - 1" 63] less.prems e idx by (cases "ele = 0") (auto simp del: upt_Suc)
    have w: "word_at junk bm ele = pbits bm ! ?e"
      using e less.prems by (auto simp: word_at_def)
    note sw = scan_word_R [OF less.prems(4), of "pbits bm" ?e]
    show ?thesis
    proof (cases "pbits bm ! ?e = 0")
      case True
      then have "find_set_loop_R junk bm ele bi = find_set_loop_R junk bm (ele - 1) 63"
        using e less.prems
        by (subst (1 2) find_set_loop_R.simps, subst skip_words_R.simps) (simp add: w)
      moreover have "find (bit (0::u64)) (rev [0..<Suc bi]) = None" by (simp add: find_None_iff del: upt_Suc)
      ultimately show ?thesis using next_w sw True False by (simp del: upt_Suc)
    next
      case wnz: False
      then have "skip_words_R junk bm 0 ele bi = (ele, bi)"
        by (subst skip_words_R.simps) (simp add: w)
      moreover have "64 - (64 - bi - 1) = Suc bi" using less.prems by simp
      ultimately show ?thesis
        using next_w sw e less.prems False find_word_backward [OF less.prems(4), of "pbits bm ! ?e"]
        by (subst find_set_loop_R.simps) (auto simp: w scan_result_def Let_def simp del: upt_Suc)
    qed
  qed
qed


text \<open>A search for a clear bit is the search for a set bit in the complemented array.\<close>

definition complemented :: "Atomic_Bitmap \<Rightarrow> Atomic_Bitmap" where
  "complemented bm = bm\<lparr>pbits := map NOT (pbits bm)\<rparr>"

lemma complemented_fields [simp]:
  "lsize (complemented bm) = lsize bm" "bit_num (complemented bm) = bit_num bm"
  "pbits (complemented bm) = map NOT (pbits bm)" "bitmap_wf (complemented bm) = bitmap_wf bm"
  by (simp_all add: complemented_def bitmap_wf_def)

lemma word_at_complemented:
  "bitmap_wf bm \<Longrightarrow> word_at (NOT junk) (complemented bm) ele = NOT (word_at junk bm ele)"
  by (auto simp: word_at_def bitmap_wf_def nat_less_iff)

lemma NOT_eq_0_iff: "NOT (w :: u64) = 0 \<longleftrightarrow> w = - 1"
  by (metis bit.compl_zero bit.double_compl)

lemma skip_words_complemented:
  "bitmap_wf bm \<Longrightarrow>
   skip_words junk bm (- 1) ele bi = skip_words (NOT junk) (complemented bm) 0 ele bi"
proof (induction junk bm "- 1 :: u64" ele bi rule: skip_words.induct)
  case (1 junk bm ele bi)
  then show ?case
    by (subst (1 2) skip_words.simps) (simp add: word_at_complemented NOT_eq_0_iff)
qed

lemma skip_words_R_complemented:
  "bitmap_wf bm \<Longrightarrow>
   skip_words_R junk bm (- 1) ele bi = skip_words_R (NOT junk) (complemented bm) 0 ele bi"
proof (induction junk bm "- 1 :: u64" ele bi rule: skip_words_R.induct)
  case (1 junk bm ele bi)
  then show ?case
    by (subst (1 2) skip_words_R.simps) (simp add: word_at_complemented NOT_eq_0_iff)
qed

lemma find_unset_loop_complemented:
  "bitmap_wf bm \<Longrightarrow>
   find_unset_loop junk bm ele bi = find_set_loop (NOT junk) (complemented bm) ele bi"
proof (induction junk bm ele bi rule: find_unset_loop.induct)
  case (1 junk bm ele bi)
  obtain e b where eb: "skip_words junk bm (- 1) ele bi = (e, b)" by fastforce
  note IH = "1.IH" [OF eb [symmetric] refl _ _ refl _ "1.prems"]
  show ?case
    using eb IH skip_words_complemented [OF "1.prems", of junk ele bi]
    by (subst find_unset_loop.simps, subst find_set_loop.simps)
       (simp add: Let_def word_at_complemented [OF "1.prems"] bit.de_Morgan_disj)
qed

lemma find_unset_loop_R_complemented:
  "bitmap_wf bm \<Longrightarrow>
   find_unset_loop_R junk bm ele bi = find_set_loop_R (NOT junk) (complemented bm) ele bi"
proof (induction junk bm ele bi rule: find_unset_loop_R.induct)
  case (1 junk bm ele bi)
  obtain e b where eb: "skip_words_R junk bm (- 1) ele bi = (e, b)" by fastforce
  note IH = "1.IH" [OF eb [symmetric] refl _ _ refl _ "1.prems"]
  show ?case
    using eb IH skip_words_R_complemented [OF "1.prems", of junk ele bi]
    by (subst find_unset_loop_R.simps, subst find_set_loop_R.simps)
       (simp add: Let_def word_at_complemented [OF "1.prems"] bit.de_Morgan_disj)
qed

lemma wa_bit_complement:
  "i < 64 * length ws \<Longrightarrow> wa_bit (map NOT ws) i \<longleftrightarrow> \<not> wa_bit ws i"
  by (simp add: wa_bit_def bit_not_iff)

lemma start_word:
  assumes "bitmap_wf bm" "0 \<le> start" "start < int (bit_num bm)"
  shows "64 * nat (start div 64) + nat start mod 64 = nat start"
    and "start div 64 < int (lsize bm)" and "0 \<le> start div 64"
  using assms by (auto simp: nat_div_distrib bitmap_wf_def)

lemmas search_defs = findFirstSetBit_def findFirstUnsetBit_def findFirstSetBit_R_def
  findFirstUnsetBit_R_def find_from_def

lemma bitmap_searches_scan:
  assumes "bitmap_wf bm" "0 \<le> start" "start < int (bit_num bm)"
  shows "findFirstSetBit junk bm start =
      Some (scan_result (find (wa_bit (pbits bm)) [nat start..<64 * lsize bm]))"
    and "findFirstUnsetBit junk bm start =
      Some (scan_result (find (\<lambda>i. \<not> wa_bit (pbits bm) i) [nat start..<64 * lsize bm]))"
    and "findFirstSetBit_R junk bm start =
      Some (scan_result (find (wa_bit (pbits bm)) (rev [0..<Suc (nat start)])))"
    and "findFirstUnsetBit_R junk bm start =
      Some (scan_result (find (\<lambda>i. \<not> wa_bit (pbits bm) i) (rev [0..<Suc (nat start)])))"
proof -
  note st = start_word [OF assms]
  have st': "64 * nat (start div 64) + Suc (nat start mod 64) = Suc (nat start)" using st by simp
  have len: "length (pbits bm) = lsize bm" using assms by (simp add: bitmap_wf_def)
  have F: "find (wa_bit (map NOT (pbits bm))) xs = find (\<lambda>i. \<not> wa_bit (pbits bm) i) xs"
    if "set xs \<subseteq> {..<64 * lsize bm}" for xs
    using that len by (intro find_cong_set wa_bit_complement) auto
  have lt: "nat start < 64 * lsize bm" using assms by (auto simp: bitmap_wf_def)
  show "findFirstSetBit junk bm start =
      Some (scan_result (find (wa_bit (pbits bm)) [nat start..<64 * lsize bm]))"
    using find_set_loop_scan [OF assms(1), of "start div 64" "nat start mod 64" junk] assms st
    by (simp add: search_defs)
  show "findFirstUnsetBit junk bm start =
      Some (scan_result (find (\<lambda>i. \<not> wa_bit (pbits bm) i) [nat start..<64 * lsize bm]))"
    using find_set_loop_scan [of "complemented bm" "start div 64" "nat start mod 64" "NOT junk"] assms st
      F [of "[nat start..<64 * lsize bm]"]
    by (simp add: search_defs find_unset_loop_complemented subset_iff)
  show "findFirstSetBit_R junk bm start =
      Some (scan_result (find (wa_bit (pbits bm)) (rev [0..<Suc (nat start)])))"
    using find_set_loop_R_scan [OF assms(1), of "start div 64" "nat start mod 64" junk] assms st st'
    by (simp add: search_defs del: upt_Suc)
  show "findFirstUnsetBit_R junk bm start =
      Some (scan_result (find (\<lambda>i. \<not> wa_bit (pbits bm) i) (rev [0..<Suc (nat start)])))"
    using find_set_loop_R_scan [of "complemented bm" "start div 64" "nat start mod 64" "NOT junk"] assms st st'
      F [of "rev [0..<Suc (nat start)]"] lt
    by (simp add: search_defs find_unset_loop_R_complemented subset_iff del: upt_Suc)
qed

text \<open>Well-formedness holds of a new bitmap and is kept by every operation.\<close>

lemma bitmap_new_wf: "bitmap_wf (bitmap_new n)"
  by (auto simp: bitmap_new_def bitmap_wf_def Let_def)

lemma bitmap_op_wf:
  "bitmap_wf bm \<Longrightarrow> bitmap_op f bm pos = Some (r, bm') \<Longrightarrow> bitmap_wf bm' \<and> bit_num bm' = bit_num bm"
  by (auto simp: bitmap_op_def bitmap_wf_def wa_update_def case_prod_beta split: if_splits)

lemma bitmap_clear_wf: "bitmap_wf bm \<Longrightarrow> bitmap_wf (bitmap_clear bm t)"
  by (simp add: bitmap_clear_def bitmap_wf_def)

lemma bitmap_copy_eq: "bitmap_wf bm \<Longrightarrow> bitmap_copy bm = bm"
  by (simp add: bitmap_copy_def bitmap_wf_def)


lemma bitmap_op_bits:
  assumes "bitmap_wf bm" "0 \<le> pos" "pos < int (bit_num bm)"
  shows "bitmap_op f bm pos =
    Some (sint (fst (wa_update f (pbits bm) (nat pos))), bm\<lparr>pbits := snd (wa_update f (pbits bm) (nat pos))\<rparr>)"
    and "nat pos < 64 * length (pbits bm)"
  using assms by (auto simp: bitmap_op_def bitmap_wf_def case_prod_beta)

lemma bitmap_test_eq:
  assumes "0 \<le> pos" "pos < int (bit_num bm)"
  shows "bitmap_test bm pos = Some (wa_bit (pbits bm) (nat pos) \<and> nat pos mod 64 < 63)"
  using assms by (auto simp: bitmap_test_def wa_bit_def and_two_power sgreater_two_power)

section \<open>Properties\<close>

text \<open>C19. On a well-formed bitmap, each of the four word-skipping searches started inside the
  bitmap returns, and returns exactly what a bit-by-bit scan of the array from \<open>start_pos\<close>
  upwards (or downwards) returns: the first position with the wanted value, \<open>-1\<close> when there is
  none.  The word the loops read outside the array (\<open>junk\<close>) never influences the result.\<close>

theorem bitmap_searches_correct:
  assumes "bitmap_wf bm" "0 \<le> start" "start < int (bit_num bm)"
  shows "findFirstSetBit junk bm start =
      Some (scan_result (find (wa_bit (pbits bm)) [nat start..<64 * lsize bm])) \<and>
    findFirstUnsetBit junk bm start =
      Some (scan_result (find (\<lambda>i. \<not> wa_bit (pbits bm) i) [nat start..<64 * lsize bm])) \<and>
    findFirstSetBit_R junk bm start =
      Some (scan_result (find (wa_bit (pbits bm)) (rev [0..<Suc (nat start)]))) \<and>
    findFirstUnsetBit_R junk bm start =
      Some (scan_result (find (\<lambda>i. \<not> wa_bit (pbits bm) i) (rev [0..<Suc (nat start)])))"
  using bitmap_searches_scan [OF assms, of junk] by blast

theorem bitmap_searches_correct_witness:
  "bitmap_wf \<lparr>bit_num = 70, lsize = 2, pbits = [0, 8]\<rparr> \<and>
   findFirstSetBit 0 \<lparr>bit_num = 70, lsize = 2, pbits = [0, 8]\<rparr> 5 =
     Some (scan_result (find (wa_bit [0, 8]) [5..<128]))"
proof -
  have w: "bitmap_wf \<lparr>bit_num = 70, lsize = 2, pbits = [0, 8]\<rparr>" by (simp add: bitmap_wf_def)
  from bitmap_searches_correct [OF this, of 5 0] show ?thesis using w by simp
qed

text \<open>\<open>set\<close>, \<open>reset\<close> and \<open>flip\<close> at a position of a well-formed bitmap change exactly that bit
  and keep the bitmap well formed; \<open>set\<close> and \<open>reset\<close> return 0 exactly when the bit was clear.\<close>

theorem bitmap_update_correct:
  assumes "bitmap_wf bm" "0 \<le> pos" "pos < int (bit_num bm)"
  shows "\<exists>r1 b1 r2 b2 r3 b3.
    bitmap_set bm pos = Some (r1, b1) \<and> bitmap_reset bm pos = Some (r2, b2) \<and>
    bitmap_flip bm pos = Some (r3, b3) \<and>
    bitmap_wf b1 \<and> bitmap_wf b2 \<and> bitmap_wf b3 \<and>
    (r1 = 0 \<longleftrightarrow> \<not> wa_bit (pbits bm) (nat pos)) \<and> (r2 = 0 \<longleftrightarrow> \<not> wa_bit (pbits bm) (nat pos)) \<and>
    (\<forall>j. wa_bit (pbits b1) j = (wa_bit (pbits bm) j \<or> j = nat pos)) \<and>
    (\<forall>j. wa_bit (pbits b2) j = (wa_bit (pbits bm) j \<and> j \<noteq> nat pos)) \<and>
    (\<forall>j. wa_bit (pbits b3) j = (wa_bit (pbits bm) j \<noteq> (j = nat pos)))"
proof -
  note o = bitmap_op_bits [OF assms]
  have wf: "bitmap_wf (bm\<lparr>pbits := snd (wa_update f (pbits bm) (nat pos))\<rparr>)" for f
    using assms(1) by (simp add: bitmap_wf_def)
  show ?thesis
    unfolding bitmap_set_def bitmap_reset_def bitmap_flip_def o(1)
    using wf o(2) by (simp add: wa.bits_set wa.bits_reset wa_bit_flip wa_set_zero_iff wa_reset_zero_iff
        signed_eq_0_iff)
qed

theorem bitmap_update_correct_witness:
  "bitmap_wf (bitmap_new 100) \<and>
   (\<exists>r1 b1. bitmap_set (bitmap_new 100) 63 = Some (r1, b1) \<and> bitmap_wf b1 \<and>
     wa_bit (pbits b1) 63 \<and> r1 = 0)"
proof -
  have w: "(0::int) \<le> 63" "63 < int (bit_num (bitmap_new 100))" "\<not> wa_bit (pbits (bitmap_new 100)) 63"
    by (simp_all add: bitmap_new_def wa_bit_def)
  from bitmap_update_correct [OF bitmap_new_wf w(1,2)] w(3) bitmap_new_wf [of 100]
  show ?thesis by auto
qed

text \<open>The signed comparison in \<open>test\<close> and the signed shift in the bit operations lose the sign
  bit of every word: \<open>test\<close> answers false at positions 63, 127, \<dots> whatever is stored there, and
  setting such a bit twice returns \<open>-1\<close>, the value that also reports a position out of range.\<close>

theorem bitmap_sign_bit:
  assumes "bitmap_wf bm" "int (64 * w + 63) < int (bit_num bm)"
  shows "bitmap_test bm (int (64 * w + 63)) = Some False \<and>
    (wa_bit (pbits bm) (64 * w + 63) \<longrightarrow>
       map_option fst (bitmap_set bm (int (64 * w + 63))) = Some (- 1))"
  using assms bitmap_op_bits(1) [OF assms(1) _ assms(2), of AtomicBitTestAndSet]
  by (auto simp: bitmap_test_eq bitmap_set_def wa_update_def case_prod_beta test_and_set_result
      wa_bit_def nat_add_distrib nat_mult_distrib)

theorem bitmap_sign_bit_witness:
  "bitmap_test (bitmap_clear (bitmap_new 64) True) 63 = Some False \<and>
   wa_bit (pbits (bitmap_clear (bitmap_new 64) True)) 63"
proof -
  have "int (64 * 0 + 63) < int (bit_num (bitmap_clear (bitmap_new 64) True))"
    by (simp add: bitmap_new_def bitmap_clear_def)
  from bitmap_sign_bit [OF bitmap_clear_wf [OF bitmap_new_wf] this]
  show ?thesis by (simp add: bitmap_new_def bitmap_clear_def wa_bit_def)
qed

end
