(* ===== verification/Epoll_Server.thy ===== *)
theory Epoll_Server
  imports Atomic_T
begin

text \<open>
  The epoll kernel (\<open>kernel/epoll/HDS_Epoll_Server.cpp\<close>): starting the socket and its threads, the
  lock-free ring of received datagrams between the epoll thread and the filter workers
  (\<open>EPOLL_RECV_WITH_NO_MUTEX\<close>), and sending with the speed limit.  The results of the system calls are
  arguments.  A datagram is an element of \<open>'d\<close>.
\<close>

section \<open>Starting\<close>

record epoll_sys =
  sys_socket :: int
  sys_nonblocking :: int
  sys_bind :: int
  sys_epoll_create :: int
  sys_epoll_ctl :: int
  sys_attr_init :: int
  sys_loop_thread :: int
  sys_worker_thread :: "nat \<Rightarrow> int"
  sys_cpu_cores :: nat

datatype kernel_fd = Sock_Fd | Epoll_Fd

record epoll_started =
  open_fds :: "kernel_fd set"
  loop_running :: bool
  workers_running :: nat

definition nothing_started :: epoll_started where
  "nothing_started = \<lparr>open_fds = {}, loop_running = False, workers_running = 0\<rparr>"

fun start_workers :: "(nat \<Rightarrow> int) \<Rightarrow> nat \<Rightarrow> nat \<Rightarrow> epoll_started \<Rightarrow> int \<times> epoll_started" where
  "start_workers create i 0 s = (0, s)"
| "start_workers create i (Suc n) s =
     (if create i = - 1 then (- 1, s\<lparr>open_fds := {}\<rparr>)
      else start_workers create (Suc i) n (s\<lparr>workers_running := workers_running s + 1\<rparr>))"

text \<open>With \<open>pthread_attr_init\<close> the loop thread is made by \<open>pthread_create\<close>, otherwise by
  \<open>HDS_Thread_Create\<close>; both fail with a code other than 0.\<close>

definition init_kernel :: "epoll_sys \<Rightarrow> string option \<Rightarrow> nat \<Rightarrow> int \<times> epoll_started" where
  "init_kernel sys ipaddr udp_packet_filter_thread_num =
     (let none = nothing_started in
      if ipaddr = None then (- 1, none)
      else if sys_socket sys < 0 then (- 1, none)
      else if sys_nonblocking sys = - 1 then (- 1, none)
      else if sys_bind sys = - 1 then (- 1, none)
      else if sys_epoll_create sys < 0 then (- 1, none)
      else if sys_epoll_ctl sys < 0 then (- 1, none)
      else if sys_loop_thread sys \<noteq> 0 then (- 1, none)
      else start_workers (sys_worker_thread sys) 0
        (if udp_packet_filter_thread_num = 0 then sys_cpu_cores sys else udp_packet_filter_thread_num)
        \<lparr>open_fds = {Sock_Fd, Epoll_Fd}, loop_running = True, workers_running = 0\<rparr>)"

section \<open>The receive ring\<close>

abbreviation (input) EPOLL_KERNEL_MAX_RECV_DATA_ARRAY :: nat where
  "EPOLL_KERNEL_MAX_RECV_DATA_ARRAY \<equiv> 102400"

datatype worker_pc = At_Exchange | At_Compare | At_Increment

record worker =
  pc :: worker_pc
  read_offset :: u64

record 'd epoll_state =
  kernel_recv_data_array :: "nat \<Rightarrow> 'd option"
  write_array_offset :: u64
  read_array_offset :: u64
  downloaded_count :: u64
  write_offset :: u64
  workers :: "nat \<Rightarrow> worker"
  filtered :: "'d list"
  dropped :: "'d list"

text \<open>Each thread draws its first position when it starts.\<close>

definition epoll_loop_start :: "'d epoll_state \<Rightarrow> 'd epoll_state" where
  "epoll_loop_start s = (let (r, v) = post_increment (write_array_offset s)
     in s\<lparr>write_offset := r, write_array_offset := v\<rparr>)"

definition worker_loop_start :: "nat \<Rightarrow> 'd epoll_state \<Rightarrow> 'd epoll_state" where
  "worker_loop_start i s = (let (r, v) = post_increment (read_array_offset s)
     in s\<lparr>workers := (workers s)(i := \<lparr>pc = At_Exchange, read_offset = r\<rparr>), read_array_offset := v\<rparr>)"

text \<open>A round of the inner loop of \<open>epoll_loop\<close> in which \<open>recvfrom\<close> gave \<open>rdata\<close> with \<open>data_length\<close> bytes: a
  taken slot means the datagram is dropped.  An access outside the array is undefined.\<close>

definition epoll_loop_round :: "int \<Rightarrow> 'd \<Rightarrow> 'd epoll_state \<Rightarrow> 'd epoll_state option" where
  "epoll_loop_round data_length rdata s =
     (if data_length \<le> 0 then Some s
      else let s = s\<lparr>downloaded_count := snd (atomic_add (downloaded_count s) (of_int data_length))\<rparr>;
        offset = unat (write_offset s)
      in if EPOLL_KERNEL_MAX_RECV_DATA_ARRAY \<le> offset then None
      else case CompareExchange (kernel_recv_data_array s offset) (Some rdata) None of
        (Some _, _) \<Rightarrow> Some (s\<lparr>dropped := dropped s @ [rdata]\<rparr>)
      | (None, v) \<Rightarrow>
          let s = s\<lparr>kernel_recv_data_array := (kernel_recv_data_array s)(offset := v),
                write_array_offset := snd (CompareExchange (write_array_offset s) 0 (of_nat EPOLL_KERNEL_MAX_RECV_DATA_ARRAY))\<rparr>;
              (r, v) = post_increment (write_array_offset s)
          in Some (s\<lparr>write_offset := r, write_array_offset := v\<rparr>))"

text \<open>A worker's round is three atomic operations, between which other threads run: taking the slot, setting
  the shared position back at the end of the array, drawing the next position.\<close>

definition worker_loop_step :: "nat \<Rightarrow> 'd epoll_state \<Rightarrow> 'd epoll_state option" where
  "worker_loop_step i s = (let wk = workers s i in case pc wk of
     At_Exchange \<Rightarrow>
       if EPOLL_KERNEL_MAX_RECV_DATA_ARRAY \<le> unat (read_offset wk) then None
       else (case AtomicExchange (kernel_recv_data_array s (unat (read_offset wk))) None of
         (None, _) \<Rightarrow> Some s
       | (Some rdata, v) \<Rightarrow> Some (s\<lparr>kernel_recv_data_array := (kernel_recv_data_array s)(unat (read_offset wk) := v),
           filtered := filtered s @ [rdata], workers := (workers s)(i := wk\<lparr>pc := At_Compare\<rparr>)\<rparr>))
   | At_Compare \<Rightarrow> Some (s\<lparr>read_array_offset := snd (CompareExchange (read_array_offset s) 0 (of_nat EPOLL_KERNEL_MAX_RECV_DATA_ARRAY)),
       workers := (workers s)(i := wk\<lparr>pc := At_Increment\<rparr>)\<rparr>)
   | At_Increment \<Rightarrow> (let (r, v) = post_increment (read_array_offset s)
       in Some (s\<lparr>read_array_offset := v, workers := (workers s)(i := \<lparr>pc = At_Exchange, read_offset = r\<rparr>)\<rparr>)))"

definition ring_empty :: "'d epoll_state" where
  "ring_empty = \<lparr>kernel_recv_data_array = (\<lambda>_. None), write_array_offset = 0, read_array_offset = 0, downloaded_count = 0,
     write_offset = 0, workers = (\<lambda>_. \<lparr>pc = At_Exchange, read_offset = 0\<rparr>), filtered = [], dropped = []\<rparr>"

definition ring_start :: "nat \<Rightarrow> 'd epoll_state" where
  "ring_start n = epoll_loop_start (fold worker_loop_start [0..<n] ring_empty)"

inductive epoll_step :: "nat \<Rightarrow> 'd epoll_state \<Rightarrow> 'd epoll_state \<Rightarrow> bool" for n :: nat where
  receive: "epoll_loop_round len d s = Some s' \<Longrightarrow> epoll_step n s s'"
| work: "i < n \<Longrightarrow> worker_loop_step i s = Some s' \<Longrightarrow> epoll_step n s s'"

section \<open>Sending\<close>

text \<open>The speed limit counts bytes in \<open>long\<close>s that stay far below their bounds; \<open>paused\<close> counts the calls of
  \<open>usleep\<close>.\<close>

record kernel_sender =
  hexit :: bool
  sended_count :: u64
  send_speed_limit :: int
  send_speed_limit_clock :: int
  paused :: nat

abbreviation (input) LIMIT_500_US_SEND_SEPPD :: int where
  "LIMIT_500_US_SEND_SEPPD \<equiv> 5888"

definition send_limit :: "int \<Rightarrow> u32 \<Rightarrow> kernel_sender \<Rightarrow> kernel_sender" where
  "send_limit current_clock len k =
     (if current_clock - send_speed_limit_clock k < 3 then
        let k = k\<lparr>send_speed_limit := send_speed_limit k + uint len\<rparr>
        in if LIMIT_500_US_SEND_SEPPD < send_speed_limit k
           then k\<lparr>paused := paused k + 1, send_speed_limit_clock := current_clock, send_speed_limit := 0\<rparr>
           else k
      else k\<lparr>send_speed_limit_clock := current_clock, send_speed_limit := 0\<rparr>)"

text \<open>\<open>sendto\<close> is the result of the system call.\<close>

definition epoll_kernel_send :: "int \<Rightarrow> int \<Rightarrow> u32 \<Rightarrow> kernel_sender \<Rightarrow> int \<times> kernel_sender" where
  "epoll_kernel_send sendto current_clock len k =
     (let k = k\<lparr>sended_count := snd (atomic_add (sended_count k) (ucast len))\<rparr>
      in if hexit k then (- 1, k) else (sendto, send_limit current_clock len k))"

definition send_all :: "(int \<times> u32) list \<Rightarrow> kernel_sender \<Rightarrow> kernel_sender" where
  "send_all = fold (\<lambda>(clock, len) k. snd (epoll_kernel_send 0 clock len k))"

text \<open>With port 0 the first call looks the port up and returns without giving it to the caller.\<close>

definition get_udp_server_udp_port :: "u16 \<Rightarrow> u16 \<Rightarrow> u16 \<Rightarrow> u16 \<times> u16" where
  "get_udp_server_udp_port bound_port port caller_port = (if port = 0 then (caller_port, bound_port) else (port, port))"

section \<open>A bounded first-in first-out queue\<close>

text \<open>What the ring promises: the state is the queue, what was handed to the filter, what was dropped.\<close>

inductive bounded_queue_step :: "nat \<Rightarrow> 'd list \<times> 'd list \<times> 'd list \<Rightarrow> 'd list \<times> 'd list \<times> 'd list \<Rightarrow> bool" for n :: nat where
  put: "length q < n \<Longrightarrow> bounded_queue_step n (q, out, lost) (q @ [d], out, lost)"
| drop_new: "length q = n \<Longrightarrow> bounded_queue_step n (q, out, lost) (q, out, lost @ [d])"
| get: "bounded_queue_step n (d # q, out, lost) (q, out @ [d], lost)"

text \<open>The next position the worker will look at, and the queue that starts there.\<close>

definition ring_position :: "'d epoll_state \<Rightarrow> nat" where
  "ring_position s = (case pc (workers s 0) of
     At_Exchange \<Rightarrow> unat (read_offset (workers s 0))
   | At_Compare \<Rightarrow> (if unat (read_array_offset s) = EPOLL_KERNEL_MAX_RECV_DATA_ARRAY then 0 else unat (read_array_offset s))
   | At_Increment \<Rightarrow> unat (read_array_offset s))"

definition ring_queue :: "'d epoll_state \<Rightarrow> 'd list" where
  "ring_queue s = map the (takeWhile (\<lambda>x. x \<noteq> None)
     (map (\<lambda>j. kernel_recv_data_array s ((ring_position s + j) mod EPOLL_KERNEL_MAX_RECV_DATA_ARRAY))
       [0..<EPOLL_KERNEL_MAX_RECV_DATA_ARRAY]))"

definition ring_abs :: "'d epoll_state \<Rightarrow> 'd list \<times> 'd list \<times> 'd list" where
  "ring_abs s = (ring_queue s, filtered s, dropped s)"

definition ring_holds :: "nat \<Rightarrow> nat \<Rightarrow> 'd list \<Rightarrow> (nat \<Rightarrow> 'd option) \<Rightarrow> bool" where
  "ring_holds n p q a \<longleftrightarrow> p < n \<and> length q \<le> n \<and> (\<forall>j < n. a ((p + j) mod n) = (if j < length q then Some (q ! j) else None))"

lemma mod_shift_inj: "(p + j) mod n = (p + k) mod n \<Longrightarrow> j < n \<Longrightarrow> k < n \<Longrightarrow> j = (k :: nat)"
proof (induction j k rule: linorder_wlog)
  case (le a b)
  then have "n dvd (p + b) - (p + a)" by (metis add_le_cancel_left mod_eq_dvd_iff_nat)
  then have "n dvd b - a" by simp
  with le show ?case by (metis diff_is_0_eq' dvd_imp_le less_imp_diff_less linorder_not_le le_antisym zero_less_diff)
qed auto

lemma takeWhile_view:
  assumes "\<And>j. j < n \<Longrightarrow> f j = (if j < length q then Some (q ! j) else None)" "length q \<le> n"
  shows "map the (takeWhile (\<lambda>x. x \<noteq> None) (map f [0..<n])) = q"
proof -
  have "map f [0..<n] = map Some q @ replicate (n - length q) None"
    by (rule nth_equalityI) (auto simp: assms nth_append)
  then show ?thesis by (simp add: takeWhile_append takeWhile_replicate)
qed

lemma ring_holds_put:
  assumes "ring_holds n p q a" "length q < n"
  shows "ring_holds n p (q @ [d]) (a((p + length q) mod n := Some d))"
proof -
  have "(p + j) mod n = (p + length q) mod n \<longleftrightarrow> j = length q" if "j < n" for j
    using mod_shift_inj [of p j n "length q"] that assms(2) by auto
  then show ?thesis using assms by (auto simp: ring_holds_def nth_append less_Suc_eq)
qed

lemma ring_holds_get:
  assumes "ring_holds n p (d # q) a"
  shows "ring_holds n (Suc p mod n) q (a(p := None))"
proof -
  have n: "p < n" "Suc (length q) \<le> n" using assms by (auto simp: ring_holds_def)
  have "(a(p := None)) ((Suc p mod n + j) mod n) = (if j < length q then Some (q ! j) else None)" if "j < n" for j
  proof (cases "Suc j < n")
    case True
    have e: "(Suc p mod n + j) mod n = (p + Suc j) mod n" by (simp add: mod_add_left_eq)
    have "(p + Suc j) mod n \<noteq> p" using mod_shift_inj [of p "Suc j" n 0] True n by auto
    then show ?thesis using assms True unfolding e by (auto simp: ring_holds_def)
  next
    case False
    then have "Suc p + j = p + n" using that by simp
    then have "(Suc p mod n + j) mod n = p" using n by (metis mod_add_left_eq mod_add_self2 mod_less)
    then show ?thesis using that False n by auto
  qed
  then show ?thesis using n by (auto simp: ring_holds_def)
qed

definition ring_inv :: "'d list \<Rightarrow> 'd epoll_state \<Rightarrow> bool" where
  "ring_inv q s \<longleftrightarrow> ring_holds EPOLL_KERNEL_MAX_RECV_DATA_ARRAY (ring_position s) q (kernel_recv_data_array s) \<and>
     unat (write_offset s) = (ring_position s + length q) mod EPOLL_KERNEL_MAX_RECV_DATA_ARRAY \<and>
     write_array_offset s = write_offset s + 1 \<and>
     (pc (workers s 0) = At_Exchange \<longrightarrow> read_array_offset s = read_offset (workers s 0) + 1) \<and>
     (pc (workers s 0) = At_Compare \<longrightarrow> unat (read_array_offset s) \<le> EPOLL_KERNEL_MAX_RECV_DATA_ARRAY)"

lemma ring_inv_abs: "ring_inv q s \<Longrightarrow> ring_abs s = (q, filtered s, dropped s)"
  unfolding ring_inv_def ring_abs_def ring_queue_def ring_holds_def
  by (elim conjE) (simp only: prod.inject simp_thms, rule takeWhile_view, simp_all)

lemma unat_small_Suc: "unat (x :: u64) < 102400 \<Longrightarrow> unat (x + 1) = unat x + 1"
  by (simp add: unat_word_ariths)

lemma word_102400: "(x :: u64) = 102400 \<longleftrightarrow> unat x = 102400"
  by (simp add: word_unat_eq_iff)

lemma next_offset:
  assumes "unat (x :: u64) < 102400"
  shows "unat (snd (CompareExchange (x + 1) 0 102400)) = Suc (unat x) mod 102400"
  using assms by (auto simp: CompareExchange_def word_102400 unat_small_Suc)

lemma receive_simulated:
  assumes "ring_inv q s" "epoll_loop_round len d s = Some s'"
  shows "\<exists>q'. ring_inv q' s' \<and> (bounded_queue_step 102400)\<^sup>*\<^sup>* (q, filtered s, dropped s) (q', filtered s', dropped s')"
proof (cases "0 < len")
  case False
  with assms(2) have "s' = s" by (simp add: epoll_loop_round_def split: if_splits)
  with assms(1) show ?thesis by blast
next
  case True
  let ?p = "ring_position s" and ?a = "kernel_recv_data_array s" and ?off = "unat (write_offset s)"
  have inv: "ring_holds 102400 ?p q ?a" "?off = (?p + length q) mod 102400" "write_array_offset s = write_offset s + 1"
    "pc (workers s 0) = At_Exchange \<longrightarrow> read_array_offset s = read_offset (workers s 0) + 1"
    "pc (workers s 0) = At_Compare \<longrightarrow> unat (read_array_offset s) \<le> 102400"
    using assms(1) by (auto simp: ring_inv_def)
  have off: "?off < 102400" using inv(2) by simp
  show ?thesis
  proof (cases "length q < 102400")
    case room: True
    then have slot: "?a ?off = None" using inv(1) unfolding inv(2) ring_holds_def by auto
    have s': "s' = s\<lparr>downloaded_count := downloaded_count s + of_int len, kernel_recv_data_array := ?a(?off := Some d),
        write_offset := snd (CompareExchange (write_offset s + 1) 0 102400),
        write_array_offset := snd (CompareExchange (write_offset s + 1) 0 102400) + 1\<rparr>"
      using assms(2) True off slot
      by (simp add: epoll_loop_round_def Let_def CompareExchange_def atomic_add_def post_increment_def inv(3))
    have pos: "ring_position s' = ?p" by (cases "pc (workers s 0)") (simp_all add: s' ring_position_def)
    have "ring_inv (q @ [d]) s'"
      using ring_holds_put [OF inv(1) room, of d] inv(2,4,5) next_offset [OF off]
      unfolding ring_inv_def pos by (simp add: s' mod_Suc_eq)
    moreover have "bounded_queue_step 102400 (q, filtered s, dropped s) (q @ [d], filtered s', dropped s')"
      using room by (simp add: s' bounded_queue_step.put)
    ultimately show ?thesis by blast
  next
    case False
    then have full: "length q = 102400" "?off = ?p" using inv(1,2) by (auto simp: ring_holds_def)
    then obtain x where slot: "?a ?off = Some x" using inv(1) unfolding ring_holds_def by (metis add.right_neutral mod_less zero_less_numeral)
    have s': "s' = s\<lparr>downloaded_count := downloaded_count s + of_int len, dropped := dropped s @ [d]\<rparr>"
      using assms(2) True off slot by (simp add: epoll_loop_round_def Let_def CompareExchange_def atomic_add_def)
    have "ring_position s' = ?p" by (cases "pc (workers s 0)") (simp_all add: s' ring_position_def)
    then have "ring_inv q s'" using assms(1) by (simp add: s' ring_inv_def)
    moreover have "bounded_queue_step 102400 (q, filtered s, dropped s) (q, filtered s', dropped s')"
      using full by (simp add: s' bounded_queue_step.drop_new)
    ultimately show ?thesis by blast
  qed
qed

lemma work_simulated:
  assumes "ring_inv q s" "worker_loop_step 0 s = Some s'"
  shows "\<exists>q'. ring_inv q' s' \<and> (bounded_queue_step 102400)\<^sup>*\<^sup>* (q, filtered s, dropped s) (q', filtered s', dropped s')"
proof (cases "pc (workers s 0)")
  case At_Exchange
  let ?p = "ring_position s" and ?a = "kernel_recv_data_array s"
  have p: "unat (read_offset (workers s 0)) = ?p" "read_array_offset s = read_offset (workers s 0) + 1" "ring_holds 102400 ?p q ?a"
    using assms(1) At_Exchange by (auto simp: ring_inv_def ring_position_def)
  then have lt: "?p < 102400" by (simp add: ring_holds_def)
  show ?thesis
  proof (cases q)
    case Nil
    then have "?a ?p = None" using p(3) lt unfolding ring_holds_def by (metis add.right_neutral list.size(3) mod_less not_less_zero zero_less_numeral)
    then have "s' = s" using assms(2) At_Exchange p(1) lt by (simp add: worker_loop_step_def AtomicExchange_def)
    then show ?thesis using assms(1) by blast
  next
    case (Cons d q')
    have slot: "?a ?p = Some d" using p(3) lt Cons unfolding ring_holds_def
      by (metis add.right_neutral length_greater_0_conv list.distinct(1) mod_less nth_Cons_0 zero_less_numeral)
    have s': "s' = s\<lparr>kernel_recv_data_array := ?a(?p := None), filtered := filtered s @ [d],
        workers := (workers s)(0 := (workers s 0)\<lparr>pc := At_Compare\<rparr>)\<rparr>"
      using assms(2) At_Exchange slot p(1) lt by (simp add: worker_loop_step_def AtomicExchange_def)
    have pos: "ring_position s' = Suc ?p mod 102400" "unat (read_array_offset s') = Suc ?p"
      using lt p(1,2) unat_small_Suc [of "read_offset (workers s 0)"] by (auto simp: s' ring_position_def)
    have "ring_inv q' s'"
      using ring_holds_get [OF p(3) [unfolded Cons]] assms(1) lt Cons pos
      by (simp add: ring_inv_def s' mod_add_left_eq)
    moreover have "bounded_queue_step 102400 (q, filtered s, dropped s) (q', filtered s', dropped s')"
      unfolding Cons using bounded_queue_step.get by (simp add: s')
    ultimately show ?thesis by blast
  qed
next
  case At_Compare
  then have "ring_inv q s'"
    using assms by (cases "unat (read_array_offset s) = 102400")
      (auto simp: ring_inv_def ring_position_def worker_loop_step_def CompareExchange_def word_102400)
  moreover have "filtered s' = filtered s" "dropped s' = dropped s" using assms At_Compare by (auto simp: worker_loop_step_def)
  ultimately show ?thesis by (metis rtranclp.rtrancl_refl)
next
  case At_Increment
  then have "ring_inv q s'"
    using assms by (auto simp: ring_inv_def ring_position_def worker_loop_step_def post_increment_def)
  moreover have "filtered s' = filtered s" "dropped s' = dropped s"
    using assms At_Increment by (auto simp: worker_loop_step_def post_increment_def)
  ultimately show ?thesis by (metis rtranclp.rtrancl_refl)
qed

lemma ring_start_inv: "ring_inv [] (ring_start 1 :: 'd epoll_state)"
  by (simp add: ring_inv_def ring_start_def ring_empty_def epoll_loop_start_def worker_loop_start_def post_increment_def
      ring_position_def ring_holds_def)

lemma ring_start_empty: "filtered (ring_start 1) = []" "dropped (ring_start 1) = []"
  by (simp_all add: ring_start_def ring_empty_def epoll_loop_start_def worker_loop_start_def post_increment_def)

lemma ring_simulated:
  assumes "(epoll_step 1)\<^sup>*\<^sup>* (ring_start 1) s"
  shows "\<exists>q. ring_inv q s \<and> (bounded_queue_step 102400)\<^sup>*\<^sup>* ([], [], []) (q, filtered s, dropped s)"
  using assms
proof (induction rule: rtranclp_induct)
  case base
  show ?case using ring_start_inv ring_start_empty by (metis rtranclp.rtrancl_refl)
next
  case (step s s')
  then obtain q where q: "ring_inv q s" "(bounded_queue_step 102400)\<^sup>*\<^sup>* ([], [], []) (q, filtered s, dropped s)" by blast
  from step.hyps(2) have "\<exists>q'. ring_inv q' s' \<and> (bounded_queue_step 102400)\<^sup>*\<^sup>* (q, filtered s, dropped s) (q', filtered s', dropped s')"
    by cases (auto dest: receive_simulated [OF q(1)] work_simulated [OF q(1)])
  with q(2) show ?case by (meson rtranclp_trans)
qed

section \<open>Two workers\<close>

text \<open>An empty ring in which worker \<open>a\<close> waits at the writer's position and worker \<open>b\<close> at the next one.\<close>

definition in_turn :: "nat \<Rightarrow> nat \<Rightarrow> nat \<Rightarrow> 'd epoll_state \<Rightarrow> bool" where
  "in_turn k a b s \<longleftrightarrow> {a, b} = {0, 1} \<and> kernel_recv_data_array s = (\<lambda>_. None) \<and> unat (write_offset s) = k \<and>
     write_array_offset s = write_offset s + 1 \<and> workers s a = \<lparr>pc = At_Exchange, read_offset = write_offset s\<rparr> \<and>
     workers s b = \<lparr>pc = At_Exchange, read_offset = write_offset s + 1\<rparr> \<and> read_array_offset s = write_offset s + 1 + 1"

lemma receive_into:
  assumes "unat (write_offset s) < 102399" "write_array_offset s = write_offset s + 1"
    "kernel_recv_data_array s (unat (write_offset s)) = None"
  shows "epoll_loop_round 1 d s = Some (s\<lparr>downloaded_count := downloaded_count s + 1,
    kernel_recv_data_array := (kernel_recv_data_array s)(unat (write_offset s) := Some d),
    write_offset := write_offset s + 1, write_array_offset := write_offset s + 1 + 1\<rparr>)"
  using assms by (simp add: epoll_loop_round_def CompareExchange_def post_increment_def Let_def unat_small_Suc word_102400 atomic_add_def)

lemma work_take:
  assumes "workers s i = \<lparr>pc = At_Exchange, read_offset = r\<rparr>" "unat r < 102400" "kernel_recv_data_array s (unat r) = Some d"
  shows "worker_loop_step i s = Some (s\<lparr>kernel_recv_data_array := (kernel_recv_data_array s)(unat r := None),
    filtered := filtered s @ [d], workers := (workers s)(i := \<lparr>pc = At_Compare, read_offset = r\<rparr>)\<rparr>)"
  using assms by (simp add: worker_loop_step_def AtomicExchange_def)

lemma work_pass:
  assumes "workers s i = \<lparr>pc = At_Compare, read_offset = r\<rparr>" "unat (read_array_offset s) \<noteq> 102400"
  shows "worker_loop_step i s = Some (s\<lparr>workers := (workers s)(i := \<lparr>pc = At_Increment, read_offset = r\<rparr>)\<rparr>)"
  using assms by (simp add: worker_loop_step_def CompareExchange_def word_102400)

lemma work_draw:
  assumes "workers s i = \<lparr>pc = At_Increment, read_offset = r\<rparr>"
  shows "worker_loop_step i s = Some (s\<lparr>read_array_offset := read_array_offset s + 1,
    workers := (workers s)(i := \<lparr>pc = At_Exchange, read_offset = read_array_offset s\<rparr>)\<rparr>)"
  using assms by (simp add: worker_loop_step_def post_increment_def Let_def)

lemma step_receive: "epoll_loop_round 1 d s = Some s' \<Longrightarrow> (epoll_step n)\<^sup>*\<^sup>* s' t \<Longrightarrow> (epoll_step n)\<^sup>*\<^sup>* s t"
  by (meson converse_rtranclp_into_rtranclp epoll_step.receive)

lemma step_work: "worker_loop_step i s = Some s' \<Longrightarrow> i < n \<Longrightarrow> (epoll_step n)\<^sup>*\<^sup>* s' t \<Longrightarrow> (epoll_step n)\<^sup>*\<^sup>* s t"
  by (meson converse_rtranclp_into_rtranclp epoll_step.work)

lemma in_turn_next:
  fixes s :: "'d epoll_state"
  assumes "in_turn k a b s" "k + 2 < 102400"
  shows "\<exists>s'. (epoll_step 2)\<^sup>*\<^sup>* s s' \<and> in_turn (Suc k) b a s'"
proof -
  have ab: "a < 2" "b \<noteq> a" using assms(1) by (auto simp: in_turn_def doubleton_eq_iff)
  have t: "kernel_recv_data_array s = (\<lambda>_. None)" "unat (write_offset s) = k" "write_array_offset s = write_offset s + 1"
    "workers s a = \<lparr>pc = At_Exchange, read_offset = write_offset s\<rparr>" "workers s b = \<lparr>pc = At_Exchange, read_offset = write_offset s + 1\<rparr>"
    "read_array_offset s = write_offset s + 1 + 1" "{b, a} = {0, 1}" using assms(1) by (auto simp: in_turn_def insert_commute)
  have u: "unat (write_offset s + 1) = Suc k" using t(2) assms(2) by (simp add: unat_small_Suc)
  have u2: "unat (write_offset s + 1 + 1) = Suc (Suc k)" using unat_small_Suc [of "write_offset s + 1"] u assms(2) by simp
  define s1 where "s1 = s\<lparr>downloaded_count := downloaded_count s + 1, kernel_recv_data_array := (\<lambda>_. None)(k := Some undefined),
    write_offset := write_offset s + 1, write_array_offset := write_offset s + 1 + 1\<rparr>"
  define s2 where "s2 = s1\<lparr>kernel_recv_data_array := (\<lambda>_. None), filtered := filtered s @ [undefined],
    workers := (workers s)(a := \<lparr>pc = At_Compare, read_offset = write_offset s\<rparr>)\<rparr>"
  define s3 where "s3 = s2\<lparr>workers := (workers s)(a := \<lparr>pc = At_Increment, read_offset = write_offset s\<rparr>)\<rparr>"
  define s4 where "s4 = s3\<lparr>read_array_offset := write_offset s + 1 + 1 + 1,
    workers := (workers s)(a := \<lparr>pc = At_Exchange, read_offset = write_offset s + 1 + 1\<rparr>)\<rparr>"
  have "epoll_loop_round 1 undefined s = Some s1" using receive_into [of s undefined] t assms(2) by (simp add: s1_def)
  moreover have "worker_loop_step a s1 = Some s2"
    using work_take [of s1 a "write_offset s" undefined] t assms(2) by (simp add: s1_def s2_def fun_upd_def cong: if_cong)
  moreover have "worker_loop_step a s2 = Some s3"
    using work_pass [of s2 a "write_offset s"] t(6) u2 assms(2) by (simp add: s1_def s2_def s3_def)
  moreover have "worker_loop_step a s3 = Some s4"
    using work_draw [of s3 a "write_offset s"] t(6) by (simp add: s1_def s2_def s3_def s4_def)
  ultimately have "(epoll_step 2)\<^sup>*\<^sup>* s s4"
    using ab(1) by (meson step_receive step_work rtranclp.rtrancl_refl)
  moreover have "in_turn (Suc k) b a s4" using t u ab by (simp add: in_turn_def s1_def s2_def s3_def s4_def)
  ultimately show ?thesis by blast
qed

lemma in_turn_start: "in_turn 0 0 1 (ring_start 2 :: 'd epoll_state)"
proof -
  have "[0..<2] = [0, 1 :: nat]" by (simp add: upt_rec)
  then show ?thesis by (simp add: in_turn_def ring_start_def ring_empty_def epoll_loop_start_def worker_loop_start_def post_increment_def)
qed

lemma in_turn_reachable:
  assumes "k + 2 < 102400 + 1"
  shows "\<exists>a b s. (epoll_step 2)\<^sup>*\<^sup>* (ring_start 2 :: 'd epoll_state) s \<and> in_turn k a b s"
  using assms
proof (induction k)
  case 0
  show ?case using in_turn_start by blast
next
  case (Suc k)
  then obtain a b and s :: "'d epoll_state" where "(epoll_step 2)\<^sup>*\<^sup>* (ring_start 2) s" "in_turn k a b s" by auto
  moreover have "k + 2 < 102400" using Suc.prems by simp
  ultimately show ?case using in_turn_next [of k a b s] by (meson rtranclp_trans)
qed

text \<open>Both workers take a datagram while the shared position is the last one of the array; both pass the
  comparison, and the second one to draw gets the position behind the array.\<close>

lemma overrun:
  fixes s :: "'d epoll_state"
  assumes "in_turn 102397 a b s"
  shows "\<exists>s'. (epoll_step 2)\<^sup>*\<^sup>* s s' \<and> worker_loop_step b s' = None"
proof -
  have ab: "a < 2" "b < 2" "b \<noteq> a" using assms(1) by (auto simp: in_turn_def doubleton_eq_iff)
  have t: "kernel_recv_data_array s = (\<lambda>_. None)" "unat (write_offset s) = 102397" "write_array_offset s = write_offset s + 1"
    "workers s a = \<lparr>pc = At_Exchange, read_offset = write_offset s\<rparr>" "workers s b = \<lparr>pc = At_Exchange, read_offset = write_offset s + 1\<rparr>"
    "read_array_offset s = write_offset s + 1 + 1" using assms(1) by (auto simp: in_turn_def)
  have "write_offset s = 102397" using t(2) by (simp add: word_unat_eq_iff)
  note t = t(1) this t(3-6) [unfolded this, simplified]
  define w where "w x y = (workers s)(a := x, b := y)" for x y
  define s1 where "s1 = s\<lparr>downloaded_count := downloaded_count s + 1, kernel_recv_data_array := (\<lambda>_. None)(102397 := Some undefined),
    write_offset := 102398, write_array_offset := 102399\<rparr>"
  define s2 where "s2 = s1\<lparr>downloaded_count := downloaded_count s + 1 + 1,
    kernel_recv_data_array := (\<lambda>_. None)(102397 := Some undefined, 102398 := Some undefined),
    write_offset := 102399, write_array_offset := 102400\<rparr>"
  define s3 where "s3 = s2\<lparr>kernel_recv_data_array := (\<lambda>_. None)(102398 := Some undefined), filtered := filtered s @ [undefined],
    workers := (workers s)(a := \<lparr>pc = At_Compare, read_offset = 102397\<rparr>)\<rparr>"
  define s4 where "s4 = s3\<lparr>kernel_recv_data_array := (\<lambda>_. None), filtered := filtered s @ [undefined, undefined],
    workers := w \<lparr>pc = At_Compare, read_offset = 102397\<rparr> \<lparr>pc = At_Compare, read_offset = 102398\<rparr>\<rparr>"
  define s5 where "s5 = s4\<lparr>workers := w \<lparr>pc = At_Increment, read_offset = 102397\<rparr> \<lparr>pc = At_Compare, read_offset = 102398\<rparr>\<rparr>"
  define s6 where "s6 = s4\<lparr>workers := w \<lparr>pc = At_Increment, read_offset = 102397\<rparr> \<lparr>pc = At_Increment, read_offset = 102398\<rparr>\<rparr>"
  define s7 where "s7 = s6\<lparr>read_array_offset := 102400,
    workers := w \<lparr>pc = At_Exchange, read_offset = 102399\<rparr> \<lparr>pc = At_Increment, read_offset = 102398\<rparr>\<rparr>"
  define s8 where "s8 = s7\<lparr>read_array_offset := 102401,
    workers := w \<lparr>pc = At_Exchange, read_offset = 102399\<rparr> \<lparr>pc = At_Exchange, read_offset = 102400\<rparr>\<rparr>"
  note defs = s1_def s2_def s3_def s4_def s5_def s6_def s7_def s8_def w_def
  have "epoll_loop_round 1 undefined s = Some s1" using receive_into [of s undefined] t by (simp add: s1_def)
  moreover have "epoll_loop_round 1 undefined s1 = Some s2" using receive_into [of s1 undefined] by (simp add: defs)
  moreover have "worker_loop_step a s2 = Some s3"
    using work_take [of s2 a 102397 undefined] t by (simp add: defs fun_upd_twist fun_upd_idem_iff)
  moreover have "worker_loop_step b s3 = Some s4"
    using work_take [of s3 b 102398 undefined] t ab by (simp add: defs fun_upd_idem_iff)
  moreover have "worker_loop_step a s4 = Some s5"
    using work_pass [of s4 a 102397] t ab by (simp add: defs fun_upd_twist)
  moreover have "worker_loop_step b s5 = Some s6"
    using work_pass [of s5 b 102398] t ab by (simp add: defs)
  moreover have "worker_loop_step a s6 = Some s7"
    using work_draw [of s6 a 102397] t ab by (simp add: defs fun_upd_twist)
  moreover have "worker_loop_step b s7 = Some s8"
    using work_draw [of s7 b 102398] t ab by (simp add: defs)
  ultimately have "(epoll_step 2)\<^sup>*\<^sup>* s s8"
    using ab by (meson step_receive step_work rtranclp.rtrancl_refl)
  moreover have "worker_loop_step b s8 = None" by (simp add: defs worker_loop_step_def)
  ultimately show ?thesis by blast
qed

section \<open>The speed limit\<close>

lemma send_all_paused: "paused k \<le> paused (send_all sends k)"
proof (induction sends arbitrary: k)
  case (Cons x sends)
  obtain c n where x: "x = (c, n)" by (cases x)
  have "paused k \<le> paused (snd (epoll_kernel_send 0 c n k))"
    by (simp add: epoll_kernel_send_def send_limit_def Let_def)
  with Cons.IH [of "snd (epoll_kernel_send 0 c n k)"] show ?case by (simp add: x send_all_def)
qed (simp add: send_all_def)

lemma send_all_bytes:
  assumes "paused (send_all sends k) = paused k" "\<not> hexit k" "\<forall>(c, n) \<in> set sends. c - send_speed_limit_clock k < 3"
    "send_speed_limit k \<le> LIMIT_500_US_SEND_SEPPD"
  shows "send_speed_limit k + sum_list (map (uint \<circ> snd) sends) \<le> LIMIT_500_US_SEND_SEPPD"
  using assms
proof (induction sends arbitrary: k)
  case (Cons x sends)
  obtain c n where x: "x = (c, n)" by (cases x)
  let ?k = "snd (epoll_kernel_send 0 c n k)"
  have all: "send_all (x # sends) k = send_all sends ?k" by (simp add: send_all_def x)
  have "paused ?k = paused k"
    using send_all_paused [of ?k sends] Cons.prems(1) unfolding all
    by (auto simp: epoll_kernel_send_def send_limit_def Let_def split: if_splits)
  moreover have "c - send_speed_limit_clock k < 3" using Cons.prems(3) x by auto
  ultimately have k: "send_speed_limit ?k = send_speed_limit k + uint n" "send_speed_limit ?k \<le> 5888"
    "send_speed_limit_clock ?k = send_speed_limit_clock k" "hexit ?k = hexit k"
    using Cons.prems(2) by (auto simp: epoll_kernel_send_def send_limit_def Let_def split: if_splits)
  have "send_speed_limit ?k + sum_list (map (uint \<circ> snd) sends) \<le> 5888"
    using Cons.prems \<open>paused ?k = paused k\<close> k unfolding all by (intro Cons.IH) auto
  then show ?case using k(1) x by (simp add: o_def)
qed simp

section \<open>Properties\<close>

text \<open>C10. With one worker the lock-free ring is a queue of 102400 datagrams: whatever the interleaving of the
  epoll thread's and the worker's atomic operations, datagrams reach the filter once each, in the order
  of arrival; one is dropped only when the queue is full; and no access leaves the array.\<close>

theorem ring_refines_queue:
  assumes "(epoll_step 1)\<^sup>*\<^sup>* (ring_start 1) s"
  shows "(bounded_queue_step EPOLL_KERNEL_MAX_RECV_DATA_ARRAY)\<^sup>*\<^sup>* ([], [], []) (ring_abs s) \<and>
    epoll_loop_round len d s \<noteq> None \<and> worker_loop_step 0 s \<noteq> None"
proof -
  obtain q where q: "ring_inv q s" "(bounded_queue_step 102400)\<^sup>*\<^sup>* ([], [], []) (q, filtered s, dropped s)"
    using ring_simulated [OF assms] by blast
  have "unat (write_offset s) < 102400" using q(1) by (auto simp: ring_inv_def)
  then have "epoll_loop_round len d s \<noteq> None"
    by (auto simp: epoll_loop_round_def CompareExchange_def post_increment_def Let_def split: option.splits)
  moreover have "worker_loop_step 0 s \<noteq> None"
    using q(1) by (auto simp: worker_loop_step_def ring_inv_def ring_holds_def ring_position_def AtomicExchange_def post_increment_def Let_def
        split: worker_pc.splits option.splits)
  ultimately show ?thesis using q ring_inv_abs [OF q(1)] by simp
qed

theorem ring_refines_queue_witness:
  "\<exists>s. (epoll_step 1)\<^sup>*\<^sup>* (ring_start 1) s \<and> filtered s = [7 :: nat] \<and>
     (bounded_queue_step 102400)\<^sup>*\<^sup>* ([], [], []) (ring_abs s)"
proof -
  let ?s = "ring_start 1 :: nat epoll_state"
  have start: "write_offset ?s = 0" "write_array_offset ?s = 1" "kernel_recv_data_array ?s = (\<lambda>_. None)"
    "workers ?s 0 = \<lparr>pc = At_Exchange, read_offset = 0\<rparr>" "filtered ?s = []"
    by (simp_all add: ring_start_def ring_empty_def epoll_loop_start_def worker_loop_start_def post_increment_def)
  obtain s1 where s1: "epoll_loop_round 1 7 ?s = Some s1" "workers s1 0 = \<lparr>pc = At_Exchange, read_offset = 0\<rparr>"
    "kernel_recv_data_array s1 0 = Some 7" "filtered s1 = []"
    using receive_into [of ?s 7] start by simp
  obtain s2 where s2: "worker_loop_step 0 s1 = Some s2" "filtered s2 = [7]"
    using work_take [OF s1(2), of 7] s1(3,4) by simp
  have run: "(epoll_step 1)\<^sup>*\<^sup>* ?s s2" by (meson step_receive [OF s1(1)] step_work [OF s2(1)] less_one rtranclp.rtrancl_refl)
  with ring_refines_queue [OF run, of 1 7] s2(2) show ?thesis by blast
qed

text \<open>With two workers the comparison and the increment of the shared position are not one step: two
  workers that both look just before the end of the array both pass, and one of them draws the position
  behind it and reads there.\<close>

theorem ring_two_workers_overrun:
  "\<exists>s i. (epoll_step 2)\<^sup>*\<^sup>* (ring_start 2 :: 'd epoll_state) s \<and> i < 2 \<and> worker_loop_step i s = None"
proof -
  obtain a b and s :: "'d epoll_state" where s: "(epoll_step 2)\<^sup>*\<^sup>* (ring_start 2) s" "in_turn 102397 a b s"
    using in_turn_reachable [of 102397] by auto
  obtain s' where "(epoll_step 2)\<^sup>*\<^sup>* s s'" "worker_loop_step b s' = None" using overrun [OF s(2)] by blast
  moreover have "b < 2" using s(2) by (auto simp: in_turn_def doubleton_eq_iff)
  ultimately show ?thesis using s(1) by (meson rtranclp_trans)
qed

text \<open>The speed limit: sending more than 5888 bytes (four packets) within three milliseconds of the last
  pause makes the sender pause.\<close>

theorem send_limit_pauses:
  assumes "\<not> hexit k" "0 \<le> send_speed_limit k" "\<forall>(clock, n) \<in> set sends. clock - send_speed_limit_clock k < 3"
    "LIMIT_500_US_SEND_SEPPD < sum_list (map (uint \<circ> snd) sends)" "send_speed_limit k \<le> LIMIT_500_US_SEND_SEPPD"
  shows "paused k < paused (send_all sends k)"
  using send_all_bytes [OF _ assms(1,3,5)] send_all_paused [of k sends] assms(2,4) by linarith

theorem send_limit_pauses_witness:
  "0 < paused (send_all [(1, 1472), (1, 1472), (2, 1472), (2, 1472), (2, 1472)] \<lparr>hexit = False, sended_count = 0, send_speed_limit = 0, send_speed_limit_clock = 0, paused = 0\<rparr>)"
  using send_limit_pauses [of "\<lparr>hexit = False, sended_count = 0, send_speed_limit = 0, send_speed_limit_clock = 0, paused = 0\<rparr>"
      "[(1, 1472), (1, 1472), (2, 1472), (2, 1472), (2, 1472)]"]
  by simp

end
