(* ===== verification/Socket_Server.thy ===== *)
theory Socket_Server
  imports Atomic_T
begin

text \<open>
  The kernel on a blocking socket (\<open>kernel/sock/UDP_Socket_Server.cpp\<close>), the one the makefile selects: one
  thread receives and queues, worker threads filter.  The results of the system calls are arguments; the
  queue is the order-preserving one of \<open>Blocking_Queue\<close>, here its contents.
\<close>

section \<open>Starting\<close>

record socket_sys =
  sk_bind :: int
  sk_reuse :: int
  sk_recv_thread :: int
  sk_worker_thread :: "nat \<Rightarrow> int"

record socket_started =
  socket_open :: bool
  recv_running :: bool
  socket_workers :: nat

fun start_socket_workers :: "(nat \<Rightarrow> int) \<Rightarrow> nat \<Rightarrow> nat \<Rightarrow> socket_started \<Rightarrow> int \<times> socket_started" where
  "start_socket_workers create i 0 s = (0, s)"
| "start_socket_workers create i (Suc n) s =
     (if create i = - 1 then (- 1, s\<lparr>socket_open := False\<rparr>)
      else start_socket_workers create (Suc i) n (s\<lparr>socket_workers := socket_workers s + 1\<rparr>))"

definition init_socket_kernel :: "socket_sys \<Rightarrow> nat \<Rightarrow> int \<times> socket_started" where
  "init_socket_kernel sys threads =
     (let none = \<lparr>socket_open = False, recv_running = False, socket_workers = 0\<rparr> in
      if sk_bind sys = - 1 then (- 1, none)
      else if sk_reuse sys = - 1 then (- 1, none)
      else if sk_recv_thread sys = - 1 then (- 1, none)
      else start_socket_workers (sk_worker_thread sys) 0 threads \<lparr>socket_open = True, recv_running = True, socket_workers = 0\<rparr>)"

section \<open>Receiving\<close>

record 'd socket_state =
  recv_data_queue :: "'d list"
  sk_downloaded_count :: u64
  receiving :: bool
  sk_filtered :: "'d list"

text \<open>A round of the receive thread: \<open>memory\<close> tells whether the pool had a record; without one the code writes
  through a null pointer before it looks.\<close>

definition socket_recv_round :: "bool \<Rightarrow> int \<Rightarrow> 'd \<Rightarrow> 'd socket_state \<Rightarrow> 'd socket_state option" where
  "socket_recv_round memory data_length rdata s =
     (if \<not> memory then None
      else if data_length \<le> 0 then Some (s\<lparr>receiving := False\<rparr>)
      else Some (s\<lparr>sk_downloaded_count := snd (atomic_add (sk_downloaded_count s) (of_int data_length)),
        recv_data_queue := recv_data_queue s @ [rdata]\<rparr>))"

text \<open>The thread over the results of its calls of \<open>recvfrom\<close>; once it has left its loop the rest is never
  asked for.\<close>

fun UDPServerRecvThread :: "(int \<times> 'd) list \<Rightarrow> 'd socket_state \<Rightarrow> 'd socket_state option" where
  "UDPServerRecvThread [] s = Some s"
| "UDPServerRecvThread ((n, d) # rs) s =
     (if receiving s then (case socket_recv_round True n d s of None \<Rightarrow> None | Some s \<Rightarrow> UDPServerRecvThread rs s)
      else Some s)"

definition UDPServerWorkerThread :: "'d socket_state \<Rightarrow> 'd socket_state" where
  "UDPServerWorkerThread s = (case recv_data_queue s of [] \<Rightarrow> s
     | d # q \<Rightarrow> s\<lparr>recv_data_queue := q, sk_filtered := sk_filtered s @ [d]\<rparr>)"

definition socket_kernel_send :: "int \<Rightarrow> u32 \<Rightarrow> u64 \<Rightarrow> int \<times> u64" where
  "socket_kernel_send sendto len sended_count = (sendto, snd (atomic_add sended_count (ucast len)))"

section \<open>Properties\<close>

lemma recv_thread_stopped: "\<not> receiving s \<Longrightarrow> UDPServerRecvThread rs s = Some s"
  by (cases "(rs, s)" rule: UDPServerRecvThread.cases) auto

text \<open>What the receive thread queues is every datagram up to, and not including, the first call of
  \<open>recvfrom\<close> that returns no bytes; a failed call or a single empty datagram ends the thread, and what arrives
  after it is never received.\<close>

theorem receiver_stops_at_empty:
  assumes "receiving s"
  shows "\<exists>s'. UDPServerRecvThread rs s = Some s' \<and>
    recv_data_queue s' = recv_data_queue s @ map snd (takeWhile (\<lambda>(n, _). 0 < n) rs) \<and>
    (receiving s' \<longleftrightarrow> (\<forall>(n, _) \<in> set rs. 0 < n)) \<and>
    sk_downloaded_count s' = sk_downloaded_count s + of_int (sum_list (map fst (takeWhile (\<lambda>(n, _). 0 < n) rs)))"
  using assms
proof (induction rs arbitrary: s)
  case (Cons r rs)
  obtain n d where r: "r = (n, d)" by (cases r)
  show ?case
  proof (cases "0 < n")
    case True
    let ?s = "s\<lparr>sk_downloaded_count := sk_downloaded_count s + of_int n, recv_data_queue := recv_data_queue s @ [d]\<rparr>"
    have "UDPServerRecvThread (r # rs) s = UDPServerRecvThread rs ?s"
      using True Cons.prems by (simp add: r socket_recv_round_def atomic_add_def)
    with Cons.IH [of ?s] Cons.prems True r show ?thesis by (auto simp: add.assoc)
  next
    case False
    then have "UDPServerRecvThread (r # rs) s = Some (s\<lparr>receiving := False\<rparr>)"
      using Cons.prems by (simp add: r socket_recv_round_def recv_thread_stopped)
    with False r show ?thesis by auto
  qed
qed auto

theorem receiver_stops_at_empty_witness:
  "\<exists>s'. UDPServerRecvThread [(5, 1), (0, 2), (7, 3)] \<lparr>recv_data_queue = [], sk_downloaded_count = 0, receiving = True, sk_filtered = []\<rparr> = Some s' \<and>
     recv_data_queue s' = [1 :: nat] \<and> \<not> receiving s'"
  using receiver_stops_at_empty [of "\<lparr>recv_data_queue = [] :: nat list, sk_downloaded_count = 0, receiving = True, sk_filtered = []\<rparr>"
      "[(5, 1), (0, 2), (7, 3)]"] by auto

end
