(* ===== verification/TCP_Handler.thy ===== *)
theory TCP_Handler
  imports HDS_Prelude
begin

text \<open>
  One end of a relayed TCP connection (\<open>tysocks/common/TCPHandler.cpp\<close>): what arrives on the socket goes into
  the tunnel behind the connection number, what comes out of the tunnel goes to the socket, through a queue
  while the socket is not writeable.  The socket calls' results are arguments; what the socket has accepted
  is \<open>socket_out\<close>.  The tunnel protocol is a library: the packets given to it are returned as a list.
\<close>

section \<open>State\<close>

abbreviation (input) sp :: nat where
  "sp \<equiv> 4"

record Buffer =
  b_data :: "u8 list"
  wrote_len :: nat

record tcp_handler =
  sfd :: int
  conn_id :: u32
  needSocks5Handshake :: bool
  is_writeable :: bool
  write_queue :: "Buffer list"
  queue_locked :: bool
  io_write_active :: bool
  socket_out :: "u8 list"

definition TCPHandler_new :: "int \<Rightarrow> u32 \<Rightarrow> bool \<Rightarrow> tcp_handler" where
  "TCPHandler_new s idx need = \<lparr>sfd = s, conn_id = idx, needSocks5Handshake = need, is_writeable = True, write_queue = [],
     queue_locked = False, io_write_active = False, socket_out = []\<rparr>"

text \<open>The result of \<open>::send\<close> on the socket: a number of bytes, at most as many as were offered, or a failure,
  which is either a full socket buffer or an error.\<close>

datatype send_result = Written nat | Would_Block | Send_Error

definition accepted :: "send_result \<Rightarrow> u8 list \<Rightarrow> u8 list" where
  "accepted r data = (case r of Written n \<Rightarrow> take n data | _ \<Rightarrow> [])"

section \<open>Operations\<close>

text \<open>A thread that takes \<open>queue_lock\<close> while it is held for good never returns: \<open>None\<close>.\<close>

definition add_queue :: "u8 list \<Rightarrow> tcp_handler \<Rightarrow> tcp_handler option" where
  "add_queue data h = (if queue_locked h then None
     else Some (h\<lparr>write_queue := write_queue h @ [\<lparr>b_data = data, wrote_len = 0\<rparr>]\<rparr>))"

text \<open>\<open>send\<close> first copies \<open>is_writeable\<close> under its lock and then acts on the copy.  The flag of the result tells
  whether it called \<open>shutdown\<close>.\<close>

definition send_act :: "bool \<Rightarrow> send_result \<Rightarrow> u8 list \<Rightarrow> tcp_handler \<Rightarrow> (bool \<times> tcp_handler) option" where
  "send_act writeable r data h =
     (if writeable then (case r of
        Would_Block \<Rightarrow> map_option (\<lambda>h. (False, h\<lparr>io_write_active := True\<rparr>)) (add_queue data (h\<lparr>is_writeable := False\<rparr>))
      | Send_Error \<Rightarrow> Some (True, h)
      | Written n \<Rightarrow>
          let h = h\<lparr>socket_out := socket_out h @ take n data\<rparr>
          in if n < length data
             then map_option (\<lambda>h. (False, h\<lparr>io_write_active := True\<rparr>)) (add_queue (drop n data) (h\<lparr>is_writeable := False\<rparr>))
             else Some (False, h))
      else map_option (\<lambda>h. (False, h)) (add_queue data h))"

definition tcp_send :: "send_result \<Rightarrow> u8 list \<Rightarrow> tcp_handler \<Rightarrow> (bool \<times> tcp_handler) option" where
  "tcp_send r data h = send_act (is_writeable h) r data h"

datatype loop_exit = Drained | Partial | Failed

text \<open>The loop of \<open>write_cb\<close>; \<open>env i\<close> is the result of its \<open>i\<close>th call of \<open>::send\<close>.\<close>

fun write_loop :: "(nat \<Rightarrow> send_result) \<Rightarrow> nat \<Rightarrow> Buffer list \<Rightarrow> u8 list \<Rightarrow> loop_exit \<times> Buffer list \<times> u8 list" where
  "write_loop env i [] out = (Drained, [], out)"
| "write_loop env i (b # q) out = (case env i of
     Written n \<Rightarrow>
       let out = out @ take n (drop (wrote_len b) (b_data b));
           b = b\<lparr>wrote_len := wrote_len b + n\<rparr>
       in if wrote_len b \<noteq> length (b_data b) then (Partial, b # q, out) else write_loop env (Suc i) q out
   | _ \<Rightarrow> (Failed, b # q, out))"

text \<open>The error return of the loop does not release \<open>queue_lock\<close>.\<close>

definition write_cb :: "(nat \<Rightarrow> send_result) \<Rightarrow> tcp_handler \<Rightarrow> tcp_handler option" where
  "write_cb env h = (if queue_locked h then None
     else let (e, q, out) = write_loop env 0 (write_queue h) (socket_out h); h = h\<lparr>write_queue := q, socket_out := out\<rparr>
     in Some (case e of
       Failed \<Rightarrow> h\<lparr>queue_locked := True\<rparr>
     | Partial \<Rightarrow> h
     | Drained \<Rightarrow> h\<lparr>io_write_active := False, is_writeable := True\<rparr>))"

text \<open>The scan for method 0 in a greeting: \<open>None\<close> is a read outside the buffer.\<close>

fun find_method :: "u8 list \<Rightarrow> nat \<Rightarrow> nat \<Rightarrow> bool option" where
  "find_method data i 0 = Some False"
| "find_method data i (Suc n) =
     (if length data \<le> i then None else if data ! i = 0 then Some True else find_method data (Suc i) n)"

definition greeting_reply :: "bool \<Rightarrow> u8 list" where
  "greeting_reply accept = [5, if accept then 0 else 0xFF]"

text \<open>\<open>data\<close> is the buffer of \<open>packet_size - PROTOCOL_ABYTE\<close> bytes after \<open>recv\<close> has stored \<open>nread\<close> bytes behind its
  first four; \<open>r\<close> is the result of sending the answer to a greeting.  The result tells whether the handler
  was shut down, and the packet given to the tunnel, if any.\<close>

definition read_cb :: "send_result \<Rightarrow> int \<Rightarrow> u8 list \<Rightarrow> tcp_handler \<Rightarrow> (bool \<times> u8 list option \<times> tcp_handler) option" where
  "read_cb r nread data h =
     (if nread < 0 then Some (False, None, h)
      else if nread = 0 then Some (True, None, h)
      else if length data < sp + nat nread then None
      else if needSocks5Handshake h \<and> data ! sp = 5 then
        (if length data \<le> sp + 1 then None
         else case find_method data (sp + 2) (unat (data ! (sp + 1))) of
           None \<Rightarrow> None
         | Some accept \<Rightarrow> map_option (\<lambda>(shut, h). (shut \<or> \<not> accept, None, h))
             (tcp_send r (greeting_reply accept) (h\<lparr>needSocks5Handshake := False\<rparr>)))
      else Some (False, Some (take (nat nread + 4) (le_bytes32 (conn_id h) @ drop 4 data)), h))"

text \<open>What the destructor leaves in the tunnel: the connection number alone, which closes the other end.\<close>

definition closing_packet :: "u32 \<Rightarrow> u8 list" where
  "closing_packet idx = le_bytes32 idx"

section \<open>Pipes\<close>

text \<open>A run of a pipe: pieces pushed in at one end, in this order, and any number of pump strokes between.\<close>

inductive pipe_run :: "('b list \<Rightarrow> 's \<Rightarrow> 's \<Rightarrow> bool) \<Rightarrow> ('s \<Rightarrow> 's \<Rightarrow> bool) \<Rightarrow> 'b list list \<Rightarrow> 's \<Rightarrow> 's \<Rightarrow> bool"
  for push :: "'b list \<Rightarrow> 's \<Rightarrow> 's \<Rightarrow> bool" and pump :: "'s \<Rightarrow> 's \<Rightarrow> bool" where
  start: "pipe_run push pump [] s s"
| pushed: "pipe_run push pump ds s t \<Longrightarrow> push d t u \<Longrightarrow> pipe_run push pump (ds @ [d]) s u"
| pumped: "pipe_run push pump ds s t \<Longrightarrow> pump t u \<Longrightarrow> pipe_run push pump ds s u"

text \<open>The contract of a pipe: pushing appends to what has gone through or is still inside, pumping keeps it.\<close>

locale byte_pipe =
  fixes pipe_ok :: "'s \<Rightarrow> bool" and contents :: "'s \<Rightarrow> 'b list"
    and push :: "'b list \<Rightarrow> 's \<Rightarrow> 's \<Rightarrow> bool" and pump :: "'s \<Rightarrow> 's \<Rightarrow> bool"
  assumes push_law: "pipe_ok s \<Longrightarrow> push d s t \<Longrightarrow> pipe_ok t \<and> contents t = contents s @ d"
    and pump_law: "pipe_ok s \<Longrightarrow> pump s t \<Longrightarrow> pipe_ok t \<and> contents t = contents s"
begin

lemma run_contents: "pipe_run push pump ds s t \<Longrightarrow> pipe_ok s \<Longrightarrow> pipe_ok t \<and> contents t = contents s @ concat ds"
  by (induction rule: pipe_run.induct) (auto dest: push_law pump_law)

end

section \<open>The handler as a pipe\<close>

definition queue_bytes :: "Buffer list \<Rightarrow> u8 list" where
  "queue_bytes q = concat (map (\<lambda>b. drop (wrote_len b) (b_data b)) q)"

definition handler_ok :: "tcp_handler \<Rightarrow> bool" where
  "handler_ok h \<longleftrightarrow> (is_writeable h \<longrightarrow> write_queue h = []) \<and> (\<not> is_writeable h \<longrightarrow> io_write_active h)"

definition handler_contents :: "tcp_handler \<Rightarrow> u8 list" where
  "handler_contents h = socket_out h @ queue_bytes (write_queue h)"

text \<open>A socket accepts at most what it is offered.\<close>

fun results_ok :: "(nat \<Rightarrow> send_result) \<Rightarrow> nat \<Rightarrow> Buffer list \<Rightarrow> bool" where
  "results_ok env i [] = True"
| "results_ok env i (b # q) = (case env i of
     Written n \<Rightarrow> n \<le> length (b_data b) - wrote_len b \<and> results_ok env (Suc i) q
   | _ \<Rightarrow> True)"

definition handler_push :: "u8 list \<Rightarrow> tcp_handler \<Rightarrow> tcp_handler \<Rightarrow> bool" where
  "handler_push d h h' \<longleftrightarrow> (\<exists>r. (\<forall>n. r = Written n \<longrightarrow> n \<le> length d) \<and> tcp_send r d h = Some (False, h'))"

definition handler_pump :: "tcp_handler \<Rightarrow> tcp_handler \<Rightarrow> bool" where
  "handler_pump h h' \<longleftrightarrow> io_write_active h \<and> (\<exists>env. results_ok env 0 (write_queue h) \<and> write_cb env h = Some h')"

lemma queue_bytes_simps [simp]:
  "queue_bytes [] = []" "queue_bytes (b # q) = drop (wrote_len b) (b_data b) @ queue_bytes q"
  "queue_bytes (q @ q') = queue_bytes q @ queue_bytes q'"
  by (simp_all add: queue_bytes_def)

lemma write_loop_bytes:
  "results_ok env i q \<Longrightarrow> write_loop env i q out = (e, q', out') \<Longrightarrow>
     out' @ queue_bytes q' = out @ queue_bytes q \<and> (e = Drained \<longrightarrow> q' = []) \<and> (q = [] \<longrightarrow> e = Drained)"
proof (induction env i q out arbitrary: e q' out' rule: write_loop.induct)
  case (2 env i b q out)
  show ?case
  proof (cases "env i")
    case (Written n)
    let ?out = "out @ take n (drop (wrote_len b) (b_data b))"
    have split: "take n (drop (wrote_len b) (b_data b)) @ drop (wrote_len b + n) (b_data b) = drop (wrote_len b) (b_data b)"
      by (metis add.commute append_take_drop_id drop_drop)
    show ?thesis
    proof (cases "wrote_len b + n = length (b_data b)")
      case True
      have "out' @ queue_bytes q' = ?out @ queue_bytes q \<and> (e = Drained \<longrightarrow> q' = [])"
        using "2.IH" [OF Written refl refl, of e q' out'] "2.prems" Written True by simp
      moreover have "drop (wrote_len b) (b_data b) = take n (drop (wrote_len b) (b_data b))" using split True by simp
      ultimately show ?thesis by simp
    next
      case False
      then show ?thesis using "2.prems" Written split by auto
    qed
  qed (use "2.prems" in auto)
qed auto

lemma push_contents: "handler_ok h \<Longrightarrow> handler_push d h h' \<Longrightarrow> handler_ok h' \<and> handler_contents h' = handler_contents h @ d"
proof (cases "is_writeable h")
  case True
  assume ok: "handler_ok h" and "handler_push d h h'"
  then obtain r where r: "\<And>n. r = Written n \<Longrightarrow> n \<le> length d" "send_act True r d h = Some (False, h')"
    using True by (auto simp: handler_push_def tcp_send_def)
  then show ?thesis using ok True
    by (cases r) (auto simp: send_act_def add_queue_def handler_ok_def handler_contents_def Let_def split: if_splits)
next
  case False
  assume "handler_ok h" "handler_push d h h'"
  with False show ?thesis
    by (auto simp: handler_push_def tcp_send_def send_act_def add_queue_def handler_ok_def handler_contents_def split: if_splits)
qed

lemma pump_contents: "handler_ok h \<Longrightarrow> handler_pump h h' \<Longrightarrow> handler_ok h' \<and> handler_contents h' = handler_contents h"
  using write_loop_bytes [of _ 0 "write_queue h" "socket_out h"]
  by (auto simp: handler_pump_def write_cb_def handler_ok_def handler_contents_def Let_def split: if_splits loop_exit.splits prod.splits)

interpretation handler: byte_pipe handler_ok handler_contents handler_push handler_pump
  by unfold_locales (use push_contents pump_contents in blast)+

lemma handler_new_ok [simp]: "handler_ok (TCPHandler_new sd i need)" "handler_contents (TCPHandler_new sd i need) = []"
  by (simp_all add: handler_ok_def handler_contents_def TCPHandler_new_def)

lemma find_method_scan:
  assumes "i + n \<le> length data"
  shows "find_method data i n = Some (0 \<in> set (take n (drop i data)))"
  using assms
proof (induction n arbitrary: i)
  case (Suc n)
  have "take (Suc n) (drop i data) = data ! i # take n (drop (Suc i) data)"
    using Suc.prems by (metis Cons_nth_drop_Suc add_Suc_right less_eq_Suc_le le_add1 le_trans not_less_eq_eq take_Suc_Cons Suc_le_lessD add_leD1)
  then show ?case using Suc.IH [of "Suc i"] Suc.prems by auto
qed simp

lemma greeting_read:
  assumes "is_writeable h" "length methods < 256" "length g = 4" "needSocks5Handshake h"
  shows "read_cb (Written 2) (int (length methods) + 2) (g @ [5, of_nat (length methods)] @ methods @ rest) h =
    Some (0 \<notin> set methods, None, h\<lparr>needSocks5Handshake := False, socket_out := socket_out h @ [5, if 0 \<in> set methods then 0 else 0xFF]\<rparr>)"
proof -
  let ?d = "g @ [5, of_nat (length methods)] @ methods @ rest"
  have at: "?d ! 4 = 5" "?d ! 5 = of_nat (length methods)" "drop 6 ?d = methods @ rest"
    using assms(3) by (simp_all add: nth_append)
  have n: "unat (of_nat (length methods) :: u8) = length methods" using assms(2) by (simp add: unat_of_nat)
  have f: "find_method ?d 6 (length methods) = Some (0 \<in> set methods)"
    using find_method_scan [of 6 "length methods" ?d] at(3) assms(3) by simp
  have long: "nat (int (length methods) + 2) = length methods + 2" by simp
  show ?thesis using at n f assms unfolding read_cb_def long
    by (auto simp: greeting_reply_def tcp_send_def send_act_def)
qed

lemma data_read:
  assumes "length g = 4" "x \<noteq> 5 \<or> \<not> needSocks5Handshake h"
  shows "read_cb r (int (length body) + 1) (g @ x # body @ rest) h = Some (False, Some (le_bytes32 (conn_id h) @ x # body), h)"
proof -
  have len: "nat (int (length body) + 1) = length body + 1" by simp
  show ?thesis using assms unfolding read_cb_def len by (auto simp: nth_append)
qed

section \<open>Properties\<close>

text \<open>Order on the way to the socket: when the operations of a handler do not overlap, what the socket has
  accepted followed by what is still queued is what was given to \<open>send\<close>, byte for byte and in order, over
  any pattern of partial writes and full socket buffers; whenever the handler counts as writeable, the
  socket has accepted all of it.\<close>

theorem handler_order:
  assumes "pipe_run handler_push handler_pump ds (TCPHandler_new sd i need) h"
  shows "socket_out h @ queue_bytes (write_queue h) = concat ds \<and> (is_writeable h \<longrightarrow> socket_out h = concat ds)"
  using handler.run_contents [OF assms handler_new_ok(1)] unfolding handler_new_ok(2)
  by (auto simp: handler_ok_def handler_contents_def)

theorem handler_order_witness:
  "\<exists>h. pipe_run handler_push handler_pump [[1, 2, 3], [4]] (TCPHandler_new 5 9 False) h \<and> socket_out h = [1] \<and>
     socket_out h @ queue_bytes (write_queue h) = [1, 2, 3, 4]"
proof -
  let ?h0 = "TCPHandler_new 5 9 False"
  let ?h1 = "?h0\<lparr>socket_out := [1], is_writeable := False, write_queue := [\<lparr>b_data = [2, 3], wrote_len = 0\<rparr>], io_write_active := True\<rparr>"
  let ?h2 = "?h1\<lparr>write_queue := [\<lparr>b_data = [2, 3], wrote_len = 0\<rparr>, \<lparr>b_data = [4], wrote_len = 0\<rparr>]\<rparr>"
  have "handler_push [1, 2, 3] ?h0 ?h1" unfolding handler_push_def
    by (rule exI [of _ "Written 1"]) (simp add: tcp_send_def send_act_def add_queue_def TCPHandler_new_def)
  moreover have "handler_push [4] ?h1 ?h2" unfolding handler_push_def
    by (rule exI [of _ Would_Block]) (simp add: tcp_send_def send_act_def add_queue_def TCPHandler_new_def)
  ultimately have run: "pipe_run handler_push handler_pump [[1, 2, 3], [4]] ?h0 ?h2"
    using pipe_run.pushed [OF pipe_run.pushed [OF pipe_run.start], of handler_push "[1, 2, 3]" ?h0 ?h1 "[4]" ?h2] by simp
  with handler_order [OF run] show ?thesis by (intro exI [of _ ?h2]) simp
qed

text \<open>Overlapping operations do break the order.  A thread that sends has copied \<open>is_writeable = False\<close>;
  before it queues its data the event loop drains the queue, stops watching the socket and sets the
  handler writeable again.  The data is then queued with nobody left to write it, and the next data
  overtakes it.\<close>

theorem handler_send_race:
  "\<exists>h1 h2 h3 h4. tcp_send (Written 1) [1, 2] (TCPHandler_new 5 9 False) = Some (False, h1) \<and>
     \<not> is_writeable h1 \<and>
     write_cb (\<lambda>_. Written 1) h1 = Some h2 \<and>
     send_act False (Written 1) [3] h2 = Some (False, h3) \<and> \<not> io_write_active h3 \<and>
     tcp_send (Written 1) [4] h3 = Some (False, h4) \<and> socket_out h4 = [1, 2, 4] \<and> queue_bytes (write_queue h4) = [3]"
  by (simp add: TCPHandler_new_def tcp_send_def send_act_def add_queue_def write_cb_def)

text \<open>When the socket refuses a queued buffer, \<open>write_cb\<close> returns without releasing the queue lock: from
  then on neither another write event nor any \<open>send\<close> on this handler ever returns.\<close>

theorem write_error_blocks_forever:
  assumes "\<not> queue_locked h" "handler_ok h" "write_queue h \<noteq> []" "env 0 = Would_Block \<or> env 0 = Send_Error"
  shows "\<exists>h'. write_cb env h = Some h' \<and> (\<forall>env'. write_cb env' h' = None) \<and> (\<forall>r data. tcp_send r data h' = None)"
proof -
  obtain b q where "write_queue h = b # q" using assms(3) by (cases "write_queue h") auto
  moreover have "\<not> is_writeable h" using assms(2,3) by (auto simp: handler_ok_def)
  ultimately show ?thesis
    using assms(1,4) by (auto simp: write_cb_def tcp_send_def send_act_def add_queue_def)
qed

definition blocked_handler :: tcp_handler where
  "blocked_handler = (TCPHandler_new 5 9 False)\<lparr>is_writeable := False, io_write_active := True,
     write_queue := [\<lparr>b_data = [2], wrote_len = 0\<rparr>]\<rparr>"

theorem write_error_blocks_forever_witness:
  "\<exists>h'. write_cb (\<lambda>_. Would_Block) blocked_handler = Some h' \<and> (\<forall>r data. tcp_send r data h' = None)"
proof -
  have "\<not> queue_locked blocked_handler" "handler_ok blocked_handler" "write_queue blocked_handler \<noteq> []"
    by (simp_all add: blocked_handler_def TCPHandler_new_def handler_ok_def)
  from write_error_blocks_forever [OF this, of "\<lambda>_. Would_Block"] show ?thesis by blast
qed

text \<open>The SOCKS5 greeting: a complete greeting is answered with method 0 exactly when the client offers it,
  and otherwise with FF and a closed connection; it is never relayed.  Any other data is relayed unchanged
  behind the connection number.\<close>

theorem socks5_greeting:
  assumes "is_writeable h" "length methods < 256" "length g = 4"
  shows "(needSocks5Handshake h \<longrightarrow>
      read_cb (Written 2) (int (length methods) + 2) (g @ [5, of_nat (length methods)] @ methods @ rest) h =
        Some (0 \<notin> set methods, None, h\<lparr>needSocks5Handshake := False, socket_out := socket_out h @ [5, if 0 \<in> set methods then 0 else 0xFF]\<rparr>)) \<and>
    (x \<noteq> 5 \<or> \<not> needSocks5Handshake h \<longrightarrow>
      read_cb r (int (length body) + 1) (g @ x # body @ rest) h = Some (False, Some (le_bytes32 (conn_id h) @ x # body), h))"
  using greeting_read [OF assms] data_read [OF assms(3)] by blast

theorem socks5_greeting_witness:
  "read_cb (Written 2) 4 [0, 0, 0, 0, 5, 2, 1, 0] (TCPHandler_new 5 9 True) =
     Some (False, None, (TCPHandler_new 5 9 True)\<lparr>needSocks5Handshake := False, socket_out := [5, 0]\<rparr>)"
  using socks5_greeting [of "TCPHandler_new 5 9 True" "[1, 0]" "[0, 0, 0, 0]" "[]"] by (simp add: TCPHandler_new_def)

end
