(* ===== verification/Socks5_Server.thy ===== *)
theory Socks5_Server
  imports TCP_Handler "HOL-Library.Monad_Syntax"
begin

text \<open>
  The server end of the tunnel (\<open>tysocks/server/S5Server.cpp\<close>, \<open>Connector.cpp\<close>): packets from the tunnel are
  dispatched by connection number to handlers; a SOCKS5 request on a number without handler makes a
  connector, which resolves, connects, answers and on success installs a handler.  Connectors live in a heap
  by address.  System calls and the resolver are arguments.
\<close>

section \<open>State\<close>

datatype addr_family = AF_INET | AF_INET6 | AF_OTHER

text \<open>A filled-in address, and the size of its structure.\<close>

datatype sockaddr = Sockaddr_In "u8 list" u16 | Sockaddr_In6 "u8 list" u16

fun sockaddr_size :: "sockaddr \<Rightarrow> nat" where
  "sockaddr_size (Sockaddr_In ip port) = 16"
| "sockaddr_size (Sockaddr_In6 ip port) = 28"

fun sockaddr_family :: "sockaddr \<Rightarrow> addr_family" where
  "sockaddr_family (Sockaddr_In ip port) = AF_INET"
| "sockaddr_family (Sockaddr_In6 ip port) = AF_INET6"

abbreviation (input) sizeof_sockaddr :: nat where "sizeof_sockaddr \<equiv> 16"

text \<open>A connector with its two watchers, on the socket and on the clock.\<close>

record connector =
  connid :: u32
  c_fd :: int
  hasCallback :: bool
  s_port :: u16
  io_on :: bool
  timer_on :: bool

text \<open>The seven parameters of the tunnel's queues that a client can set.\<close>

record sock_opts =
  window_size :: u32
  resend_delay :: u32
  speed_limit :: u32
  max_resend_timeout :: u32
  ack_send_delay :: u32
  sack_send_delay :: u32
  sack_threshold :: u32

text \<open>The last four fields: the descriptors that are open, and as histories the calls of \<open>connect\<close> (descriptor,
  address, length), the calls of \<open>getAddrInfoAsync\<close> (connector, name), and the statuses each connector has sent.\<close>

record s5_server =
  max_conn :: nat
  conn_list :: "nat \<Rightarrow> tcp_handler option"
  tunnel :: "u8 list list"
  sock_opt :: sock_opts
  connectors :: "nat \<Rightarrow> connector option"
  next_connector :: nat
  open_fds :: "int set"
  connects :: "(int \<times> sockaddr \<times> nat) list"
  lookups :: "(nat \<times> u8 list) list"
  answered :: "nat \<Rightarrow> u8 list"

abbreviation (input) SREP_SUCCESS :: u8 where "SREP_SUCCESS \<equiv> 0"
abbreviation (input) SREP_GENEIC_FAILURE :: u8 where "SREP_GENEIC_FAILURE \<equiv> 1"
abbreviation (input) SREP_CONNECTION_REFUSED :: u8 where "SREP_CONNECTION_REFUSED \<equiv> 5"
abbreviation (input) SREP_TIMED_OUT :: u8 where "SREP_TIMED_OUT \<equiv> 6"
abbreviation (input) SREP_UNSUPPORTED_ADDRTYPE :: u8 where "SREP_UNSUPPORTED_ADDRTYPE \<equiv> 8"

datatype connect_result = Connected | In_Progress | Connect_Failed

text \<open>What the system answers: the descriptor of a new socket or none, the result of \<open>connect\<close> for an address and a
  length, and the address \<open>inet_pton\<close> reads from a text.\<close>

record connect_env =
  socket_fd :: "addr_family \<Rightarrow> nat option"
  connect_rv :: "sockaddr \<Rightarrow> nat \<Rightarrow> connect_result"
  pton :: "addr_family \<Rightarrow> u8 list \<Rightarrow> u8 list option"

section \<open>The connector\<close>

definition close_connection :: "u32 \<Rightarrow> s5_server \<Rightarrow> s5_server" where
  "close_connection i s = s\<lparr>tunnel := tunnel s @ [le_bytes32 i]\<rparr>"

definition reply_packet :: "u32 \<Rightarrow> u8 \<Rightarrow> u8 list" where
  "reply_packet i status = le_bytes32 i @ [5, status, 0, 1, 0, 0, 0, 0, 0, 0]"

definition replyStatus :: "nat \<Rightarrow> u8 \<Rightarrow> s5_server \<Rightarrow> s5_server option" where
  "replyStatus k status s = do {
     c \<leftarrow> connectors s k;
     Some (s\<lparr>tunnel := tunnel s @ [reply_packet (connid c) status], answered := (answered s)(k := answered s k @ [status])\<rparr>) }"

text \<open>Deleting a connector destroys its watchers, which stops them.\<close>

definition delete_connector :: "nat \<Rightarrow> s5_server \<Rightarrow> s5_server" where
  "delete_connector k s = s\<lparr>connectors := (connectors s)(k := None)\<rparr>"

definition with_connector :: "nat \<Rightarrow> (connector \<Rightarrow> connector) \<Rightarrow> s5_server \<Rightarrow> s5_server option" where
  "with_connector k f s = map_option (\<lambda>c. s\<lparr>connectors := (connectors s)(k := Some (f c))\<rparr>) (connectors s k)"

definition watch_io :: "bool \<Rightarrow> nat \<Rightarrow> s5_server \<Rightarrow> s5_server option" where
  "watch_io on k = with_connector k (\<lambda>c. c\<lparr>io_on := on\<rparr>)"

definition watch_timer :: "bool \<Rightarrow> nat \<Rightarrow> s5_server \<Rightarrow> s5_server option" where
  "watch_timer on k = with_connector k (\<lambda>c. c\<lparr>timer_on := on\<rparr>)"

definition close_fd :: "nat \<Rightarrow> s5_server \<Rightarrow> s5_server option" where
  "close_fd k s = map_option (\<lambda>c. s\<lparr>open_fds := open_fds s - {c_fd c}\<rparr>) (connectors s k)"

text \<open>The common end of the failing paths: answer, close, delete.\<close>

definition give_up :: "nat \<Rightarrow> u8 \<Rightarrow> s5_server \<Rightarrow> s5_server option" where
  "give_up k status s = do {
     c \<leftarrow> connectors s k;
     s \<leftarrow> replyStatus k status s;
     Some (delete_connector k (close_connection (connid c) s)) }"

text \<open>\<open>TCPHandler::shutdown\<close> takes the handler out of the list; its destructor sends the closing packet.\<close>

definition shutdown :: "nat \<Rightarrow> s5_server \<Rightarrow> s5_server" where
  "shutdown i s = (case conn_list s i of None \<Rightarrow> s
     | Some h \<Rightarrow> s\<lparr>conn_list := (conn_list s)(i := None), tunnel := tunnel s @ [closing_packet (conn_id h)]\<rparr>)"

text \<open>The connector itself is not deleted on success.\<close>

definition createTCPHandler :: "nat \<Rightarrow> s5_server \<Rightarrow> s5_server option" where
  "createTCPHandler k s = do {
     c \<leftarrow> connectors s k;
     let s = shutdown (unat (connid c)) s;
     s \<leftarrow> replyStatus k SREP_SUCCESS s;
     Some (s\<lparr>conn_list := (conn_list s)(unat (connid c) := Some (TCPHandler_new (c_fd c) (connid c) False))\<rparr>) }"

definition connectSockaddr :: "connect_env \<Rightarrow> nat \<Rightarrow> sockaddr \<Rightarrow> nat \<Rightarrow> s5_server \<Rightarrow> s5_server option" where
  "connectSockaddr env k addr addrlen s = do {
     c \<leftarrow> connectors s k;
     let s = s\<lparr>connects := connects s @ [(c_fd c, addr, addrlen)]\<rparr>;
     case connect_rv env addr addrlen of
       Connect_Failed \<Rightarrow> give_up k SREP_GENEIC_FAILURE s
     | Connected \<Rightarrow> createTCPHandler k s
     | In_Progress \<Rightarrow> do { s \<leftarrow> watch_io True k s; watch_timer True k s } }"

text \<open>Without a socket the connection is closed unanswered; the flag tells whether there is one.\<close>

definition setupFd :: "connect_env \<Rightarrow> nat \<Rightarrow> addr_family \<Rightarrow> s5_server \<Rightarrow> (bool \<times> s5_server) option" where
  "setupFd env k af s = do {
     c \<leftarrow> connectors s k;
     case socket_fd env af of
       None \<Rightarrow> Some (False, delete_connector k (close_connection (connid c) s))
     | Some n \<Rightarrow> do {
         s \<leftarrow> with_connector k (\<lambda>c. c\<lparr>c_fd := int n\<rparr>) s;
         Some (True, s\<lparr>open_fds := insert (int n) (open_fds s)\<rparr>) } }"

text \<open>\<open>setupFd\<close> for the family of an address, and \<open>connect\<close> to it with the given length.\<close>

definition setup_and_connect :: "connect_env \<Rightarrow> nat \<Rightarrow> sockaddr \<Rightarrow> nat \<Rightarrow> s5_server \<Rightarrow> s5_server option" where
  "setup_and_connect env k addr addrlen s = do {
     (ok, s) \<leftarrow> setupFd env k (sockaddr_family addr) s;
     if ok then connectSockaddr env k addr addrlen s else Some s }"

definition connectV4 :: "connect_env \<Rightarrow> nat \<Rightarrow> u8 list \<Rightarrow> u16 \<Rightarrow> s5_server \<Rightarrow> s5_server option" where
  "connectV4 env k ip port s = (let addr = Sockaddr_In ip port in setup_and_connect env k addr (sockaddr_size addr) s)"

definition connectV6 :: "connect_env \<Rightarrow> nat \<Rightarrow> u8 list \<Rightarrow> u16 \<Rightarrow> s5_server \<Rightarrow> s5_server option" where
  "connectV6 env k ip port s = (let addr = Sockaddr_In6 ip port in setup_and_connect env k addr (sockaddr_size addr) s)"

text \<open>A name is a C string: it ends at its first zero byte.  With a colon it is tried as an IPv6 address, else as an
  IPv4 address.\<close>

definition c_string :: "u8 list \<Rightarrow> u8 list" where
  "c_string d = takeWhile (\<lambda>c. c \<noteq> 0) d"

definition str2ip :: "connect_env \<Rightarrow> u8 list \<Rightarrow> u16 \<Rightarrow> sockaddr option" where
  "str2ip env ip port =
     (if 58 \<in> set ip then map_option (\<lambda>a. Sockaddr_In6 a port) (pton env AF_INET6 ip)
      else map_option (\<lambda>a. Sockaddr_In a port) (pton env AF_INET ip))"

text \<open>An address given as a name is passed with the size of \<open>sockaddr\<close>, whatever its family.\<close>

definition connectDomain :: "connect_env \<Rightarrow> nat \<Rightarrow> u8 list \<Rightarrow> u16 \<Rightarrow> s5_server \<Rightarrow> s5_server option" where
  "connectDomain env k domain port s = do {
     s \<leftarrow> with_connector k (\<lambda>c. c\<lparr>s_port := port, hasCallback := False\<rparr>) s;
     case str2ip env (c_string domain) port of
       Some addr \<Rightarrow> setup_and_connect env k addr sizeof_sockaddr s
     | None \<Rightarrow> Some (s\<lparr>lookups := lookups s @ [(k, c_string domain)]\<rparr>) }"

text \<open>The callback of the resolver; only the first call acts.\<close>

definition dnsresp :: "connect_env \<Rightarrow> nat \<Rightarrow> (addr_family \<times> u8 list) list \<Rightarrow> s5_server \<Rightarrow> s5_server option" where
  "dnsresp env k results s = do {
     c \<leftarrow> connectors s k;
     if hasCallback c then Some s
     else do {
       s \<leftarrow> with_connector k (\<lambda>c. c\<lparr>hasCallback := True\<rparr>) s;
       case results of
         [] \<Rightarrow> give_up k SREP_UNSUPPORTED_ADDRTYPE s
       | (af, ip) # _ \<Rightarrow>
           if af = AF_INET then connectV4 env k ip (s_port c) s
           else if af = AF_INET6 then connectV6 env k ip (s_port c) s
           else give_up k SREP_UNSUPPORTED_ADDRTYPE s } }"

definition connector_timeout :: "nat \<Rightarrow> s5_server \<Rightarrow> s5_server option" where
  "connector_timeout k s = do {
     s \<leftarrow> watch_io False k s;
     s \<leftarrow> watch_timer False k s;
     s \<leftarrow> close_fd k s;
     give_up k SREP_TIMED_OUT s }"

definition connector_callback :: "int \<Rightarrow> nat \<Rightarrow> s5_server \<Rightarrow> s5_server option" where
  "connector_callback err k s = do {
     s \<leftarrow> watch_io False k s;
     s \<leftarrow> watch_timer False k s;
     if err \<noteq> 0 then do { s \<leftarrow> close_fd k s; give_up k SREP_CONNECTION_REFUSED s }
     else createTCPHandler k s }"

section \<open>The server\<close>

text \<open>\<open>CFG\<close> packets set seven parameters of the tunnel, read without looking at the length.\<close>

definition apply_sock_opt :: "u8 list \<Rightarrow> s5_server \<Rightarrow> s5_server option" where
  "apply_sock_opt data s = (if length data < 32 then None
     else let winsize = le_word32 (drop 4 data);
              rsnddelay = le_word32 (drop 8 data);
              speedlimit = le_word32 (drop 12 data);
              ackdelay = le_word32 (drop 16 data);
              sackdelay = le_word32 (drop 20 data);
              sackthreshold = le_word32 (drop 24 data);
              resendTimeout = le_word32 (drop 28 data)
          in Some (s\<lparr>sock_opt := (sock_opt s)\<lparr>window_size := winsize, resend_delay := rsnddelay, speed_limit := speedlimit,
               max_resend_timeout := resendTimeout, ack_send_delay := ackdelay, sack_send_delay := sackdelay,
               sack_threshold := sackthreshold\<rparr>\<rparr>))"

definition process_control_packet :: "u8 list \<Rightarrow> s5_server \<Rightarrow> s5_server option" where
  "process_control_packet buf s =
     (if length buf < 3 then None
      else if buf ! 0 = 67 \<and> buf ! 1 = 70 \<and> buf ! 2 = 71 then apply_sock_opt buf s
      else Some s)"

text \<open>A new connector; the fields its constructor leaves open are set before they are read.\<close>

definition new_connector :: "u32 \<Rightarrow> s5_server \<Rightarrow> nat \<times> s5_server" where
  "new_connector i s = (next_connector s, s\<lparr>next_connector := next_connector s + 1,
     connectors := (connectors s)(next_connector s := Some \<lparr>connid = i, c_fd = - 1, hasCallback = False, s_port = 0,
       io_on = False, timer_on = False\<rparr>)\<rparr>)"

text \<open>Reading a byte range of the packet; outside it is undefined.\<close>

definition read_bytes :: "u8 list \<Rightarrow> nat \<Rightarrow> nat \<Rightarrow> u8 list option" where
  "read_bytes buf i n = (if length buf < i + n then None else Some (take n (drop i buf)))"

definition read_port :: "u8 list \<Rightarrow> nat \<Rightarrow> u16 option" where
  "read_port buf i = map_option le_word16 (read_bytes buf i 2)"

text \<open>The branch of \<open>on_data\<close> for a SOCKS5 request.\<close>

definition socks5_request :: "connect_env \<Rightarrow> u32 \<Rightarrow> u8 list \<Rightarrow> s5_server \<Rightarrow> s5_server option" where
  "socks5_request env i buf s = do {
     cmd \<leftarrow> read_bytes buf (sp + 1) 1;
     if cmd \<noteq> [1] then Some (close_connection i s)
     else do {
       let (k, s) = new_connector i s;
       atype \<leftarrow> read_bytes buf (sp + 3) 1;
       if atype = [1] then do {
         ip \<leftarrow> read_bytes buf (sp + 4) 4;
         port \<leftarrow> read_port buf (sp + 8);
         connectV4 env k ip port s }
       else if atype = [3] then do {
         domainlen \<leftarrow> read_bytes buf (sp + 4) 1;
         let n = unat (domainlen ! 0);
         domain \<leftarrow> read_bytes buf (sp + 5) n;
         port \<leftarrow> read_port buf (sp + 5 + n);
         connectDomain env k domain port s }
       else if atype = [4] then do {
         ip \<leftarrow> read_bytes buf (sp + 4) 16;
         port \<leftarrow> read_port buf (sp + 20);
         connectV6 env k ip port s }
       else Some (close_connection i (delete_connector k s)) } }"

text \<open>\<open>on_data\<close>; \<open>r\<close> is the result of the socket's \<open>::send\<close>.  A number outside the list is undefined.\<close>

definition on_data :: "connect_env \<Rightarrow> send_result \<Rightarrow> u8 list \<Rightarrow> s5_server \<Rightarrow> s5_server option" where
  "on_data env r buf s = do {
     idb \<leftarrow> read_bytes buf 0 4;
     let i = le_word32 idb;
     if i <s 0 then process_control_packet buf s
     else if max_conn s \<le> unat i then None
     else (case conn_list s (unat i) of
       Some h \<Rightarrow>
         if length buf = sp then Some (shutdown (unat i) s)
         else do {
           (shut, h) \<leftarrow> tcp_send r (drop sp buf) h;
           let s = s\<lparr>conn_list := (conn_list s)(unat i := Some h)\<rparr>;
           Some (if shut then shutdown (unat i) s else s) }
     | None \<Rightarrow>
         if length buf = sp then Some s
         else if buf ! sp = 5 then socks5_request env i buf s
         else Some s) }"

text \<open>The read event of a handler's socket: its \<open>read_cb\<close>, its packet to the tunnel, its shutdown.\<close>

definition server_read :: "send_result \<Rightarrow> int \<Rightarrow> u8 list \<Rightarrow> nat \<Rightarrow> s5_server \<Rightarrow> s5_server option" where
  "server_read r nread data i s = do {
     h \<leftarrow> conn_list s i;
     (shut, pkt, h) \<leftarrow> read_cb r nread data h;
     let s = s\<lparr>conn_list := (conn_list s)(i := Some h), tunnel := tunnel s @ (case pkt of None \<Rightarrow> [] | Some p \<Rightarrow> [p])\<rparr>;
     Some (if shut then shutdown i s else s) }"

text \<open>The constructor: the list is what \<open>malloc\<close> left in memory, the parameters are those of the tunnel library.\<close>

definition S5Server_new :: "(nat \<Rightarrow> tcp_handler option) \<Rightarrow> sock_opts \<Rightarrow> nat \<Rightarrow> s5_server" where
  "S5Server_new memory opts n = \<lparr>max_conn = n, conn_list = memory, tunnel = [], sock_opt = opts, connectors = (\<lambda>_. None), next_connector = 0,
     open_fds = {}, connects = [], lookups = [], answered = (\<lambda>_. [])\<rparr>"

definition heartbeat :: "s5_server \<Rightarrow> s5_server" where
  "heartbeat s = s\<lparr>tunnel := tunnel s @ [[0xFF, 0xFF, 0xFF, 0xFF]]\<rparr>"

section \<open>Every connector answers once\<close>

text \<open>Everything that can happen to the server.  The resolver calls back connectors that asked it, perhaps more than
  once; a watcher of a connector runs while it is started.\<close>

inductive s5_step :: "s5_server \<Rightarrow> s5_server \<Rightarrow> bool" where
  packet: "on_data env r buf s = Some s' \<Longrightarrow> s5_step s s'"
| resolved: "k \<in> fst ` set (lookups s) \<Longrightarrow> dnsresp env k results s = Some s' \<Longrightarrow> s5_step s s'"
| expired: "connectors s k = Some c \<Longrightarrow> timer_on c \<Longrightarrow> connector_timeout k s = Some s' \<Longrightarrow> s5_step s s'"
| ready: "connectors s k = Some c \<Longrightarrow> io_on c \<Longrightarrow> connector_callback err k s = Some s' \<Longrightarrow> s5_step s s'"
| written: "conn_list s i = Some h \<Longrightarrow> write_cb e h = Some h' \<Longrightarrow> s5_step s (s\<lparr>conn_list := (conn_list s)(i := Some h')\<rparr>)"
| received: "server_read r nread data i s = Some s' \<Longrightarrow> s5_step s s'"
| beat: "s5_step s (heartbeat s)"

text \<open>A connector waits for the resolver or for its socket, or it has succeeded; one that is gone has not succeeded.\<close>

definition waits :: "s5_server \<Rightarrow> nat \<Rightarrow> bool" where
  "waits s k \<longleftrightarrow> (\<exists>c. connectors s k = Some c \<and> k \<in> fst ` set (lookups s) \<and> \<not> hasCallback c)"

fun answer_at :: "connector option \<Rightarrow> bool \<Rightarrow> u8 list \<Rightarrow> bool" where
  "answer_at None asked as = (length as \<le> 1 \<and> SREP_SUCCESS \<notin> set as)"
| "answer_at (Some c) asked as = (io_on c = timer_on c \<and> \<not> (io_on c \<and> asked \<and> \<not> hasCallback c) \<and>
     as = (if io_on c \<or> asked \<and> \<not> hasCallback c then [] else [SREP_SUCCESS]))"

definition answer_ok :: "s5_server \<Rightarrow> nat \<Rightarrow> bool" where
  "answer_ok s k = answer_at (connectors s k) (k \<in> fst ` set (lookups s)) (answered s k)"

definition numbers_ok :: "s5_server \<Rightarrow> bool" where
  "numbers_ok s \<longleftrightarrow> (\<forall>k \<ge> next_connector s. connectors s k = None \<and> answered s k = []) \<and> (\<forall>(k, d) \<in> set (lookups s). k < next_connector s)"

definition answers_inv :: "s5_server \<Rightarrow> bool" where
  "answers_inv s \<longleftrightarrow> numbers_ok s \<and> (\<forall>k. answer_ok s k)"

text \<open>In the middle of an operation connector \<open>k\<close> waits for nothing and has not answered; all others are in order.\<close>

definition open_at :: "nat \<Rightarrow> s5_server \<Rightarrow> bool" where
  "open_at k s \<longleftrightarrow> numbers_ok s \<and> (\<forall>j. j \<noteq> k \<longrightarrow> answer_ok s j) \<and> k < next_connector s \<and> answered s k = [] \<and> \<not> waits s k \<and>
     (\<exists>c. connectors s k = Some c \<and> \<not> io_on c \<and> \<not> timer_on c)"

text \<open>The parts of the state the invariant is about.\<close>

definition same_answers :: "s5_server \<Rightarrow> s5_server \<Rightarrow> bool" where
  "same_answers s s' \<longleftrightarrow> connectors s' = connectors s \<and> next_connector s' = next_connector s \<and> lookups s' = lookups s \<and> answered s' = answered s"

lemma same_answers_inv: "same_answers s s' \<Longrightarrow> answers_inv s' = answers_inv s \<and> open_at k s' = open_at k s"
  by (simp add: same_answers_def answers_inv_def open_at_def numbers_ok_def answer_ok_def waits_def)

lemma same_answers_simps [simp]:
  "same_answers s (s\<lparr>conn_list := x\<rparr>)" "same_answers s (s\<lparr>tunnel := y\<rparr>)" "same_answers s (shutdown i s)"
  "same_answers s (close_connection j s)" "same_answers s (heartbeat s)" "same_answers s (s\<lparr>connects := z\<rparr>)"
  "same_answers s (s\<lparr>open_fds := f\<rparr>)" "same_answers s (s\<lparr>sock_opt := g\<rparr>)" "same_answers s s"
  by (auto simp: same_answers_def shutdown_def close_connection_def heartbeat_def split: option.splits)

lemma same_answers_trans: "same_answers s t \<Longrightarrow> same_answers t u \<Longrightarrow> same_answers s u"
  by (simp add: same_answers_def)

lemma shutdown_frame [simp]:
  "connectors (shutdown i s) = connectors s" "next_connector (shutdown i s) = next_connector s" "lookups (shutdown i s) = lookups s"
  "answered (shutdown i s) = answered s" "max_conn (shutdown i s) = max_conn s" "connects (shutdown i s) = connects s"
  by (auto simp: shutdown_def split: option.splits)

text \<open>How an open connector is closed: deleted, started, handed to the resolver, or successful.\<close>

lemma answers_inv_at:
  assumes "open_at k s" "answer_ok s' k" "\<forall>j. j \<noteq> k \<longrightarrow> connectors s' j = connectors s j \<and> answered s' j = answered s j"
    "next_connector s' = next_connector s" "set (lookups s') \<subseteq> insert (k, d) (set (lookups s))" "set (lookups s) \<subseteq> set (lookups s')"
  shows "answers_inv s'"
proof -
  have "answer_ok s' j" if "j \<noteq> k" for j
  proof -
    have "j \<in> fst ` set (lookups s') \<longleftrightarrow> j \<in> fst ` set (lookups s)" using assms(5,6) that by force
    then show ?thesis using assms(1,3) that by (simp add: open_at_def answer_ok_def)
  qed
  moreover have "numbers_ok s'" using assms by (fastforce simp: open_at_def numbers_ok_def)
  ultimately show ?thesis using assms(2) by (metis answers_inv_def)
qed

lemma give_up_inv:
  assumes "open_at k s" "status \<noteq> SREP_SUCCESS" "give_up k status s = Some s'"
  shows "answers_inv s'"
  by (rule answers_inv_at [OF assms(1), where d = "[]"])
    (use assms in \<open>auto simp: open_at_def answer_ok_def give_up_def replyStatus_def delete_connector_def close_connection_def bind_eq_Some_conv\<close>)

lemma create_inv:
  assumes "open_at k s" "createTCPHandler k s = Some s'"
  shows "answers_inv s'"
  by (rule answers_inv_at [OF assms(1), where d = "[]"])
    (use assms in \<open>auto simp: open_at_def answer_ok_def waits_def createTCPHandler_def replyStatus_def bind_eq_Some_conv Let_def\<close>)

lemma delete_inv:
  assumes "open_at k s"
  shows "answers_inv (delete_connector k s)"
  by (rule answers_inv_at [OF assms(1), where d = "[]"]) (use assms in \<open>auto simp: open_at_def answer_ok_def delete_connector_def\<close>)

lemma started_inv:
  assumes "open_at k s" "watch_io True k s = Some s1" "watch_timer True k s1 = Some s'"
  shows "answers_inv s'"
  by (rule answers_inv_at [OF assms(1), where d = "[]"])
    (use assms in \<open>auto simp: open_at_def answer_ok_def waits_def watch_io_def watch_timer_def with_connector_def\<close>)

lemma connect_inv:
  assumes "open_at k s" "connectSockaddr env k addr len s = Some s'"
  shows "answers_inv s'"
proof -
  obtain c where c: "connectors s k = Some c" using assms(1) by (auto simp: open_at_def)
  let ?s = "s\<lparr>connects := connects s @ [(c_fd c, addr, len)]\<rparr>"
  have "open_at k ?s" using same_answers_inv [of s ?s k] assms(1) by simp
  then show ?thesis using assms(2) c
    by (cases "connect_rv env addr len") (auto simp: connectSockaddr_def Let_def bind_eq_Some_conv
        intro: give_up_inv [where status = 1] create_inv started_inv)
qed

lemma connector_open:
  assumes "open_at k s" "with_connector k f s = Some s'"
    "\<And>c. io_on (f c) = io_on c \<and> timer_on (f c) = timer_on c \<and> (hasCallback (f c) \<or> \<not> hasCallback c \<or> k \<notin> fst ` set (lookups s))"
  shows "open_at k s'"
proof -
  obtain c where c: "connectors s k = Some c" "s' = s\<lparr>connectors := (connectors s)(k := Some (f c))\<rparr>" "\<not> io_on c" "\<not> timer_on c"
    using assms(1,2) by (auto simp: open_at_def with_connector_def)
  have "answer_ok s' j" if "j \<noteq> k" for j
    using assms(1) c(2) that by (simp add: open_at_def answer_ok_def waits_def)
  moreover have "\<not> waits s' k" using assms(1) assms(3) [of c] c by (auto simp: open_at_def waits_def)
  moreover have "numbers_ok s'" using assms(1) c(2) by (auto simp: open_at_def numbers_ok_def)
  ultimately show ?thesis using assms(1) assms(3) [of c] c by (simp add: open_at_def)
qed

lemma setup_inv:
  assumes "open_at k s" "setup_and_connect env k addr len s = Some s'"
  shows "answers_inv s'"
proof -
  obtain c where c: "connectors s k = Some c" using assms(1) by (auto simp: open_at_def)
  show ?thesis
  proof (cases "socket_fd env (sockaddr_family addr)")
    case None
    have "open_at k (close_connection (connid c) s)" using same_answers_inv [of s "close_connection (connid c) s" k] assms(1) by simp
    from delete_inv [OF this] show ?thesis using assms(2) None c by (simp add: setup_and_connect_def setupFd_def)
  next
    case (Some n)
    obtain s1 where s1: "with_connector k (\<lambda>c. c\<lparr>c_fd := int n\<rparr>) s = Some s1" using c by (simp add: with_connector_def)
    have "open_at k s1" by (rule connector_open [OF assms(1) s1]) simp
    then have "open_at k (s1\<lparr>open_fds := insert (int n) (open_fds s1)\<rparr>)"
      using same_answers_inv [of s1 "s1\<lparr>open_fds := insert (int n) (open_fds s1)\<rparr>" k] by simp
    then show ?thesis using connect_inv assms(2) Some c s1 by (simp add: setup_and_connect_def setupFd_def)
  qed
qed

lemma new_connector_open:
  assumes "answers_inv s" "new_connector i s = (k, s')"
  shows "open_at k s' \<and> k \<notin> fst ` set (lookups s')"
proof -
  have k: "k = next_connector s" "\<forall>j. j \<noteq> k \<longrightarrow> connectors s' j = connectors s j" "next_connector s' = k + 1" "lookups s' = lookups s"
    "answered s' = answered s" "\<exists>c. connectors s' k = Some c \<and> \<not> io_on c \<and> \<not> timer_on c"
    using assms(2) by (auto simp: new_connector_def)
  have unused: "k \<notin> fst ` set (lookups s)" "answered s k = []" using assms(1) k(1) by (auto simp: answers_inv_def numbers_ok_def)
  have "numbers_ok s'" using assms(1) k unused by (fastforce simp: answers_inv_def numbers_ok_def)
  moreover have "answer_ok s' j" if "j \<noteq> k" for j
    using assms(1) k that by (simp add: answers_inv_def answer_ok_def waits_def)
  ultimately show ?thesis using k unused by (auto simp: open_at_def waits_def)
qed

lemma domain_inv:
  assumes "open_at k s" "k \<notin> fst ` set (lookups s)" "connectDomain env k d p s = Some s'"
  shows "answers_inv s'"
proof -
  let ?f = "\<lambda>c. c\<lparr>s_port := p, hasCallback := False\<rparr>"
  obtain c where c: "connectors s k = Some c" "\<not> io_on c" "\<not> timer_on c" using assms(1) by (auto simp: open_at_def)
  obtain s1 where s1: "with_connector k ?f s = Some s1" "s1 = s\<lparr>connectors := (connectors s)(k := Some (?f c))\<rparr>"
    using c by (simp add: with_connector_def)
  have "open_at k s1" by (rule connector_open [OF assms(1) s1(1)]) (use assms(2) in simp)
  note open1 = this
  show ?thesis
  proof (cases "str2ip env (c_string d) p")
    case None
    then have "s' = s1\<lparr>lookups := lookups s1 @ [(k, c_string d)]\<rparr>" using assms(3) s1(1) by (simp add: connectDomain_def)
    then show ?thesis
      by (intro answers_inv_at [OF open1, where d = "c_string d"]) (use open1 s1(2) c in \<open>auto simp: open_at_def answer_ok_def waits_def\<close>)
  next
    case (Some addr)
    then show ?thesis using assms(3) s1(1) setup_inv [OF open1] by (simp add: connectDomain_def)
  qed
qed

lemma request_cases:
  assumes "socks5_request env i buf s = Some s'" "new_connector i s = (k, s1)"
  shows "s' = close_connection i s \<or> (\<exists>addr len. setup_and_connect env k addr len s1 = Some s') \<or>
    (\<exists>d p. connectDomain env k d p s1 = Some s') \<or> s' = close_connection i (delete_connector k s1)"
  using assms unfolding socks5_request_def connectV4_def connectV6_def Let_def
  by (auto simp: bind_eq_Some_conv split: if_splits)

lemma request_inv:
  assumes "answers_inv s" "socks5_request env i buf s = Some s'"
  shows "answers_inv s'"
proof -
  obtain k s1 where n: "new_connector i s = (k, s1)" by force
  note k = new_connector_open [OF assms(1) n]
  from request_cases [OF assms(2) n] show ?thesis
  proof (elim disjE exE)
    assume "s' = close_connection i (delete_connector k s1)"
    then show ?thesis using delete_inv k same_answers_inv [of "delete_connector k s1" s'] by simp
  qed (use assms(1) k same_answers_inv [of s s'] in \<open>auto intro: setup_inv domain_inv\<close>)
qed

lemma control_same: "process_control_packet buf s = Some s' \<Longrightarrow> same_answers s s'"
  by (auto simp: process_control_packet_def apply_sock_opt_def Let_def split: if_splits)

lemma on_data_same:
  assumes "on_data env r buf s = Some s'"
  shows "same_answers s s' \<or> (\<exists>i. socks5_request env i buf s = Some s')"
  using assms control_same
  by (auto simp: on_data_def bind_eq_Some_conv Let_def split: if_splits option.splits intro: same_answers_trans same_answers_simps)

lemma on_data_inv: "answers_inv s \<Longrightarrow> on_data env r buf s = Some s' \<Longrightarrow> answers_inv s'"
  using on_data_same request_inv same_answers_inv by blast

lemma server_read_same: "server_read r n data i s = Some s' \<Longrightarrow> same_answers s s'"
  by (auto simp: server_read_def bind_eq_Some_conv Let_def same_answers_def split: if_splits)

lemma called_open:
  assumes "answers_inv s" "k \<in> fst ` set (lookups s)" "connectors s k = Some c" "\<not> hasCallback c"
  shows "open_at k (s\<lparr>connectors := (connectors s)(k := Some (c\<lparr>hasCallback := True\<rparr>))\<rparr>)"
proof -
  have "answer_ok s k" "k < next_connector s" using assms(1,2) by (auto simp: answers_inv_def numbers_ok_def)
  then show ?thesis using assms by (auto simp: open_at_def answers_inv_def answer_ok_def waits_def numbers_ok_def)
qed

lemma dnsresp_acts:
  assumes "dnsresp env k results s = Some s'" "connectors s k = Some c" "\<not> hasCallback c"
  defines "s1 \<equiv> s\<lparr>connectors := (connectors s)(k := Some (c\<lparr>hasCallback := True\<rparr>))\<rparr>"
  shows "give_up k 8 s1 = Some s' \<or> (\<exists>addr len. setup_and_connect env k addr len s1 = Some s')"
  using assms by (auto simp: dnsresp_def connectV4_def connectV6_def with_connector_def Let_def split: list.splits if_splits)

lemma dnsresp_inv:
  assumes "answers_inv s" "k \<in> fst ` set (lookups s)" "dnsresp env k results s = Some s'"
  shows "answers_inv s'"
proof -
  obtain c where c: "connectors s k = Some c" using assms(3) by (auto simp: dnsresp_def bind_eq_Some_conv)
  show ?thesis
  proof (cases "hasCallback c")
    case False
    let ?s = "s\<lparr>connectors := (connectors s)(k := Some (c\<lparr>hasCallback := True\<rparr>))\<rparr>"
    show ?thesis using called_open [OF assms(1,2) c False] dnsresp_acts [OF assms(3) c False]
        give_up_inv [of k ?s 8 s'] setup_inv [of k ?s env] by auto
  qed (use assms c in \<open>auto simp: dnsresp_def\<close>)
qed

text \<open>Both watchers of a connector are stopped before anything else happens to it.\<close>

lemma stopped_open:
  assumes "answers_inv s" "connectors s k = Some c" "io_on c \<or> timer_on c"
    "watch_io False k s = Some s1" "watch_timer False k s1 = Some s2"
  shows "open_at k s2"
proof -
  have "answer_ok s k" "k < next_connector s" using assms(1,2) by (auto simp: answers_inv_def numbers_ok_def not_le [symmetric])
  then show ?thesis using assms by (auto simp: open_at_def answers_inv_def answer_ok_def waits_def numbers_ok_def watch_io_def watch_timer_def
        with_connector_def)
qed

lemma close_fd_open: "close_fd k s = Some s' \<Longrightarrow> open_at k s \<Longrightarrow> open_at k s'"
  using same_answers_inv [of s s' k] by (auto simp: close_fd_def)

lemma s5_step_inv: "s5_step s s' \<Longrightarrow> answers_inv s \<Longrightarrow> answers_inv s'"
proof (induction rule: s5_step.induct)
  case (expired s k c s')
  then show ?case using stopped_open [OF expired(4,1)] close_fd_open give_up_inv [of k _ 6 s']
    by (fastforce simp: connector_timeout_def bind_eq_Some_conv)
next
  case (ready s k c err s')
  then show ?case using stopped_open [OF ready(4,1)] close_fd_open give_up_inv [of k _ 5 s'] create_inv [of k _ s']
    by (fastforce simp: connector_callback_def bind_eq_Some_conv split: if_splits)
next
  case (written s i h e h')
  then show ?case using same_answers_inv same_answers_simps(1) by blast
next
  case (received r n data i s s')
  then show ?case using same_answers_inv server_read_same by blast
next
  case (beat s)
  then show ?case using same_answers_inv same_answers_simps(5) by blast
qed (auto intro: on_data_inv dnsresp_inv)

lemma reachable_inv: "s5_step\<^sup>*\<^sup>* s s' \<Longrightarrow> answers_inv s \<Longrightarrow> answers_inv s'"
  by (induction rule: rtranclp_induct) (auto intro: s5_step_inv)

lemma server_new_inv: "answers_inv (S5Server_new memory opts n)"
  by (simp add: answers_inv_def numbers_ok_def answer_ok_def S5Server_new_def)

section \<open>What an answer goes with\<close>

text \<open>Connector \<open>k\<close> of connection \<open>i\<close> has answered: with success, its handler on its socket is in the list and its
  watchers are stopped; or with a failure, the connection is closed behind the answer and the connector is gone.\<close>

definition outcome :: "nat \<Rightarrow> u32 \<Rightarrow> s5_server \<Rightarrow> bool" where
  "outcome k i s \<longleftrightarrow>
     (\<exists>c ts. answered s k = [SREP_SUCCESS] \<and> connectors s k = Some c \<and> connid c = i \<and> \<not> io_on c \<and> \<not> timer_on c \<and>
        conn_list s (unat i) = Some (TCPHandler_new (c_fd c) i False) \<and> tunnel s = ts @ [reply_packet i SREP_SUCCESS]) \<or>
     (\<exists>st ts. answered s k = [st] \<and> st \<noteq> SREP_SUCCESS \<and> connectors s k = None \<and> tunnel s = ts @ [reply_packet i st, le_bytes32 i])"

definition effect :: "nat \<Rightarrow> s5_server \<Rightarrow> s5_server \<Rightarrow> bool" where
  "effect k s s' \<longleftrightarrow> (\<forall>j. j \<noteq> k \<longrightarrow> answered s' j = answered s j) \<and>
     (answered s' k \<noteq> answered s k \<longrightarrow> answered s k = [] \<and> (\<exists>c. connectors s k = Some c \<and> outcome k (connid c) s'))"

lemma same_effect: "same_answers s s' \<Longrightarrow> effect k s s'"
  by (simp add: same_answers_def effect_def)

lemma give_up_effect: "open_at k s \<Longrightarrow> st \<noteq> SREP_SUCCESS \<Longrightarrow> give_up k st s = Some s' \<Longrightarrow> effect k s s'"
  by (auto simp: open_at_def effect_def outcome_def give_up_def replyStatus_def delete_connector_def close_connection_def)

lemma create_effect: "open_at k s \<Longrightarrow> createTCPHandler k s = Some s' \<Longrightarrow> effect k s s'"
  by (auto simp: open_at_def effect_def outcome_def createTCPHandler_def replyStatus_def Let_def)

lemma effect_before:
  assumes "effect k s1 s'" "answered s1 = answered s" "map_option connid (connectors s1 k) = map_option connid (connectors s k)"
  shows "effect k s s'"
  using assms by (cases "connectors s k") (auto simp: effect_def)

lemma watched_effect: "watch_io b k s = Some s1 \<Longrightarrow> watch_timer b k s1 = Some s2 \<Longrightarrow>
    answered s2 = answered s \<and> map_option connid (connectors s2 k) = map_option connid (connectors s k)"
  by (auto simp: watch_io_def watch_timer_def with_connector_def)

lemma connect_effect:
  assumes "open_at k s" "connectSockaddr env k addr len s = Some s'"
  shows "effect k s s'"
proof -
  obtain c where c: "connectors s k = Some c" using assms(1) by (auto simp: open_at_def)
  let ?s = "s\<lparr>connects := connects s @ [(c_fd c, addr, len)]\<rparr>"
  have o: "open_at k ?s" using same_answers_inv [of s ?s k] assms(1) by simp
  have "effect k ?s s'"
  proof (cases "connect_rv env addr len")
    case In_Progress
    then obtain s1 where "watch_io True k ?s = Some s1" "watch_timer True k s1 = Some s'"
      using assms(2) c by (auto simp: connectSockaddr_def bind_eq_Some_conv)
    from watched_effect [OF this] show ?thesis by (simp add: effect_def)
  qed (use assms(2) c give_up_effect [OF o, of 1] create_effect [OF o] in \<open>auto simp: connectSockaddr_def\<close>)
  then show ?thesis by (rule effect_before) simp_all
qed

lemma setup_effect:
  assumes "open_at k s" "setup_and_connect env k addr len s = Some s'"
  shows "effect k s s'"
proof -
  obtain c where c: "connectors s k = Some c" using assms(1) by (auto simp: open_at_def)
  show ?thesis
  proof (cases "socket_fd env (sockaddr_family addr)")
    case None
    then show ?thesis using assms(2) c
      by (auto simp: setup_and_connect_def setupFd_def delete_connector_def close_connection_def effect_def)
  next
    case (Some n)
    let ?f = "\<lambda>c. c\<lparr>c_fd := int n\<rparr>"
    let ?s1 = "s\<lparr>connectors := (connectors s)(k := Some (?f c))\<rparr>"
    let ?s = "?s1\<lparr>open_fds := insert (int n) (open_fds s)\<rparr>"
    have w: "with_connector k ?f s = Some ?s1" using c by (simp add: with_connector_def)
    have "open_at k ?s1" by (rule connector_open [OF assms(1) w]) simp
    then have "open_at k ?s" using same_answers_inv [of ?s1 ?s k] by simp
    moreover have "connectSockaddr env k addr len ?s = Some s'"
      using assms(2) Some c w by (simp add: setup_and_connect_def setupFd_def)
    ultimately show ?thesis using connect_effect effect_before c by fastforce
  qed
qed

text \<open>Preparing an open connector before it is used.\<close>

lemma connector_effect:
  assumes "open_at k s" "with_connector k f s = Some s1" "\<And>c. connid (f c) = connid c" "effect k s1 s'"
  shows "effect k s s'"
  using assms by (intro effect_before [OF assms(4)]) (auto simp: with_connector_def)

lemma domain_effect:
  assumes "open_at k s" "k \<notin> fst ` set (lookups s)" "connectDomain env k d p s = Some s'"
  shows "effect k s s'"
proof -
  let ?f = "\<lambda>c. c\<lparr>s_port := p, hasCallback := False\<rparr>"
  obtain s1 where s1: "with_connector k ?f s = Some s1" using assms(3) by (auto simp: connectDomain_def bind_eq_Some_conv)
  have open1: "open_at k s1" by (rule connector_open [OF assms(1) s1(1)]) (use assms(2) in simp)
  have "effect k s1 s'"
    using assms(3) s1 setup_effect [OF open1] by (cases "str2ip env (c_string d) p") (auto simp: connectDomain_def effect_def)
  then show ?thesis using connector_effect [OF assms(1) s1] by simp
qed

lemma dnsresp_effect:
  assumes "answers_inv s" "k \<in> fst ` set (lookups s)" "dnsresp env k results s = Some s'"
  shows "effect k s s'"
proof -
  obtain c where c: "connectors s k = Some c" using assms(3) by (auto simp: dnsresp_def bind_eq_Some_conv)
  show ?thesis
  proof (cases "hasCallback c")
    case False
    let ?s = "s\<lparr>connectors := (connectors s)(k := Some (c\<lparr>hasCallback := True\<rparr>))\<rparr>"
    have "open_at k ?s" using called_open [OF assms(1,2) c False] .
    moreover have "give_up k 8 ?s = Some s' \<or> (\<exists>addr len. setup_and_connect env k addr len ?s = Some s')"
      using dnsresp_acts [OF assms(3) c False] .
    ultimately have "effect k ?s s'" using give_up_effect [of k ?s 8 s'] setup_effect [of k ?s env] by auto
    then show ?thesis by (rule effect_before) (simp_all add: c)
  qed (use assms c in \<open>auto simp: dnsresp_def same_effect\<close>)
qed

text \<open>In a step every connector keeps its answers or has its outcome.\<close>

lemma effect_outcome:
  assumes "effect k s s'" "answered s' j \<noteq> answered s j"
  shows "answered s j = [] \<and> (\<exists>i. outcome j i s' \<and> (\<forall>c. connectors s j = Some c \<longrightarrow> connid c = i))"
  using assms by (cases "j = k") (auto simp: effect_def)

lemma request_outcome:
  assumes "answers_inv s" "socks5_request env i buf s = Some s'" "answered s' j \<noteq> answered s j"
  shows "answered s j = [] \<and> (\<exists>i. outcome j i s' \<and> (\<forall>c. connectors s j = Some c \<longrightarrow> connid c = i))"
proof -
  obtain k s1 where n: "new_connector i s = (k, s1)" by force
  note k = new_connector_open [OF assms(1) n]
  have same: "answered s1 = answered s" "connectors s k = None"
    using n assms(1) by (auto simp: new_connector_def answers_inv_def numbers_ok_def)
  have "answered s' = answered s \<or> effect k s1 s'"
    using request_cases [OF assms(2) n] k same
    by (auto simp: close_connection_def delete_connector_def intro: setup_effect domain_effect)
  then have "effect k s1 s'" using assms(3) by auto
  with assms(3) same show ?thesis by (cases "j = k") (auto simp: effect_def)
qed

lemma s5_step_outcome:
  assumes "s5_step s s'" "answers_inv s" "answered s' j \<noteq> answered s j"
  shows "answered s j = [] \<and> (\<exists>i. outcome j i s' \<and> (\<forall>c. connectors s j = Some c \<longrightarrow> connid c = i))"
  using assms
proof (induction rule: s5_step.induct)
  case (packet env r buf s s')
  then show ?case using on_data_same [OF packet(1)] request_outcome by (auto simp: same_answers_def)
next
  case (resolved k s env results s')
  then show ?case using effect_outcome dnsresp_effect by metis
next
  case (expired s k c s')
  then obtain s1 s2 s3 where s: "watch_io False k s = Some s1" "watch_timer False k s1 = Some s2" "close_fd k s2 = Some s3"
    "give_up k 6 s3 = Some s'" by (auto simp: connector_timeout_def bind_eq_Some_conv)
  have "open_at k s3" using stopped_open [OF expired(4,1) _ s(1,2)] close_fd_open [OF s(3)] expired(2) by simp
  then have "effect k s3 s'" using give_up_effect [of k s3 6 s'] s(4) by simp
  then have "effect k s s'" by (rule effect_before) (use watched_effect [OF s(1,2)] s(3) in \<open>auto simp: close_fd_def\<close>)
  then show ?case using effect_outcome expired(5) by blast
next
  case (ready s k c err s')
  then obtain s1 s2 where s: "watch_io False k s = Some s1" "watch_timer False k s1 = Some s2"
    "if err \<noteq> 0 then \<exists>s3. close_fd k s2 = Some s3 \<and> give_up k 5 s3 = Some s' else createTCPHandler k s2 = Some s'"
    by (auto simp: connector_callback_def bind_eq_Some_conv split: if_splits)
  have o: "open_at k s2" using stopped_open [OF ready(4,1) _ s(1,2)] ready(2) by simp
  have "\<exists>t. effect k t s' \<and> answered t = answered s2 \<and> connectors t = connectors s2"
    using s(3) o close_fd_open [of k s2] give_up_effect [of k _ 5 s'] create_effect [OF o]
    by (fastforce simp: close_fd_def split: if_splits)
  then have "effect k s s'" using watched_effect [OF s(1,2)] effect_before by metis
  then show ?case using effect_outcome ready(5) by blast
next
  case (received r nread data i s s')
  then show ?case using server_read_same [OF received(1)] by (simp add: same_answers_def)
qed (simp_all add: heartbeat_def)

section \<open>Requests\<close>

text \<open>The target of a request, the bytes a client sends for it, and the address and length the server is to connect to:
  none for a name that is no address, which goes to the resolver.\<close>

datatype target = Target_V4 "u8 list" u16 | Target_V6 "u8 list" u16 | Target_Domain "u8 list" u16

fun request_bytes :: "target \<Rightarrow> u8 list" where
  "request_bytes (Target_V4 ip port) = [5, 1, 0, 1] @ ip @ le_bytes16 port"
| "request_bytes (Target_V6 ip port) = [5, 1, 0, 4] @ ip @ le_bytes16 port"
| "request_bytes (Target_Domain d port) = [5, 1, 0, 3, of_nat (length d)] @ d @ le_bytes16 port"

fun target_wf :: "target \<Rightarrow> bool" where
  "target_wf (Target_V4 ip port) = (length ip = 4)"
| "target_wf (Target_V6 ip port) = (length ip = 16)"
| "target_wf (Target_Domain d port) = (length d < 256)"

fun request_addr :: "connect_env \<Rightarrow> target \<Rightarrow> (sockaddr \<times> nat) option" where
  "request_addr env (Target_V4 ip port) = Some (Sockaddr_In ip port, 16)"
| "request_addr env (Target_V6 ip port) = Some (Sockaddr_In6 ip port, 28)"
| "request_addr env (Target_Domain d port) = map_option (\<lambda>a. (a, 16)) (str2ip env (c_string d) port)"

fun target_name :: "target \<Rightarrow> u8 list" where
  "target_name (Target_Domain d port) = c_string d"
| "target_name t = []"

fun target_port :: "target \<Rightarrow> u16" where
  "target_port (Target_Domain d port) = port"
| "target_port t = 0"

text \<open>The server with a new connector for a target.\<close>

definition requested :: "u32 \<Rightarrow> target \<Rightarrow> s5_server \<Rightarrow> s5_server" where
  "requested i t s = s\<lparr>next_connector := next_connector s + 1, connectors := (connectors s)(next_connector s :=
     Some \<lparr>connid = i, c_fd = - 1, hasCallback = False, s_port = target_port t, io_on = False, timer_on = False\<rparr>)\<rparr>"

lemma read_bytes_append [simp]:
  "length xs = i \<Longrightarrow> length ys = n \<Longrightarrow> read_bytes (xs @ ys @ zs) i n = Some ys"
  "length xs = i \<Longrightarrow> length ys = n \<Longrightarrow> read_bytes (xs @ ys) i n = Some ys"
  by (simp_all add: read_bytes_def)

lemma domain_reads:
  assumes "length b = 4" "length d < 256" "buf = b @ [5, 1, 0, 3, of_nat (length d)] @ d @ le_bytes16 port"
  shows "read_bytes buf 7 1 = Some [3]" "read_bytes buf 8 1 = Some [of_nat (length d)]" "read_bytes buf 9 (length d) = Some d"
    "read_port buf (9 + length d) = Some port" "unat (of_nat (length d) :: u8) = length d"
  using assms read_bytes_append(1) [of "b @ [5, 1, 0]" 7 "[3]" 1] read_bytes_append(1) [of "b @ [5, 1, 0, 3]" 8 "[of_nat (length d)]" 1]
    read_bytes_append(1) [of "b @ [5, 1, 0, 3, of_nat (length d)]" 9 d "length d"]
    read_bytes_append(2) [of "b @ [5, 1, 0, 3, of_nat (length d)] @ d" "9 + length d" "le_bytes16 port" 2]
  by (simp_all add: read_port_def unat_of_nat)

lemma address_reads:
  assumes "length b = 4" "length ip = n" "buf = b @ [5, 1, 0, a] @ ip @ le_bytes16 port"
  shows "read_bytes buf 7 1 = Some [a]" "read_bytes buf 8 n = Some ip" "read_port buf (8 + n) = Some port"
  using assms read_bytes_append(1) [of "b @ [5, 1, 0]" 7 "[a]" 1] read_bytes_append(1) [of "b @ [5, 1, 0, a]" 8 ip n]
    read_bytes_append(2) [of "b @ [5, 1, 0, a] @ ip" "8 + n" "le_bytes16 port" 2]
  by (simp_all add: read_port_def)

lemma request_parsed:
  assumes "target_wf t" "length b = 4"
  shows "socks5_request env i (b @ request_bytes t) s = (case request_addr env t of
      Some (a, len) \<Rightarrow> setup_and_connect env (next_connector s) a len (requested i t s)
    | None \<Rightarrow> Some ((requested i t s)\<lparr>lookups := lookups s @ [(next_connector s, target_name t)]\<rparr>))"
proof -
  let ?buf = "b @ request_bytes t"
  have cmd: "read_bytes ?buf 5 1 = Some [1]" using assms(2) read_bytes_append(1) [of "b @ [5]" 5 "[1]" 1] by (cases t) auto
  note eval = socks5_request_def new_connector_def Let_def connectV4_def connectV6_def connectDomain_def with_connector_def requested_def
  show ?thesis
  proof (cases t)
    case (Target_V4 ip port)
    then show ?thesis using address_reads [OF assms(2), of ip 4 ?buf 1 port] cmd assms(1) by (simp add: eval)
  next
    case (Target_V6 ip port)
    then show ?thesis using address_reads [OF assms(2), of ip 16 ?buf 4 port] cmd assms(1) by (simp add: eval)
  next
    case (Target_Domain d port)
    then show ?thesis using domain_reads [OF assms(2), of d ?buf port] cmd assms(1)
      by (simp add: eval split: option.splits)
  qed
qed

lemma on_data_request:
  assumes "\<not> i <s 0" "unat i < max_conn s" "conn_list s (unat i) = None"
  shows "on_data env r (le_bytes32 i @ request_bytes t) s = socks5_request env i (le_bytes32 i @ request_bytes t) s"
proof -
  have "read_bytes (le_bytes32 i @ request_bytes t) 0 4 = Some (le_bytes32 i)" by (simp add: read_bytes_def)
  moreover have "(le_bytes32 i @ request_bytes t) ! 4 = 5" "request_bytes t \<noteq> []" by (cases t; simp add: nth_append)+
  ultimately show ?thesis using assms by (simp add: on_data_def)
qed

text \<open>What a request does, up to the call of \<open>connect\<close>: without a socket it closes the connection, else the new
  socket is the connector's.\<close>

lemma setup_no_socket:
  assumes "connectors s k = Some c" "socket_fd env (sockaddr_family a) = None"
  shows "setup_and_connect env k a len s = Some (delete_connector k (close_connection (connid c) s))"
  using assms by (simp add: setup_and_connect_def setupFd_def)

definition with_socket :: "nat \<Rightarrow> nat \<Rightarrow> connector \<Rightarrow> s5_server \<Rightarrow> s5_server" where
  "with_socket k fd c s = s\<lparr>connectors := (connectors s)(k := Some (c\<lparr>c_fd := int fd\<rparr>)), open_fds := insert (int fd) (open_fds s)\<rparr>"

lemma setup_socket:
  assumes "connectors s k = Some c" "socket_fd env (sockaddr_family a) = Some fd"
  shows "setup_and_connect env k a len s = connectSockaddr env k a len (with_socket k fd c s)"
  using assms by (simp add: setup_and_connect_def setupFd_def with_connector_def with_socket_def)

lemma connect_called:
  assumes "connectors s k = Some c"
  shows "\<exists>s'. connectSockaddr env k a len s = Some s' \<and> connects s' = connects s @ [(c_fd c, a, len)] \<and> lookups s' = lookups s"
  using assms by (cases "connect_rv env a len") (auto simp: connectSockaddr_def createTCPHandler_def give_up_def replyStatus_def
      delete_connector_def close_connection_def watch_io_def watch_timer_def with_connector_def Let_def)

section \<open>The relay as a pipe\<close>

text \<open>A piece of data that the client's handler \<open>c\<close> reads becomes a packet, which the server's \<open>on_data\<close> gives to
  the handler of that number.\<close>

definition relay_push :: "tcp_handler \<Rightarrow> u8 list \<Rightarrow> s5_server \<Rightarrow> s5_server \<Rightarrow> bool" where
  "relay_push c d s s' \<longleftrightarrow> (\<exists>g r' pkt r env. length g = 4 \<and>
     read_cb r' (int (length d)) (g @ d) c = Some (False, Some pkt, c) \<and>
     r \<noteq> Send_Error \<and> (\<forall>n. r = Written n \<longrightarrow> n \<le> length d) \<and> on_data env r pkt s = Some s')"

definition relay_pump :: "tcp_handler \<Rightarrow> s5_server \<Rightarrow> s5_server \<Rightarrow> bool" where
  "relay_pump c s s' \<longleftrightarrow> (\<exists>h h'. conn_list s (unat (conn_id c)) = Some h \<and> handler_pump h h' \<and>
     s' = s\<lparr>conn_list := (conn_list s)(unat (conn_id c) := Some h')\<rparr>)"

definition relay_ok :: "tcp_handler \<Rightarrow> s5_server \<Rightarrow> bool" where
  "relay_ok c s \<longleftrightarrow> \<not> needSocks5Handshake c \<and> \<not> conn_id c <s 0 \<and> unat (conn_id c) < max_conn s \<and>
     (\<exists>h. conn_list s (unat (conn_id c)) = Some h \<and> handler_ok h)"

definition relay_contents :: "tcp_handler \<Rightarrow> s5_server \<Rightarrow> u8 list" where
  "relay_contents c s = (case conn_list s (unat (conn_id c)) of None \<Rightarrow> [] | Some h \<Rightarrow> handler_contents h)"

lemma relay_packet:
  assumes "\<not> needSocks5Handshake c" "length g = 4" "read_cb r' (int (length d)) (g @ d) c = Some (False, Some pkt, c)"
  shows "pkt = le_bytes32 (conn_id c) @ d \<and> d \<noteq> []"
  using assms by (auto simp: read_cb_def split: if_splits)

lemma on_data_handler:
  assumes "\<not> i <s 0" "unat i < max_conn s" "conn_list s (unat i) = Some h" "d \<noteq> []" "r \<noteq> Send_Error"
    "on_data env r (le_bytes32 i @ d) s = Some s'"
  shows "\<exists>h'. tcp_send r d h = Some (False, h') \<and> s' = s\<lparr>conn_list := (conn_list s)(unat i := Some h')\<rparr>"
proof -
  have "read_bytes (le_bytes32 i @ d) 0 4 = Some (le_bytes32 i)" by (simp add: read_bytes_def)
  then obtain shut h' where h': "tcp_send r d h = Some (shut, h')"
    "s' = (let s = s\<lparr>conn_list := (conn_list s)(unat i := Some h')\<rparr> in if shut then shutdown (unat i) s else s)"
    using assms by (auto simp: on_data_def Let_def bind_eq_Some_conv split: if_splits)
  have "\<not> shut" using h'(1) assms(5) by (auto simp: tcp_send_def send_act_def Let_def split: if_splits send_result.splits)
  with h' show ?thesis by simp
qed

lemma relay_push_contents:
  assumes "relay_ok c s" "relay_push c d s s'"
  shows "relay_ok c s' \<and> relay_contents c s' = relay_contents c s @ d"
proof -
  let ?i = "conn_id c"
  obtain h where h: "conn_list s (unat ?i) = Some h" "handler_ok h" "\<not> ?i <s 0" "unat ?i < max_conn s" "\<not> needSocks5Handshake c"
    using assms(1) by (auto simp: relay_ok_def)
  obtain g r' pkt r env where p: "length g = 4" "read_cb r' (int (length d)) (g @ d) c = Some (False, Some pkt, c)"
    "r \<noteq> Send_Error" "\<forall>n. r = Written n \<longrightarrow> n \<le> length d" "on_data env r pkt s = Some s'"
    using assms(2) by (auto simp: relay_push_def)
  have pkt: "pkt = le_bytes32 ?i @ d" "d \<noteq> []" using relay_packet [OF h(5) p(1,2)] by auto
  obtain h' where h': "tcp_send r d h = Some (False, h')" "s' = s\<lparr>conn_list := (conn_list s)(unat ?i := Some h')\<rparr>"
    using on_data_handler [OF h(3,4,1) pkt(2) p(3) p(5) [unfolded pkt(1)]] by blast
  have "handler_push d h h'" using h'(1) p(4) by (auto simp: handler_push_def)
  from push_contents [OF h(2) this] show ?thesis using h h'(2) by (simp add: relay_ok_def relay_contents_def)
qed

lemma relay_pump_contents:
  assumes "relay_ok c s" "relay_pump c s s'"
  shows "relay_ok c s' \<and> relay_contents c s' = relay_contents c s"
  using assms pump_contents by (fastforce simp: relay_ok_def relay_pump_def relay_contents_def)

interpretation relay: byte_pipe "relay_ok c" "relay_contents c" "relay_push c" "relay_pump c" for c
  by unfold_locales (use relay_push_contents relay_pump_contents in blast)+

section \<open>Properties\<close>

text \<open>C9. Relay integrity.  Pieces of data that the client's handler reads, one after the other, go through the tunnel to
  the server's handler of the same number.  What that handler has written to its socket followed by what it still holds
  in its queue is what it held before followed by the pieces, in order, for every pattern of full sockets and partial
  writes.  The operations on the server's handler do not overlap, and no \<open>::send\<close> fails with an error.\<close>

theorem relay_integrity:
  assumes "\<not> needSocks5Handshake c" "\<not> conn_id c <s 0" "unat (conn_id c) < max_conn s0"
    "conn_list s0 (unat (conn_id c)) = Some h0" "handler_ok h0"
    "pipe_run (relay_push c) (relay_pump c) ds s0 s"
  shows "\<exists>h. conn_list s (unat (conn_id c)) = Some h \<and>
    socket_out h @ queue_bytes (write_queue h) = socket_out h0 @ queue_bytes (write_queue h0) @ concat ds"
proof -
  have "relay_ok c s0" using assms by (simp add: relay_ok_def)
  from relay.run_contents [OF assms(6) this] assms(4) show ?thesis
    by (auto simp: relay_ok_def relay_contents_def handler_contents_def split: option.splits)
qed

definition some_opts :: sock_opts where
  "some_opts = \<lparr>window_size = 1000, resend_delay = 0, speed_limit = 0, max_resend_timeout = 0, ack_send_delay = 0, sack_send_delay = 0,
     sack_threshold = 0\<rparr>"

definition relay_demo :: s5_server where
  "relay_demo = S5Server_new ((\<lambda>_. None)(3 := Some (TCPHandler_new 9 3 False))) some_opts 8"

theorem relay_integrity_witness:
  "\<exists>s h. pipe_run (relay_push (TCPHandler_new 5 3 False)) (relay_pump (TCPHandler_new 5 3 False)) [[7, 8]] relay_demo s \<and>
     conn_list s 3 = Some h \<and> socket_out h @ queue_bytes (write_queue h) = [7, 8]"
proof -
  let ?c = "TCPHandler_new 5 3 False"
  obtain s where od: "on_data e (Written 1) (le_bytes32 3 @ [7, 8]) relay_demo = Some s" for e
    by (simp add: on_data_def read_bytes_def relay_demo_def S5Server_new_def TCPHandler_new_def tcp_send_def send_act_def add_queue_def Let_def
        word_sless_alt)
  have "read_cb Would_Block (int (length [7, 8 :: u8])) ([0, 0, 0, 0] @ [7, 8]) ?c = Some (False, Some (le_bytes32 3 @ [7, 8]), ?c)"
    by (simp add: read_cb_def TCPHandler_new_def)
  then have "relay_push ?c [7, 8] relay_demo s"
    unfolding relay_push_def using od
    by (intro exI [of _ "[0, 0, 0, 0]"] exI [of _ Would_Block] exI [of _ "le_bytes32 3 @ [7, 8]"] exI [of _ "Written 1"] exI) auto
  then have run: "pipe_run (relay_push ?c) (relay_pump ?c) [[7, 8]] relay_demo s"
    using pipe_run.pushed [OF pipe_run.start, of "relay_push ?c" "[7, 8]" relay_demo s] by simp
  have "\<exists>h. conn_list s (unat (conn_id ?c)) = Some h \<and>
    socket_out h @ queue_bytes (write_queue h) = socket_out (TCPHandler_new 9 3 False) @ queue_bytes (write_queue (TCPHandler_new 9 3 False)) @
      concat [[7, 8]]"
    by (rule relay_integrity [OF _ _ _ _ _ run])
      (simp_all add: relay_demo_def S5Server_new_def TCPHandler_new_def handler_ok_def word_sless_alt)
  with run show ?thesis by (auto simp: TCPHandler_new_def)
qed


definition connected_env :: connect_env where
  "connected_env = \<lparr>socket_fd = (\<lambda>_. Some 9), connect_rv = (\<lambda>_ _. Connected), pton = (\<lambda>_ _. None)\<rparr>"

lemma connected_answer:
  "map_option (\<lambda>s. answered s 0) (on_data connected_env Would_Block
     (le_bytes32 3 @ [5, 1, 0, 1, 10, 0, 0, 1] @ le_bytes16 80) (S5Server_new (\<lambda>_. None) some_opts 8)) = Some [SREP_SUCCESS]"
  by code_simp




text \<open>C18. A request for an IPv6 address written as a name fails: \<open>connect\<close> refuses a length below the size of the family's
  structure.\<close>

theorem ipv6_literal_refused:
  assumes "\<forall>a len. len < sockaddr_size a \<longrightarrow> connect_rv env a len = Connect_Failed" "length d < 256"
    "58 \<in> set (c_string d)" "pton env AF_INET6 (c_string d) = Some ip" "socket_fd env AF_INET6 = Some fd"
    "\<not> i <s 0" "unat i < max_conn s" "conn_list s (unat i) = None"
  shows "\<exists>s'. on_data env r (le_bytes32 i @ request_bytes (Target_Domain d port)) s = Some s' \<and>
    tunnel s' = tunnel s @ [reply_packet i SREP_GENEIC_FAILURE, le_bytes32 i] \<and> int fd \<in> open_fds s'"
proof -
  have "connect_rv env (Sockaddr_In6 ip port) 16 = Connect_Failed" using assms(1) by simp
  then show ?thesis using assms(3-5) request_parsed [of "Target_Domain d port" "le_bytes32 i" env i s]
      on_data_request [OF assms(6-8), of env r "Target_Domain d port"] assms(2)
    by (simp add: str2ip_def setup_and_connect_def setupFd_def requested_def with_connector_def connectSockaddr_def give_up_def replyStatus_def
        delete_connector_def close_connection_def)
qed

theorem ipv6_literal_refused_witness:
  "\<exists>s'. on_data \<lparr>socket_fd = (\<lambda>_. Some 9), connect_rv = (\<lambda>a len. if len < sockaddr_size a then Connect_Failed else Connected),
       pton = (\<lambda>_ d. if d = [58, 58, 49] then Some (replicate 15 0 @ [1]) else None)\<rparr> Would_Block
     (le_bytes32 3 @ request_bytes (Target_Domain [58, 58, 49] 80)) (S5Server_new (\<lambda>_. None) some_opts 8) = Some s' \<and>
     tunnel s' = [reply_packet 3 1, le_bytes32 3] \<and> 9 \<in> open_fds s'"
  using ipv6_literal_refused [of "\<lparr>socket_fd = (\<lambda>_. Some 9), connect_rv = (\<lambda>a len. if len < sockaddr_size a then Connect_Failed else Connected),
       pton = (\<lambda>_ d. if d = [58, 58, 49] then Some (replicate 15 0 @ [1]) else None)\<rparr>" "[58, 58, 49]" "replicate 15 0 @ [1]" 9 3
      "S5Server_new (\<lambda>_. None) some_opts 8" Would_Block 80]
  by (simp add: S5Server_new_def word_sless_alt c_string_def)

text \<open>The connection number of a packet is not compared with the size of the list: a packet with a number
  beyond it reads outside.\<close>

theorem connection_number_unchecked:
  assumes "\<not> i <s 0" "max_conn s \<le> unat i"
  shows "on_data env r (le_bytes32 i @ body) s = None"
  using assms by (simp add: on_data_def read_bytes_def)

theorem connection_number_unchecked_witness:
  "on_data connected_env Would_Block (le_bytes32 9) (S5Server_new (\<lambda>_. None) some_opts 8) = None"
  using connection_number_unchecked [of 9 "S5Server_new (\<lambda>_. None) some_opts 8" _ _ "[]"] by (simp add: S5Server_new_def word_sless_alt)

end
