(* ===== verification/TCP_Server.thy ===== *)
theory TCP_Server
  imports Socks5_Server
begin

text \<open>
  The client end of the tunnel (\<open>tysocks/client/TCPServer.cpp\<close>): an accepted application socket gets a handler
  under the number of its descriptor, packets from the tunnel are dispatched by that number.  At the end the
  two ends are put together: how a session opens, and how bytes come back from the server to the
  application.
\<close>

section \<open>State and operations\<close>

record tcp_server =
  cl_max_conn :: nat
  cl_conn_list :: "nat \<Rightarrow> tcp_handler option"
  cl_tunnel :: "u8 list list"

text \<open>The constructor: as at the server, the list is what \<open>malloc\<close> left in memory.\<close>

definition TCPServer_new :: "(nat \<Rightarrow> tcp_handler option) \<Rightarrow> nat \<Rightarrow> tcp_server" where
  "TCPServer_new memory n = \<lparr>cl_max_conn = n, cl_conn_list = memory, cl_tunnel = []\<rparr>"

definition client_shutdown :: "nat \<Rightarrow> tcp_server \<Rightarrow> tcp_server" where
  "client_shutdown i s = (case cl_conn_list s i of None \<Rightarrow> s
     | Some h \<Rightarrow> s\<lparr>cl_conn_list := (cl_conn_list s)(i := None), cl_tunnel := cl_tunnel s @ [closing_packet (conn_id h)]\<rparr>)"

text \<open>\<open>client_sd\<close> is the result of \<open>accept\<close>.  A descriptor that is not below the size of the list is undefined.  The
  loop around the exchange ends at its first pass, because a handler that was there has been taken out.\<close>

definition io_accept :: "bool \<Rightarrow> int \<Rightarrow> tcp_server \<Rightarrow> tcp_server option" where
  "io_accept ev_error client_sd s =
     (if ev_error then Some s
      else if client_sd < 0 then Some s
      else if int (cl_max_conn s) \<le> client_sd then None
      else let s = client_shutdown (nat client_sd) s
        in Some (s\<lparr>cl_conn_list := (cl_conn_list s)(nat client_sd := Some (TCPHandler_new client_sd (of_int client_sd) True))\<rparr>))"

definition client_on_data :: "send_result \<Rightarrow> u8 list \<Rightarrow> tcp_server \<Rightarrow> tcp_server option" where
  "client_on_data r buf s = do {
     idb \<leftarrow> read_bytes buf 0 4;
     let i = le_word32 idb;
     if i <s 0 then Some s
     else if cl_max_conn s \<le> unat i then None
     else (case cl_conn_list s (unat i) of
       Some h \<Rightarrow>
         if length buf = sp then Some (client_shutdown (unat i) s)
         else do {
           (shut, h) \<leftarrow> tcp_send r (drop sp buf) h;
           let s = s\<lparr>cl_conn_list := (cl_conn_list s)(unat i := Some h)\<rparr>;
           Some (if shut then client_shutdown (unat i) s else s) }
     | None \<Rightarrow> Some s) }"

text \<open>The read event of an application socket: the handler's \<open>read_cb\<close>, its packet to the tunnel, its shutdown.\<close>

definition client_read :: "send_result \<Rightarrow> int \<Rightarrow> u8 list \<Rightarrow> nat \<Rightarrow> tcp_server \<Rightarrow> tcp_server option" where
  "client_read r nread data i s = do {
     h \<leftarrow> cl_conn_list s i;
     (shut, pkt, h) \<leftarrow> read_cb r nread data h;
     let s = s\<lparr>cl_conn_list := (cl_conn_list s)(i := Some h), cl_tunnel := cl_tunnel s @ (case pkt of None \<Rightarrow> [] | Some p \<Rightarrow> [p])\<rparr>;
     Some (if shut then client_shutdown i s else s) }"

section \<open>The numbers of handlers\<close>

text \<open>A handler stands under its own number, which is what lets \<open>shutdown\<close> find itself in the list.\<close>

inductive client_step :: "tcp_server \<Rightarrow> tcp_server \<Rightarrow> bool" where
  accept: "io_accept e sd s = Some s' \<Longrightarrow> sd < 2 ^ 31 \<Longrightarrow> client_step s s'"
| packet: "client_on_data r buf s = Some s' \<Longrightarrow> client_step s s'"
| read: "client_read r n data i s = Some s' \<Longrightarrow> client_step s s'"
| written: "cl_conn_list s i = Some h \<Longrightarrow> write_cb env h = Some h' \<Longrightarrow>
    client_step s (s\<lparr>cl_conn_list := (cl_conn_list s)(i := Some h')\<rparr>)"

definition numbered :: "tcp_server \<Rightarrow> bool" where
  "numbered s \<longleftrightarrow> (\<forall>i h. cl_conn_list s i = Some h \<longrightarrow> unat (conn_id h) = i)"

lemma numbered_update:
  "numbered s \<Longrightarrow> unat (conn_id h) = i \<Longrightarrow> numbered (s\<lparr>cl_conn_list := (cl_conn_list s)(i := Some h)\<rparr>)"
  "numbered s \<Longrightarrow> numbered (client_shutdown i s)" "numbered (s\<lparr>cl_tunnel := x\<rparr>) = numbered s"
  by (auto simp: numbered_def client_shutdown_def split: option.splits)

lemma tcp_send_id: "tcp_send r d h = Some (b, h') \<Longrightarrow> conn_id h' = conn_id h"
  by (auto simp: tcp_send_def send_act_def add_queue_def Let_def split: if_splits send_result.splits)

lemma read_cb_id: "read_cb r n d h = Some (b, p, h') \<Longrightarrow> conn_id h' = conn_id h"
  using tcp_send_id by (fastforce simp: read_cb_def split: if_splits option.splits)

lemma write_cb_id: "write_cb env h = Some h' \<Longrightarrow> conn_id h' = conn_id h"
  by (auto simp: write_cb_def Let_def split: if_splits prod.splits loop_exit.splits)

lemma unat_descriptor: "0 \<le> x \<Longrightarrow> x < 2 ^ 31 \<Longrightarrow> unat (of_int x :: u32) = nat x"
  by (simp add: unsigned_of_int take_bit_int_eq_self)

lemma client_step_numbered: "client_step s s' \<Longrightarrow> numbered s \<Longrightarrow> numbered s'"
proof (induction rule: client_step.induct)
  case (accept e sd s s')
  then show ?case
    by (auto simp: io_accept_def Let_def TCPHandler_new_def unat_descriptor intro!: numbered_update split: if_splits)
next
  case (packet r buf s s')
  then show ?case using tcp_send_id
    by (fastforce simp: client_on_data_def bind_eq_Some_conv Let_def intro: numbered_update split: if_splits option.splits
        simp: numbered_def client_shutdown_def)
next
  case (read r n data i s s')
  then show ?case using read_cb_id
    by (fastforce simp: client_read_def bind_eq_Some_conv Let_def numbered_def client_shutdown_def split: if_splits option.splits)
next
  case (written s i h env h')
  then show ?case using write_cb_id [OF written(2)] by (auto simp: numbered_def)
qed

section \<open>The way back as a pipe\<close>

text \<open>A piece that the server's handler \<open>h\<close> reads from its target becomes a packet, which the client's \<open>on_data\<close> gives to
  the application's handler.\<close>

definition back_push :: "tcp_handler \<Rightarrow> u8 list \<Rightarrow> tcp_server \<Rightarrow> tcp_server \<Rightarrow> bool" where
  "back_push h d s s' \<longleftrightarrow> (\<exists>g r' pkt r. length g = 4 \<and>
     read_cb r' (int (length d)) (g @ d) h = Some (False, Some pkt, h) \<and>
     r \<noteq> Send_Error \<and> (\<forall>n. r = Written n \<longrightarrow> n \<le> length d) \<and> client_on_data r pkt s = Some s')"

definition back_pump :: "tcp_handler \<Rightarrow> tcp_server \<Rightarrow> tcp_server \<Rightarrow> bool" where
  "back_pump h s s' \<longleftrightarrow> (\<exists>c c'. cl_conn_list s (unat (conn_id h)) = Some c \<and> handler_pump c c' \<and>
     s' = s\<lparr>cl_conn_list := (cl_conn_list s)(unat (conn_id h) := Some c')\<rparr>)"

definition back_ok :: "tcp_handler \<Rightarrow> tcp_server \<Rightarrow> bool" where
  "back_ok h s \<longleftrightarrow> \<not> needSocks5Handshake h \<and> \<not> conn_id h <s 0 \<and> unat (conn_id h) < cl_max_conn s \<and>
     (\<exists>c. cl_conn_list s (unat (conn_id h)) = Some c \<and> handler_ok c)"

definition back_contents :: "tcp_handler \<Rightarrow> tcp_server \<Rightarrow> u8 list" where
  "back_contents h s = (case cl_conn_list s (unat (conn_id h)) of None \<Rightarrow> [] | Some c \<Rightarrow> handler_contents c)"

lemma client_on_data_handler:
  assumes "\<not> i <s 0" "unat i < cl_max_conn s" "cl_conn_list s (unat i) = Some h" "d \<noteq> []" "tcp_send r d h = Some (False, h')"
  shows "client_on_data r (le_bytes32 i @ d) s = Some (s\<lparr>cl_conn_list := (cl_conn_list s)(unat i := Some h')\<rparr>)"
  using assms by (simp add: client_on_data_def read_bytes_def)

lemma tcp_send_not_shut: "tcp_send r d h = Some (b, h') \<Longrightarrow> r \<noteq> Send_Error \<Longrightarrow> \<not> b"
  by (auto simp: tcp_send_def send_act_def Let_def split: if_splits send_result.splits)

lemma back_push_contents:
  assumes "back_ok h s" "back_push h d s s'"
  shows "back_ok h s' \<and> back_contents h s' = back_contents h s @ d"
proof -
  let ?i = "conn_id h"
  obtain c where c: "cl_conn_list s (unat ?i) = Some c" "handler_ok c" "\<not> ?i <s 0" "unat ?i < cl_max_conn s" "\<not> needSocks5Handshake h"
    using assms(1) by (auto simp: back_ok_def)
  obtain g r' pkt r where p: "length g = 4" "read_cb r' (int (length d)) (g @ d) h = Some (False, Some pkt, h)"
    "r \<noteq> Send_Error" "\<forall>n. r = Written n \<longrightarrow> n \<le> length d" "client_on_data r pkt s = Some s'"
    using assms(2) by (auto simp: back_push_def)
  have pkt: "pkt = le_bytes32 ?i @ d" "d \<noteq> []" using relay_packet [OF c(5) p(1,2)] by auto
  obtain b c' where send: "tcp_send r d c = Some (b, c')"
    using p(5) c pkt by (auto simp: client_on_data_def read_bytes_def bind_eq_Some_conv Let_def)
  then have send: "tcp_send r d c = Some (False, c')" using tcp_send_not_shut p(3) by fastforce
  then have "handler_push d c c'" using p(4) by (auto simp: handler_push_def)
  from push_contents [OF c(2) this] show ?thesis
    using c p(5) client_on_data_handler [OF c(3,4,1) pkt(2) send] pkt(1) by (auto simp: back_ok_def back_contents_def)
qed

lemma back_pump_contents:
  assumes "back_ok h s" "back_pump h s s'"
  shows "back_ok h s' \<and> back_contents h s' = back_contents h s"
  using assms pump_contents by (fastforce simp: back_ok_def back_pump_def back_contents_def)

interpretation way_back: byte_pipe "back_ok h" "back_contents h" "back_push h" "back_pump h" for h
  by unfold_locales (use back_push_contents back_pump_contents in blast)+

section \<open>Opening a session\<close>

text \<open>A request whose \<open>connect\<close> does not fail ends with the handler installed: at once, or when the socket's watcher
  reports the connection made.\<close>

definition request_run :: "connect_env \<Rightarrow> send_result \<Rightarrow> u8 list \<Rightarrow> s5_server \<Rightarrow> s5_server \<Rightarrow> bool" where
  "request_run env r pkt s s' \<longleftrightarrow> on_data env r pkt s = Some s' \<or>
     (\<exists>v k c. on_data env r pkt s = Some v \<and> connectors v k = Some c \<and> io_on c \<and> connector_callback 0 k v = Some s')"

lemma connected_handler:
  assumes "connectors s k = Some c" "conn_list s (unat (connid c)) = None"
  shows "\<exists>s'. createTCPHandler k s = Some s' \<and> tunnel s' = tunnel s @ [reply_packet (connid c) SREP_SUCCESS] \<and> connects s' = connects s \<and>
    conn_list s' = (conn_list s)(unat (connid c) := Some (TCPHandler_new (c_fd c) (connid c) False))"
  using assms by (simp add: createTCPHandler_def replyStatus_def shutdown_def)

lemma started_callback:
  assumes "connectors s k = Some c"
  shows "\<exists>v. connectSockaddr (env\<lparr>connect_rv := \<lambda>_ _. In_Progress\<rparr>) k a len s = Some v \<and>
    connectors v k = Some (c\<lparr>io_on := True, timer_on := True\<rparr>) \<and>
    connector_callback 0 k v = createTCPHandler k (s\<lparr>connects := connects s @ [(c_fd c, a, len)],
      connectors := (connectors s)(k := Some (c\<lparr>io_on := False, timer_on := False\<rparr>))\<rparr>)"
  using assms by (simp add: connectSockaddr_def watch_io_def watch_timer_def with_connector_def connector_callback_def)

lemma connectSockaddr_result: "connect_rv env a len = rv \<Longrightarrow> connectSockaddr env k a len s = connectSockaddr (env\<lparr>connect_rv := \<lambda>_ _. rv\<rparr>) k a len s"
  by (simp add: connectSockaddr_def)

lemma request_connected:
  assumes "target_wf t" "request_addr env t = Some (a, len)" "socket_fd env (sockaddr_family a) = Some fd"
    "connect_rv env a len \<noteq> Connect_Failed" "\<not> i <s 0" "unat i < max_conn s" "conn_list s (unat i) = None"
  shows "\<exists>s'. request_run env r (le_bytes32 i @ request_bytes t) s s' \<and> connects s' = connects s @ [(int fd, a, len)] \<and>
    tunnel s' = tunnel s @ [reply_packet i SREP_SUCCESS] \<and> conn_list s' = (conn_list s)(unat i := Some (TCPHandler_new (int fd) i False))"
proof -
  let ?k = "next_connector s"
  obtain c where c: "connectors (requested i t s) ?k = Some c" "connid c = i" by (simp add: requested_def)
  let ?s = "with_socket ?k fd c (requested i t s)" and ?c = "c\<lparr>c_fd := int fd\<rparr>"
  have frame: "connects ?s = connects s" "tunnel ?s = tunnel s" "conn_list ?s = conn_list s" "connectors ?s ?k = Some ?c"
    by (simp_all add: with_socket_def requested_def)
  have data: "on_data env r (le_bytes32 i @ request_bytes t) s = connectSockaddr env ?k a len ?s"
    using request_parsed [OF assms(1), of "le_bytes32 i" env i s] on_data_request [OF assms(5-7)] assms(2) setup_socket [OF c(1) assms(3)]
    by simp
  show ?thesis
  proof (cases "connect_rv env a len")
    case Connected
    let ?t = "?s\<lparr>connects := connects s @ [(int fd, a, len)]\<rparr>"
    have "connectSockaddr env ?k a len ?s = createTCPHandler ?k ?t" using Connected frame by (simp add: connectSockaddr_def)
    then show ?thesis using connected_handler [of ?t ?k ?c] frame c(2) assms(7) data by (auto simp: request_run_def)
  next
    case In_Progress
    let ?t = "?s\<lparr>connects := connects s @ [(int fd, a, len)], connectors := (connectors ?s)(?k := Some (?c\<lparr>io_on := False, timer_on := False\<rparr>))\<rparr>"
    obtain s' where s': "createTCPHandler ?k ?t = Some s'" "connects s' = connects s @ [(int fd, a, len)]"
      "tunnel s' = tunnel s @ [reply_packet i SREP_SUCCESS]" "conn_list s' = (conn_list s)(unat i := Some (TCPHandler_new (int fd) i False))"
      using connected_handler [of ?t ?k "?c\<lparr>io_on := False, timer_on := False\<rparr>"] frame c(2) assms(7) by auto
    obtain v where v: "connectSockaddr env ?k a len ?s = Some v" "connectors v ?k = Some (?c\<lparr>io_on := True, timer_on := True\<rparr>)"
      "connector_callback 0 ?k v = Some s'"
      using started_callback [OF frame(4), of env a len] connectSockaddr_result [OF In_Progress] frame(1) s'(1) by auto
    have "request_run env r (le_bytes32 i @ request_bytes t) s s'"
      unfolding request_run_def data by (rule disjI2, rule exI [of _ v], rule exI [of _ ?k], rule exI [of _ "?c\<lparr>io_on := True, timer_on := True\<rparr>"])
        (use v in simp)
    then show ?thesis using s' by blast
  qed (use assms(4) in simp)
qed

lemma request_bytes_cons: "\<exists>body. request_bytes t = 5 # body"
  by (cases t) auto

lemma client_greeting:
  assumes "cl_conn_list s i = Some (TCPHandler_new sd n True)" "length methods < 256" "length g = 4" "0 \<in> set methods"
  shows "client_read (Written 2) (int (length methods) + 2) (g @ [5, of_nat (length methods)] @ methods @ rest) i s =
    Some (s\<lparr>cl_conn_list := (cl_conn_list s)(i := Some ((TCPHandler_new sd n False)\<lparr>socket_out := [5, 0]\<rparr>))\<rparr>)"
  using assms greeting_read [of "TCPHandler_new sd n True" methods g rest] by (simp add: client_read_def TCPHandler_new_def)

lemma client_forward:
  assumes "cl_conn_list s i = Some h" "\<not> needSocks5Handshake h" "length g = 4"
  shows "client_read r (int (length (request_bytes t))) (g @ request_bytes t @ rest) i s =
    Some (s\<lparr>cl_tunnel := cl_tunnel s @ [le_bytes32 (conn_id h) @ request_bytes t]\<rparr>)"
proof -
  obtain body where "request_bytes t = 5 # body" using request_bytes_cons by blast
  then show ?thesis using assms data_read [OF assms(3), of 5 h r body rest]
    by (simp add: client_read_def add.commute fun_upd_idem)
qed

section \<open>Properties\<close>

lemma descriptor_sign: "0 \<le> sd \<Longrightarrow> sd < 2 ^ 31 \<Longrightarrow> \<not> (of_int sd :: u32) <s 0"
  by (simp add: word_sless_alt sint_uint unsigned_of_int take_bit_int_eq_self signed_take_bit_int_eq_self)

text \<open>C13. A session opens end to end.  An accepted application that offers the method without authentication gets it
  granted.  Its request for an IPv4 or IPv6 address, or for an IPv4 address written as a name, then goes through the
  tunnel unchanged; the server calls \<open>connect\<close> with exactly that address; and when the connection is made, at once or as
  the socket's watcher reports it, the server installs the handler of the same number on that socket and the success
  answer comes back to the application behind the granted method, byte for byte as RFC 1928 has it.  The number
  is free at both ends, a socket is available, and the application's socket takes the two answers whole.\<close>

theorem session_opens:
  assumes "0 \<le> sd" "sd < 2 ^ 31" "sd < int (cl_max_conn c0)" "sd < int (max_conn s0)"
    "cl_conn_list c0 (nat sd) = None" "conn_list s0 (nat sd) = None"
    "length methods < 256" "0 \<in> set methods" "length g = 4" "length g' = 4"
    "target_wf t" "request_addr env t = Some (a, len)" "len = sockaddr_size a" "socket_fd env (sockaddr_family a) = Some fd"
    "connect_rv env a len \<noteq> Connect_Failed"
  shows "\<exists>c1 c2 c3 c4 s1 pkt reply h.
    io_accept False sd c0 = Some c1 \<and>
    client_read (Written 2) (int (length methods) + 2) (g @ [5, of_nat (length methods)] @ methods @ rest) (nat sd) c1 = Some c2 \<and>
    client_read r (int (length (request_bytes t))) (g' @ request_bytes t @ rest') (nat sd) c2 = Some c3 \<and>
    cl_tunnel c3 = cl_tunnel c0 @ [pkt] \<and>
    request_run env r' pkt s0 s1 \<and> connects s1 = connects s0 @ [(int fd, a, len)] \<and> tunnel s1 = tunnel s0 @ [reply] \<and>
    conn_list s1 (nat sd) = Some (TCPHandler_new (int fd) (of_int sd) False) \<and>
    client_on_data (Written 10) reply c3 = Some c4 \<and> cl_conn_list c4 (nat sd) = Some h \<and>
    socket_out h = [5, 0] @ [5, 0, 0, 1, 0, 0, 0, 0, 0, 0] \<and> write_queue h = []"
proof -
  let ?i = "of_int sd :: u32" and ?n = "nat sd"
  let ?h = "(TCPHandler_new sd ?i False)\<lparr>socket_out := [5, 0]\<rparr>"
  let ?c1 = "c0\<lparr>cl_conn_list := (cl_conn_list c0)(?n := Some (TCPHandler_new sd ?i True))\<rparr>"
  let ?c2 = "c0\<lparr>cl_conn_list := (cl_conn_list c0)(?n := Some ?h)\<rparr>"
  let ?c3 = "?c2\<lparr>cl_tunnel := cl_tunnel c0 @ [le_bytes32 ?i @ request_bytes t]\<rparr>"
  let ?h4 = "?h\<lparr>socket_out := [5, 0] @ [5, 0, 0, 1, 0, 0, 0, 0, 0, 0]\<rparr>"
  have i: "unat ?i = ?n" "\<not> ?i <s 0" using assms(1,2) by (simp_all add: unat_descriptor descriptor_sign)
  have 1: "io_accept False sd c0 = Some ?c1" using assms(1,3,5) by (simp add: io_accept_def client_shutdown_def)
  have 2: "client_read (Written 2) (int (length methods) + 2) (g @ [5, of_nat (length methods)] @ methods @ rest) ?n ?c1 = Some ?c2"
    using client_greeting [of ?c1 ?n sd ?i methods g rest] assms(7-9) by simp
  have 3: "client_read r (int (length (request_bytes t))) (g' @ request_bytes t @ rest') ?n ?c2 = Some ?c3"
    using client_forward [of ?c2 ?n ?h g' r t rest'] assms(10) by (simp add: TCPHandler_new_def)
  obtain s1 where s1: "request_run env r' (le_bytes32 ?i @ request_bytes t) s0 s1" "connects s1 = connects s0 @ [(int fd, a, len)]"
    "tunnel s1 = tunnel s0 @ [reply_packet ?i 0]" "conn_list s1 = (conn_list s0)(unat ?i := Some (TCPHandler_new (int fd) ?i False))"
    using request_connected [OF assms(11,12,14,15) i(2), of s0 r'] assms(1,4,6) i(1) by (auto simp: nat_less_iff)
  have 4: "client_on_data (Written 10) (reply_packet ?i 0) ?c3 = Some (?c3\<lparr>cl_conn_list := (cl_conn_list ?c3)(unat ?i := Some ?h4)\<rparr>)"
    unfolding reply_packet_def
    by (rule client_on_data_handler [where h = ?h]) (use i assms(1,3) in \<open>simp_all add: tcp_send_def send_act_def TCPHandler_new_def nat_less_iff\<close>)
  show ?thesis
    by (rule exI [of _ ?c1], rule exI [of _ ?c2], rule exI [of _ ?c3], rule exI, rule exI, rule exI, rule exI, rule exI [of _ ?h4],
        intro conjI, rule 1, rule 2, rule 3, simp, rule s1(1), rule s1(2), rule s1(3), use s1(4) i(1) in simp, rule 4, use i(1) in simp)
      (simp_all add: TCPHandler_new_def)
qed

definition in_progress_env :: connect_env where
  "in_progress_env = connected_env\<lparr>connect_rv := \<lambda>_ _. In_Progress\<rparr>"

theorem session_opens_witness:
  "\<exists>c1 c2 c3 c4 s1 pkt reply h.
    io_accept False 3 (TCPServer_new (\<lambda>_. None) 8) = Some c1 \<and>
    client_read (Written 2) 4 [0, 0, 0, 0, 5, 2, 1, 0] 3 c1 = Some c2 \<and>
    client_read Would_Block 10 ([0, 0, 0, 0] @ request_bytes (Target_V4 [10, 0, 0, 1] 80)) 3 c2 = Some c3 \<and>
    cl_tunnel c3 = [pkt] \<and> request_run in_progress_env Would_Block pkt (S5Server_new (\<lambda>_. None) some_opts 8) s1 \<and>
    connects s1 = [(9, Sockaddr_In [10, 0, 0, 1] 80, 16)] \<and>
    tunnel s1 = [reply] \<and> client_on_data (Written 10) reply c3 = Some c4 \<and> cl_conn_list c4 3 = Some h \<and>
    socket_out h = [5, 0, 5, 0, 0, 1, 0, 0, 0, 0, 0, 0]"
proof -
  let ?c = "TCPServer_new (\<lambda>_. None) 8" and ?s = "S5Server_new (\<lambda>_. None) some_opts 8" and ?a = "Sockaddr_In [10, 0, 0, 1] 80"
  have c: "cl_max_conn ?c = 8" "cl_conn_list ?c = (\<lambda>_. None)" "cl_tunnel ?c = []" by (simp_all add: TCPServer_new_def)
  have s: "max_conn ?s = 8" "conn_list ?s = (\<lambda>_. None)" "tunnel ?s = []" "connects ?s = []" by (simp_all add: S5Server_new_def)
  have e: "socket_fd in_progress_env AF_INET = Some 9" "connect_rv in_progress_env ?a 16 = In_Progress"
    by (simp_all add: in_progress_env_def connected_env_def)
  let ?t = "Target_V4 [10, 0, 0, 1] 80"
  obtain c1 c2 c3 c4 s1 pkt reply h where o: "io_accept False 3 ?c = Some c1"
    "client_read (Written 2) (int (length [1, 0 :: u8]) + 2) ([0, 0, 0, 0] @ [5, of_nat (length [1, 0 :: u8])] @ [1, 0] @ []) (nat 3) c1 = Some c2"
    "client_read Would_Block (int (length (request_bytes ?t))) ([0, 0, 0, 0] @ request_bytes ?t @ []) (nat 3) c2 = Some c3"
    "cl_tunnel c3 = cl_tunnel ?c @ [pkt]" "request_run in_progress_env Would_Block pkt ?s s1" "connects s1 = connects ?s @ [(int 9, ?a, 16)]"
    "tunnel s1 = tunnel ?s @ [reply]" "client_on_data (Written 10) reply c3 = Some c4" "cl_conn_list c4 (nat 3) = Some h"
    "socket_out h = [5, 0] @ [5, 0, 0, 1, 0, 0, 0, 0, 0, 0]"
    using session_opens [of 3 ?c ?s "[1, 0]" "[0, 0, 0, 0]" "[0, 0, 0, 0]" ?t in_progress_env ?a 16 9 "[]" Would_Block "[]" Would_Block]
      c s e by - ((drule meta_mp, simp)+, elim exE conjE, assumption)
  show ?thesis by (intro exI conjI, rule o(1)) (use o c s in simp_all)
qed

text \<open>The way back keeps bytes and order: what the application's handler has written to its socket followed by
  what it still holds is what it held before followed by the pieces the server's handler of the same number
  read, in order.\<close>

theorem back_integrity:
  assumes "\<not> needSocks5Handshake h" "\<not> conn_id h <s 0" "unat (conn_id h) < cl_max_conn s0"
    "cl_conn_list s0 (unat (conn_id h)) = Some c0" "handler_ok c0"
    "pipe_run (back_push h) (back_pump h) ds s0 s"
  shows "\<exists>c. cl_conn_list s (unat (conn_id h)) = Some c \<and>
    socket_out c @ queue_bytes (write_queue c) = socket_out c0 @ queue_bytes (write_queue c0) @ concat ds"
proof -
  have "back_ok h s0" using assms by (simp add: back_ok_def)
  from way_back.run_contents [OF assms(6) this] assms(4) show ?thesis
    by (auto simp: back_ok_def back_contents_def handler_contents_def split: option.splits)
qed

text \<open>Handlers stay under their own numbers at the client, over every order of accepts, packets, reads and write
  events.\<close>

theorem handlers_numbered:
  assumes "client_step\<^sup>*\<^sup>* (TCPServer_new (\<lambda>_. None) n) s" "cl_conn_list s i = Some h"
  shows "unat (conn_id h) = i"
proof -
  have start: "numbered (TCPServer_new (\<lambda>_. None) n)" by (simp add: numbered_def TCPServer_new_def)
  have "numbered s" using assms(1) by (induction rule: rtranclp_induct) (auto intro: client_step_numbered start)
  with assms(2) show ?thesis by (simp add: numbered_def)
qed

end
