(* ===== verification/DNS_Cache.thy ===== *)
theory DNS_Cache
  imports Socks5_Server
begin

text \<open>
  The resolver of the SOCKS5 server (\<open>tysocks/server/DNS.cpp\<close>): a cache of answers and a table of callbacks by
  query number, in front of an asynchronous resolver library.  The callbacks are connectors, by address.
  The library appears as the queries it holds: it answers a query at most once, and the answer is one for
  the name that was asked.
\<close>

section \<open>State and operations\<close>

record 'cb dns =
  qid :: int
  cb_map :: "u32 \<rightharpoonup> 'cb option"
  dns_cache :: "u8 list \<rightharpoonup> (addr_family \<times> u8 list) list"

datatype dns_entry = Entry_A "u8 list" | Entry_AAAA "u8 list" | Entry_Other

record dns_reply =
  reply_name :: "u8 list"
  reply_noerror :: bool
  reply_entries :: "dns_entry list"

abbreviation (input) INT32_MAX :: int where "INT32_MAX \<equiv> 2147483647"

definition DNS_init :: "'cb dns" where
  "DNS_init = \<lparr>qid = 0, cb_map = (\<lambda>_. None), dns_cache = (\<lambda>_. None)\<rparr>"

fun entry_result :: "dns_entry \<Rightarrow> (addr_family \<times> u8 list) list" where
  "entry_result (Entry_A a) = [(AF_INET, take 4 a)]"
| "entry_result (Entry_AAAA a) = [(AF_INET6, take 16 a)]"
| "entry_result Entry_Other = []"

text \<open>\<open>cb_map[id]\<close> adds an empty callback when there is none.  The result is the call of the callback.\<close>

definition processResult :: "u32 \<Rightarrow> dns_reply \<Rightarrow> 'cb dns \<Rightarrow> ('cb \<times> (addr_family \<times> u8 list) list) option \<times> 'cb dns" where
  "processResult qn reply d =
     (let d = (if cb_map d qn = None then d\<lparr>cb_map := (cb_map d)(qn \<mapsto> None)\<rparr> else d)
      in case Option.bind (cb_map d qn) (\<lambda>c. c) of
        None \<Rightarrow> (None, d)
      | Some cb \<Rightarrow>
          let addrs = (if reply_noerror reply then concat (map entry_result (reply_entries reply)) else [])
          in (Some (cb, addrs), d\<lparr>dns_cache := (dns_cache d)(reply_name reply \<mapsto> addrs)\<rparr>))"

text \<open>\<open>made\<close> tells whether the library accepted the query.  The result: the call of the callback for a cached name,
  the query given to the library, and the new state.\<close>

definition getAddrInfoAsync ::
  "int \<Rightarrow> bool \<Rightarrow> addr_family \<Rightarrow> u8 list \<Rightarrow> 'cb \<Rightarrow> 'cb dns \<Rightarrow> (addr_family \<times> u8 list) list option \<times> u32 option \<times> 'cb dns" where
  "getAddrInfoAsync now made af name cb d = (case dns_cache d name of
     Some res \<Rightarrow> (Some res, None, d)
   | None \<Rightarrow>
       let q = (if qid d + 1 = INT32_MAX then 0 else qid d) + 1; query_id = of_int (now + q)
       in (None, if (af = AF_INET \<or> af = AF_INET6) \<and> made then Some query_id else None,
           d\<lparr>qid := q, cb_map := (cb_map d)(query_id \<mapsto> Some cb)\<rparr>))"

section \<open>The resolver and the server together\<close>

text \<open>\<open>asked\<close> holds the queries of the library, each with its name and the connector that made it; \<open>clock\<close> the last
  time read; \<open>asks\<close> counts the queries that missed the cache.\<close>

record resolver_system =
  srv :: s5_server
  dns_state :: "nat dns"
  asked :: "u32 \<rightharpoonup> u8 list \<times> nat"
  clock :: int
  asks :: nat

text \<open>A packet after which the server has called \<open>getAddrInfoAsync\<close> goes on in the resolver; the clock it reads does
  not run backwards.\<close>

inductive res_step :: "resolver_system \<Rightarrow> resolver_system \<Rightarrow> bool" where
  miss: "on_data env r buf (srv s) = Some v \<Longrightarrow> lookups v = lookups (srv s) @ [(k, name)] \<Longrightarrow> clock s \<le> now \<Longrightarrow>
    getAddrInfoAsync now made AF_INET name k (dns_state s) = (None, query, d') \<Longrightarrow>
    res_step s (s\<lparr>srv := v, dns_state := d', clock := now, asks := asks s + 1,
      asked := (case query of None \<Rightarrow> asked s | Some q \<Rightarrow> (asked s)(q \<mapsto> (name, k)))\<rparr>)"
| hit: "on_data env r buf (srv s) = Some v \<Longrightarrow> lookups v = lookups (srv s) @ [(k, name)] \<Longrightarrow>
    getAddrInfoAsync now made AF_INET name k (dns_state s) = (Some res, query, d') \<Longrightarrow>
    dnsresp env k res v = Some v' \<Longrightarrow> res_step s (s\<lparr>srv := v', dns_state := d'\<rparr>)"
| packet: "on_data env r buf (srv s) = Some v \<Longrightarrow> lookups v = lookups (srv s) \<Longrightarrow> res_step s (s\<lparr>srv := v\<rparr>)"
| reply: "asked s q = Some (reply_name rp, j) \<Longrightarrow> processResult q rp (dns_state s) = (Some (k, addrs), d') \<Longrightarrow>
    dnsresp env k addrs (srv s) = Some v \<Longrightarrow> res_step s (s\<lparr>srv := v, dns_state := d', asked := (asked s)(q := None)\<rparr>)"
| stray: "asked s q = Some (reply_name rp, j) \<Longrightarrow> processResult q rp (dns_state s) = (None, d') \<Longrightarrow>
    res_step s (s\<lparr>dns_state := d', asked := (asked s)(q := None)\<rparr>)"
| expired: "connectors (srv s) k = Some c \<Longrightarrow> timer_on c \<Longrightarrow> connector_timeout k (srv s) = Some v \<Longrightarrow> res_step s (s\<lparr>srv := v\<rparr>)"
| ready: "connectors (srv s) k = Some c \<Longrightarrow> io_on c \<Longrightarrow> connector_callback err k (srv s) = Some v \<Longrightarrow> res_step s (s\<lparr>srv := v\<rparr>)"
| written: "conn_list (srv s) i = Some h \<Longrightarrow> write_cb e h = Some h' \<Longrightarrow>
    res_step s (s\<lparr>srv := (srv s)\<lparr>conn_list := (conn_list (srv s))(i := Some h')\<rparr>\<rparr>)"
| received: "server_read r nread data i (srv s) = Some v \<Longrightarrow> res_step s (s\<lparr>srv := v\<rparr>)"
| beat: "res_step s (s\<lparr>srv := heartbeat (srv s)\<rparr>)"

definition res_start :: "int \<Rightarrow> (nat \<Rightarrow> tcp_handler option) \<Rightarrow> sock_opts \<Rightarrow> nat \<Rightarrow> resolver_system" where
  "res_start t0 memory opts n = \<lparr>srv = S5Server_new memory opts n, dns_state = DNS_init, asked = (\<lambda>_. None), clock = t0, asks = 0\<rparr>"

section \<open>What the server's operations change\<close>

definition only_at :: "nat \<Rightarrow> s5_server \<Rightarrow> s5_server \<Rightarrow> bool" where
  "only_at k s s' \<longleftrightarrow> (\<forall>j. j \<noteq> k \<longrightarrow> connectors s' j = connectors s j) \<and> next_connector s' = next_connector s \<and> lookups s' = lookups s"

lemma only_at_trans: "only_at k s t \<Longrightarrow> only_at k t u \<Longrightarrow> only_at k s u"
  by (simp add: only_at_def)

lemma with_connector_at: "with_connector k f s = Some s' \<Longrightarrow> only_at k s s'"
  by (auto simp: with_connector_def only_at_def)

lemma close_fd_at: "close_fd k s = Some s' \<Longrightarrow> only_at k s s'"
  by (auto simp: close_fd_def only_at_def)

lemma give_up_at: "give_up k st s = Some s' \<Longrightarrow> only_at k s s'"
  by (auto simp: give_up_def replyStatus_def delete_connector_def close_connection_def only_at_def bind_eq_Some_conv)

lemma create_at: "createTCPHandler k s = Some s' \<Longrightarrow> only_at k s s'"
  by (auto simp: createTCPHandler_def replyStatus_def only_at_def bind_eq_Some_conv Let_def)

lemma connect_at:
  assumes "connectSockaddr env k a len s = Some s'"
  shows "only_at k s s'"
proof -
  obtain c where c: "connectors s k = Some c" using assms by (auto simp: connectSockaddr_def bind_eq_Some_conv)
  let ?s = "s\<lparr>connects := connects s @ [(c_fd c, a, len)]\<rparr>"
  have "only_at k ?s s'"
    using assms c by (cases "connect_rv env a len") (auto simp: connectSockaddr_def watch_io_def watch_timer_def bind_eq_Some_conv
        intro: give_up_at create_at with_connector_at only_at_trans)
  then show ?thesis by (simp add: only_at_def)
qed

lemma setup_at: "setup_and_connect env k a len s = Some s' \<Longrightarrow> only_at k s s'"
  by (auto simp: setup_and_connect_def setupFd_def with_connector_def bind_eq_Some_conv only_at_def delete_connector_def close_connection_def
      dest!: connect_at split: if_splits option.splits)

lemma dnsresp_at:
  assumes "dnsresp env k res s = Some s'"
  shows "only_at k s s'"
proof -
  obtain c where c: "connectors s k = Some c" using assms by (auto simp: dnsresp_def bind_eq_Some_conv)
  show ?thesis
  proof (cases "hasCallback c")
    case False
    then show ?thesis using dnsresp_acts [OF assms c] by (auto simp: only_at_def dest!: give_up_at setup_at)
  qed (use assms c in \<open>auto simp: dnsresp_def only_at_def\<close>)
qed

lemma timeout_at: "connector_timeout k s = Some s' \<Longrightarrow> only_at k s s'"
  by (auto simp: connector_timeout_def watch_io_def watch_timer_def bind_eq_Some_conv
      dest!: with_connector_at close_fd_at give_up_at) (simp add: only_at_def)

lemma callback_at: "connector_callback err k s = Some s' \<Longrightarrow> only_at k s s'"
  by (auto simp: connector_callback_def watch_io_def watch_timer_def bind_eq_Some_conv
      split: if_splits dest!: with_connector_at close_fd_at give_up_at create_at) (simp_all add: only_at_def)

lemma setup_total:
  assumes "connectors s k = Some c"
  shows "\<exists>s'. setup_and_connect env k a len s = Some s'"
proof (cases "socket_fd env (sockaddr_family a)")
  case (Some fd)
  then show ?thesis using assms connect_called [of "with_socket k fd c s" k "c\<lparr>c_fd := int fd\<rparr>" env a len]
    by (auto simp: setup_socket) (auto simp: with_socket_def)
qed (use assms setup_no_socket in blast)

lemma dnsresp_total:
  assumes "connectors s k = Some c"
  shows "\<exists>s'. dnsresp env k res s = Some s'"
proof -
  let ?s = "s\<lparr>connectors := (connectors s)(k := Some (c\<lparr>hasCallback := True\<rparr>))\<rparr>"
  have "\<exists>s'. setup_and_connect env k a len ?s = Some s'" for a len using setup_total [of ?s k "c\<lparr>hasCallback := True\<rparr>"] by simp
  moreover have "\<exists>s'. give_up k 8 ?s = Some s'" by (simp add: give_up_def replyStatus_def)
  ultimately show ?thesis using assms
    by (auto simp: dnsresp_def connectV4_def connectV6_def with_connector_def Let_def split: list.splits prod.splits)
qed

text \<open>A packet touches no connector that is there already; one that asks for a name adds a connector that waits.\<close>

definition packet_change :: "s5_server \<Rightarrow> s5_server \<Rightarrow> bool" where
  "packet_change s s' \<longleftrightarrow> (\<forall>j < next_connector s. connectors s' j = connectors s j) \<and> next_connector s \<le> next_connector s' \<and>
     (lookups s' = lookups s \<or> (\<exists>d. lookups s' = lookups s @ [(next_connector s, d)] \<and> waits s' (next_connector s)))"

lemma domain_at:
  assumes "connectDomain env k d p s = Some s'"
  shows "only_at k s (s'\<lparr>lookups := lookups s\<rparr>) \<and> (lookups s' = lookups s \<or> lookups s' = lookups s @ [(k, c_string d)] \<and> waits s' k)"
  using assms
  by (auto simp: connectDomain_def with_connector_def bind_eq_Some_conv only_at_def waits_def split: option.splits dest!: setup_at)

lemma request_at:
  assumes "socks5_request env i buf s = Some s'"
  shows "packet_change s s'"
proof -
  obtain k s1 where n: "new_connector i s = (k, s1)" by force
  then have s1: "k = next_connector s" "next_connector s1 = next_connector s + 1" "\<forall>j. j \<noteq> k \<longrightarrow> connectors s1 j = connectors s j"
    "lookups s1 = lookups s"
    by (auto simp: new_connector_def)
  from request_cases [OF assms n] show ?thesis using s1
    by (elim disjE exE)
      (auto simp: only_at_def packet_change_def close_connection_def delete_connector_def dest!: setup_at domain_at)
qed

lemma on_data_at: "on_data env r buf s = Some s' \<Longrightarrow> packet_change s s'"
  using on_data_same request_at by (fastforce simp: same_answers_def packet_change_def)

section \<open>Every query has a connector that waits\<close>

text \<open>The bound under which query numbers cannot repeat: seconds since the start plus queries made.\<close>

definition in_bound :: "int \<Rightarrow> resolver_system \<Rightarrow> bool" where
  "in_bound t0 s \<longleftrightarrow> clock s - t0 + int (asks s) < INT32_MAX"

text \<open>Every query of the library stands in the table with the connector that made it, which waits; a connector has one
  query at most.\<close>

definition queries_ok :: "int \<Rightarrow> int \<Rightarrow> (u32 \<rightharpoonup> u8 list \<times> nat) \<Rightarrow> (u32 \<rightharpoonup> nat option) \<Rightarrow> s5_server \<Rightarrow> bool" where
  "queries_ok t0 t1 A cm v \<longleftrightarrow>
     (\<forall>q d k. A q = Some (d, k) \<longrightarrow> (\<exists>m. q = of_int m \<and> t0 \<le> m \<and> m \<le> t1) \<and> cm q = Some (Some k) \<and> waits v k) \<and>
     (\<forall>q q' d d' k. A q = Some (d, k) \<and> A q' = Some (d', k) \<longrightarrow> q = q')"

definition res_inv :: "int \<Rightarrow> resolver_system \<Rightarrow> bool" where
  "res_inv t0 s \<longleftrightarrow> answers_inv (srv s) \<and> qid (dns_state s) = int (asks s) \<and> t0 \<le> clock s \<and>
     queries_ok t0 (clock s + int (asks s)) (asked s) (cb_map (dns_state s)) (srv s)"

lemma query_ids_differ:
  assumes "m < m'" "m' - m < 2 ^ 32"
  shows "(of_int m :: u32) \<noteq> of_int m'"
proof
  assume "(of_int m :: u32) = of_int m'"
  then have "(2 :: int) ^ 32 dvd m' - m" by (simp add: word_of_int_eq_iff take_bit_eq_mod mod_eq_dvd_iff dvd_diff_commute)
  then show False using zdvd_imp_le [of "2 ^ 32" "m' - m"] assms by simp
qed

lemma waits_below: "answers_inv v \<Longrightarrow> waits v k \<Longrightarrow> k < next_connector v"
  by (auto simp: waits_def answers_inv_def numbers_ok_def not_le [symmetric])

lemma waits_only_at: "only_at k v v' \<Longrightarrow> waits v j \<Longrightarrow> j \<noteq> k \<Longrightarrow> waits v' j"
  by (simp add: waits_def only_at_def)

lemma waits_on_data: "on_data env r buf v = Some v' \<Longrightarrow> answers_inv v \<Longrightarrow> waits v j \<Longrightarrow> waits v' j"
  using on_data_at [of env r buf v v'] waits_below [of v j] by (force simp: waits_def packet_change_def)

lemma queries_ok_mono:
  assumes "queries_ok t0 t1 A cm v" "t1 \<le> t1'" "A' \<subseteq>\<^sub>m A" "\<And>q. q \<in> dom A' \<Longrightarrow> cm' q = cm q"
    "\<And>q d k. A' q = Some (d, k) \<Longrightarrow> waits v k \<Longrightarrow> waits v' k"
  shows "queries_ok t0 t1' A' cm' v'"
proof -
  have A: "A q = Some x" if "A' q = Some x" for q x using assms(3) that by (metis domI map_le_def)
  have "(\<exists>m. q = of_int m \<and> t0 \<le> m \<and> m \<le> t1') \<and> cm' q = Some (Some k) \<and> waits v' k" if q: "A' q = Some (d, k)" for q d k
  proof -
    have "(\<exists>m. q = of_int m \<and> t0 \<le> m \<and> m \<le> t1) \<and> cm q = Some (Some k) \<and> waits v k"
      using assms(1) A [OF q] unfolding queries_ok_def by blast
    then show ?thesis using assms(2) assms(4) [of q] assms(5) [OF q] q by (auto intro: order_trans)
  qed
  moreover have "q = q'" if "A' q = Some (d, k)" "A' q' = Some (d', k)" for q q' d d' k
    using assms(1) A that unfolding queries_ok_def by blast
  ultimately show ?thesis unfolding queries_ok_def by blast
qed

lemma queries_ok_insert:
  assumes "queries_ok t0 t1 A cm v" "q = of_int m" "t0 \<le> m" "m \<le> t1" "cm q = Some (Some n)" "\<not> waits v n"
    "\<And>k. waits v k \<Longrightarrow> waits v' k" "waits v' n"
  shows "queries_ok t0 t1 (A(q \<mapsto> (d, n))) cm v'"
  using assms unfolding queries_ok_def by (auto simp: fun_upd_def split: if_splits)

lemma res_inv_srv:
  assumes "res_inv t0 s" "answers_inv v" "\<And>k. waits (srv s) k \<Longrightarrow> waits v k"
  shows "res_inv t0 (s\<lparr>srv := v\<rparr>)"
proof -
  have "queries_ok t0 (clock s + int (asks s)) (asked s) (cb_map (dns_state s)) v"
    by (rule queries_ok_mono [of t0 "clock s + int (asks s)" "asked s" "cb_map (dns_state s)" "srv s"])
      (use assms in \<open>auto simp: res_inv_def\<close>)
  with assms show ?thesis by (simp add: res_inv_def)
qed

lemma res_inv_miss:
  assumes inv: "res_inv t0 s" and v: "answers_inv v" "\<And>k. waits (srv s) k \<Longrightarrow> waits v k" "waits v n" "\<not> waits (srv s) n"
    and now: "clock s \<le> now" "now - t0 + int (asks s + 1) < INT32_MAX"
    and get: "getAddrInfoAsync now made AF_INET d n (dns_state s) = (None, query, d')"
  shows "res_inv t0 (s\<lparr>srv := v, dns_state := d', clock := now, asks := asks s + 1,
      asked := (case query of None \<Rightarrow> asked s | Some q \<Rightarrow> (asked s)(q \<mapsto> (d, n)))\<rparr>)"
proof -
  let ?t = "now + int (asks s + 1)" and ?A = "asked s"
  let ?id = "of_int ?t :: u32"
  have q: "qid (dns_state s) = int (asks s)" and t0: "t0 \<le> clock s"
    and ok: "queries_ok t0 (clock s + int (asks s)) ?A (cb_map (dns_state s)) (srv s)" using inv by (simp_all add: res_inv_def)
  have d': "qid d' = int (asks s + 1)" "cb_map d' = (cb_map (dns_state s))(?id \<mapsto> Some n)" "query = None \<or> query = Some ?id"
    using get now t0 q by (auto simp: getAddrInfoAsync_def Let_def algebra_simps split: option.splits if_splits)
  have fresh: "?id \<notin> dom ?A"
  proof
    assume "?id \<in> dom ?A"
    then obtain m where m: "?id = of_int m" "t0 \<le> m" "m \<le> clock s + int (asks s)" using ok unfolding queries_ok_def by fast
    with query_ids_differ [of m ?t] now t0 show False by simp
  qed
  have keep: "queries_ok t0 ?t ?A (cb_map d') v'" if "\<And>k. waits (srv s) k \<Longrightarrow> waits v' k" for v'
    by (rule queries_ok_mono [OF ok]) (use that now(1) d'(2) fresh in auto)
  have new: "queries_ok t0 ?t (?A(?id \<mapsto> (d, n))) (cb_map d') v"
    by (rule queries_ok_insert [OF keep [of "srv s"] refl]) (use v now(1) t0 d'(2) in auto)
  show ?thesis using d'(3)
  proof
    assume "query = None"
    then show ?thesis using keep [OF v(2)] v(1) d'(1) t0 now(1) by (simp add: res_inv_def)
  next
    assume "query = Some ?id"
    then show ?thesis using new v(1) d'(1) t0 now(1) by (simp add: res_inv_def)
  qed
qed

lemma processResult_found:
  assumes "cb_map d q = Some (Some k)"
  shows "\<exists>d'. processResult q rp d = (Some (k, if reply_noerror rp then concat (map entry_result (reply_entries rp)) else []), d') \<and>
    cb_map d' = cb_map d \<and> qid d' = qid d"
  using assms by (simp add: processResult_def Let_def)

lemma asked_waits: "res_inv t0 s \<Longrightarrow> asked s q = Some (d, k) \<Longrightarrow> cb_map (dns_state s) q = Some (Some k) \<and> waits (srv s) k"
  unfolding res_inv_def queries_ok_def by blast

lemma asked_called:
  assumes "res_inv t0 s" "asked s q = Some (d, j)" "processResult q rp (dns_state s) = (Some (k, addrs), d')"
  shows "k = j \<and> cb_map d' = cb_map (dns_state s) \<and> qid d' = qid (dns_state s) \<and> waits (srv s) j"
  using asked_waits [OF assms(1,2)] processResult_found [of "dns_state s" q j rp] assms(3) by auto

text \<open>One step of the system is a step or two of the server, and keeps the invariant within the bound.\<close>

lemma bound_back: "res_step s s' \<Longrightarrow> in_bound t0 s' \<Longrightarrow> in_bound t0 s"
  by (induction rule: res_step.induct) (auto simp: in_bound_def)

lemma next_not_waits: "answers_inv v \<Longrightarrow> \<not> waits v (next_connector v)"
  using waits_below by blast

lemma lookup_made:
  assumes "on_data env r buf v0 = Some v" "lookups v = lookups v0 @ [(k, d)]"
  shows "k = next_connector v0 \<and> waits v k"
  using on_data_at [OF assms(1)] assms(2) by (auto simp: packet_change_def)

lemma hit_server:
  assumes "answers_inv v0" "on_data env r buf v0 = Some v" "lookups v = lookups v0 @ [(k, d)]" "dnsresp env k res v = Some v'"
  shows "s5_step\<^sup>*\<^sup>* v0 v' \<and> (\<forall>j. waits v0 j \<longrightarrow> waits v' j)"
proof
  note k = lookup_made [OF assms(2,3)]
  have "s5_step v0 v" "s5_step v v'" using s5_step.packet [OF assms(2)] s5_step.resolved [OF _ assms(4)] assms(3) by auto
  then show "s5_step\<^sup>*\<^sup>* v0 v'" by simp
  show "\<forall>j. waits v0 j \<longrightarrow> waits v' j"
    using waits_on_data [OF assms(2,1)] waits_only_at [OF dnsresp_at [OF assms(4)]] next_not_waits [OF assms(1)] k by metis
qed

lemma reply_server:
  assumes "waits v k" "dnsresp env k addrs v = Some v'"
  shows "s5_step v v'"
  using assms s5_step.resolved [of k v env addrs v'] by (auto simp: waits_def)

lemma res_step_server: "res_step s s' \<Longrightarrow> res_inv t0 s \<Longrightarrow> s5_step\<^sup>*\<^sup>* (srv s) (srv s')"
proof (induction rule: res_step.induct)
  case (hit env r buf s v k name now made res query d' v')
  then show ?case using hit_server [of "srv s"] by (simp add: res_inv_def)
next
  case (reply s q rp j k addrs d' env v)
  then show ?case using reply_server [of "srv s" k env addrs v] asked_called [OF reply(4,1,2)] by auto
qed (auto intro: r_into_rtranclp s5_step.intros)

lemma res_inv_reply:
  assumes "res_inv t0 s" "asked s q = Some (d, j)" "processResult q rp (dns_state s) = (Some (k, addrs), d')"
    "dnsresp env k addrs (srv s) = Some v"
  shows "res_inv t0 (s\<lparr>srv := v, dns_state := d', asked := (asked s)(q := None)\<rparr>)"
proof -
  note d' = asked_called [OF assms(1-3)]
  have ok: "queries_ok t0 (clock s + int (asks s)) (asked s) (cb_map (dns_state s)) (srv s)"
    using assms(1) by (simp add: res_inv_def)
  have other: "i \<noteq> k" if "((asked s)(q := None)) q' = Some (e, i)" for q' e i
  proof
    assume "i = k"
    then have "asked s q' = Some (e, j)" "q' \<noteq> q" using that d' by (auto split: if_splits)
    with ok assms(2) show False unfolding queries_ok_def by blast
  qed
  have "queries_ok t0 (clock s + int (asks s)) ((asked s)(q := None)) (cb_map (dns_state s)) v"
    by (rule queries_ok_mono [OF ok]) (use other waits_only_at [OF dnsresp_at [OF assms(4)]] in \<open>auto simp: map_le_def split: if_splits\<close>)
  moreover have "answers_inv v" using reply_server [OF _ assms(4)] d' s5_step_inv assms(1) by (auto simp: res_inv_def)
  ultimately show ?thesis using assms(1) d' by (simp add: res_inv_def)
qed

text \<open>A connector with a started watcher does not wait for the resolver.\<close>

lemma res_inv_started:
  assumes "res_inv t0 s" "connectors (srv s) k = Some c" "io_on c \<or> timer_on c" "only_at k (srv s) v" "s5_step (srv s) v"
  shows "res_inv t0 (s\<lparr>srv := v\<rparr>)"
proof (rule res_inv_srv [OF assms(1)])
  show "answers_inv v" using assms(1,5) s5_step_inv by (auto simp: res_inv_def)
  have "answer_ok (srv s) k" using assms(1) by (simp add: res_inv_def answers_inv_def)
  then have "\<not> waits (srv s) k" using assms(2,3) by (auto simp: answer_ok_def waits_def)
  fix j assume "waits (srv s) j"
  with \<open>\<not> waits (srv s) k\<close> show "waits v j" using waits_only_at [OF assms(4)] by blast
qed

lemma res_inv_same: "res_inv t0 s \<Longrightarrow> same_answers (srv s) v \<Longrightarrow> res_inv t0 (s\<lparr>srv := v\<rparr>)"
  using res_inv_srv [of t0 s v] same_answers_inv [of "srv s" v] by (auto simp: res_inv_def waits_def same_answers_def)

lemma res_step_inv: "res_step s s' \<Longrightarrow> in_bound t0 s' \<Longrightarrow> res_inv t0 s \<Longrightarrow> res_inv t0 s'"
proof (induction rule: res_step.induct)
  case (miss env r buf s v k name now made query d')
  have inv: "answers_inv (srv s)" using miss by (simp add: res_inv_def)
  show ?case
    by (rule res_inv_miss [OF miss(6) on_data_inv [OF inv miss(1)] _ _ _ miss(3) _ miss(4)])
      (use miss(5) waits_on_data [OF miss(1) inv] lookup_made [OF miss(1,2)] next_not_waits [OF inv] in \<open>auto simp: in_bound_def\<close>)
next
  case (hit env r buf s v k name now made res query d' v')
  then have inv: "answers_inv (srv s)" by (simp add: res_inv_def)
  have "d' = dns_state s" using hit(3) by (auto simp: getAddrInfoAsync_def Let_def split: option.splits)
  moreover have "answers_inv v'" using reachable_inv hit_server [OF inv hit(1,2,4)] inv by blast
  ultimately show ?case using res_inv_srv [OF hit(6), of v'] hit_server [OF inv hit(1,2,4)] by simp
next
  case (reply s q rp j k addrs d' env v)
  then show ?case by (intro res_inv_reply)
next
  case (stray s q rp j d')
  then show ?case using asked_waits [OF stray(4,1)] processResult_found [of "dns_state s" q j rp] by auto
next
  case (packet env r buf s v)
  then show ?case using on_data_inv waits_on_data by (intro res_inv_srv) (auto simp: res_inv_def)
next
  case (expired s k c v)
  then show ?case using res_inv_started timeout_at s5_step.expired by blast
next
  case (ready s k c err v)
  then show ?case using res_inv_started callback_at s5_step.ready by blast
next
  case (received r nread data i s v)
  then show ?case using res_inv_same server_read_same by blast
qed (auto intro: res_inv_same)

lemma res_reachable:
  assumes "res_step\<^sup>*\<^sup>* (res_start t0 memory opts n) s" "in_bound t0 s"
  shows "res_inv t0 s \<and> s5_step\<^sup>*\<^sup>* (S5Server_new memory opts n) (srv s)"
  using assms
proof (induction rule: rtranclp_induct)
  case base
  show ?case by (simp add: res_inv_def res_start_def queries_ok_def DNS_init_def server_new_inv)
next
  case (step y z)
  then have "res_inv t0 y" "s5_step\<^sup>*\<^sup>* (S5Server_new memory opts n) (srv y)" using bound_back by blast+
  then show ?case using step res_step_inv res_step_server by (meson rtranclp_trans)
qed

section \<open>Properties\<close>

text \<open>A run to the first query: a request for the name \<open>a\<close> at time 100.\<close>

definition waiting_env :: connect_env where
  "waiting_env = \<lparr>socket_fd = (\<lambda>_. Some 9), connect_rv = (\<lambda>_ _. In_Progress), pton = (\<lambda>_ _. None)\<rparr>"

definition first_query :: "nat dns" where
  "first_query = \<lparr>qid = 1, cb_map = [101 \<mapsto> Some 0], dns_cache = (\<lambda>_. None)\<rparr>"

abbreviation (input) demo_start :: resolver_system where
  "demo_start \<equiv> res_start 100 (\<lambda>_. None) some_opts 8"

lemma first_query_run:
  "\<exists>s. res_step\<^sup>*\<^sup>* demo_start s \<and> clock s = 100 \<and> asks s = 1 \<and> asked s = [101 \<mapsto> ([97], 0)] \<and> dns_state s = first_query"
proof -
  let ?s = "demo_start" and ?t = "Target_Domain [97] 80"
  obtain v where v: "on_data waiting_env Would_Block (le_bytes32 3 @ request_bytes ?t) (srv ?s) = Some v"
    "lookups v = lookups (srv ?s) @ [(0, [97])]"
    using request_parsed [of ?t "le_bytes32 3" waiting_env 3 "srv ?s"] on_data_request [of 3 "srv ?s" waiting_env Would_Block ?t]
    by (simp add: res_start_def S5Server_new_def word_sless_alt waiting_env_def str2ip_def c_string_def requested_def)
  have "getAddrInfoAsync 100 True AF_INET [97] 0 (dns_state ?s) = (None, Some 101, first_query)"
    by (simp add: getAddrInfoAsync_def res_start_def DNS_init_def first_query_def Let_def)
  from res_step.miss [OF v _ this]
  have "res_step ?s (?s\<lparr>srv := v, dns_state := first_query, clock := 100, asks := 1, asked := [101 \<mapsto> ([97], 0)]\<rparr>)"
    by (simp add: res_start_def)
  then show ?thesis by (intro exI conjI) (rule r_into_rtranclp, assumption, simp_all)
qed





text \<open>A clock that is set back by a second between two queries makes their numbers equal: the second callback
  replaces the first, and the first connector is never called.\<close>

theorem clock_set_back_loses_callback:
  "\<exists>d1 d2 q. getAddrInfoAsync t True AF_INET x k1 (DNS_init :: nat dns) = (None, Some q, d1) \<and>
     getAddrInfoAsync (t - 1) True AF_INET y k2 d1 = (None, Some q, d2) \<and>
     cb_map d2 q = Some (Some k2) \<and> (\<forall>q'. q' \<noteq> q \<longrightarrow> cb_map d2 q' = None)"
  by (rule exI [of _ "\<lparr>qid = 1, cb_map = [of_int (t + 1) \<mapsto> Some k1], dns_cache = \<lambda>_. None\<rparr>"],
      rule exI [of _ "\<lparr>qid = 2, cb_map = [of_int (t + 1) \<mapsto> Some k2], dns_cache = \<lambda>_. None\<rparr>"], rule exI [of _ "of_int (t + 1)"])
    (simp add: getAddrInfoAsync_def DNS_init_def add.commute Let_def)

lemma cache_kept:
  assumes "res_step s s'" "dns_cache (dns_state s) d = Some []" "d \<notin> fst ` ran (asked s)"
  shows "dns_cache (dns_state s') d = Some [] \<and> d \<notin> fst ` ran (asked s')"
  using assms
proof (induction rule: res_step.induct)
  case (miss env r buf s v k name now made query d')
  then have "dns_cache d' = dns_cache (dns_state s)" "name \<noteq> d"
    by (auto simp: getAddrInfoAsync_def Let_def split: option.splits)
  with miss show ?case by (auto simp: ran_def split: option.splits if_splits)
next
  case (hit env r buf s v k name now made res query d' v')
  then show ?case by (auto simp: getAddrInfoAsync_def Let_def split: option.splits)
next
  case (reply s q rp j k addrs d' env v)
  then have "reply_name rp \<noteq> d" by (force simp: ran_def)
  moreover have "dns_cache d' = (dns_cache (dns_state s))(reply_name rp \<mapsto> addrs)"
    using reply(2) by (auto simp: processResult_def Let_def split: if_splits option.splits)
  ultimately show ?case using reply by (auto simp: ran_def split: if_splits)
next
  case (stray s q rp j d')
  then have "dns_cache d' = dns_cache (dns_state s)" by (auto simp: processResult_def Let_def split: if_splits option.splits)
  with stray show ?case by (auto simp: ran_def split: if_splits)
qed auto

lemma cache_final:
  assumes "res_step\<^sup>*\<^sup>* s s'" "dns_cache (dns_state s) d = Some []" "d \<notin> fst ` ran (asked s)"
  shows "dns_cache (dns_state s') d = Some []"
proof -
  have "dns_cache (dns_state s') d = Some [] \<and> d \<notin> fst ` ran (asked s')"
    using assms(1) by (induction rule: rtranclp_induct) (use assms(2,3) cache_kept in blast)+
  then show ?thesis ..
qed

text \<open>A failed lookup is final: an answer with an error stores the empty list under the name, and once no other
  query for that name is outstanding, every later request for it is answered from the cache with the empty
  list and no query, whatever else happens.\<close>

theorem failed_lookup_final:
  assumes "processResult q rp (dns_state s) = (Some (k, addrs), d')" "\<not> reply_noerror rp"
    "reply_name rp \<notin> fst ` ran ((asked s)(q := None))"
    "res_step\<^sup>*\<^sup>* (s\<lparr>srv := v, dns_state := d', asked := (asked s)(q := None)\<rparr>) s'"
  shows "addrs = [] \<and> getAddrInfoAsync now made af (reply_name rp) j (dns_state s') = (Some [], None, dns_state s')"
proof -
  have *: "addrs = []" "dns_cache d' (reply_name rp) = Some []"
    using assms(1,2) by (auto simp: processResult_def Let_def split: if_splits option.splits)
  have "dns_cache (dns_state s') (reply_name rp) = Some []"
    by (rule cache_final [OF assms(4)]) (use assms(3) *(2) in simp_all)
  with *(1) show ?thesis by (simp add: getAddrInfoAsync_def)
qed

theorem failed_lookup_final_witness:
  "getAddrInfoAsync 200 True AF_INET [97] 5 (snd (processResult 101 \<lparr>reply_name = [97], reply_noerror = False, reply_entries = []\<rparr> first_query)) =
     (Some [], None, snd (processResult 101 \<lparr>reply_name = [97], reply_noerror = False, reply_entries = []\<rparr> first_query))"
proof -
  let ?rp = "\<lparr>reply_name = [97], reply_noerror = False, reply_entries = []\<rparr>"
  let ?s = "demo_start\<lparr>dns_state := first_query, asked := [101 \<mapsto> ([97], 0)]\<rparr>"
  obtain d' where d': "processResult 101 ?rp (dns_state ?s) = (Some (0, []), d')" by (simp add: processResult_def first_query_def)
  have "reply_name ?rp \<notin> fst ` ran ((asked ?s)(101 := None))" by simp
  from failed_lookup_final [OF d' _ this rtranclp.rtrancl_refl, of 200 True AF_INET 5] d' show ?thesis by simp
qed

end
