(* ===== verification/Ini_Reader.thy ===== *)
theory Ini_Reader
  imports HDS_Prelude
begin

text \<open>
  The configuration reader (\<open>tysocks/common/ini.c\<close>, \<open>INIReader.cpp\<close>) with the defaults of \<open>ini.h\<close>: continuation
  lines, a byte order mark, inline comments after \<open>;\<close>, lines of at most 199 bytes, no stop at the first
  error.  Strings are C strings: the model of a line ends at its terminating zero.
\<close>

section \<open>The parser\<close>

definition isspace :: "char \<Rightarrow> bool" where
  "isspace c \<longleftrightarrow> c \<in> {CHR 0x09, CHR 0x0A, CHR 0x0B, CHR 0x0C, CHR 0x0D, CHR '' ''}"

definition rstrip :: "string \<Rightarrow> string" where
  "rstrip s = rev (dropWhile isspace (rev s))"

definition lskip :: "string \<Rightarrow> string" where
  "lskip s = dropWhile isspace s"

text \<open>The position \<open>find_chars_or_comment\<close> returns a pointer to.\<close>

fun find_chars_or_comment :: "string \<Rightarrow> bool \<Rightarrow> string \<Rightarrow> nat" where
  "find_chars_or_comment chars was_space [] = 0"
| "find_chars_or_comment chars was_space (c # s) =
     (if c \<in> set chars \<or> (was_space \<and> c = CHR '';'') then 0 else Suc (find_chars_or_comment chars (isspace c) s))"

definition strncpy0 :: "nat \<Rightarrow> string \<Rightarrow> string" where
  "strncpy0 n src = take (n - 1) src"

abbreviation (input) MAX_SECTION :: nat where "MAX_SECTION \<equiv> 50"
abbreviation (input) MAX_NAME :: nat where "MAX_NAME \<equiv> 50"
abbreviation (input) INI_MAX_LINE :: nat where "INI_MAX_LINE \<equiv> 200"

type_synonym 'u ini_handler = "string \<Rightarrow> string \<Rightarrow> string \<Rightarrow> 'u \<Rightarrow> bool \<times> 'u"

record 'u ini_state =
  ini_section :: string
  prev_name :: string
  lineno :: nat
  ini_error :: nat
  user :: 'u

definition note_error :: "bool \<Rightarrow> 'u ini_state \<Rightarrow> 'u ini_state" where
  "note_error ok st = (if \<not> ok \<and> ini_error st = 0 then st\<lparr>ini_error := lineno st\<rparr> else st)"

definition call_handler :: "'u ini_handler \<Rightarrow> string \<Rightarrow> string \<Rightarrow> 'u ini_state \<Rightarrow> 'u ini_state" where
  "call_handler handler name val st =
     (let (ok, u) = handler (ini_section st) name val (user st) in note_error ok (st\<lparr>user := u\<rparr>))"

definition skip_bom :: "nat \<Rightarrow> string \<Rightarrow> string" where
  "skip_bom n line = (if n = 1 \<and> take 3 line = [CHR 0xEF, CHR 0xBB, CHR 0xBF] then drop 3 line else line)"

text \<open>One round of the loop of \<open>ini_parse_stream\<close>.\<close>

definition ini_line :: "'u ini_handler \<Rightarrow> string \<Rightarrow> 'u ini_state \<Rightarrow> 'u ini_state" where
  "ini_line handler line st =
     (let st = st\<lparr>lineno := lineno st + 1\<rparr>;
          body = rstrip (skip_bom (lineno st) line);
          start = lskip body;
          moved = length start < length body \<or> skip_bom (lineno st) line \<noteq> line
      in case start of
        [] \<Rightarrow> st
      | c # rest \<Rightarrow>
          if c = CHR '';'' \<or> c = CHR ''#'' then st
          else if prev_name st \<noteq> [] \<and> moved then call_handler handler (prev_name st) start st
          else if c = CHR ''['' then
            (let e = find_chars_or_comment '']'' False rest
             in if e < length rest \<and> rest ! e = CHR '']''
                then st\<lparr>ini_section := strncpy0 MAX_SECTION (take e rest), prev_name := []\<rparr>
                else note_error False st)
          else
            (let e = find_chars_or_comment ''=:'' False start
             in if e < length start \<and> start ! e \<in> set ''=:''
                then
                  let name = rstrip (take e start);
                      val = lskip (drop (e + 1) start);
                      val = rstrip (take (find_chars_or_comment [] False val) val)
                  in call_handler handler name val (st\<lparr>prev_name := strncpy0 MAX_NAME name\<rparr>)
                else note_error False st))"

text \<open>\<open>fgets\<close> over the bytes of the file: at most 199 bytes, up to and including a newline.\<close>

fun fgets :: "nat \<Rightarrow> string \<Rightarrow> string \<times> string" where
  "fgets 0 bs = ([], bs)"
| "fgets (Suc n) [] = ([], [])"
| "fgets (Suc n) (b # bs) = (if b = CHR 0x0A then ([b], bs) else let (l, r) = fgets n bs in (b # l, r))"

lemma fgets_shorter: "length (snd (fgets n bs)) \<le> length bs"
  by (induction n bs rule: fgets.induct) (auto simp: Let_def split: prod.splits)

lemma fgets_less: "bs \<noteq> [] \<Longrightarrow> 0 < n \<Longrightarrow> length (snd (fgets n bs)) < length bs"
  using fgets_shorter [of "n - 1" "tl bs"] by (cases n; cases bs) (auto simp: Let_def split: prod.splits)

function read_lines :: "string \<Rightarrow> string list" where
  "read_lines bs = (if bs = [] then [] else let (l, r) = fgets (INI_MAX_LINE - 1) bs in l # read_lines r)"
  by auto
termination
proof (relation "measure length", simp, goal_cases)
  case (1 bs x l r)
  then show ?case using fgets_less [of bs 199] by (cases "fgets 199 bs") auto
qed

declare read_lines.simps [simp del]

text \<open>A line with a zero byte in it ends there for the string functions.\<close>

definition c_string :: "string \<Rightarrow> string" where
  "c_string s = takeWhile (\<lambda>c. c \<noteq> CHR 0x00) s"

definition ini_parse_file :: "'u ini_handler \<Rightarrow> string \<Rightarrow> 'u \<Rightarrow> nat \<times> 'u" where
  "ini_parse_file handler contents u =
     (let st = fold (\<lambda>l. ini_line handler (c_string l)) (read_lines contents)
        \<lparr>ini_section = [], prev_name = [], lineno = 0, ini_error = 0, user = u\<rparr>
      in (ini_error st, user st))"

definition ini_parse :: "'u ini_handler \<Rightarrow> string option \<Rightarrow> 'u \<Rightarrow> int \<times> 'u" where
  "ini_parse handler file u = (case file of None \<Rightarrow> (- 1, u)
     | Some contents \<Rightarrow> map_prod int id (ini_parse_file handler contents u))"

section \<open>The reader\<close>

definition tolower :: "char \<Rightarrow> char" where
  "tolower c = (if 65 \<le> (of_char c :: nat) \<and> (of_char c :: nat) \<le> 90 then char_of (of_char c + 32 :: nat) else c)"

definition MakeKey :: "string \<Rightarrow> string \<Rightarrow> string" where
  "MakeKey section_name name = map tolower (section_name @ ''='' @ name)"

type_synonym ini_values = "string \<rightharpoonup> string"

definition ValueHandler :: "ini_values ini_handler" where
  "ValueHandler section_name name val m =
     (let key = MakeKey section_name name;
          old = (case m key of None \<Rightarrow> [] | Some v \<Rightarrow> v);
          old = (if old \<noteq> [] then old @ [CHR 0x0A] else old)
      in (True, m(key \<mapsto> old @ val)))"

definition INIReader_new :: "string option \<Rightarrow> int \<times> ini_values" where
  "INIReader_new file = ini_parse ValueHandler file (\<lambda>_. None)"

definition INIReader_Get :: "ini_values \<Rightarrow> string \<Rightarrow> string \<Rightarrow> string \<Rightarrow> string" where
  "INIReader_Get m section_name name default_value =
     (case m (MakeKey section_name name) of None \<Rightarrow> default_value | Some v \<Rightarrow> v)"

definition GetBoolean :: "ini_values \<Rightarrow> string \<Rightarrow> string \<Rightarrow> bool \<Rightarrow> bool" where
  "GetBoolean m section_name name default_value =
     (let v = map tolower (INIReader_Get m section_name name [])
      in if v \<in> {''true'', ''yes'', ''on'', ''1''} then True
         else if v \<in> {''false'', ''no'', ''off'', ''0''} then False
         else default_value)"

text \<open>\<open>strtol\<close> with base 0: white space, a sign, then decimal, octal or hexadecimal digits; the number and whether
  any digit was read.  Values beyond \<open>long\<close> are cut off at its bounds.\<close>

definition digit_value :: "char \<Rightarrow> nat" where
  "digit_value c = (let n = of_char (tolower c) :: nat in
     if 48 \<le> n \<and> n \<le> 57 then n - 48 else if 97 \<le> n \<and> n \<le> 122 then n - 87 else 99)"

fun digits :: "nat \<Rightarrow> nat \<Rightarrow> string \<Rightarrow> nat" where
  "digits base acc [] = acc"
| "digits base acc (c # s) = (if digit_value c < base then digits base (acc * base + digit_value c) s else acc)"

definition strtol :: "string \<Rightarrow> int option" where
  "strtol s = (let s = lskip s;
       neg = (s \<noteq> [] \<and> hd s = CHR ''-'');
       s = (if s \<noteq> [] \<and> hd s \<in> {CHR ''-'', CHR ''+''} then tl s else s);
       clamp = (\<lambda>n. max (- (2 ^ 63)) (min (2 ^ 63 - 1) (if neg then - int n else int n)))
     in case s of
       [] \<Rightarrow> None
     | c # r \<Rightarrow>
         if c = CHR ''0'' then
           (case r of x # d # _ \<Rightarrow>
              if tolower x = CHR ''x'' \<and> digit_value d < 16 then Some (clamp (digits 16 0 (tl r))) else Some (clamp (digits 8 0 r))
            | _ \<Rightarrow> Some (clamp (digits 8 0 r)))
         else if digit_value c < 10 then Some (clamp (digits 10 0 s))
         else None)"

definition GetInteger :: "ini_values \<Rightarrow> string \<Rightarrow> string \<Rightarrow> int \<Rightarrow> int" where
  "GetInteger m section_name name default_value =
     (case strtol (INIReader_Get m section_name name []) of None \<Rightarrow> default_value | Some n \<Rightarrow> n)"

section \<open>Writing a configuration\<close>

text \<open>What can be written so that it is read back: no line feed or zero byte, no \<open>;\<close>, no white space at the
  ends.\<close>

definition clean :: "string \<Rightarrow> bool" where
  "clean s \<longleftrightarrow> set s \<inter> {CHR 0x0A, CHR 0x00, CHR '';''} = {} \<and> lskip s = s \<and> rstrip s = s"

definition ini_name :: "string \<Rightarrow> bool" where
  "ini_name n \<longleftrightarrow> clean n \<and> n \<noteq> [] \<and> set n \<inter> set ''=:'' = {} \<and> hd n \<notin> {CHR ''['', CHR ''#''}"

definition section_name_ok :: "string \<Rightarrow> bool" where
  "section_name_ok s \<longleftrightarrow> set s \<inter> {CHR 0x0A, CHR 0x00, CHR '';'', CHR '']''} = {} \<and> length s < MAX_SECTION"

definition entry_line :: "string \<times> string \<Rightarrow> string" where
  "entry_line e = fst e @ ''='' @ snd e @ [CHR 0x0A]"

definition header_line :: "string \<Rightarrow> string" where
  "header_line s = ''['' @ s @ '']'' @ [CHR 0x0A]"

type_synonym ini_config = "(string \<times> (string \<times> string) list) list"

definition config_lines :: "ini_config \<Rightarrow> string list" where
  "config_lines cfg = concat (map (\<lambda>(s, es). header_line s # map entry_line es) cfg)"

definition config_entries :: "ini_config \<Rightarrow> (string \<times> string \<times> string) list" where
  "config_entries cfg = concat (map (\<lambda>(s, es). map (\<lambda>(n, v). (s, n, v)) es) cfg)"

definition config_ok :: "ini_config \<Rightarrow> bool" where
  "config_ok cfg \<longleftrightarrow> (\<forall>(s, es) \<in> set cfg. section_name_ok s \<and> (\<forall>(n, v) \<in> set es. ini_name n \<and> clean v \<and> length n + length v < 198))"

lemma rstrip_snoc: "rstrip (s @ [c]) = (if isspace c then rstrip s else s @ [c])"
  by (simp add: rstrip_def)

lemma rstrip_append: "rstrip b = b \<Longrightarrow> \<not> isspace c \<Longrightarrow> rstrip (a @ c # b) = a @ c # b"
proof (cases b rule: rev_cases)
  case (snoc ys y)
  assume "rstrip b = b" "\<not> isspace c"
  moreover have "length (rstrip ys) \<le> length ys" using length_dropWhile_le [of isspace "rev ys"] by (simp add: rstrip_def)
  ultimately have "\<not> isspace y" using snoc by (auto simp: rstrip_snoc)
  then show ?thesis using rstrip_snoc [of "a @ c # ys" y] by (simp add: snoc)
qed (auto simp: rstrip_snoc)

lemma find_stop:
  "set s \<inter> set chars = {} \<Longrightarrow> CHR '';'' \<notin> set s \<Longrightarrow> c \<in> set chars \<Longrightarrow> find_chars_or_comment chars w (s @ c # t) = length s"
  by (induction s arbitrary: w) auto

lemma find_none: "CHR '';'' \<notin> set s \<Longrightarrow> find_chars_or_comment [] w s = length s"
  by (induction s arbitrary: w) auto

lemma c_string_id: "CHR 0x00 \<notin> set s \<Longrightarrow> c_string s = s"
  by (auto simp: c_string_def takeWhile_eq_all_conv)

lemma fgets_line: "CHR 0x0A \<notin> set s \<Longrightarrow> length s < n \<Longrightarrow> fgets n (s @ CHR 0x0A # rest) = (s @ [CHR 0x0A], rest)"
proof (induction s arbitrary: n)
  case Nil
  then show ?case by (cases n) auto
next
  case (Cons c s)
  then show ?case by (cases n) (auto simp: Let_def)
qed

lemma read_lines_concat:
  "\<forall>l \<in> set ls. \<exists>s. l = s @ [CHR 0x0A] \<and> CHR 0x0A \<notin> set s \<and> length s < 199 \<Longrightarrow> read_lines (concat ls) = ls"
proof (induction ls)
  case (Cons l ls)
  then obtain s where "l = s @ [CHR 0x0A]" "CHR 0x0A \<notin> set s" "length s < 199" by auto
  with Cons show ?case using fgets_line [of s 199 "concat ls"] by (subst read_lines.simps) simp
qed (simp add: read_lines.simps)

lemma header_read:
  assumes "section_name_ok s"
  shows "ini_line handler (c_string (header_line s)) st =
    st\<lparr>lineno := lineno st + 1, ini_section := s, prev_name := []\<rparr>"
proof -
  have s: "set s \<inter> set '']'' = {}" "CHR '';'' \<notin> set s" "length s < 50" "CHR 0x00 \<notin> set s" using assms by (auto simp: section_name_ok_def)
  have c: "c_string (header_line s) = header_line s" using s by (intro c_string_id) (auto simp: header_line_def)
  have b: "skip_bom n (header_line s) = header_line s" for n by (simp add: skip_bom_def header_line_def)
  have r: "rstrip (header_line s) = CHR ''['' # s @ '']''"
    using rstrip_snoc [of "CHR ''['' # s @ '']''" "CHR 0x0A"] rstrip_snoc [of "CHR ''['' # s" "CHR '']''"] by (simp add: header_line_def isspace_def)
  have l: "lskip (CHR ''['' # s @ '']'') = CHR ''['' # s @ '']''" by (simp add: lskip_def isspace_def)
  show ?thesis
    using find_stop [OF s(1,2), of "CHR '']''" False "[]"] s(3) by (simp add: ini_line_def c b r l Let_def strncpy0_def)
qed

lemma entry_read:
  assumes "ini_name n" "clean v" "0 < lineno st"
  shows "ini_line handler (c_string (entry_line (n, v))) st =
    call_handler handler n v (st\<lparr>lineno := lineno st + 1, prev_name := strncpy0 MAX_NAME n\<rparr>)"
proof -
  obtain a n' where a: "n = a # n'" using assms(1) by (cases n) (auto simp: ini_name_def)
  have n: "set n \<inter> set ''=:'' = {}" "CHR '';'' \<notin> set n" "lskip n = n" "rstrip n = n" "CHR 0x00 \<notin> set n"
    "a \<notin> {CHR ''['', CHR ''#'', CHR '';''}" using assms(1) by (auto simp: ini_name_def clean_def a)
  have v: "CHR '';'' \<notin> set v" "lskip v = v" "rstrip v = v" "CHR 0x00 \<notin> set v" using assms(2) by (auto simp: clean_def)
  have c: "c_string (entry_line (n, v)) = entry_line (n, v)" using n v by (intro c_string_id) (auto simp: entry_line_def)
  have b: "skip_bom (Suc (lineno st)) (entry_line (n, v)) = entry_line (n, v)" using assms(3) by (simp add: skip_bom_def)
  have r: "rstrip (entry_line (n, v)) = n @ CHR ''='' # v"
    using rstrip_snoc [of "n @ CHR ''='' # v" "CHR 0x0A"] rstrip_append [OF v(3), of "CHR ''=''" n] by (simp add: entry_line_def isspace_def)
  have "\<not> isspace a" using n(3) by (metis a dropWhile_eq_self_iff list.distinct(1) list.sel(1) lskip_def)
  then have l: "lskip (n @ CHR ''='' # v) = n @ CHR ''='' # v" by (simp add: a lskip_def)
  have e: "find_chars_or_comment ''=:'' False (n @ CHR ''='' # v) = length n" using n by (intro find_stop) auto
  show ?thesis
    using n v find_none [OF v(1), of False]
    by (simp add: a ini_line_def c [unfolded a] b [unfolded a] r [unfolded a, simplified] l [unfolded a, simplified]
        e [unfolded a, simplified append_Cons] Let_def del: find_chars_or_comment.simps)
qed

section \<open>Reading it back\<close>

text \<open>The calls of a handler that always succeeds.\<close>

definition succeeds :: "'u ini_handler \<Rightarrow> bool" where
  "succeeds handler \<longleftrightarrow> (\<forall>s n v u. fst (handler s n v u))"

definition run_handler :: "'u ini_handler \<Rightarrow> (string \<times> string \<times> string) list \<Rightarrow> 'u \<Rightarrow> 'u" where
  "run_handler handler = fold (\<lambda>(s, n, v) u. snd (handler s n v u))"

lemma entries_read:
  assumes "succeeds handler" "\<forall>(n, v) \<in> set es. ini_name n \<and> clean v" "0 < lineno st"
  shows "\<exists>l p. fold (\<lambda>l. ini_line handler (c_string l)) (map entry_line es) st =
    st\<lparr>lineno := l, prev_name := p, user := run_handler handler (map (\<lambda>(n, v). (ini_section st, n, v)) es) (user st)\<rparr> \<and> 0 < l"
  using assms(2,3)
proof (induction es arbitrary: st)
  case Nil
  then show ?case by (intro exI [of _ "lineno st"] exI [of _ "prev_name st"]) (simp add: run_handler_def)
next
  case (Cons e es)
  obtain n v where e: "e = (n, v)" by (cases e)
  let ?st = "st\<lparr>lineno := lineno st + 1, prev_name := strncpy0 MAX_NAME n, user := snd (handler (ini_section st) n v (user st))\<rparr>"
  have "ini_line handler (c_string (entry_line e)) st = ?st"
    using entry_read [of n v st handler] Cons.prems assms(1) [unfolded succeeds_def, rule_format, of "ini_section st" n v "user st"]
    by (auto simp: e call_handler_def note_error_def split: prod.splits)
  moreover obtain l p where "fold (\<lambda>l. ini_line handler (c_string l)) (map entry_line es) ?st =
      ?st\<lparr>lineno := l, prev_name := p, user := run_handler handler (map (\<lambda>(n, v). (ini_section ?st, n, v)) es) (user ?st)\<rparr>" "0 < l"
    using Cons.IH [of ?st] Cons.prems by auto
  ultimately show ?case by (auto simp: e run_handler_def)
qed

lemma config_read:
  assumes "succeeds handler" "config_ok cfg"
  shows "\<exists>l p s. fold (\<lambda>l. ini_line handler (c_string l)) (config_lines cfg) st =
    st\<lparr>lineno := l, prev_name := p, ini_section := s, user := run_handler handler (config_entries cfg) (user st)\<rparr>"
  using assms(2)
proof (induction cfg arbitrary: st)
  case Nil
  then show ?case
    by (intro exI [of _ "lineno st"] exI [of _ "prev_name st"] exI [of _ "ini_section st"]) (simp add: config_lines_def config_entries_def run_handler_def)
next
  case (Cons x cfg)
  obtain s es where x: "x = (s, es)" by (cases x)
  let ?st = "st\<lparr>lineno := lineno st + 1, ini_section := s, prev_name := []\<rparr>"
  have "ini_line handler (c_string (header_line s)) st = ?st" using header_read [of s] Cons.prems by (simp add: config_ok_def x)
  moreover have "\<forall>(n, v) \<in> set es. ini_name n \<and> clean v" using Cons.prems by (auto simp: config_ok_def x)
  then obtain l p where r: "fold (\<lambda>l. ini_line handler (c_string l)) (map entry_line es) ?st =
      ?st\<lparr>lineno := l, prev_name := p, user := run_handler handler (map (\<lambda>(n, v). (s, n, v)) es) (user st)\<rparr>"
    using entries_read [OF assms(1), of es ?st] by auto
  moreover define st2 where "st2 = ?st\<lparr>lineno := l, prev_name := p, user := run_handler handler (map (\<lambda>(n, v). (s, n, v)) es) (user st)\<rparr>"
  have "config_ok cfg" using Cons.prems by (simp add: config_ok_def)
  from Cons.IH [OF this, of st2] obtain l' p' s' where "fold (\<lambda>l. ini_line handler (c_string l)) (config_lines cfg) st2 =
      st2\<lparr>lineno := l', prev_name := p', ini_section := s', user := run_handler handler (config_entries cfg) (user st2)\<rparr>" by blast
  ultimately show ?case
    by (intro exI [of _ l'] exI [of _ p'] exI [of _ s']) (simp add: x config_lines_def config_entries_def run_handler_def st2_def)
qed

lemma config_lines_ok:
  assumes "config_ok cfg" "l \<in> set (config_lines cfg)"
  shows "\<exists>s. l = s @ [CHR 0x0A] \<and> CHR 0x0A \<notin> set s \<and> length s < 199"
proof -
  consider s es where "(s, es) \<in> set cfg" "l = header_line s" | s es n v where "(s, es) \<in> set cfg" "(n, v) \<in> set es" "l = entry_line (n, v)"
    using assms(2) by (auto simp: config_lines_def)
  then show ?thesis
  proof cases
    case 1
    then show ?thesis using assms(1)
      by (intro exI [of _ "CHR ''['' # s @ '']''"]) (auto simp: config_ok_def section_name_ok_def header_line_def)
  next
    case 2
    then have "ini_name n" "clean v" "length n + length v < 198" using assms(1) by (auto simp: config_ok_def)
    then show ?thesis using 2
      by (intro exI [of _ "n @ CHR ''='' # v"]) (auto simp: ini_name_def clean_def entry_line_def)
  qed
qed

lemma parse_config:
  assumes "succeeds handler" "config_ok cfg"
  shows "ini_parse_file handler (concat (config_lines cfg)) u = (0, run_handler handler (config_entries cfg) u)"
proof -
  have "read_lines (concat (config_lines cfg)) = config_lines cfg" using config_lines_ok [OF assms(2)] by (intro read_lines_concat) blast
  then show ?thesis using config_read [OF assms, of "\<lparr>ini_section = [], prev_name = [], lineno = 0, ini_error = 0, user = u\<rparr>"]
    by (auto simp: ini_parse_file_def Let_def)
qed

lemma run_values:
  assumes "distinct (map (\<lambda>(s, n, _). MakeKey s n) es)" "\<forall>(s, n, _) \<in> set es. m (MakeKey s n) = None" "(s, n, v) \<in> set es"
  shows "run_handler ValueHandler es m (MakeKey s n) = Some v"
  using assms
proof (induction es arbitrary: m)
  case (Cons e es)
  obtain s0 n0 v0 where e: "e = (s0, n0, v0)" by (cases e)
  let ?m = "m(MakeKey s0 n0 \<mapsto> v0)"
  have m: "run_handler ValueHandler (e # es) m = run_handler ValueHandler es ?m"
    using Cons.prems(2) by (simp add: run_handler_def e ValueHandler_def Let_def)
  have keep: "run_handler ValueHandler es' m' k = m' k" if "k \<notin> set (map (\<lambda>(s, n, _). MakeKey s n) es')" for es' m' k
    using that by (induction es' arbitrary: m') (auto simp: run_handler_def ValueHandler_def Let_def)
  show ?case
  proof (cases "(s, n, v) = e")
    case True
    then have "MakeKey s n \<notin> set (map (\<lambda>(s, n, _). MakeKey s n) es)" using Cons.prems(1) e by auto
    from keep [OF this, of ?m] True show ?thesis unfolding m using e by simp
  next
    case False
    have "\<forall>(s, n, _) \<in> set es. ?m (MakeKey s n) = None" using Cons.prems(1,2) e by force
    moreover have "(s, n, v) \<in> set es" "distinct (map (\<lambda>(s, n, _). MakeKey s n) es)" using Cons.prems False by auto
    ultimately show ?thesis unfolding m using Cons.IH [of ?m] by blast
  qed
qed simp

section \<open>Properties\<close>

lemma config_value_read:
  assumes "config_ok cfg" "distinct (map (\<lambda>(s, n, _). MakeKey s n) (config_entries cfg))" "(s, n, v) \<in> set (config_entries cfg)"
  shows "\<exists>m. INIReader_new (Some (concat (config_lines cfg))) = (0, m) \<and> m (MakeKey s n) = Some v"
proof -
  let ?m = "run_handler ValueHandler (config_entries cfg) (\<lambda>_. None)"
  have "succeeds ValueHandler" by (simp add: succeeds_def ValueHandler_def Let_def)
  then have "INIReader_new (Some (concat (config_lines cfg))) = (0, ?m)"
    using parse_config [OF _ assms(1), of ValueHandler "\<lambda>_. None"] by (simp add: INIReader_new_def ini_parse_def)
  moreover have "?m (MakeKey s n) = Some v" by (rule run_values [OF assms(2) _ assms(3)]) simp
  ultimately show ?thesis by blast
qed

text \<open>C29. A configuration written as sections of \<open>name=value\<close> lines is read back: parsing reports no error and
  every value is found under its section and name, regardless of case, provided the keys differ.\<close>

theorem ini_roundtrip:
  assumes "config_ok cfg" "distinct (map (\<lambda>(s, n, _). MakeKey s n) (config_entries cfg))" "(s, n, v) \<in> set (config_entries cfg)"
  shows "\<exists>m. INIReader_new (Some (concat (config_lines cfg))) = (0, m) \<and> INIReader_Get m s n d = v \<and>
    INIReader_Get m (map tolower s) (map tolower n) d = v"
proof -
  have "tolower (tolower c) = tolower c" for c by (simp add: tolower_def)
  then have "MakeKey (map tolower s) (map tolower n) = MakeKey s n" by (simp add: MakeKey_def)
  with config_value_read [OF assms] show ?thesis by (auto simp: INIReader_Get_def)
qed

definition demo_config :: ini_config where
  "demo_config = [(''Server'', [(''port'', ''443''), (''key'', [])])]"

theorem ini_roundtrip_witness:
  "\<exists>m. INIReader_new (Some (concat (config_lines demo_config))) = (0, m) \<and>
     INIReader_Get m ''Server'' ''port'' ''1'' = ''443'' \<and> INIReader_Get m ''server'' ''port'' ''1'' = ''443''"
proof -
  have "config_ok demo_config"
    by (simp add: demo_config_def config_ok_def section_name_ok_def ini_name_def clean_def lskip_def rstrip_def isspace_def)
  moreover have "distinct (map (\<lambda>(s, n, _). MakeKey s n) (config_entries demo_config))" by code_simp
  ultimately have "\<exists>m. INIReader_new (Some (concat (config_lines demo_config))) = (0, m) \<and> INIReader_Get m ''Server'' ''port'' ''1'' = ''443'' \<and>
      INIReader_Get m (map tolower ''Server'') (map tolower ''port'') ''1'' = ''443''"
    by (rule ini_roundtrip) (simp add: config_entries_def demo_config_def)
  moreover have "map tolower ''Server'' = ''server''" "map tolower ''port'' = ''port''" by code_simp+
  ultimately show ?thesis by metis
qed

end
