(* ===== verification/HDS_CDR.thy ===== *)
theory HDS_CDR
  imports HDS_Config "HOL-Library.Monad_Syntax"
begin

text \<open>
  \<open>common/HDS_ReadCDR.h\<close> and \<open>common/HDS_WriteCDR.h\<close>: cursors that decode and encode message
  fields in a byte buffer.  A cursor is the buffer it was constructed on and the distance
  \<open>current_pos - base_pos\<close>.  Neither class checks bounds ("no bounds check, mind the overrun",
  as their comments warn): an access outside the buffer is \<open>None\<close>.  \<open>int\<close>/\<open>unsigned int\<close> fields
  are four little-endian bytes; the signed and unsigned variants move the same bits.
\<close>

section \<open>The cursors\<close>

record HDS_ReaderCDR =
  r_data :: "u8 list"
  r_pos :: nat

record HDS_WriteCDR =
  w_data :: "u8 list"
  w_pos :: nat

definition ReaderCDR_new :: "u8 list \<Rightarrow> HDS_ReaderCDR" where
  "ReaderCDR_new dat = \<lparr>r_data = dat, r_pos = 0\<rparr>"

definition WriteCDR_new :: "u8 list \<Rightarrow> HDS_WriteCDR" where
  "WriteCDR_new pos = \<lparr>w_data = pos, w_pos = 0\<rparr>"

definition ReaderCDR_length :: "HDS_ReaderCDR \<Rightarrow> nat" where
  "ReaderCDR_length c = r_pos c"

definition WriteCDR_length :: "HDS_WriteCDR \<Rightarrow> nat" where
  "WriteCDR_length c = w_pos c"

section \<open>Reading\<close>

definition read_char_array :: "HDS_ReaderCDR \<Rightarrow> nat \<Rightarrow> (u8 list \<times> HDS_ReaderCDR) option" where
  "read_char_array c len =
     (if r_pos c + len \<le> length (r_data c)
      then Some (take len (drop (r_pos c) (r_data c)), c\<lparr>r_pos := r_pos c + len\<rparr>) else None)"

definition read_ulong :: "HDS_ReaderCDR \<Rightarrow> (u32 \<times> HDS_ReaderCDR) option" where
  "read_ulong c = do { (bs, c') \<leftarrow> read_char_array c 4; Some (le_word32 bs, c') }"

definition read_long :: "HDS_ReaderCDR \<Rightarrow> (u32 \<times> HDS_ReaderCDR) option" where
  "read_long c = do { (bs, c') \<leftarrow> read_char_array c 4; Some (le_word32 bs, c') }"

definition read_ushort :: "HDS_ReaderCDR \<Rightarrow> (u16 \<times> HDS_ReaderCDR) option" where
  "read_ushort c = do { (bs, c') \<leftarrow> read_char_array c 2; Some (le_word16 bs, c') }"

definition read_short :: "HDS_ReaderCDR \<Rightarrow> (u16 \<times> HDS_ReaderCDR) option" where
  "read_short c = do { (bs, c') \<leftarrow> read_char_array c 2; Some (le_word16 bs, c') }"

definition read_char :: "HDS_ReaderCDR \<Rightarrow> (u8 \<times> HDS_ReaderCDR) option" where
  "read_char c = do { (bs, c') \<leftarrow> read_char_array c 1; Some (hd bs, c') }"

definition skip_long :: "HDS_ReaderCDR \<Rightarrow> HDS_ReaderCDR" where
  "skip_long c = c\<lparr>r_pos := r_pos c + 4\<rparr>"

definition skip_ulong :: "HDS_ReaderCDR \<Rightarrow> HDS_ReaderCDR" where
  "skip_ulong c = c\<lparr>r_pos := r_pos c + 4\<rparr>"

text \<open>\<open>get_current_pos\<close> is a pointer into the buffer: the bytes from there on.\<close>

definition get_current_pos :: "HDS_ReaderCDR \<Rightarrow> u8 list" where
  "get_current_pos c = drop (r_pos c) (r_data c)"

section \<open>Writing\<close>

definition write_char_array :: "HDS_WriteCDR \<Rightarrow> u8 list \<Rightarrow> HDS_WriteCDR option" where
  "write_char_array c x = do {
     buf \<leftarrow> overwrite (w_data c) (w_pos c) x;
     Some \<lparr>w_data = buf, w_pos = w_pos c + length x\<rparr> }"

definition write_long :: "HDS_WriteCDR \<Rightarrow> u32 \<Rightarrow> HDS_WriteCDR option" where
  "write_long c x = write_char_array c (le_bytes32 x)"

definition write_ulong :: "HDS_WriteCDR \<Rightarrow> u32 \<Rightarrow> HDS_WriteCDR option" where
  "write_ulong c x = write_char_array c (le_bytes32 x)"

definition write_short :: "HDS_WriteCDR \<Rightarrow> u16 \<Rightarrow> HDS_WriteCDR option" where
  "write_short c x = write_char_array c (le_bytes16 x)"

definition write_ushort :: "HDS_WriteCDR \<Rightarrow> u16 \<Rightarrow> HDS_WriteCDR option" where
  "write_ushort c x = write_char_array c (le_bytes16 x)"

definition write_char :: "HDS_WriteCDR \<Rightarrow> u8 \<Rightarrow> HDS_WriteCDR option" where
  "write_char c x = write_char_array c [x]"

section \<open>Laws\<close>

text \<open>What was written so far is the prefix of the buffer up to the cursor; a write appends to
  it, and a reader over the same prefix takes the fields back off in order.\<close>

definition written :: "HDS_WriteCDR \<Rightarrow> u8 list" where
  "written c = take (w_pos c) (w_data c)"

definition unread :: "HDS_ReaderCDR \<Rightarrow> u8 list" where
  "unread c = drop (r_pos c) (r_data c)"

lemma write_char_array_Some:
  assumes "write_char_array c x = Some c'"
  shows "written c' = written c @ x" "w_pos c' = w_pos c + length x"
    "length (w_data c') = length (w_data c)"
    "drop (w_pos c') (w_data c') = drop (w_pos c') (w_data c)"
    "w_pos c' \<le> length (w_data c')"
proof -
  from assms obtain buf where b: "overwrite (w_data c) (w_pos c) x = Some buf"
    and c': "c' = \<lparr>w_data = buf, w_pos = w_pos c + length x\<rparr>"
    by (auto simp: write_char_array_def bind_eq_Some_conv)
  show "written c' = written c @ x" using overwrite_take [OF b] by (simp add: c' written_def)
  show "w_pos c' = w_pos c + length x" by (simp add: c')
  show "length (w_data c') = length (w_data c)" using overwrite_length [OF b] by (simp add: c')
  show "drop (w_pos c') (w_data c') = drop (w_pos c') (w_data c)"
    using overwrite_drop_after [OF b] by (simp add: c')
  show "w_pos c' \<le> length (w_data c')"
    using b by (auto simp: c' overwrite_def split: if_splits)
qed

lemma write_char_array_total:
  "w_pos c + length x \<le> length (w_data c) \<Longrightarrow> \<exists>c'. write_char_array c x = Some c'"
  by (simp add: write_char_array_def overwrite_def)

lemma write_char_array_iff:
  "(\<exists>c'. write_char_array c x = Some c') \<longleftrightarrow> w_pos c + length x \<le> length (w_data c)"
  by (auto simp: write_char_array_def overwrite_def)

lemma read_char_array_prefix:
  assumes "unread c = x @ rest" "r_pos c \<le> length (r_data c)"
  shows "\<exists>c'. read_char_array c (length x) = Some (x, c') \<and> unread c' = rest \<and>
    r_pos c' = r_pos c + length x \<and> r_data c' = r_data c \<and> r_pos c' \<le> length (r_data c')"
proof -
  have "length (r_data c) - r_pos c = length x + length rest"
    using arg_cong [OF assms(1), of length] by (simp add: unread_def)
  then have "r_pos c + length x \<le> length (r_data c)" using assms(2) by simp
  moreover have "take (length x) (drop (r_pos c) (r_data c)) = x"
    using assms by (simp add: unread_def)
  moreover have "drop (length x) (unread c) = rest" using assms by simp
  ultimately show ?thesis
    by (simp add: read_char_array_def unread_def add.commute)
qed

text \<open>The contract of one field type: its writer appends the encoding of the value, its reader
  takes that encoding off again.\<close>

locale cdr_field =
  fixes enc :: "'v \<Rightarrow> u8 list"
    and wr :: "HDS_WriteCDR \<Rightarrow> 'v \<Rightarrow> HDS_WriteCDR option"
    and rd :: "HDS_ReaderCDR \<Rightarrow> ('v \<times> HDS_ReaderCDR) option"
    and size :: nat
  assumes enc_size: "length (enc v) = size"
    and wr_enc: "wr c v = write_char_array c (enc v)"
    and rd_enc: "read_char_array r size = Some (enc v, r') \<Longrightarrow> rd r = Some (v, r')"
begin

lemma wr_Some:
  assumes "wr c v = Some c'"
  shows "written c' = written c @ enc v" "w_pos c' = w_pos c + size"
    "length (w_data c') = length (w_data c)"
    "drop (w_pos c') (w_data c') = drop (w_pos c') (w_data c)"
    "w_pos c' \<le> length (w_data c')"
  using write_char_array_Some [of c "enc v" c'] assms by (auto simp: wr_enc enc_size)

lemma wr_effect:
  "wr c v = Some c' \<Longrightarrow> written c' = written c @ enc v \<and> w_pos c' = w_pos c + size \<and>
    length (w_data c') = length (w_data c) \<and> w_pos c' \<le> length (w_data c')"
  using wr_Some by blast

lemma wr_total: "w_pos c + size \<le> length (w_data c) \<Longrightarrow> \<exists>c'. wr c v = Some c'"
  using write_char_array_total [of c "enc v"] by (simp add: wr_enc enc_size)

lemma rd_written:
  assumes "unread r = enc v @ rest" "r_pos r \<le> length (r_data r)"
  shows "\<exists>r'. rd r = Some (v, r') \<and> unread r' = rest \<and> r_pos r' = r_pos r + size \<and>
    r_data r' = r_data r \<and> r_pos r' \<le> length (r_data r')"
  using read_char_array_prefix [OF assms] rd_enc [of r v] by (auto simp: enc_size)

end

interpretation cdr_ulong: cdr_field le_bytes32 write_ulong read_ulong 4
  by unfold_locales (auto simp: write_ulong_def read_ulong_def)

interpretation cdr_long: cdr_field le_bytes32 write_long read_long 4
  by unfold_locales (auto simp: write_long_def read_long_def)

interpretation cdr_ushort: cdr_field le_bytes16 write_ushort read_ushort 2
  by unfold_locales (auto simp: write_ushort_def read_ushort_def)

interpretation cdr_short: cdr_field le_bytes16 write_short read_short 2
  by unfold_locales (auto simp: write_short_def read_short_def)

interpretation cdr_char: cdr_field "\<lambda>x. [x]" write_char read_char 1
  by unfold_locales (auto simp: write_char_def read_char_def)

lemma skip_long_unread:
  assumes "unread r = x @ rest" "length x = 4"
  shows "unread (skip_long r) = rest"
proof -
  have "drop 4 (unread r) = rest" using assms by simp
  then show ?thesis by (simp add: skip_long_def unread_def add.commute)
qed

end
