(* ===== verification/Connection_ID.thy ===== *)
theory Connection_ID
  imports HDS_CDR Atomic_T
begin

unbundle bit_operations_syntax

text \<open>
  The connection identifier of \<open>connection/HDS_UDP_Connection.h\<close> and the packet header macros.
  The union \<open>_CID\<close> is its two 32-bit halves \<open>_ID32[0]\<close> and \<open>_ID32[1]\<close>; \<open>_ID64\<close> is the
  little-endian 64-bit view that the comparison operators use (a signed \<open>long long\<close>).
\<close>

section \<open>The identifier\<close>

datatype Connection_ID = CID (ID32_0: u32) (ID32_1: u32)

definition ID64 :: "Connection_ID \<Rightarrow> u64" where
  "ID64 c = push_bit 32 (ucast (ID32_1 c)) OR ucast (ID32_0 c)"

definition is_not_setted :: "Connection_ID \<Rightarrow> bool" where
  "is_not_setted c \<longleftrightarrow> ID64 c = 0"

definition CID_zero :: Connection_ID where
  "CID_zero = CID 0 0"

lemma bit_ID64:
  "bit (ID64 c) n \<longleftrightarrow> (if n < 32 then bit (ID32_0 c) n else bit (ID32_1 c) (n - 32))"
  by (auto simp: ID64_def bit_simps dest: bit_imp_le_length)

lemma ID64_inject [simp]: "ID64 a = ID64 b \<longleftrightarrow> a = b"
proof
  assume e: "ID64 a = ID64 b"
  have "ID32_0 a = ID32_0 b"
  proof (rule bit_word_eqI)
    fix n assume "n < LENGTH(32)"
    then show "bit (ID32_0 a) n = bit (ID32_0 b) n"
      using arg_cong [OF e, of "\<lambda>w. bit w n"] by (simp add: bit_ID64)
  qed
  moreover have "ID32_1 a = ID32_1 b"
  proof (rule bit_word_eqI)
    fix n assume "n < LENGTH(32)"
    show "bit (ID32_1 a) n = bit (ID32_1 b) n"
      using arg_cong [OF e, of "\<lambda>w. bit w (n + 32)"] by (simp add: bit_ID64)
  qed
  ultimately show "a = b" by (simp add: Connection_ID.expand)
qed simp

text \<open>\<open>operator <\<close> compares the signed 64-bit views: a linear order on identifiers.\<close>

instantiation Connection_ID :: linorder
begin

definition less_Connection_ID :: "Connection_ID \<Rightarrow> Connection_ID \<Rightarrow> bool" where
  "less_Connection_ID a b \<longleftrightarrow> ID64 a <s ID64 b"

definition less_eq_Connection_ID :: "Connection_ID \<Rightarrow> Connection_ID \<Rightarrow> bool" where
  "less_eq_Connection_ID a b \<longleftrightarrow> ID64 a \<le>s ID64 b"

instance
proof
  fix a b c :: Connection_ID
  show "a < b \<longleftrightarrow> a \<le> b \<and> \<not> b \<le> a" "a \<le> a" "a \<le> b \<or> b \<le> a"
    by (auto simp: less_Connection_ID_def less_eq_Connection_ID_def word_sless_alt word_sle_eq)
  show "a \<le> b \<Longrightarrow> b \<le> c \<Longrightarrow> a \<le> c"
    by (simp add: less_eq_Connection_ID_def word_sle_eq)
  show "a \<le> b \<Longrightarrow> b \<le> a \<Longrightarrow> a = b"
    by (metis ID64_inject less_eq_Connection_ID_def signed.order.antisym)
qed

end

text \<open>The array slot of an identifier is its low 20 bits.\<close>

definition get_connection_offset :: "Connection_ID \<Rightarrow> nat" where
  "get_connection_offset c = unat (ID32_0 c AND HDS_UDP_CONNECTION_OFFSET_SHIRT)"

lemma get_connection_offset_less: "get_connection_offset c < HDS_UDP_MAX_CONNECTION_COUNT"
proof -
  have "ID32_0 c AND 1048575 = take_bit 20 (ID32_0 c)"
    by (simp add: take_bit_eq_mask mask_eq_exp_minus_1)
  then show ?thesis
    using take_bit_nat_less_exp [of 20 "unat (ID32_0 c)"]
    by (simp add: get_connection_offset_def unsigned_take_bit_eq)
qed

section \<open>The packet header\<close>

text \<open>\<open>CONNECTION_FILL_HEADER\<close> writes the halves of the identifier in the order 1, 0;
  \<open>CONNECTION_UNFILL_HEADER\<close> reads them in the order 0, 1.\<close>

definition CONNECTION_FILL_HEADER ::
  "MsgType \<Rightarrow> Connection_ID \<Rightarrow> u32 \<Rightarrow> u32 \<Rightarrow> HDS_WriteCDR \<Rightarrow> HDS_WriteCDR option" where
  "CONNECTION_FILL_HEADER msgtype conID send_time dt_note cdr = do {
     cdr \<leftarrow> write_long cdr msgtype;
     cdr \<leftarrow> write_ulong cdr (ID32_1 conID);
     cdr \<leftarrow> write_ulong cdr (ID32_0 conID);
     cdr \<leftarrow> write_long cdr send_time;
     write_ulong cdr dt_note }"

record header_fields =
  h_conID :: Connection_ID
  h_send_time :: u32
  h_dt_note :: u32
  h_recv_data :: "u8 list"
  h_recv_data_length :: int

text \<open>\<open>data_length\<close> is the length the kernel reported for the datagram; the buffer it stands in
  may be longer.  \<open>recv_data\<close> points at the rest of the buffer.\<close>

definition CONNECTION_UNFILL_HEADER :: "HDS_ReaderCDR \<Rightarrow> int \<Rightarrow> header_fields option" where
  "CONNECTION_UNFILL_HEADER cdr data_length = do {
     let cdr = skip_long cdr;
     (id0, cdr) \<leftarrow> read_ulong cdr;
     (id1, cdr) \<leftarrow> read_ulong cdr;
     (send_time, cdr) \<leftarrow> read_long cdr;
     (dt_note, cdr) \<leftarrow> read_ulong cdr;
     Some \<lparr>h_conID = CID id0 id1, h_send_time = send_time, h_dt_note = dt_note,
       h_recv_data = get_current_pos cdr,
       h_recv_data_length = data_length - int (ReaderCDR_length cdr)\<rparr> }"

section \<open>Laws\<close>

definition header_bytes :: "MsgType \<Rightarrow> Connection_ID \<Rightarrow> u32 \<Rightarrow> u32 \<Rightarrow> u8 list" where
  "header_bytes msgtype conID send_time dt_note =
     le_bytes32 msgtype @ le_bytes32 (ID32_1 conID) @ le_bytes32 (ID32_0 conID) @
     le_bytes32 send_time @ le_bytes32 dt_note"

lemma length_header_bytes [simp]: "length (header_bytes t c s d) = HDS_UDP_PACKET_MAX_HEADER_LENGTH"
  by (simp add: header_bytes_def)

lemma fill_header_Some:
  assumes "CONNECTION_FILL_HEADER t c s d w = Some w'"
  shows "written w' = written w @ header_bytes t c s d" "w_pos w' = w_pos w + 20"
    "length (w_data w') = length (w_data w)"
  using assms unfolding CONNECTION_FILL_HEADER_def header_bytes_def
  by (auto simp: bind_eq_Some_conv dest!: cdr_long.wr_effect cdr_ulong.wr_effect)

lemma fill_header_total:
  assumes "w_pos w + 20 \<le> length (w_data w)"
  shows "\<exists>w'. CONNECTION_FILL_HEADER t c s d w = Some w'"
proof -
  from assms obtain w1 where 1: "write_long w t = Some w1"
    using cdr_long.wr_total [of w t] by auto
  note 1 = 1 cdr_long.wr_Some(2,3) [OF 1]
  with assms obtain w2 where 2: "write_ulong w1 (ID32_1 c) = Some w2"
    using cdr_ulong.wr_total [of w1 "ID32_1 c"] by auto
  note 2 = 2 cdr_ulong.wr_Some(2,3) [OF 2]
  with 1 assms obtain w3 where 3: "write_ulong w2 (ID32_0 c) = Some w3"
    using cdr_ulong.wr_total [of w2 "ID32_0 c"] by auto
  note 3 = 3 cdr_ulong.wr_Some(2,3) [OF 3]
  with 1 2 assms obtain w4 where 4: "write_long w3 s = Some w4"
    using cdr_long.wr_total [of w3 s] by auto
  note 4 = 4 cdr_long.wr_Some(2,3) [OF 4]
  with 1 2 3 assms obtain w5 where "write_ulong w4 d = Some w5"
    using cdr_ulong.wr_total [of w4 d] by auto
  with 1 2 3 4 show ?thesis by (simp add: CONNECTION_FILL_HEADER_def)
qed

lemma unfill_header:
  assumes "r_data r = header_bytes t c s d @ rest" "r_pos r = 0"
  shows "CONNECTION_UNFILL_HEADER r len =
    Some \<lparr>h_conID = CID (ID32_1 c) (ID32_0 c), h_send_time = s, h_dt_note = d,
      h_recv_data = rest, h_recv_data_length = len - 20\<rparr>"
proof -
  let ?r0 = "skip_long r"
  have "unread r = le_bytes32 t @ le_bytes32 (ID32_1 c) @ le_bytes32 (ID32_0 c) @
    le_bytes32 s @ le_bytes32 d @ rest"
    using assms by (simp add: unread_def header_bytes_def)
  from skip_long_unread [OF this] have u0: "unread ?r0 = le_bytes32 (ID32_1 c) @
    le_bytes32 (ID32_0 c) @ le_bytes32 s @ le_bytes32 d @ rest" by simp
  have p0: "r_pos ?r0 = 4" "r_pos ?r0 \<le> length (r_data ?r0)"
    using assms by (auto simp: skip_long_def)
  from cdr_ulong.rd_written [OF u0 p0(2)] p0(1) obtain r1 where r1:
    "read_ulong ?r0 = Some (ID32_1 c, r1)"
    "unread r1 = le_bytes32 (ID32_0 c) @ le_bytes32 s @ le_bytes32 d @ rest"
    "r_pos r1 \<le> length (r_data r1)" "r_pos r1 = 8" by auto
  from cdr_ulong.rd_written [OF r1(2,3)] r1(4) obtain r2 where r2:
    "read_ulong r1 = Some (ID32_0 c, r2)" "unread r2 = le_bytes32 s @ le_bytes32 d @ rest"
    "r_pos r2 \<le> length (r_data r2)" "r_pos r2 = 12" by auto
  from cdr_long.rd_written [OF r2(2,3)] r2(4) obtain r3 where r3:
    "read_long r2 = Some (s, r3)" "unread r3 = le_bytes32 d @ rest"
    "r_pos r3 \<le> length (r_data r3)" "r_pos r3 = 16" by auto
  from cdr_ulong.rd_written [OF r3(2,3)] r3(4) obtain r4 where
    "read_ulong r3 = Some (d, r4)" "unread r4 = rest" "r_pos r4 = 20" by auto
  with r1 r2 r3 show ?thesis
    by (simp add: CONNECTION_UNFILL_HEADER_def Let_def get_current_pos_def unread_def
        ReaderCDR_length_def)
qed

section \<open>Properties\<close>

text \<open>C16. Header round trip: \<open>CONNECTION_FILL_HEADER\<close> succeeds on every buffer of at least 20 bytes, and
  \<open>CONNECTION_UNFILL_HEADER\<close> on the filled buffer returns the send time and the note unchanged,
  the identifier with its two halves exchanged (each end addresses the other end's slot first),
  the bytes behind the header, and the datagram length less 20.  The message type is the first
  field.\<close>

theorem header_roundtrip:
  assumes "HDS_UDP_PACKET_MAX_HEADER_LENGTH \<le> length buf"
  shows "\<exists>w. CONNECTION_FILL_HEADER t c s d (WriteCDR_new buf) = Some w \<and> WriteCDR_length w = 20 \<and>
    read_long (ReaderCDR_new (w_data w)) = Some (t, \<lparr>r_data = w_data w, r_pos = 4\<rparr>) \<and>
    CONNECTION_UNFILL_HEADER (ReaderCDR_new (w_data w)) len =
      Some \<lparr>h_conID = CID (ID32_1 c) (ID32_0 c), h_send_time = s, h_dt_note = d,
        h_recv_data = drop 20 (w_data w), h_recv_data_length = len - 20\<rparr>"
proof -
  from assms obtain w where w: "CONNECTION_FILL_HEADER t c s d (WriteCDR_new buf) = Some w"
    using fill_header_total [of "WriteCDR_new buf" t c s d] by (auto simp: WriteCDR_new_def)
  note f = fill_header_Some [OF w]
  have pre: "take 20 (w_data w) = header_bytes t c s d"
    using f(1,2) by (simp add: written_def WriteCDR_new_def)
  then have dat: "r_data (ReaderCDR_new (w_data w)) = header_bytes t c s d @ drop 20 (w_data w)"
    by (simp add: ReaderCDR_new_def) (metis append_take_drop_id)
  have "unread (ReaderCDR_new (w_data w)) = le_bytes32 t @ drop 4 (w_data w)"
    using dat by (simp add: unread_def ReaderCDR_new_def header_bytes_def)
      (metis append_eq_conv_conj length_le_bytes(1))
  from cdr_long.rd_written [OF this]
  have "\<exists>r'. read_long (ReaderCDR_new (w_data w)) = Some (t, r') \<and> r_pos r' = 4 \<and> r_data r' = w_data w"
    by (auto simp: ReaderCDR_new_def)
  then have "read_long (ReaderCDR_new (w_data w)) = Some (t, \<lparr>r_data = w_data w, r_pos = 4\<rparr>)"
    by auto
  with w f(2) unfill_header [OF dat] show ?thesis
    by (auto simp: WriteCDR_length_def WriteCDR_new_def ReaderCDR_new_def)
qed

theorem header_roundtrip_witness:
  "HDS_UDP_PACKET_MAX_HEADER_LENGTH \<le> length (replicate 1472 (0::u8)) \<and>
   (\<exists>w. CONNECTION_FILL_HEADER 116 (CID 5 7) 9 1452 (WriteCDR_new (replicate 1472 0)) = Some w)"
proof -
  have h: "HDS_UDP_PACKET_MAX_HEADER_LENGTH \<le> length (replicate 1472 (0::u8))" by simp
  from header_roundtrip [OF h] h show ?thesis by blast
qed

end
