(* ===== verification/HDS_Unistd.thy ===== *)
theory HDS_Unistd
  imports HDS_Config
begin

unbundle bit_operations_syntax

text \<open>
  The Linux parts of \<open>common/HDS_Unistd.h\<close> and \<open>common/HDS_Socket_Utils.h\<close> that compute:
  time arithmetic, the millisecond clock, address type detection and address comparison.  A
  \<open>timeval\<close> is the pair of its two \<open>long\<close> members; a \<open>sockaddr\<close> is its sixteen bytes.
\<close>

record timeval =
  tv_sec :: u64
  tv_usec :: u64

type_synonym sockaddr = "u8 list"

definition timeval_sub :: "timeval \<Rightarrow> timeval \<Rightarrow> timeval" where
  "timeval_sub t1 t2 =
     (let u = tv_usec t1 - tv_usec t2;
          t = t1\<lparr>tv_usec := u\<rparr>;
          t' = (if u <s 0 then \<lparr>tv_sec = tv_sec t - 1, tv_usec = tv_usec t + 1000000\<rparr> else t)
      in t'\<lparr>tv_sec := tv_sec t' - tv_sec t2\<rparr>)"

text \<open>\<open>tv_usec/1000\<close> is a division of nonnegative \<open>long\<close>s; the result is truncated to \<open>int\<close>.\<close>

definition connection_clock :: "timeval \<Rightarrow> u32" where
  "connection_clock dif = ucast ((tv_sec dif * 1000 + tv_usec dif div 1000) AND 0xffffffff)"

definition HDS_UDP_clock :: "timeval \<Rightarrow> u32" where
  "HDS_UDP_clock dif = ucast ((tv_sec dif * 1000 + tv_usec dif div 1000) AND 0xffffffff)"

datatype IPADDR_TYPE = IPV4 | IPV6

fun check_ip_addr_type :: "string \<Rightarrow> IPADDR_TYPE" where
  "check_ip_addr_type [] = IPV4"
| "check_ip_addr_type (c # cs) = (if c = CHR '':'' then IPV6 else check_ip_addr_type cs)"

fun sockaddr_bytes_eq :: "nat \<Rightarrow> sockaddr \<Rightarrow> sockaddr \<Rightarrow> bool" where
  "sockaddr_bytes_eq 0 a b = True"
| "sockaddr_bytes_eq (Suc n) a b = (a ! 0 = b ! 0 \<and> sockaddr_bytes_eq n (tl a) (tl b))"

definition sockaddrcmp :: "sockaddr \<Rightarrow> u32 \<Rightarrow> sockaddr \<Rightarrow> u32 \<Rightarrow> int" where
  "sockaddrcmp addra addra_length addrb addrb_length =
     (if addra_length \<noteq> addrb_length then - 1
      else if sockaddr_bytes_eq (unat addra_length) addra addrb then 0 else - 1)"

lemma sockaddr_bytes_eq_take:
  "n \<le> length a \<Longrightarrow> n \<le> length b \<Longrightarrow> sockaddr_bytes_eq n a b \<longleftrightarrow> take n a = take n b"
proof (induction n arbitrary: a b)
  case (Suc n)
  then show ?case by (cases a; cases b) auto
qed simp

lemma check_ip_addr_type_iff: "check_ip_addr_type s = IPV6 \<longleftrightarrow> CHR '':'' \<in> set s"
  by (induction s) auto

text \<open>On normalised inputs the difference is normalised again and is the difference in
  microseconds.\<close>

lemma timeval_sub_value:
  assumes "sint (tv_usec t1) \<in> {0..<1000000}" "sint (tv_usec t2) \<in> {0..<1000000}"
    and "sint (tv_sec t1) \<in> {0..<2 ^ 40}" "sint (tv_sec t2) \<in> {0..<2 ^ 40}"
  shows "sint (tv_usec (timeval_sub t1 t2)) \<in> {0..<1000000} \<and>
    sint (tv_sec (timeval_sub t1 t2)) * 1000000 + sint (tv_usec (timeval_sub t1 t2)) =
    (sint (tv_sec t1) * 1000000 + sint (tv_usec t1)) - (sint (tv_sec t2) * 1000000 + sint (tv_usec t2))"
proof -
  have u: "sint (tv_usec t1 - tv_usec t2) = sint (tv_usec t1) - sint (tv_usec t2)"
    using assms by (intro sint_minus_small) auto
  have s: "sint (tv_sec t1 - tv_sec t2) = sint (tv_sec t1) - sint (tv_sec t2)"
    using assms by (intro sint_minus_small) auto
  have u': "sint (tv_usec t1 - tv_usec t2 + 1000000) = sint (tv_usec t1) - sint (tv_usec t2) + 1000000"
    using assms u by (subst sint_plus_small) auto
  have s1: "sint (tv_sec t1 - 1) = sint (tv_sec t1) - 1"
    using assms by (subst sint_minus_small) auto
  have s': "sint (tv_sec t1 - 1 - tv_sec t2) = sint (tv_sec t1) - 1 - sint (tv_sec t2)"
    using assms s1 by (subst sint_minus_small) auto
  show ?thesis
    using assms u s u' s' by (auto simp: timeval_sub_def Let_def word_sless_alt)
qed

end
