(* ===== verification/Ack_Collector.thy ===== *)
theory Ack_Collector
  imports Atomic_Bitmap "HOL-Library.Monad_Syntax"
begin

unbundle bit_operations_syntax

text \<open>
  \<open>HDS_UDP_Connection_Ack_Info_Collector\<close> (\<open>connection/HDS_UDP_Connection_Ack_Info_Collector.cpp\<close>): what
  the receiver of a complex transfer has got.  Packets are numbered by their position in the message;
  a bitmap used as a ring remembers those that arrived ahead of the first missing one.
\<close>

section \<open>State and operations\<close>

datatype Ack_Type = ACK | SACK

abbreviation (input) MAX_BIT_NUM :: nat where
  "MAX_BIT_NUM \<equiv> HDS_UDP_CONNECTION_RECV_BITMAP_SIZE * 8"

record Ack_Collector =
  ac_bitmap :: "u64 list"
  last_ack_pos :: u64
  max_seq :: u64
  ack_time :: u64
  last_recv_time :: u64

definition Ack_Collector_new :: Ack_Collector where
  "Ack_Collector_new = \<lparr>ac_bitmap = replicate (HDS_UDP_CONNECTION_RECV_BITMAP_SIZE div 8) 0, last_ack_pos = 0,
     max_seq = 0, ack_time = 0, last_recv_time = 0\<rparr>"

text \<open>Each round of the loop in \<open>_get_next_ack\<close> clears a set bit, so the loop ends.\<close>

definition set_bits :: "u64 list \<Rightarrow> nat set" where
  "set_bits ws = {i. i < 64 * length ws \<and> wa_bit ws i}"

lemma set_bits_reset:
  assumes "i < 64 * length ws" "fst (wa_update AtomicBitTestAndReset ws i) \<noteq> 0"
  shows "card (set_bits (snd (wa_update AtomicBitTestAndReset ws i))) < card (set_bits ws)"
proof -
  have "set_bits (snd (wa_update AtomicBitTestAndReset ws i)) = set_bits ws - {i}"
    using assms(1) by (auto simp: set_bits_def wa_bit_reset)
  moreover have "i \<in> set_bits ws" "finite (set_bits ws)"
    using assms by (auto simp: set_bits_def wa_reset_zero_iff)
  ultimately show ?thesis by (metis card_Diff1_less)
qed

text \<open>The position goes through an \<open>int\<close>; a negative one, or a bit outside the array, is \<open>None\<close>.\<close>

function ack_advance :: "u64 list \<Rightarrow> u64 \<Rightarrow> (u64 list \<times> u64) option" where
  "ack_advance ws pos =
    (let start_ack_pos = sint (ucast pos :: u32);
         start_pos = nat start_ack_pos mod MAX_BIT_NUM;
         r = wa_update AtomicBitTestAndReset ws start_pos
     in if start_ack_pos < 0 \<or> 64 * length ws \<le> start_pos then None
        else if fst r = 0 then Some (snd r, pos)
        else ack_advance (snd r) (snd (CompareExchange pos (of_int (start_ack_pos + 1)) (of_int start_ack_pos))))"
  by pat_completeness auto
termination
  by (relation "measure (\<lambda>(ws, pos). card (set_bits ws))") (auto intro!: set_bits_reset)

declare ack_advance.simps [simp del]

definition get_next_ack_pos :: "Ack_Collector \<Rightarrow> (Ack_Type \<times> u32 \<times> Ack_Collector) option" where
  "get_next_ack_pos c = do {
     (ws, pos) \<leftarrow> ack_advance (ac_bitmap c) (last_ack_pos c);
     let c = c\<lparr>ac_bitmap := ws, last_ack_pos := pos\<rparr>;
     let seq = ucast (last_ack_pos c * HDS_UDP_PACKET_MAX_DATA_LENGTH);
     Some (if max_seq c \<noteq> ucast (seq - HDS_UDP_PACKET_MAX_DATA_LENGTH :: u32) then SACK else ACK, seq, c) }"

definition collector_set :: "u32 \<Rightarrow> u32 \<Rightarrow> Ack_Collector \<Rightarrow> (int \<times> u64 option \<times> Ack_Collector) option" where
  "collector_set seq recv_time c = do {
     let inpos = unat (seq div HDS_UDP_PACKET_MAX_DATA_LENGTH);
     let c = (if max_seq c < ucast seq then c\<lparr>max_seq := ucast seq\<rparr> else c);
     if inpos < unat (last_ack_pos c) then Some (- 1, None, c)
     else do {
       c \<leftarrow> (if unat (last_ack_pos c) + MAX_BIT_NUM \<le> inpos
            then map_option (\<lambda>(_, _, c). c) (get_next_ack_pos c) else Some c);
       if unat (last_ack_pos c) + MAX_BIT_NUM \<le> inpos then Some (- 1, None, c)
       else do {
         let c = c\<lparr>ack_time := snd (CompareExchange (ack_time c) (scast recv_time) 0),
                   last_recv_time := scast recv_time\<rparr>;
         let (oldvalue, ws) = wa_update AtomicBitTestAndSet (ac_bitmap c) (inpos mod MAX_BIT_NUM);
         Some (0, Some oldvalue, c\<lparr>ac_bitmap := ws\<rparr>) } } }"

definition collector_get_next_ack :: "Ack_Collector \<Rightarrow> (Ack_Type \<times> u32 \<times> u32 \<times> Ack_Collector) option" where
  "collector_get_next_ack c = do {
     let t = (ucast (ack_time c) :: u32);
     let c = c\<lparr>ack_time := 0\<rparr>;
     let t = (if t = 0 then ucast (last_recv_time c) else t);
     (ty, seq, c) \<leftarrow> get_next_ack_pos c;
     Some (ty, seq, t, c) }"

section \<open>The set of packets received\<close>

definition window :: "u64 list \<Rightarrow> u64 \<Rightarrow> nat \<Rightarrow> bool" where
  "window ws pos p \<longleftrightarrow> p < unat pos \<or> p < unat pos + MAX_BIT_NUM \<and> wa_bit ws (p mod MAX_BIT_NUM)"

definition received :: "Ack_Collector \<Rightarrow> nat \<Rightarrow> bool" where
  "received c = window (ac_bitmap c) (last_ack_pos c)"

text \<open>Sequence numbers are 32-bit byte offsets, so positions stay below this bound.\<close>

abbreviation (input) MAX_POS :: nat where
  "MAX_POS \<equiv> (2 ^ 32 - 1) div 1452"

definition collector_ok :: "Ack_Collector \<Rightarrow> bool" where
  "collector_ok c \<longleftrightarrow> length (ac_bitmap c) = HDS_UDP_CONNECTION_RECV_BITMAP_SIZE div 8 \<and>
     (\<forall>p. received c p \<longrightarrow> p \<le> MAX_POS)"

lemma ring_unique:
  fixes p q a n :: nat
  assumes "a \<le> p" "p < a + n" "a \<le> q" "q < a + n" "p mod n = q mod n"
  shows "p = q"
proof -
  have *: "False" if "p < q" "a \<le> p" "q < a + n" "p mod n = q mod n" for p q
  proof -
    from that have "n dvd q - p" by (metis less_imp_le mod_eq_dvd_iff_nat)
    with that show False by (auto dest!: dvd_imp_le)
  qed
  show ?thesis using * [of p q] * [of q p] assms by (metis linorder_neqE_nat)
qed

lemma window_last_bound: "\<forall>p. window ws pos p \<longrightarrow> p \<le> MAX_POS \<Longrightarrow> unat pos \<le> MAX_POS + 1"
  by (cases "unat pos") (auto simp: window_def)

lemma ring_step:
  fixes P N p :: nat
  assumes "B (P mod N)" "0 < N"
  shows "(p < P + 1 \<or> p < P + 1 + N \<and> B (p mod N) \<and> p mod N \<noteq> P mod N) \<longleftrightarrow> (p < P \<or> p < P + N \<and> B (p mod N))"
proof -
  consider "p < P" | "p = P" | "P < p" "p < P + N" | "p = P + N" | "P + N < p" by linarith
  then show ?thesis
  proof cases
    case 3
    then have "p mod N \<noteq> P mod N" using ring_unique [of P p N P] by auto
    with 3 show ?thesis by auto
  qed (use assms in auto)
qed

lemma window_step:
  assumes "wa_bit ws (unat pos mod MAX_BIT_NUM)" "length ws = 48" "unat (pos + 1) = unat pos + 1"
  shows "window (snd (wa_update AtomicBitTestAndReset ws (unat pos mod MAX_BIT_NUM))) (pos + 1) = window ws pos"
proof
  fix p
  show "window (snd (wa_update AtomicBitTestAndReset ws (unat pos mod MAX_BIT_NUM))) (pos + 1) p = window ws pos p"
    using ring_step [of "wa_bit ws" "unat pos" MAX_BIT_NUM p] assms by (simp add: window_def wa_bit_reset)
qed

lemma small_position:
  assumes "unat (pos :: u64) \<le> MAX_POS + 1"
  shows "sint (ucast pos :: u32) = int (unat pos)" "unat (pos + 1) = unat pos + 1"
proof -
  show "sint (ucast pos :: u32) = int (unat pos)" using sint_of_nat32 [of "unat pos"] assms by simp
  show "unat (pos + 1) = unat pos + 1" using assms by (simp add: unat_word_ariths)
qed

lemma ack_advance_ok:
  assumes "length ws = 48" "\<forall>p. window ws pos p \<longrightarrow> p \<le> MAX_POS"
  shows "\<exists>ws' pos'. ack_advance ws pos = Some (ws', pos') \<and> length ws' = 48 \<and> window ws' pos' = window ws pos \<and>
    \<not> wa_bit ws' (unat pos' mod MAX_BIT_NUM)"
  using assms
proof (induction ws pos rule: ack_advance.induct)
  case (1 ws pos)
  let ?i = "unat pos mod MAX_BIT_NUM"
  let ?r = "wa_update AtomicBitTestAndReset ws ?i"
  note small = small_position [OF window_last_bound [OF "1.prems"(2)]]
  have i: "?i < 64 * length ws" using "1.prems"(1) by simp
  have eq: "ack_advance ws pos = (if fst ?r = 0 then Some (snd ?r, pos) else ack_advance (snd ?r) (pos + 1))"
    using i by (subst ack_advance.simps) (simp add: small Let_def CompareExchange_def)
  have bits: "wa_bit (snd ?r) j \<longleftrightarrow> wa_bit ws j \<and> j \<noteq> ?i" for j using wa_bit_reset [OF i] .
  note bits = bits [simplified]
  show ?case
  proof (cases "wa_bit ws ?i")
    case False
    then have "window (snd ?r) pos = window ws pos" by (auto simp: window_def bits fun_eq_iff)
    with False eq bits "1.prems" show ?thesis by (simp add: wa_reset_zero_iff)
  next
    case True
    then have r: "fst ?r \<noteq> 0" by (simp add: wa_reset_zero_iff)
    note step = window_step [OF True "1.prems"(1) small(2)]
    have "\<exists>ws' pos'. ack_advance (snd ?r) (pos + 1) = Some (ws', pos') \<and> length ws' = 48 \<and>
      window ws' pos' = window (snd ?r) (pos + 1) \<and> \<not> wa_bit ws' (unat pos' mod MAX_BIT_NUM)"
      using "1.IH" [OF refl refl refl] r i small "1.prems" step by (simp add: CompareExchange_def)
    with eq r step show ?thesis by simp
  qed
qed

lemma get_next_ack_pos_ok:
  assumes "collector_ok c"
  shows "\<exists>ty c'. get_next_ack_pos c = Some (ty, of_nat (1452 * (LEAST p. \<not> received c p)), c') \<and>
    collector_ok c' \<and> received c' = received c \<and> \<not> received c' (unat (last_ack_pos c')) \<and> max_seq c' = max_seq c \<and>
    ack_time c' = ack_time c \<and> last_recv_time c' = last_recv_time c \<and>
    unat (last_ack_pos c') = (LEAST p. \<not> received c p) \<and>
    (ty = ACK \<longleftrightarrow> max_seq c = ucast (of_nat (1452 * (LEAST p. \<not> received c p)) - 1452 :: u32))"
proof -
  have ok: "length (ac_bitmap c) = 48" "\<forall>p. window (ac_bitmap c) (last_ack_pos c) p \<longrightarrow> p \<le> MAX_POS"
    using assms by (auto simp: collector_ok_def received_def)
  from ack_advance_ok [OF ok] obtain ws pos where a: "ack_advance (ac_bitmap c) (last_ack_pos c) = Some (ws, pos)"
    "length ws = 48" "window ws pos = window (ac_bitmap c) (last_ack_pos c)" "\<not> wa_bit ws (unat pos mod MAX_BIT_NUM)"
    by blast
  have least: "(LEAST p. \<not> received c p) = unat pos"
    unfolding received_def a(3) [symmetric] by (rule Least_equality) (use a(4) in \<open>auto simp: window_def\<close>)
  have "unat pos \<le> MAX_POS + 1" using window_last_bound [of ws pos] a(3) ok(2) by simp
  then have "unat (pos * 1452) = 1452 * unat pos" by (simp add: unat_word_ariths)
  then have seq: "(ucast (pos * 1452) :: u32) = of_nat (1452 * unat pos)"
    by (metis of_nat_unat)
  have "\<not> window ws pos (unat pos)" using a(4) by (simp add: window_def)
  with a(1,2,3) ok(2) show ?thesis
    unfolding least get_next_ack_pos_def by (auto simp: seq collector_ok_def received_def Let_def)
qed

lemma window_set:
  assumes "length ws = 48" "unat pos \<le> q" "q < unat pos + MAX_BIT_NUM"
  shows "window (snd (wa_update AtomicBitTestAndSet ws (q mod MAX_BIT_NUM))) pos = (\<lambda>p. window ws pos p \<or> p = q)"
proof
  fix p
  have "p mod MAX_BIT_NUM = q mod MAX_BIT_NUM \<longleftrightarrow> p = q" if "\<not> p < unat pos" "p < unat pos + MAX_BIT_NUM"
    using ring_unique [of "unat pos" p MAX_BIT_NUM q] that assms(2,3) by auto
  then show "window (snd (wa_update AtomicBitTestAndSet ws (q mod MAX_BIT_NUM))) pos p = (window ws pos p \<or> p = q)"
    using assms by (auto simp: window_def wa_bit_set)
qed

text \<open>Storing a packet whose position lies in the window.\<close>

lemma set_in_window:
  assumes "collector_ok c" "unat (last_ack_pos c) \<le> q" "q < unat (last_ack_pos c) + MAX_BIT_NUM" "q \<le> MAX_POS"
    "wa_update AtomicBitTestAndSet (ac_bitmap c) (q mod MAX_BIT_NUM) = (v, ws)"
    "c' = c\<lparr>ack_time := x, last_recv_time := y, ac_bitmap := ws\<rparr>"
  shows "collector_ok c' \<and> received c' = (\<lambda>p. received c p \<or> p = q) \<and> (v = 0 \<longleftrightarrow> \<not> received c q)"
proof -
  have l: "length (ac_bitmap c) = 48" "length ws = 48"
    using assms(1,5) wa_update_length [of AtomicBitTestAndSet "ac_bitmap c" "q mod MAX_BIT_NUM"]
    by (auto simp: collector_ok_def)
  have "received c' = (\<lambda>p. received c p \<or> p = q)"
    using window_set [OF l(1) assms(2,3)] assms(5,6) by (simp add: received_def)
  moreover have "v = 0 \<longleftrightarrow> \<not> received c q"
    using wa_set_zero_iff [of "ac_bitmap c" "q mod MAX_BIT_NUM"] assms(2,3,5) by (auto simp: received_def window_def)
  ultimately show ?thesis using assms(1,4,6) l by (auto simp: collector_ok_def)
qed

lemma max_seq_ok [simp]:
  "collector_ok (c\<lparr>max_seq := m\<rparr>) = collector_ok c" "received (c\<lparr>max_seq := m\<rparr>) = received c"
  "collector_ok (c\<lparr>ack_time := m\<rparr>) = collector_ok c" "received (c\<lparr>ack_time := m\<rparr>) = received c"
  by (simp_all add: collector_ok_def received_def)

lemma below_received: "q < unat (last_ack_pos c) \<Longrightarrow> received c q"
  by (simp add: received_def window_def)

lemma collector_set_cases:
  assumes "collector_ok c" and q: "q = unat seq div 1452"
  shows "\<exists>r old c'. collector_set seq t c = Some (r, old, c') \<and> collector_ok c' \<and>
    (r = 0 \<and> received c' = (\<lambda>p. received c p \<or> p = q) \<and> (\<exists>v. old = Some v \<and> (v = 0 \<longleftrightarrow> \<not> received c q)) \<or>
     r = - 1 \<and> received c' = received c \<and> (received c q \<or> (LEAST p. \<not> received c p) + MAX_BIT_NUM \<le> q))"
proof -
  let ?c = "if max_seq c < ucast seq then c\<lparr>max_seq := ucast seq\<rparr> else c"
  have c: "collector_ok ?c" "received ?c = received c" "last_ack_pos ?c = last_ack_pos c" using assms(1) by auto
  have inpos: "unat (seq div 1452) = q" by (simp add: q unat_div)
  have bound: "q \<le> MAX_POS" using unsigned_less [of seq, where ?'a = nat] unfolding q by (intro div_le_mono) simp
  consider "q < unat (last_ack_pos c)"
    | "unat (last_ack_pos c) \<le> q" "q < unat (last_ack_pos c) + MAX_BIT_NUM"
    | "unat (last_ack_pos c) + MAX_BIT_NUM \<le> q" by linarith
  then show ?thesis
  proof cases
    case 1
    with c below_received [of q c] show ?thesis by (simp add: collector_set_def inpos Let_def)
  next
    case 2
    obtain v ws where "wa_update AtomicBitTestAndSet (ac_bitmap ?c) (q mod MAX_BIT_NUM) = (v, ws)" by fastforce
    with set_in_window [OF c(1) _ _ bound this refl] 2 c show ?thesis
      by (auto simp: collector_set_def inpos Let_def)
  next
    case 3
    then have "\<not> received c q" by (simp add: received_def window_def)
    from get_next_ack_pos_ok [OF c(1)] obtain ty s c2 where c2: "get_next_ack_pos ?c = Some (ty, s, c2)"
      "collector_ok c2" "received c2 = received c" "unat (last_ack_pos c2) = (LEAST p. \<not> received c p)" using c(2) by metis
    have le: "unat (last_ack_pos c2) \<le> q" using c2(4) \<open>\<not> received c q\<close> by (simp add: Least_le)
    obtain v ws where w: "wa_update AtomicBitTestAndSet (ac_bitmap c2) (q mod MAX_BIT_NUM) = (v, ws)" by fastforce
    show ?thesis
    proof (cases "unat (last_ack_pos c2) + MAX_BIT_NUM \<le> q")
      case True
      with 3 c c2 show ?thesis by (auto simp: collector_set_def inpos Let_def)
    next
      case False
      with 3 c c2 w set_in_window [OF c2(2) le _ bound w refl] show ?thesis
        by (auto simp: collector_set_def inpos Let_def)
    qed
  qed
qed

section \<open>Properties\<close>

text \<open>C26. The acknowledgement collector is a set of packet positions.  Storing a packet either adds exactly
  its position and reports whether it was new, or changes nothing (returning \<open>-1\<close>), and the latter
  only for a packet already there or more than a bitmap ahead of the first missing one.\<close>

theorem collector_set_refines:
  assumes "collector_ok c"
  shows "\<exists>r old c'. collector_set seq t c = Some (r, old, c') \<and> collector_ok c' \<and>
    (r = 0 \<and> received c' = (\<lambda>p. received c p \<or> p = unat seq div 1452) \<and>
       (\<exists>v. old = Some v \<and> (v = 0 \<longleftrightarrow> \<not> received c (unat seq div 1452))) \<or>
     r = - 1 \<and> received c' = received c \<and>
       (received c (unat seq div 1452) \<or> (LEAST p. \<not> received c p) + MAX_BIT_NUM \<le> unat seq div 1452))"
  using collector_set_cases [OF assms refl] .

lemma collector_new: "collector_ok Ack_Collector_new" "\<not> received Ack_Collector_new p"
proof -
  have "\<not> received Ack_Collector_new p" for p
  proof
    assume "received Ack_Collector_new p"
    then have "bit (replicate 48 0 ! (p mod 3072 div 64) :: u64) (p mod 64 mod 64)"
      by (auto simp: received_def window_def wa_bit_def Ack_Collector_new_def mod_mod_cancel)
    moreover have "p mod 3072 div 64 < 48" by (simp add: less_mult_imp_div_less)
    ultimately show False by simp
  qed
  then show "collector_ok Ack_Collector_new" "\<not> received Ack_Collector_new p"
    by (auto simp: collector_ok_def Ack_Collector_new_def)
qed

theorem collector_set_refines_witness:
  "\<exists>r old c'. collector_set 2904 5 Ack_Collector_new = Some (r, old, c') \<and> collector_ok c' \<and>
     (r = 0 \<and> received c' = (\<lambda>p. p = 2) \<or> r = - 1 \<and> 3072 \<le> (2::nat))"
  using collector_set_refines [OF collector_new(1), of 2904 5] by (auto simp: collector_new(2))

text \<open>C27. The acknowledgement the collector gives out names the first missing packet: the search loop ends,
  the sequence number is the offset of the least position not received, nothing received is forgotten,
  and the type is \<open>ACK\<close> exactly when the highest sequence seen is the packet just before it.\<close>

theorem collector_next_ack:
  assumes "collector_ok c"
  shows "\<exists>ty t c'. collector_get_next_ack c = Some (ty, of_nat (1452 * (LEAST p. \<not> received c p)), t, c') \<and>
    collector_ok c' \<and> received c' = received c \<and>
    (ty = ACK \<longleftrightarrow> max_seq c = ucast (of_nat (1452 * (LEAST p. \<not> received c p)) - 1452 :: u32)) \<and>
    t = (if ucast (ack_time c) = (0 :: u32) then ucast (last_recv_time c) else ucast (ack_time c))"
  using get_next_ack_pos_ok [of "c\<lparr>ack_time := 0\<rparr>"] assms
  by (auto simp: collector_get_next_ack_def Let_def)

theorem collector_next_ack_witness:
  "\<exists>ty t c'. collector_get_next_ack Ack_Collector_new = Some (ty, 0, t, c') \<and> received c' = received Ack_Collector_new"
proof -
  have "(LEAST p. \<not> received Ack_Collector_new p) = 0" by (rule Least_equality) (auto simp: collector_new(2))
  with collector_next_ack [OF collector_new(1)] show ?thesis by fastforce
qed

end
