(* ===== verification/Single_Float.thy ===== *)
theory Single_Float
  imports HDS_Prelude
begin

unbundle bit_operations_syntax

text \<open>
  The part of IEEE 754 single precision that the window of the complex writer uses (type \<open>float\<close>
  in \<open>connection/HDS_UDP_Complex_Connection.cpp\<close>): non-negative values, rounding to nearest, ties to
  even.  A value is the number of its units of \<open>2\<^sup>-\<^sup>1\<^sup>4\<^sup>9\<close>, the smallest subnormal; below \<open>2\<^sup>2\<^sup>4\<close> units every
  number is a value, above, those whose binary form has at most 24 significant digits.  The values
  stay below \<open>2\<^sup>6\<^sup>5\<close>, far from overflow.
\<close>

type_synonym single = nat

text \<open>Division by \<open>2\<^sup>s\<close>, rounded to nearest, ties to even.\<close>

definition round_shift :: "nat \<Rightarrow> nat \<Rightarrow> nat" where
  "round_shift s n =
    (let q = n div 2 ^ s; r = n mod 2 ^ s
     in if 2 * r < 2 ^ s \<or> 2 * r = 2 ^ s \<and> even q then q else q + 1)"

text \<open>The exponent of a sum or product: how many binary digits have to go.\<close>

function excess_digits :: "nat \<Rightarrow> nat" where
  "excess_digits n = (if n < 2 ^ 24 then 0 else Suc (excess_digits (n div 2)))"
  by pat_completeness auto
termination by (relation "measure id") auto

declare excess_digits.simps [simp del]

definition single_round :: "nat \<Rightarrow> single" where
  "single_round n = (let s = excess_digits n in round_shift s n * 2 ^ s)"

abbreviation single_1 :: single where
  "single_1 \<equiv> 2 ^ 149"

text \<open>The literal \<open>0.05f\<close> is \<open>13421773 * 2\<^sup>-\<^sup>2\<^sup>8\<close>.\<close>

abbreviation single_0_05 :: single where
  "single_0_05 \<equiv> 13421773 * 2 ^ 121"

definition single_plus :: "single \<Rightarrow> single \<Rightarrow> single" where
  "single_plus a b = single_round (a + b)"

text \<open>\<open>*= 0.5f\<close>: exact but for an odd number of units.\<close>

definition single_half :: "single \<Rightarrow> single" where
  "single_half a = round_shift 1 a"

text \<open>\<open>(unsigned long)(f * n)\<close>: the integer is converted first, then the product is rounded, then
  truncated; a value that does not fit is undefined behaviour.\<close>

definition single_of_ulong :: "u64 \<Rightarrow> single" where
  "single_of_ulong n = single_round (unat n * 2 ^ 149)"

definition single_times_ulong :: "single \<Rightarrow> u64 \<Rightarrow> u64 option" where
  "single_times_ulong f n =
    (let p = single_round (f * (single_of_ulong n div 2 ^ 149)) div 2 ^ 149
     in if p < 2 ^ 64 then Some (of_nat p) else None)"

section \<open>Laws\<close>

lemma round_shift_le:
  assumes "n \<le> m * 2 ^ s"
  shows "round_shift s n \<le> m"
proof (cases "n = m * 2 ^ s")
  case False
  then have "n div 2 ^ s < m" using assms by (simp add: div_less_iff_less_mult)
  then show ?thesis by (auto simp: round_shift_def Let_def)
qed (simp add: round_shift_def)

lemma excess_digits_le: "n \<le> 2 ^ k \<Longrightarrow> excess_digits n \<le> k"
proof (induction n arbitrary: k rule: excess_digits.induct)
  case (1 n)
  show ?case
  proof (cases "n < 2 ^ 24")
    case False
    then obtain j where k: "k = Suc j" using "1.prems" by (cases k) auto
    then have "n div 2 \<le> 2 ^ j" using "1.prems" by simp
    then show ?thesis using "1.IH" [OF False] False k by (subst excess_digits.simps) simp
  qed (simp add: excess_digits.simps)
qed

text \<open>A power of two is a value, so rounding does not pass it.\<close>

lemma single_round_le: "n \<le> 2 ^ k \<Longrightarrow> single_round n \<le> 2 ^ k"
proof -
  assume n: "n \<le> 2 ^ k"
  let ?s = "excess_digits n"
  have "(2 :: nat) ^ k = 2 ^ (k - ?s) * 2 ^ ?s" using excess_digits_le [OF n] by (simp flip: power_add)
  then show ?thesis using round_shift_le [of n "2 ^ (k - ?s)" ?s] n by (simp add: single_round_def Let_def)
qed

lemma single_half_le: "f \<le> single_1 \<Longrightarrow> single_half f \<le> single_1"
  unfolding single_half_def by (rule round_shift_le) simp

text \<open>The conversion of a distance below \<open>2\<^sup>3\<^sup>2\<close>, scaled by a factor of at most one, always fits.\<close>

lemma single_times_ulong_total:
  assumes "f \<le> single_1" "unat n \<le> 2 ^ 32"
  shows "\<exists>r. single_times_ulong f n = Some r \<and> unat r \<le> 2 ^ 32"
proof -
  have "unat n * 2 ^ 149 \<le> 2 ^ 32 * 2 ^ 149" using assms(2) by (rule mult_le_mono1)
  then have "single_of_ulong n \<le> 2 ^ 181" unfolding single_of_ulong_def by (intro single_round_le) simp
  then have "single_of_ulong n div 2 ^ 149 \<le> 2 ^ 181 div 2 ^ 149" by (rule div_le_mono)
  then have "f * (single_of_ulong n div 2 ^ 149) \<le> 2 ^ 149 * 2 ^ 32" using assms(1) by (intro mult_le_mono) simp_all
  then have "single_round (f * (single_of_ulong n div 2 ^ 149)) \<le> 2 ^ 181" by (intro single_round_le) simp
  then have p: "single_round (f * (single_of_ulong n div 2 ^ 149)) div 2 ^ 149 \<le> 2 ^ 181 div 2 ^ 149" by (rule div_le_mono)
  then show ?thesis by (simp add: single_times_ulong_def Let_def unat_of_nat)
qed

end
