(* ===== verification/Connection_State.thy ===== *)
theory Connection_State
  imports Connection_ID HDS_Unistd Ack_Collector Single_Float
begin

unbundle bit_operations_syntax

text \<open>
  The data model of \<open>connection/HDS_UDP_Connection.h\<close>: the enumerations, the message nodes, the
  \<open>connection\<close> objects with their status bits, and the state of one host of the library.

  \<^item> A \<open>connection\<close> object, whichever of the four classes it is, is one record; \<open>kind\<close> stands for
    the table of function pointers that \<open>construct\<close> installs.  Fields that a class does not have
    stay at zero, the value \<open>memset\<close> gives them.
  \<^item> \<open>world\<close> is the library's static state.  Objects live in \<open>heap\<close> at addresses that are never
    reused, so a dereference after a release shows as \<open>None\<close>; \<open>_cid_array\<close> holds slots;
    the sender queue, the timer queue, the wait-ack map and the method processor's input queue
    appear as the sequence (or map) of what they hold.
  \<^item> \<open>oom\<close>, \<open>map_oom\<close> (the node pool of the wait-ack map), the clock and the contents \<open>garbage\<close> of fresh memory belong to the environment.
  \<^item> \<open>sent\<close> and \<open>events\<close> record in order what leaves the library: datagrams handed to
    \<open>kernel_send\<close>, callbacks into the application, and buffers given back.
\<close>

section \<open>Enumerations and plain structures\<close>

datatype SENDED_DEL_TYPE = DELETE_AFTER_SEND | NO_DELETE_AFTER_SEND

datatype TRANS_RESULT_CODE = TRANS_SUCCESSFULLY | TRANS_TIME_OUT | TRANS_REJECTED
  | TRANS_NAT_FAILED | TRANS_UNKOWN | TRANS_GUID_CONFLICT | TRANS_FORCE_STOP
  | TRANS_KERNEL_NO_SPACE | TRANS_RESET | TRANS_CONNECT_ERR

datatype Recv_Buf_Type = POOL_SPACE | USER_SPACE_DEL | USER_SPACE_NO_DEL | MALLOC_SPACE_DEL
  | MALLOC_SPACE_NO_DEL

datatype Verification_Recv_Type = Verification_Recv_Type_No_Recv | Verification_Recv_Type_Recv

datatype Verification_Recv_Buf_Type = Verification_Recv_Buf_Type_Manual_Manger
  | Verification_Recv_Buf_Type_Auto_Delete

datatype Connection_Timer_Type = Sender_Keeping_Timer | Recver_Check_Dead_Timer
  | Connection_Suspend_Timer | Force_Reset_Timer | Recver_ACK_Timer | Recver_Succ_Timer

record Result_Process_Data =
  rp_remote_addr :: sockaddr
  rp_remote_addr_length :: u32
  rp_data_length :: u32
  rp_buf_type :: "Recv_Buf_Type option"
  rp_data :: "u8 list"

text \<open>Application callbacks are named by a number; \<open>None\<close> is the null pointer.\<close>

record message_node =
  send_handle :: "nat option"
  node_del_type :: SENDED_DEL_TYPE
  source_data :: "u8 list"
  source_data_length :: u32

record CONNECTION_INFO =
  complete_size :: u64
  total_size :: u64
  info_result_code :: "TRANS_RESULT_CODE option"
  info_remote_addr :: sockaddr
  info_remote_addr_length :: u32

record Recv_Verification_Attribute =
  va_recv_type :: Verification_Recv_Type
  va_recv_buf_type :: Verification_Recv_Buf_Type
  va_recv_buf :: "u8 list option"
  va_recv_failed_func :: "nat option"

definition init_Recv_Verification_Attribute :: Recv_Verification_Attribute where
  "init_Recv_Verification_Attribute =
     \<lparr>va_recv_type = Verification_Recv_Type_Recv,
      va_recv_buf_type = Verification_Recv_Buf_Type_Auto_Delete,
      va_recv_buf = None, va_recv_failed_func = None\<rparr>"

record timer_parm =
  tp_running_count :: u64
  tp_timeout_type :: Connection_Timer_Type
  tp_connection_offset :: nat
  tp_connection_addr :: nat
  tp_extend_data :: "nat option"

record Kernel_Recv_Data =
  k_remote_addr :: sockaddr
  k_remote_addr_length :: u32
  k_data_length :: int
  k_data :: "u8 list"

section \<open>Connections\<close>

datatype conn_kind = Simple_Writer | Simple_Reader | Complex_Writer | Complex_Reader

record connection =
  kind :: conn_kind
  connection_ID :: Connection_ID
  running_count :: u64
  trans_result_code :: "TRANS_RESULT_CODE option"
  status :: u64
  transmit_buf :: "u8 list option"
  transmit_buf_length :: u32
  remote_addr :: sockaddr
  remote_addr_length :: u32
  left_window_cursor :: u64
  \<comment> \<open>\<open>Connection_Writer\<close>\<close>
  SRTT :: u64
  RTTVAR :: u64
  RTO :: u64
  sended_handle :: "nat option"
  del_type :: SENDED_DEL_TYPE
  try_time :: u64
  trans_message_node :: "message_node list"
  \<comment> \<open>\<open>Connection_Reader\<close> and the simple reader\<close>
  require_duplicate_label :: u32
  recv_buf_type :: "Recv_Buf_Type option"
  recv_failed_handle :: "nat option"
  memcpy_count :: u64
  \<comment> \<open>the complex writer\<close>
  right_window_cursor :: u64
  window_site :: u64
  window_ssthresh :: u64
  default_window_size :: u64
  current_window_cursor :: u32
  old_current_window_cursor :: u32
  sack_seq :: u64
  ack_seq_window_increase_factor :: single
  sack_same_count :: u32
  \<comment> \<open>the complex reader\<close>
  ack_info_collector :: Ack_Collector

text \<open>\<open>memset\<close> and the function table.\<close>

definition zeroed :: "conn_kind \<Rightarrow> connection" where
  "zeroed k = \<lparr>kind = k, connection_ID = CID_zero, running_count = 0, trans_result_code = None,
     status = 0, transmit_buf = None, transmit_buf_length = 0, remote_addr = replicate 16 0,
     remote_addr_length = 0, left_window_cursor = 0, SRTT = 0, RTTVAR = 0, RTO = 0,
     sended_handle = None, del_type = NO_DELETE_AFTER_SEND, try_time = 0, trans_message_node = [],
     require_duplicate_label = 0, recv_buf_type = None, recv_failed_handle = None,
     memcpy_count = 0, right_window_cursor = 0, window_site = 0, window_ssthresh = 0,
     default_window_size = 0, current_window_cursor = 0, old_current_window_cursor = 0, sack_seq = 0,
     ack_seq_window_increase_factor = 0, sack_same_count = 0, ack_info_collector = Ack_Collector_new\<rparr>"

section \<open>Status bits\<close>

abbreviation (input) CNT_STATUS_TRANS_SUC_BIT_OFFSET :: nat where
  "CNT_STATUS_TRANS_SUC_BIT_OFFSET \<equiv> 0"
abbreviation (input) CNT_STATUS_BUF_CLEAN_BIT_OFFSET :: nat where
  "CNT_STATUS_BUF_CLEAN_BIT_OFFSET \<equiv> 1"
abbreviation (input) CNT_STATUS_FORCE_STOP :: nat where
  "CNT_STATUS_FORCE_STOP \<equiv> 2"
abbreviation (input) CNT_CONNECTION_TYPE :: nat where
  "CNT_CONNECTION_TYPE \<equiv> 3"

definition status_set :: "nat \<Rightarrow> connection \<Rightarrow> u64 \<times> connection" where
  "status_set n con = (let (r, v) = AtomicBitTestAndSet (status con) n in (r, con\<lparr>status := v\<rparr>))"

definition status_reset :: "nat \<Rightarrow> connection \<Rightarrow> u64 \<times> connection" where
  "status_reset n con = (let (r, v) = AtomicBitTestAndReset (status con) n in (r, con\<lparr>status := v\<rparr>))"

definition status_test :: "nat \<Rightarrow> connection \<Rightarrow> u64" where
  "status_test n con = BitTest (status con) n"

definition set_connection_trans_succ :: "connection \<Rightarrow> u64 \<times> connection" where
  "set_connection_trans_succ con = status_set CNT_STATUS_TRANS_SUC_BIT_OFFSET con"

definition test_connection_trans_succ :: "connection \<Rightarrow> u64" where
  "test_connection_trans_succ con = status_test CNT_STATUS_TRANS_SUC_BIT_OFFSET con"

definition set_connection_trans_suspend :: "connection \<Rightarrow> u64 \<times> connection" where
  "set_connection_trans_suspend con = status_set CNT_STATUS_BUF_CLEAN_BIT_OFFSET con"

definition set_connection_force_stop :: "connection \<Rightarrow> u64 \<times> connection" where
  "set_connection_force_stop con = status_set CNT_STATUS_FORCE_STOP con"

definition test_connection_force_stop :: "connection \<Rightarrow> u64" where
  "test_connection_force_stop con = status_test CNT_STATUS_FORCE_STOP con"

definition set_connection_type_reader :: "connection \<Rightarrow> u64 \<times> connection" where
  "set_connection_type_reader con = status_reset CNT_CONNECTION_TYPE con"

definition test_connection_type_reader :: "connection \<Rightarrow> bool" where
  "test_connection_type_reader con \<longleftrightarrow> status_test CNT_CONNECTION_TYPE con = 0"

definition set_connection_type_writer :: "connection \<Rightarrow> u64 \<times> connection" where
  "set_connection_type_writer con = status_set CNT_CONNECTION_TYPE con"

definition test_connection_type_writer :: "connection \<Rightarrow> bool" where
  "test_connection_type_writer con \<longleftrightarrow> status_test CNT_CONNECTION_TYPE con \<noteq> 0"

text \<open>Writer bits 4 to 12 and reader bits 4 to 6 follow the common ones.\<close>

definition set_connection_in_sender :: "connection \<Rightarrow> u64 \<times> connection" where
  "set_connection_in_sender con = status_set (CNT_CONNECTION_TYPE + 1) con"

definition reset_connection_in_sender :: "connection \<Rightarrow> u64 \<times> connection" where
  "reset_connection_in_sender con = status_reset (CNT_CONNECTION_TYPE + 1) con"

definition set_connection_reback_sender :: "connection \<Rightarrow> u64 \<times> connection" where
  "set_connection_reback_sender con = status_set (CNT_CONNECTION_TYPE + 2) con"

definition reset_connection_reback_sender :: "connection \<Rightarrow> u64 \<times> connection" where
  "reset_connection_reback_sender con = status_reset (CNT_CONNECTION_TYPE + 2) con"

definition lock_connection_status_reflesh_rto_mutex :: "connection \<Rightarrow> u64 \<times> connection" where
  "lock_connection_status_reflesh_rto_mutex con = status_set (CNT_CONNECTION_TYPE + 3) con"

definition unlock_connection_status_reflesh_rto_mutex :: "connection \<Rightarrow> u64 \<times> connection" where
  "unlock_connection_status_reflesh_rto_mutex con = status_reset (CNT_CONNECTION_TYPE + 3) con"

definition set_connection_status_has_send_require :: "connection \<Rightarrow> u64 \<times> connection" where
  "set_connection_status_has_send_require con = status_set (CNT_CONNECTION_TYPE + 4) con"

definition set_connection_status_has_sack :: "connection \<Rightarrow> u64 \<times> connection" where
  "set_connection_status_has_sack con = status_set (CNT_CONNECTION_TYPE + 5) con"

definition reset_connection_status_has_sack :: "connection \<Rightarrow> u64 \<times> connection" where
  "reset_connection_status_has_sack con = status_reset (CNT_CONNECTION_TYPE + 5) con"

definition set_connection_status_has_time_out :: "connection \<Rightarrow> u64 \<times> connection" where
  "set_connection_status_has_time_out con = status_set (CNT_CONNECTION_TYPE + 6) con"

definition reset_connection_status_has_time_out :: "connection \<Rightarrow> u64 \<times> connection" where
  "reset_connection_status_has_time_out con = status_reset (CNT_CONNECTION_TYPE + 6) con"

definition lock_connection_status_ack_mutex :: "connection \<Rightarrow> u64 \<times> connection" where
  "lock_connection_status_ack_mutex con = status_set (CNT_CONNECTION_TYPE + 7) con"

definition unlock_connection_status_ack_mutex :: "connection \<Rightarrow> u64 \<times> connection" where
  "unlock_connection_status_ack_mutex con = status_reset (CNT_CONNECTION_TYPE + 7) con"

definition set_connection_status_in_process_sack :: "connection \<Rightarrow> u64 \<times> connection" where
  "set_connection_status_in_process_sack con = status_set (CNT_CONNECTION_TYPE + 8) con"

definition reset_connection_status_in_process_sack :: "connection \<Rightarrow> u64 \<times> connection" where
  "reset_connection_status_in_process_sack con = status_reset (CNT_CONNECTION_TYPE + 8) con"

definition test_connection_status_in_process_sack :: "connection \<Rightarrow> u64" where
  "test_connection_status_in_process_sack con = status_test (CNT_CONNECTION_TYPE + 8) con"

definition set_sack_has_new_ack :: "connection \<Rightarrow> u64 \<times> connection" where
  "set_sack_has_new_ack con = status_set (CNT_CONNECTION_TYPE + 9) con"

definition reset_sack_has_new_ack :: "connection \<Rightarrow> u64 \<times> connection" where
  "reset_sack_has_new_ack con = status_reset (CNT_CONNECTION_TYPE + 9) con"

definition set_reader_connection_status_recv_wait_ack_queue :: "connection \<Rightarrow> u64 \<times> connection" where
  "set_reader_connection_status_recv_wait_ack_queue con = status_set (CNT_CONNECTION_TYPE + 1) con"

definition reset_reader_connection_status_recv_wait_ack_queue :: "connection \<Rightarrow> u64 \<times> connection" where
  "reset_reader_connection_status_recv_wait_ack_queue con = status_reset (CNT_CONNECTION_TYPE + 1) con"

definition set_reader_connection_status_recv_succ_timer :: "connection \<Rightarrow> u64 \<times> connection" where
  "set_reader_connection_status_recv_succ_timer con = status_set (CNT_CONNECTION_TYPE + 2) con"

definition set_reader_connection_sack :: "connection \<Rightarrow> u64 \<times> connection" where
  "set_reader_connection_sack con = status_set (CNT_CONNECTION_TYPE + 3) con"

definition reset_reader_connection_sack :: "connection \<Rightarrow> u64 \<times> connection" where
  "reset_reader_connection_sack con = status_reset (CNT_CONNECTION_TYPE + 3) con"

definition test_reader_connection_sack :: "connection \<Rightarrow> bool" where
  "test_reader_connection_sack con \<longleftrightarrow> status_test (CNT_CONNECTION_TYPE + 3) con = 1"

lemmas status_macro_defs = set_connection_trans_succ_def test_connection_trans_succ_def
  set_connection_trans_suspend_def set_connection_force_stop_def test_connection_force_stop_def
  set_connection_type_reader_def test_connection_type_reader_def set_connection_type_writer_def
  test_connection_type_writer_def set_connection_in_sender_def reset_connection_in_sender_def
  set_connection_reback_sender_def reset_connection_reback_sender_def
  lock_connection_status_reflesh_rto_mutex_def unlock_connection_status_reflesh_rto_mutex_def
  set_connection_status_has_send_require_def set_connection_status_has_sack_def
  reset_connection_status_has_sack_def set_connection_status_has_time_out_def
  reset_connection_status_has_time_out_def lock_connection_status_ack_mutex_def
  unlock_connection_status_ack_mutex_def set_connection_status_in_process_sack_def
  reset_connection_status_in_process_sack_def test_connection_status_in_process_sack_def
  set_sack_has_new_ack_def reset_sack_has_new_ack_def
  set_reader_connection_status_recv_wait_ack_queue_def
  reset_reader_connection_status_recv_wait_ack_queue_def
  set_reader_connection_status_recv_succ_timer_def set_reader_connection_sack_def
  reset_reader_connection_sack_def test_reader_connection_sack_def

end
