(* ===== verification/Connection_Macros.thy ===== *)
theory Connection_Macros
  imports Connection_State
begin

unbundle bit_operations_syntax

text \<open>
  The computing macros of \<open>connection/HDS_UDP_Connection.h\<close> on one connection: the monotone
  update of the left window cursor, the retransmission timeout estimator and the extraction of
  the next packet's payload from the send buffer or from the linked message nodes.
\<close>

section \<open>Left window cursor\<close>

text \<open>The exchange loop: keep swapping the larger value back in until the value taken out is not
  larger.  Values are compared as \<open>long\<close>.\<close>

function lwc_loop :: "u64 \<Rightarrow> u64 \<Rightarrow> u64 \<times> u64" where
  "lwc_loop cell olseq =
     (let lseq = olseq; (olseq', cell') = AtomicExchange cell lseq
      in if lseq <s olseq' then lwc_loop cell' olseq' else (lseq, cell'))"
  by pat_completeness auto
termination
  by (relation "measure (\<lambda>(cell, olseq). if olseq <s cell then 1 else 0)")
     (auto simp: AtomicExchange_def word_sless_alt)

declare lwc_loop.simps [simp del]

definition set_connection_left_window_cursor :: "connection \<Rightarrow> u32 \<Rightarrow> int \<times> connection" where
  "set_connection_left_window_cursor con seq =
     (let base_seq = ucast seq; (lseq, cell) = lwc_loop (left_window_cursor con) (ucast seq)
      in (if lseq \<le>s base_seq then 0 else - 1, con\<lparr>left_window_cursor := cell\<rparr>))"

lemma lwc_loop_eq:
  "lwc_loop cell s = (if s <s cell then (cell, cell) else (s, s))"
proof (cases "s <s cell")
  case True
  then have "\<not> cell <s s" by (simp add: word_sless_alt)
  with True show ?thesis
    by (subst lwc_loop.simps, subst lwc_loop.simps) (simp add: AtomicExchange_def)
qed (subst lwc_loop.simps, simp add: AtomicExchange_def)

lemma set_lwc_eq:
  "set_connection_left_window_cursor con seq =
     (if ucast seq <s left_window_cursor con then (- 1, con)
      else (0, con\<lparr>left_window_cursor := ucast seq\<rparr>))"
  by (auto simp: set_connection_left_window_cursor_def lwc_loop_eq Let_def word_sless_alt word_sle_eq)

section \<open>Retransmission timeout\<close>

text \<open>\<open>rto_diff(x,y)\<close> expands without parentheses of its own, so in
  \<open>(3*_RTTVAR +rto_diff(_SRTT,RTT))>>2\<close> the sum is the left operand of the comparison.\<close>

definition rttvar_update :: "u64 \<Rightarrow> u64 \<Rightarrow> u64 \<Rightarrow> u64" where
  "rttvar_update rttvar srtt rtt =
     signed_drop_bit 2 (if rtt <s 3 * rttvar + srtt then srtt - rtt else rtt - srtt)"

definition rto_clamp :: "u64 \<Rightarrow> u64" where
  "rto_clamp r =
     (let r = (if r <s HDS_UDP_CONNECTION_MIN_RTO then HDS_UDP_CONNECTION_MIN_RTO else r)
      in if HDS_UDP_CONNECTION_MAX_RTO <s r then HDS_UDP_CONNECTION_MAX_RTO else r)"

definition set_connection_RTO :: "timeval \<Rightarrow> u32 \<Rightarrow> connection \<Rightarrow> connection" where
  "set_connection_RTO tv send_time con =
     (let (r, con) = lock_connection_status_reflesh_rto_mutex con in
      if r = 0 then
        let RTT = scast (connection_clock tv - send_time) :: u64;
            con = (if 0 <s RTT then
                     let con = (if SRTT con = 0
                           then con\<lparr>SRTT := RTT, RTTVAR := signed_drop_bit 1 RTT\<rparr>
                           else con\<lparr>RTTVAR := rttvar_update (RTTVAR con) (SRTT con) RTT,
                             SRTT := signed_drop_bit 3 (7 * SRTT con + RTT)\<rparr>)
                     in con\<lparr>RTO := rto_clamp (SRTT con + push_bit 2 (RTTVAR con))\<rparr>
                   else con)
        in snd (unlock_connection_status_reflesh_rto_mutex con)
      else con)"

definition set_connection_RTO_Double :: "connection \<Rightarrow> connection" where
  "set_connection_RTO_Double con =
     (let (r, con) = lock_connection_status_reflesh_rto_mutex con in
      if r = 0 then
        let con = con\<lparr>RTO := push_bit 1 (RTO con)\<rparr>;
            con = (if HDS_UDP_CONNECTION_MAX_RTO <s RTO con
                   then con\<lparr>RTO := HDS_UDP_CONNECTION_MAX_RTO\<rparr> else con)
        in snd (unlock_connection_status_reflesh_rto_mutex con)
      else con)"

section \<open>Payload of a packet\<close>

definition read_mem :: "u8 list \<Rightarrow> nat \<Rightarrow> nat \<Rightarrow> u8 list option" where
  "read_mem buf off len = (if off + len \<le> length buf then Some (take len (drop off buf)) else None)"

text \<open>First loop over the nodes: the node and the offset in it at which the payload starts.\<close>

fun seek_node :: "int \<Rightarrow> message_node list \<Rightarrow> (nat \<times> message_node list) option" where
  "seek_node offset [] = Some (0, [])"
| "seek_node offset (n # ns) =
     (let offset' = offset - uint (source_data_length n) in
      if offset' < 0 then Some (nat (uint (source_data_length n) + offset'), n # ns)
      else if offset' = 0 then (if ns = [] then None else Some (0, ns))
      else seek_node offset' ns)"

text \<open>Second loop: copy from node to node.\<close>

fun copy_nodes :: "HDS_WriteCDR \<Rightarrow> u32 \<Rightarrow> nat \<Rightarrow> message_node list \<Rightarrow> HDS_WriteCDR option" where
  "copy_nodes cdr copy_size start [] = Some cdr"
| "copy_nodes cdr copy_size start (n # ns) =
     (let tempsz = source_data_length n - of_nat start in
      if copy_size \<le> tempsz then do {
        bs \<leftarrow> read_mem (source_data n) start (unat copy_size);
        write_char_array cdr bs }
      else do {
        bs \<leftarrow> read_mem (source_data n) start (unat tempsz);
        cdr \<leftarrow> write_char_array cdr bs;
        if ns = [] then None else copy_nodes cdr (copy_size - tempsz) 0 ns })"

definition CONNECTION_FILL_DATA :: "HDS_WriteCDR \<Rightarrow> u32 \<Rightarrow> connection \<Rightarrow> HDS_WriteCDR option" where
  "CONNECTION_FILL_DATA cdr seq writer =
     (let copy_size = transmit_buf_length writer - seq;
          copy_size = (if HDS_UDP_PACKET_MAX_DATA_LENGTH < copy_size
                       then HDS_UDP_PACKET_MAX_DATA_LENGTH else copy_size)
      in case transmit_buf writer of
           Some buf \<Rightarrow> do {
             bs \<leftarrow> read_mem buf (unat seq) (unat copy_size);
             write_char_array cdr bs }
         | None \<Rightarrow> do {
             (start, ns) \<leftarrow> seek_node (uint seq) (trans_message_node writer);
             copy_nodes cdr copy_size start ns })"

section \<open>Laws of the payload\<close>

definition node_wf :: "message_node \<Rightarrow> bool" where
  "node_wf n \<longleftrightarrow> length (source_data n) = unat (source_data_length n)"

definition nodes_data :: "message_node list \<Rightarrow> u8 list" where
  "nodes_data ns = concat (map source_data ns)"

text \<open>The bytes a writer is to transmit.\<close>

definition writer_data :: "connection \<Rightarrow> u8 list" where
  "writer_data c = (case transmit_buf c of Some buf \<Rightarrow> buf | None \<Rightarrow> nodes_data (trans_message_node c))"

definition writer_wf :: "connection \<Rightarrow> bool" where
  "writer_wf c \<longleftrightarrow> length (writer_data c) = unat (transmit_buf_length c) \<and>
     (\<forall>n \<in> set (trans_message_node c). node_wf n)"

lemma seek_node_spec:
  assumes "\<forall>n \<in> set ns. node_wf n" "0 \<le> off" "nat off < length (nodes_data ns)"
  shows "\<exists>start ns'. seek_node off ns = Some (start, ns') \<and> ns' \<noteq> [] \<and> set ns' \<subseteq> set ns \<and>
    start \<le> length (source_data (hd ns')) \<and>
    drop start (nodes_data ns') = drop (nat off) (nodes_data ns)"
  using assms
proof (induction ns arbitrary: off)
  case Nil
  then show ?case by (simp add: nodes_data_def)
next
  case (Cons n ns)
  have len: "length (source_data n) = nat (uint (source_data_length n))"
    using Cons.prems by (simp add: node_wf_def)
  let ?o = "off - uint (source_data_length n)"
  have data: "nodes_data (n # ns) = source_data n @ nodes_data ns" by (simp add: nodes_data_def)
  consider "?o < 0" | "?o = 0" | "0 < ?o" by linarith
  then show ?case
  proof cases
    case 1
    then have "seek_node off (n # ns) = Some (nat off, n # ns)" by simp
    moreover have "nat off \<le> length (source_data n)" using 1 len by linarith
    ultimately show ?thesis by auto
  next
    case 2
    then have "nat off = length (source_data n)" using len by simp
    moreover from this have "ns \<noteq> []" using Cons.prems(3) by (auto simp: nodes_data_def)
    ultimately show ?thesis using 2 by (auto simp: data)
  next
    case 3
    have "0 \<le> uint (source_data_length n)" by simp
    then have off: "nat off = length (source_data n) + nat ?o"
      using 3 len unfolding len by (simp add: nat_add_distrib [symmetric] del: nat_uint_eq)
    then have "nat ?o < length (nodes_data ns)" using Cons.prems(3) by (simp add: data)
    then obtain start ns' where "seek_node ?o ns = Some (start, ns')" "ns' \<noteq> []" "set ns' \<subseteq> set ns"
      "start \<le> length (source_data (hd ns'))"
      "drop start (nodes_data ns') = drop (nat ?o) (nodes_data ns)"
      using Cons.IH [of ?o] Cons.prems(1) 3 by auto
    moreover have "seek_node off (n # ns) = seek_node ?o ns" using 3 by simp
    ultimately show ?thesis using off by (auto simp: data)
  qed
qed

lemma copy_nodes_spec:
  assumes "\<forall>n \<in> set ns. node_wf n" "ns \<noteq> []" "start \<le> length (source_data (hd ns))"
    and "unat sz \<le> length (drop start (nodes_data ns))"
    and "w_pos cdr + unat sz \<le> length (w_data cdr)"
  shows "\<exists>cdr'. copy_nodes cdr sz start ns = Some cdr' \<and>
    written cdr' = written cdr @ take (unat sz) (drop start (nodes_data ns)) \<and>
    w_pos cdr' = w_pos cdr + unat sz \<and> length (w_data cdr') = length (w_data cdr)"
  using assms
proof (induction ns arbitrary: cdr sz start)
  case Nil
  then show ?case by simp
next
  case (Cons n ns)
  have start: "start \<le> length (source_data n)" using Cons.prems by simp
  have len: "length (source_data n) = unat (source_data_length n)"
    using Cons.prems(1) by (simp add: node_wf_def)
  let ?t = "source_data_length n - of_nat start"
  have t: "unat ?t = length (source_data n) - start"
    using start len by (simp add: unat_diff_of_nat)
  have data: "drop start (nodes_data (n # ns)) = drop start (source_data n) @ nodes_data ns"
    using start by (simp add: nodes_data_def)
  show ?case
  proof (cases "sz \<le> ?t")
    case True
    then have le: "unat sz \<le> length (source_data n) - start" using t by (simp add: word_le_nat_alt)
    then have r: "read_mem (source_data n) start (unat sz) = Some (take (unat sz) (drop start (source_data n)))"
      using start by (auto simp: read_mem_def)
    have l: "length (take (unat sz) (drop start (source_data n))) = unat sz" using le by simp
    from write_char_array_total [of cdr "take (unat sz) (drop start (source_data n))"] l Cons.prems(5)
    obtain cdr' where c: "write_char_array cdr (take (unat sz) (drop start (source_data n))) = Some cdr'"
      by auto
    show ?thesis
      using True r c write_char_array_Some [OF c] l le by (auto simp: data)
  next
    case False
    then have gt: "length (source_data n) - start < unat sz" using t by (simp add: word_le_nat_alt)
    have r: "read_mem (source_data n) start (unat ?t) = Some (drop start (source_data n))"
      using start t by (auto simp: read_mem_def)
    from write_char_array_total [of cdr "drop start (source_data n)"] gt Cons.prems(5)
    obtain c1 where c1: "write_char_array cdr (drop start (source_data n)) = Some c1" by auto
    note w1 = write_char_array_Some [OF c1]
    have ne: "ns \<noteq> []"
      using Cons.prems(4) gt by (auto simp: nodes_data_def)
    have s2: "unat (sz - ?t) = unat sz - (length (source_data n) - start)"
      using gt t by (simp add: unat_sub word_le_nat_alt)
    have "\<exists>cdr'. copy_nodes c1 (sz - ?t) 0 ns = Some cdr' \<and>
      written cdr' = written c1 @ take (unat (sz - ?t)) (drop 0 (nodes_data ns)) \<and>
      w_pos cdr' = w_pos c1 + unat (sz - ?t) \<and> length (w_data cdr') = length (w_data c1)"
    proof (rule Cons.IH)
      show "\<forall>n\<in>set ns. node_wf n" "ns \<noteq> []" using Cons.prems ne by auto
      show "unat (sz - ?t) \<le> length (drop 0 (nodes_data ns))"
        using Cons.prems(4) s2 unfolding data by simp
      show "w_pos c1 + unat (sz - ?t) \<le> length (w_data c1)" using Cons.prems(5) w1 s2 gt by simp
    qed simp
    then show ?thesis
      using False r c1 w1 s2 gt ne by (auto simp: data)
  qed
qed

text \<open>The payload of the packet at \<open>seq\<close>: at most one packet's worth of the data from there.\<close>

definition chunk :: "u8 list \<Rightarrow> nat \<Rightarrow> u8 list" where
  "chunk D seq = take HDS_UDP_PACKET_MAX_DATA_LENGTH (drop seq D)"

lemma fill_data_spec:
  assumes "writer_wf c" "unat seq < unat (transmit_buf_length c)"
    and "w_pos cdr + HDS_UDP_PACKET_MAX_DATA_LENGTH \<le> length (w_data cdr)"
  shows "\<exists>cdr'. CONNECTION_FILL_DATA cdr seq c = Some cdr' \<and>
    written cdr' = written cdr @ chunk (writer_data c) (unat seq) \<and>
    w_pos cdr' = w_pos cdr + length (chunk (writer_data c) (unat seq)) \<and>
    length (w_data cdr') = length (w_data cdr)"
proof -
  let ?d = "transmit_buf_length c - seq"
  define sz where "sz = (if 1452 < ?d then 1452 else ?d)"
  have len: "length (writer_data c) = unat (transmit_buf_length c)" using assms(1) by (simp add: writer_wf_def)
  have d: "unat ?d = unat (transmit_buf_length c) - unat seq"
    using assms(2) by (simp add: unat_sub word_le_nat_alt)
  have s: "unat sz = min 1452 (unat (transmit_buf_length c) - unat seq)"
    using d by (auto simp: sz_def word_less_nat_alt min_def)
  have chunk: "chunk (writer_data c) (unat seq) = take (unat sz) (drop (unat seq) (writer_data c))"
    unfolding chunk_def s using len by (simp add: min_def)
  have fit: "w_pos cdr + unat sz \<le> length (w_data cdr)" using assms(3) s by simp
  show ?thesis
  proof (cases "transmit_buf c")
    case (Some buf)
    then have b: "writer_data c = buf" by (simp add: writer_data_def)
    let ?bs = "take (unat sz) (drop (unat seq) buf)"
    have lb: "length ?bs = unat sz" using len b s by simp
    from write_char_array_total [of cdr ?bs] lb fit obtain cdr' where
      c: "write_char_array cdr ?bs = Some cdr'" by auto
    have "read_mem buf (unat seq) (unat sz) = Some ?bs"
      using s len b assms(2) by (auto simp: read_mem_def)
    then show ?thesis
      using Some c write_char_array_Some [OF c] lb
      unfolding chunk unfolding b by (simp add: CONNECTION_FILL_DATA_def Let_def flip: sz_def)
  next
    case None
    then have nd: "writer_data c = nodes_data (trans_message_node c)" by (simp add: writer_data_def)
    have wf: "\<forall>n \<in> set (trans_message_node c). node_wf n" using assms(1) by (simp add: writer_wf_def)
    obtain start ns where sk: "seek_node (uint seq) (trans_message_node c) = Some (start, ns)"
      "ns \<noteq> []" "set ns \<subseteq> set (trans_message_node c)" "start \<le> length (source_data (hd ns))"
      "drop start (nodes_data ns) = drop (unat seq) (nodes_data (trans_message_node c))"
      using seek_node_spec [OF wf, of "uint seq"] assms(2) len nd by auto
    have "\<exists>cdr'. copy_nodes cdr sz start ns = Some cdr' \<and>
      written cdr' = written cdr @ take (unat sz) (drop start (nodes_data ns)) \<and>
      w_pos cdr' = w_pos cdr + unat sz \<and> length (w_data cdr') = length (w_data cdr)"
    proof (rule copy_nodes_spec)
      show "\<forall>n\<in>set ns. node_wf n" using wf sk(3) by blast
      show "unat sz \<le> length (drop start (nodes_data ns))" unfolding sk(5) using s len nd by simp
    qed (use sk fit in auto)
    then show ?thesis
      using None sk s len unfolding chunk unfolding nd by (auto simp: CONNECTION_FILL_DATA_def Let_def simp flip: sz_def)
  qed
qed


section \<open>Laws of the timeout estimator\<close>

lemma rto_clamp_bounds: "sint (rto_clamp r) \<in> {HDS_UDP_CONNECTION_MIN_RTO..HDS_UDP_CONNECTION_MAX_RTO}"
  by (auto simp: rto_clamp_def Let_def word_sless_alt)

lemma status_lock_fields [simp]:
  "RTO (snd (status_set n c)) = RTO c" "RTO (snd (status_reset n c)) = RTO c"
  by (simp_all add: status_set_def status_reset_def case_prod_beta)

lemma sint_push_bit_1:
  fixes r :: u64
  assumes "0 \<le> sint r" "sint r \<le> 8000"
  shows "sint (push_bit 1 r) = 2 * sint r"
proof -
  have "push_bit 1 r = r * 2" by (simp add: push_bit_eq_mult)
  moreover have "sint (r * 2) = sint r * 2" using assms by (subst sint_mult_small) auto
  ultimately show ?thesis by simp
qed

definition RTO_ok :: "connection \<Rightarrow> bool" where
  "RTO_ok c \<longleftrightarrow> HDS_UDP_CONNECTION_MIN_RTO \<le> sint (RTO c) \<and> sint (RTO c) \<le> HDS_UDP_CONNECTION_MAX_RTO"

lemma set_RTO_cases:
  "RTO (set_connection_RTO tv t c) = RTO c \<or> (\<exists>r. RTO (set_connection_RTO tv t c) = rto_clamp r)"
  by (simp add: set_connection_RTO_def status_macro_defs Let_def case_prod_beta) metis

lemma set_RTO_Double_value:
  assumes "RTO_ok c"
  shows "sint (RTO (set_connection_RTO_Double c)) =
    (if bit (status c) 6 then sint (RTO c) else min (2 * sint (RTO c)) HDS_UDP_CONNECTION_MAX_RTO)"
proof -
  have "sint (push_bit 1 (RTO c)) = 2 * sint (RTO c)"
    using assms by (intro sint_push_bit_1) (auto simp: RTO_ok_def)
  then show ?thesis
    by (simp add: set_connection_RTO_Double_def status_macro_defs status_set_def Let_def
        case_prod_beta word_sless_alt min_def)
qed

section \<open>Properties\<close>

text \<open>C17. The retransmission timeout stays between one and eight seconds: both updates keep it
  there, whatever the clock, the echoed send time and the smoothed values are; and unless the
  refresh lock is held, a retransmission doubles it up to the maximum.\<close>

theorem RTO_bounds:
  assumes "RTO_ok c"
  shows "RTO_ok (set_connection_RTO tv send_time c) \<and> RTO_ok (set_connection_RTO_Double c) \<and>
    (\<not> bit (status c) 6 \<longrightarrow>
      sint (RTO (set_connection_RTO_Double c)) = min (2 * sint (RTO c)) HDS_UDP_CONNECTION_MAX_RTO)"
  using assms set_RTO_cases [of tv send_time c] set_RTO_Double_value [OF assms] rto_clamp_bounds
  by (auto simp: RTO_ok_def)

theorem RTO_bounds_witness:
  "RTO_ok ((zeroed Simple_Writer)\<lparr>RTO := HDS_UDP_CONNECTION_DEFAULT_RTO\<rparr>) \<and>
   sint (RTO (set_connection_RTO_Double ((zeroed Simple_Writer)\<lparr>RTO := HDS_UDP_CONNECTION_DEFAULT_RTO\<rparr>))) = 6000"
proof -
  have r: "RTO_ok ((zeroed Simple_Writer)\<lparr>RTO := HDS_UDP_CONNECTION_DEFAULT_RTO\<rparr>)"
    by (simp add: RTO_ok_def zeroed_def)
  have "\<not> bit (status ((zeroed Simple_Writer)\<lparr>RTO := HDS_UDP_CONNECTION_DEFAULT_RTO\<rparr>)) 6"
    by (simp add: zeroed_def)
  with RTO_bounds [OF r] r show ?thesis by simp
qed

text \<open>The round-trip variance is not the mean deviation the comment above the macro describes: as
  \<open>rto_diff\<close> expands without parentheses, a sample above the smoothed time but below
  \<open>3*_RTTVAR + _SRTT\<close> makes the new variance negative, whatever the old one was.\<close>

theorem rttvar_negative:
  fixes rttvar srtt rtt :: u64
  assumes "0 \<le> sint srtt" "sint srtt < sint rtt" "sint rtt < 3 * sint rttvar + sint srtt"
    and "sint rtt < 2 ^ 32" "sint rttvar < 2 ^ 32"
  shows "sint (rttvar_update rttvar srtt rtt) = (sint srtt - sint rtt) div 4 \<and>
    sint (rttvar_update rttvar srtt rtt) < 0"
proof -
  have "sint (3 * rttvar) = 3 * sint rttvar" using assms by (subst sint_mult_small) auto
  moreover from this have "sint (3 * rttvar + srtt) = 3 * sint rttvar + sint srtt"
    using assms by (subst sint_plus_small) auto
  ultimately have "rttvar_update rttvar srtt rtt = signed_drop_bit 2 (srtt - rtt)"
    using assms by (simp add: rttvar_update_def word_sless_alt)
  moreover have "sint (srtt - rtt) = sint srtt - sint rtt"
    using assms by (subst sint_minus_small) auto
  ultimately show ?thesis
    using assms by (simp add: sint_signed_drop_bit_eq drop_bit_eq_div)
qed

theorem rttvar_negative_witness: "sint (rttvar_update 50 100 150) = - 13"
  using rttvar_negative [of 100 150 50] by simp

end
