(* ===== verification/Connection_Core.thy ===== *)
theory Connection_Core
  imports Connection_Macros
begin

unbundle bit_operations_syntax

text \<open>
  \<open>connection/HDS_UDP_Connection.cpp\<close>: the state of one host and the operations every
  connection shares.  Each operation takes the world and returns the world after it; \<open>None\<close> is
  undefined behaviour (a dereference of a null or released object, an access outside a buffer).
  An operation runs from its call to its return without interleaving.

  The function pointers \<open>_do_time_out\<close>, \<open>_do_network_data\<close> and \<open>_do_send\<close> that a connection
  object carries are looked up by its \<open>kind\<close> in a table \<open>ops\<close>, an argument of the dispatching
  operations.
\<close>

section \<open>The state of a host\<close>

abbreviation (input) HDS_BUFFER_POOL_MAX_CTL_SIZE :: "'a::numeral" where
  "HDS_BUFFER_POOL_MAX_CTL_SIZE \<equiv> 512"

datatype cid_slot = CID_NULL | CONNECTION_SUSPEND | CID_CON nat

datatype event =
    Send_Handler_Called nat "u8 list" u32 sockaddr "TRANS_RESULT_CODE option"
  | Recv_Failed_Called nat Result_Process_Data Connection_ID "TRANS_RESULT_CODE option"
  | Freed "u8 list"
  | Released_To_Pool "u8 list"
  | Released_Node message_node

record datagram =
  d_data :: "u8 list"
  d_addr :: sockaddr

type_synonym verification_func =
  "u8 list \<Rightarrow> int \<Rightarrow> u32 \<Rightarrow> Connection_ID \<Rightarrow> sockaddr \<Rightarrow> Recv_Verification_Attribute"

record world =
  heap :: "nat \<Rightarrow> connection option"
  next_addr :: nat
  cid_array :: "nat \<Rightarrow> cid_slot"
  cid_array_offset :: u64
  verification_actor :: u64
  complex_file_need_verification :: u64
  recv_verification_func :: "verification_func option"
  timers :: "(u64 \<times> timer_parm) list"
  send_queue :: "nat list"
  wait_ack :: "Connection_ID \<rightharpoonup> nat"
  processed :: "Result_Process_Data list"
  sent :: "datagram list"
  events :: "event list"
  type_count :: "conn_kind \<Rightarrow> u64"
  time_out_count :: u64
  complex_time_out_count :: u64
  now :: timeval
  oom :: bool
  map_oom :: bool
  garbage :: "nat \<Rightarrow> u8"

section \<open>Objects\<close>

text \<open>\<open>con\<rightarrow>op\<close>: run an operation on the object at an address.\<close>

definition at :: "nat \<Rightarrow> (connection \<Rightarrow> 'r \<times> connection) \<Rightarrow> world \<Rightarrow> ('r \<times> world) option" where
  "at a f w = (case heap w a of None \<Rightarrow> None
     | Some c \<Rightarrow> let (r, c') = f c in Some (r, w\<lparr>heap := (heap w)(a := Some c')\<rparr>))"

definition upd :: "nat \<Rightarrow> (connection \<Rightarrow> connection) \<Rightarrow> world \<Rightarrow> world option" where
  "upd a f w = (case heap w a of None \<Rightarrow> None
     | Some c \<Rightarrow> Some (w\<lparr>heap := (heap w)(a := Some (f c))\<rparr>))"

text \<open>\<open>malloc\<close> and \<open>construct\<close> of the four classes: an object from the pool, zeroed, with the
  function table of its class.  The complex writer presets its window.\<close>

definition construct :: "conn_kind \<Rightarrow> connection" where
  "construct k = (if k = Complex_Writer
     then (zeroed k)\<lparr>window_ssthresh := HDS_UDP_DEFAULT_SSTHRESH_SIZE,
       right_window_cursor := HDS_UDP_PACKET_MAX_DATA_LENGTH,
       window_site := HDS_UDP_PACKET_MAX_DATA_LENGTH,
       ack_seq_window_increase_factor := single_1\<rparr>
     else zeroed k)"

definition malloc_connection :: "conn_kind \<Rightarrow> world \<Rightarrow> (nat \<times> world) option" where
  "malloc_connection k w = (if oom w then None
     else Some (next_addr w, w\<lparr>heap := (heap w)(next_addr w := Some (construct k)),
            next_addr := next_addr w + 1\<rparr>))"

definition connection_free_memory :: "nat \<Rightarrow> world \<Rightarrow> world" where
  "connection_free_memory a w = w\<lparr>heap := (heap w)(a := None)\<rparr>"

definition increase_connection_type_count :: "conn_kind \<Rightarrow> world \<Rightarrow> world" where
  "increase_connection_type_count k w =
     w\<lparr>type_count := (type_count w)(k := snd (post_increment (type_count w k)))\<rparr>"

definition decrease_connection_type_count :: "conn_kind \<Rightarrow> world \<Rightarrow> world" where
  "decrease_connection_type_count k w =
     w\<lparr>type_count := (type_count w)(k := snd (post_decrement (type_count w k)))\<rparr>"

definition kernel_send :: "u8 list \<Rightarrow> nat \<Rightarrow> sockaddr \<Rightarrow> u32 \<Rightarrow> world \<Rightarrow> world" where
  "kernel_send buf len to tolen w =
     w\<lparr>sent := sent w @ [\<lparr>d_data = take len buf, d_addr = take (unat tolen) to\<rparr>]\<rparr>"

definition push_msg :: "Result_Process_Data \<Rightarrow> world \<Rightarrow> world" where
  "push_msg d w = w\<lparr>processed := processed w @ [d]\<rparr>"

definition log_event :: "event \<Rightarrow> world \<Rightarrow> world" where
  "log_event e w = w\<lparr>events := events w @ [e]\<rparr>"

definition get_buffer :: "nat \<Rightarrow> world \<Rightarrow> u8 list option" where
  "get_buffer sz w = (if oom w then None else Some (map (garbage w) [0..<sz]))"

section \<open>Connection identifiers\<close>

text \<open>\<open>create_connectionID\<close>: the loop body returns on its first pass, whether the slot was free
  or not.\<close>

definition create_connectionID :: "nat \<Rightarrow> world \<Rightarrow> (int \<times> world) option" where
  "create_connectionID con w =
     (let (offset, o1) = post_increment (cid_array_offset w);
          (_, o2) = CompareExchange o1 1 HDS_UDP_MAX_CONNECTION_COUNT;
          w = w\<lparr>cid_array_offset := o2\<rparr>;
          (old, slot) = CompareExchange (cid_array w (unat offset)) (CID_CON con) CID_NULL
      in if HDS_UDP_MAX_CONNECTION_COUNT \<le> offset then None
         else if old \<noteq> CID_NULL then Some (- 1, w)
         else
           let w = w\<lparr>cid_array := (cid_array w)(unat offset := slot)\<rparr>;
               (ver_value, v') = post_increment (verification_actor w);
               w = w\<lparr>verification_actor := v'\<rparr>;
               id0 = ucast offset + push_bit HDS_UDP_CONNECTION_MARK_BITS (ucast (ver_value AND 0xfff))
           in do {
             w \<leftarrow> upd con (\<lambda>c. c\<lparr>connection_ID := CID id0 (ID32_1 (connection_ID c))\<rparr>) w;
             Some (0, w) })"

definition create_connectionID_label :: "nat \<Rightarrow> world \<Rightarrow> world option" where
  "create_connectionID_label con w =
     upd con (\<lambda>c. c\<lparr>connection_ID := CID (ID32_0 (connection_ID c))
        (ucast ((signed_drop_bit 10 (tv_usec (now w)) AND 0x3ff) OR (tv_sec (now w) AND 0xfffffc00)))\<rparr>) w"

definition suspend_connection_ID :: "Connection_ID \<Rightarrow> world \<Rightarrow> world" where
  "suspend_connection_ID cid w =
     w\<lparr>cid_array := (cid_array w)(get_connection_offset cid := CONNECTION_SUSPEND)\<rparr>"

definition release_connection_ID :: "Connection_ID \<Rightarrow> world \<Rightarrow> world" where
  "release_connection_ID cid w =
     w\<lparr>cid_array := (cid_array w)(get_connection_offset cid := CID_NULL)\<rparr>"

definition connection_init :: "world \<Rightarrow> world" where
  "connection_init w =
     w\<lparr>cid_array_offset := tv_usec (now w) mod HDS_UDP_MAX_CONNECTION_COUNT,
       verification_actor := tv_sec (now w)\<rparr>"

definition get_connection :: "nat \<Rightarrow> world \<Rightarrow> nat option" where
  "get_connection offset w = (case cid_array w offset of CID_CON a \<Rightarrow> Some a | _ \<Rightarrow> None)"

section \<open>Timers, sender queue, releasing\<close>

definition add_to_timer_queue ::
  "nat \<Rightarrow> u64 \<Rightarrow> Connection_Timer_Type \<Rightarrow> nat option \<Rightarrow> world \<Rightarrow> world option" where
  "add_to_timer_queue con DueTime timer_type ex_data w = do {
     c \<leftarrow> heap w con;
     if oom w then Some w
     else Some (w\<lparr>timers := timers w @ [(DueTime,
       \<lparr>tp_running_count = running_count c, tp_timeout_type = timer_type,
        tp_connection_offset = get_connection_offset (connection_ID c),
        tp_connection_addr = con, tp_extend_data = ex_data\<rparr>)]\<rparr>) }"

definition add_to_sender_queue :: "nat \<Rightarrow> world \<Rightarrow> world option" where
  "add_to_sender_queue con w = do {
     (r, w) \<leftarrow> at con set_connection_in_sender w;
     if r = 0 then do {
       c \<leftarrow> heap w con;
       Some (w\<lparr>send_queue := send_queue w @ [get_connection_offset (connection_ID c)]\<rparr>) }
     else do { (_, w) \<leftarrow> at con set_connection_reback_sender w; Some w } }"

text \<open>\<open>Recv_Wait_Ack_Queue\<close>: the map from identifiers to slots (\<open>insert\<close> fails on a key that is
  there, and when the pool of the map has no memory; the result is not looked at).\<close>

definition wait_ack_insert :: "Connection_ID \<Rightarrow> nat \<Rightarrow> world \<Rightarrow> world" where
  "wait_ack_insert cid offset w =
     (if \<not> map_oom w \<and> wait_ack w cid = None then w\<lparr>wait_ack := (wait_ack w)(cid \<mapsto> offset)\<rparr> else w)"

definition wait_ack_erase :: "Connection_ID \<Rightarrow> world \<Rightarrow> world" where
  "wait_ack_erase cid w = w\<lparr>wait_ack := (wait_ack w)(cid := None)\<rparr>"

text \<open>\<open>((Connection_Reader*)con)\<rightarrow>_require_duplicate_label\<close>: for a writer this reads whatever the writer has at that
  place.\<close>

definition reader_label :: "world \<Rightarrow> connection \<Rightarrow> u32" where
  "reader_label w c = (if kind c = Simple_Reader \<or> kind c = Complex_Reader then require_duplicate_label c
     else le_word32 (map (garbage w) [0..<4]))"

text \<open>The macro \<open>__set_connection_out_recv_wait_ack_queue\<close> writes the label into the identifier it
  is given and erases that key; the identifier after it is returned.\<close>

definition set_connection_out_recv_wait_ack_queue ::
  "nat \<Rightarrow> Connection_ID \<Rightarrow> world \<Rightarrow> (Connection_ID \<times> world) option" where
  "set_connection_out_recv_wait_ack_queue con conID w = do {
     (r, w) \<leftarrow> at con reset_reader_connection_status_recv_wait_ack_queue w;
     if r = 1 then do {
       c \<leftarrow> heap w con;
       let conID = CID (reader_label w c) (ID32_1 conID);
       Some (conID, wait_ack_erase conID w) }
     else Some (conID, w) }"

definition free_connetcion :: "nat \<Rightarrow> world \<Rightarrow> world option" where
  "free_connetcion con w = do {
     c \<leftarrow> heap w con;
     w \<leftarrow> (if test_connection_type_reader c then do {
            (cid, w) \<leftarrow> set_connection_out_recv_wait_ack_queue con (connection_ID c) w;
            upd con (\<lambda>c. c\<lparr>connection_ID := cid\<rparr>) w }
          else Some w);
     Some (decrease_connection_type_count (kind c) (connection_free_memory con w)) }"

section \<open>Starting to send\<close>

definition start_sender_impl ::
  "message_node list \<Rightarrow> u8 list option \<Rightarrow> u32 \<Rightarrow> sockaddr \<Rightarrow> u32 \<Rightarrow> SENDED_DEL_TYPE \<Rightarrow> nat option \<Rightarrow>
   u64 \<Rightarrow> u64 \<Rightarrow> world \<Rightarrow> ((nat \<times> Connection_ID) option \<times> world) option" where
  "start_sender_impl node block block_length addr addr_length dtype handler defaultSSTHRESH
     maxWindowSize w =
     (let small = block_length \<le> SMALL_FILE_MAX_SIZE;
          k = (if small then Simple_Writer else Complex_Writer)
      in case malloc_connection k w of
        None \<Rightarrow> Some (None, w)
      | Some (con, w) \<Rightarrow> do {
          w \<leftarrow> (if small then Some w
               else upd con (\<lambda>c. c\<lparr>default_window_size := maxWindowSize,
                                   window_ssthresh := defaultSSTHRESH\<rparr>) w);
          (r, w) \<leftarrow> create_connectionID con w;
          if r = - 1 then Some (None, connection_free_memory con w)
          else do {
            let w = increase_connection_type_count k w;
            c \<leftarrow> heap w con;
            let reConID = connection_ID c;
            w \<leftarrow> create_connectionID_label con w;
            w \<leftarrow> upd con (\<lambda>c. c\<lparr>RTO := HDS_UDP_CONNECTION_DEFAULT_RTO, sended_handle := handler,
              del_type := dtype, trans_message_node := node, transmit_buf := block,
              transmit_buf_length := block_length, remote_addr := addr,
              remote_addr_length := addr_length\<rparr>) w;
            (_, w) \<leftarrow> at con set_connection_type_writer w;
            Some (Some (con, reConID), w) } })"

definition start_sender ::
  "message_node list \<Rightarrow> u8 list option \<Rightarrow> u32 \<Rightarrow> sockaddr \<Rightarrow> u32 \<Rightarrow> SENDED_DEL_TYPE \<Rightarrow> nat option \<Rightarrow>
   u64 \<Rightarrow> u64 \<Rightarrow> world \<Rightarrow> (Connection_ID option \<times> world) option" where
  "start_sender node block block_length addr addr_length dtype handler defaultSSTHRESH
     maxWindowSize w = do {
     (res, w) \<leftarrow> start_sender_impl node block block_length addr addr_length dtype handler
       defaultSSTHRESH maxWindowSize w;
     case res of
       None \<Rightarrow> Some (None, w)
     | Some (_, conID) \<Rightarrow>
         (case cid_array w (get_connection_offset conID) of
            CID_CON writer \<Rightarrow> do { w \<leftarrow> add_to_sender_queue writer w; Some (Some conID, w) }
          | _ \<Rightarrow> None) }"

text \<open>\<open>start_link_send\<close> copies the caller's nodes into pool nodes and adds up their lengths (in
  32 bits); with no node it dereferences the null \<open>xnode\<close>.\<close>

fun link_total :: "message_node list \<Rightarrow> u32" where
  "link_total [] = 0"
| "link_total (n # ns) = source_data_length n + link_total ns"

definition start_link_send ::
  "message_node list \<Rightarrow> sockaddr \<Rightarrow> u32 \<Rightarrow> u64 \<Rightarrow> u64 \<Rightarrow> world \<Rightarrow> (Connection_ID option \<times> world) option" where
  "start_link_send msg_node addr addr_length defaultSSTHRESH maxWindowSize w =
     (if msg_node = [] then None
      else if oom w then Some (None, w)
      else start_sender msg_node None (link_total msg_node) addr addr_length DELETE_AFTER_SEND None
        defaultSSTHRESH maxWindowSize w)"

section \<open>Cleaning up\<close>

fun node_callbacks :: "connection \<Rightarrow> message_node list \<Rightarrow> world \<Rightarrow> world" where
  "node_callbacks c [] w = w"
| "node_callbacks c (n # ns) w =
     (let w = (case send_handle n of None \<Rightarrow> w
               | Some h \<Rightarrow> log_event (Send_Handler_Called h (source_data n) (source_data_length n)
                   (remote_addr c) (trans_result_code c)) w);
          w = (if node_del_type n = DELETE_AFTER_SEND then log_event (Freed (source_data n)) w else w)
      in node_callbacks c ns w)"

fun release_nodes :: "message_node list \<Rightarrow> world \<Rightarrow> world" where
  "release_nodes [] w = w"
| "release_nodes (n # ns) w = release_nodes ns (log_event (Released_Node n) w)"

definition writer_do_connection_sended_handle_and_clean_data :: "nat \<Rightarrow> world \<Rightarrow> world option" where
  "writer_do_connection_sended_handle_and_clean_data con w = do {
     c \<leftarrow> heap w con;
     if trans_message_node c \<noteq> [] then
       upd con (\<lambda>c. c\<lparr>trans_message_node := []\<rparr>)
         (release_nodes (trans_message_node c) (node_callbacks c (trans_message_node c) w))
     else (case sended_handle c of
         None \<Rightarrow> Some w
       | Some h \<Rightarrow>
           let buf = (case transmit_buf c of None \<Rightarrow> [] | Some b \<Rightarrow> b);
               w = log_event (Send_Handler_Called h buf (transmit_buf_length c) (remote_addr c)
                     (trans_result_code c)) w
           in Some (if del_type c = DELETE_AFTER_SEND then log_event (Freed buf) w else w)) }"

text \<open>In the \<open>switch\<close> the \<open>POOL_SPACE\<close> case has no \<open>break\<close>: the buffer goes to the pool and is
  then freed as well.\<close>

definition reader_do_connection_sended_handle_and_clean_data :: "nat \<Rightarrow> world \<Rightarrow> world option" where
  "reader_do_connection_sended_handle_and_clean_data con w = do {
     c \<leftarrow> heap w con;
     if trans_result_code c \<noteq> Some TRANS_SUCCESSFULLY then
       let buf = (case transmit_buf c of None \<Rightarrow> [] | Some b \<Rightarrow> b);
           pd = \<lparr>rp_remote_addr = remote_addr c, rp_remote_addr_length = remote_addr_length c,
                 rp_data_length = transmit_buf_length c, rp_buf_type = recv_buf_type c, rp_data = buf\<rparr>;
           w = (case recv_failed_handle c of None \<Rightarrow> w
                | Some h \<Rightarrow> log_event (Recv_Failed_Called h pd (connection_ID c) (trans_result_code c)) w)
       in Some (case recv_buf_type c of
            Some POOL_SPACE \<Rightarrow> log_event (Freed buf) (log_event (Released_To_Pool buf) w)
          | Some MALLOC_SPACE_DEL \<Rightarrow> log_event (Freed buf) w
          | Some USER_SPACE_DEL \<Rightarrow> log_event (Freed buf) w
          | _ \<Rightarrow> w)
     else Some w }"

text \<open>The common end of a connection that its handlers share: mark it and hand it to the suspend
  timer, once.\<close>

definition suspend_once :: "nat \<Rightarrow> world \<Rightarrow> world option" where
  "suspend_once con w = do {
     (r, w) \<leftarrow> at con set_connection_trans_suspend w;
     if r = 0 then do {
       c \<leftarrow> heap w con;
       add_to_timer_queue con HDS_UDP_CONNECTION_MAX_SUSPEND_TIME Connection_Suspend_Timer (Some con)
         (suspend_connection_ID (connection_ID c) w) }
     else Some w }"

section \<open>Dispatch\<close>

record conn_ops =
  do_time_out :: "nat \<Rightarrow> Connection_Timer_Type \<Rightarrow> u64 \<Rightarrow> nat option \<Rightarrow> world \<Rightarrow> world option"
  do_network_data :: "nat \<Rightarrow> MsgType \<Rightarrow> u32 \<Rightarrow> u32 \<Rightarrow> u8 list \<Rightarrow> int \<Rightarrow> Kernel_Recv_Data \<Rightarrow> world \<Rightarrow> world option"
  do_send :: "nat \<Rightarrow> u8 list \<Rightarrow> world \<Rightarrow> world option"

type_synonym ops_table = "conn_kind \<Rightarrow> conn_ops"

definition connection_do_time_out :: "ops_table \<Rightarrow> timer_parm \<Rightarrow> world \<Rightarrow> world option" where
  "connection_do_time_out ops parm w =
     (case cid_array w (tp_connection_offset parm) of
        CID_NULL \<Rightarrow> Some w
      | slot \<Rightarrow> do {
          let con = (case slot of CID_CON a \<Rightarrow> a | _ \<Rightarrow> tp_connection_addr parm);
          c \<leftarrow> heap w con;
          do_time_out (ops (kind c)) con (tp_timeout_type parm) (tp_running_count parm)
            (tp_extend_data parm) w })"

definition connection_do_sender :: "ops_table \<Rightarrow> nat \<Rightarrow> u8 list \<Rightarrow> world \<Rightarrow> world option" where
  "connection_do_sender ops offset sender_buf w =
     (case cid_array w offset of
        CID_CON con \<Rightarrow> do {
          (_, w) \<leftarrow> at con reset_connection_reback_sender w;
          c \<leftarrow> heap w con;
          w \<leftarrow> do_send (ops (kind c)) con sender_buf w;
          (_, w) \<leftarrow> at con reset_connection_in_sender w;
          (r, w) \<leftarrow> at con reset_connection_reback_sender w;
          if r = 1 then add_to_sender_queue con w else Some w }
      | _ \<Rightarrow> Some w)"

section \<open>Starting to receive\<close>

text \<open>The reply to a datagram is written over the header of the receive buffer.\<close>

definition reply_header ::
  "MsgType \<Rightarrow> Connection_ID \<Rightarrow> u32 \<Rightarrow> u32 \<Rightarrow> Kernel_Recv_Data \<Rightarrow> sockaddr \<Rightarrow> u32 \<Rightarrow> world \<Rightarrow> world option" where
  "reply_header msgtype conID send_time dt_note rdata addr addr_length w = do {
     cdr \<leftarrow> CONNECTION_FILL_HEADER msgtype conID send_time dt_note (WriteCDR_new (k_data rdata));
     Some (kernel_send (w_data cdr) (WriteCDR_length cdr) addr addr_length w) }"

definition recv_reject ::
  "MsgType \<Rightarrow> nat \<Rightarrow> u32 \<Rightarrow> Kernel_Recv_Data \<Rightarrow> world \<Rightarrow> world option" where
  "recv_reject require_type con send_time rdata w = do {
     c \<leftarrow> heap w con;
     let con_ID = connection_ID c;
     let w = release_connection_ID con_ID w;
     let send_msg_type = (if require_type = HDS_UDP_TRANS_SIMPLE_FILE_REQUIRE
            then HDS_UDP_TRANS_SIMPLE_FILE_REJECTED else HDS_UDP_TRANS_COMPLEX_FILE_REJECTED);
     let w = decrease_connection_type_count (kind c) (connection_free_memory con w);
     reply_header send_msg_type con_ID send_time send_time rdata (k_remote_addr rdata)
       (k_remote_addr_length rdata) w }"

text \<open>The verification callback may refuse the transfer (\<open>None\<close>) or name a buffer.\<close>

definition apply_verification ::
  "nat \<Rightarrow> header_fields \<Rightarrow> Kernel_Recv_Data \<Rightarrow> world \<Rightarrow> (bool \<times> world) option" where
  "apply_verification con h rdata w =
     (case recv_verification_func w of
        None \<Rightarrow> Some (True, w)
      | Some f \<Rightarrow> do {
          c \<leftarrow> heap w con;
          let atti = f (h_recv_data h) (h_recv_data_length h) (transmit_buf_length c)
                 (connection_ID c) (k_remote_addr rdata);
          if va_recv_type atti = Verification_Recv_Type_No_Recv then Some (False, w)
          else do {
            w \<leftarrow> (case va_recv_buf atti of
                 None \<Rightarrow> Some w
               | Some b \<Rightarrow> upd con (\<lambda>c. c\<lparr>transmit_buf := Some b,
                   recv_buf_type := Some (if va_recv_buf_type atti = Verification_Recv_Buf_Type_Manual_Manger
                     then USER_SPACE_NO_DEL else USER_SPACE_DEL)\<rparr>) w);
            w \<leftarrow> upd con (\<lambda>c. c\<lparr>recv_failed_handle := va_recv_failed_func atti\<rparr>) w;
            Some (True, w) } })"

definition provide_buffer :: "nat \<Rightarrow> world \<Rightarrow> (bool \<times> world) option" where
  "provide_buffer con w = do {
     c \<leftarrow> heap w con;
     case transmit_buf c of
       Some _ \<Rightarrow> Some (True, w)
     | None \<Rightarrow>
         (case get_buffer (unat (transmit_buf_length c)) w of
            None \<Rightarrow> Some (False, w)
          | Some b \<Rightarrow> do {
              w \<leftarrow> upd con (\<lambda>c. c\<lparr>transmit_buf := Some b,
                recv_buf_type := Some (if HDS_BUFFER_POOL_MAX_CTL_SIZE < transmit_buf_length c
                  then MALLOC_SPACE_DEL else POOL_SPACE)\<rparr>) w;
              Some (True, w) }) }"

text \<open>The three parts of \<open>start_recver\<close> behind the allocation: entering the new reader under its
  identifier, the first packet with its timers, and the decision between accepting and rejecting.\<close>

definition recver_register :: "nat \<Rightarrow> header_fields \<Rightarrow> Kernel_Recv_Data \<Rightarrow> world \<Rightarrow> world option" where
  "recver_register con h rdata w = do {
     let wq_con_ID = h_conID h;
     w \<leftarrow> upd con (\<lambda>c. c\<lparr>require_duplicate_label := ID32_0 wq_con_ID\<rparr>) w;
     c \<leftarrow> heap w con;
     let w = wait_ack_insert wq_con_ID (get_connection_offset (connection_ID c)) w;
     w \<leftarrow> upd con (\<lambda>c. c\<lparr>remote_addr := k_remote_addr rdata,
       remote_addr_length := k_remote_addr_length rdata\<rparr>) w;
     (_, w) \<leftarrow> at con set_reader_connection_status_recv_wait_ack_queue w;
     Some w }"

definition recver_run ::
  "ops_table \<Rightarrow> conn_kind \<Rightarrow> MsgType \<Rightarrow> nat \<Rightarrow> header_fields \<Rightarrow> Kernel_Recv_Data \<Rightarrow> world \<Rightarrow> world option" where
  "recver_run ops k require_type con h rdata w = do {
     w \<leftarrow> do_network_data (ops k) con require_type 0 (h_send_time h) (h_recv_data h)
       (h_recv_data_length h) rdata w;
     w \<leftarrow> add_to_timer_queue con HDS_UDP_CONNECTION_RECV_CHECK_DEAD_TIME Recver_Check_Dead_Timer None w;
     if require_type = HDS_UDP_TRANS_COMPLEX_FILE_REQUIRE
     then add_to_timer_queue con HDS_UDP_RECV_ACK_TIMER Recver_ACK_Timer None w
     else Some w }"

definition recver_accept ::
  "ops_table \<Rightarrow> conn_kind \<Rightarrow> MsgType \<Rightarrow> nat \<Rightarrow> header_fields \<Rightarrow> Kernel_Recv_Data \<Rightarrow> world \<Rightarrow> world option" where
  "recver_accept ops k require_type con h rdata w = do {
     (ok, w) \<leftarrow> apply_verification con h rdata w;
     if \<not> ok then recv_reject require_type con (h_send_time h) rdata w
     else do {
       (ok, w) \<leftarrow> provide_buffer con w;
       if \<not> ok then recv_reject require_type con (h_send_time h) rdata w
       else recver_run ops k require_type con h rdata w } }"

definition start_recver :: "ops_table \<Rightarrow> MsgType \<Rightarrow> Kernel_Recv_Data \<Rightarrow> world \<Rightarrow> world option" where
  "start_recver ops require_type rdata w =
     (let k = (if require_type = HDS_UDP_TRANS_SIMPLE_FILE_REQUIRE then Simple_Reader else Complex_Reader)
      in if k = Complex_Reader \<and> 0 <s complex_file_need_verification w \<and> recv_verification_func w = None
      then Some w
      else case malloc_connection k w of
        None \<Rightarrow> Some w
      | Some (con, w) \<Rightarrow> do {
          let w = increase_connection_type_count k w;
          (_, w) \<leftarrow> at con set_connection_type_reader w;
          h \<leftarrow> CONNECTION_UNFILL_HEADER (ReaderCDR_new (k_data rdata)) (k_data_length rdata);
          w \<leftarrow> upd con (\<lambda>c. c\<lparr>connection_ID := h_conID h, transmit_buf_length := h_dt_note h\<rparr>) w;
          if h_dt_note h \<le> 0 then Some w
          else do {
            (r, w) \<leftarrow> create_connectionID con w;
            if r = - 1 then do {
              w \<leftarrow> upd con (\<lambda>c. c\<lparr>connection_ID := CID_zero\<rparr>) w;
              recv_reject require_type con (h_send_time h) rdata w }
            else do {
              w \<leftarrow> recver_register con h rdata w;
              recver_accept ops k require_type con h rdata w } } })"

section \<open>Incoming datagrams\<close>

definition connection_do_network_data :: "ops_table \<Rightarrow> MsgType \<Rightarrow> Kernel_Recv_Data \<Rightarrow> world \<Rightarrow> world option" where
  "connection_do_network_data ops msgtype rdata w = do {
     h \<leftarrow> CONNECTION_UNFILL_HEADER (ReaderCDR_new (k_data rdata)) (k_data_length rdata);
     let conID = h_conID h;
     case cid_array w (get_connection_offset conID) of
       CID_CON con \<Rightarrow> do {
         c \<leftarrow> heap w con;
         if ID32_0 (connection_ID c) = ID32_0 conID then do {
           w \<leftarrow> (if h_dt_note h = HDS_UDP_PACKET_MAX_DATA_LENGTH then
                  if msgtype = HDS_UDP_TRANS_SIMPLE_FILE_DATA \<or> msgtype = HDS_UDP_TRANS_COMPLEX_FILE_DATA
                  then do {
                    (_, w) \<leftarrow> set_connection_out_recv_wait_ack_queue con
                      (CID (reader_label w c) (ID32_1 conID)) w;
                    Some w }
                  else if msgtype = HDS_UDP_TRANS_SIMPLE_FILE_ACK \<or> msgtype = HDS_UDP_TRANS_COMPLEX_FILE_ACK
                    \<or> msgtype = HDS_UDP_TRANS_COMPLEX_FILE_SACK
                  then upd con (\<lambda>c. c\<lparr>connection_ID := CID (ID32_0 (connection_ID c)) (ID32_1 conID)\<rparr>) w
                  else Some w
                else Some w);
           do_network_data (ops (kind c)) con msgtype (h_dt_note h) (h_send_time h) (h_recv_data h)
             (h_recv_data_length h) rdata w }
         else Some w }
     | _ \<Rightarrow> Some w }"

definition connection_do_require_duplicate :: "ops_table \<Rightarrow> MsgType \<Rightarrow> Kernel_Recv_Data \<Rightarrow> world \<Rightarrow> world option" where
  "connection_do_require_duplicate ops msgtype rdata w = do {
     h \<leftarrow> CONNECTION_UNFILL_HEADER (ReaderCDR_new (k_data rdata)) (k_data_length rdata);
     let conID = h_conID h;
     case wait_ack w conID of
       None \<Rightarrow> do {
         let mt = (if msgtype = HDS_UDP_TRANS_SIMPLE_FILE_REQUIRE_DUPLICATE
            then HDS_UDP_TRANS_SIMPLE_FILE_REQUIRE else HDS_UDP_TRANS_COMPLEX_FILE_REQUIRE);
         cdr \<leftarrow> write_long (WriteCDR_new (k_data rdata)) mt;
         start_recver ops mt (rdata\<lparr>k_data := w_data cdr\<rparr>) w }
     | Some offset \<Rightarrow>
         (case cid_array w offset of
            CID_CON con \<Rightarrow> do {
              c \<leftarrow> heap w con;
              if ID32_1 (connection_ID c) = ID32_1 conID \<and> reader_label w c = ID32_0 conID
                \<and> left_window_cursor c = HDS_UDP_PACKET_MAX_DATA_LENGTH
                \<and> sockaddrcmp (k_remote_addr rdata) (k_remote_addr_length rdata)
                    (remote_addr c) (k_remote_addr_length rdata) = 0
              then reply_header (if msgtype = HDS_UDP_TRANS_SIMPLE_FILE_REQUIRE_DUPLICATE
                     then HDS_UDP_TRANS_SIMPLE_FILE_ACK else HDS_UDP_TRANS_COMPLEX_FILE_ACK)
                   (connection_ID c) (h_send_time h) HDS_UDP_PACKET_MAX_DATA_LENGTH rdata
                   (remote_addr c) (remote_addr_length c) w
              else Some w }
          | _ \<Rightarrow> Some w) }"

text \<open>A forced end, by the peer (\<open>TRANS_RESET\<close>, \<open>TRANS_REJECTED\<close>) or by the application.\<close>

definition force_end :: "nat \<Rightarrow> TRANS_RESULT_CODE \<Rightarrow> world \<Rightarrow> world option" where
  "force_end con code w = do {
     w \<leftarrow> upd con (\<lambda>c. c\<lparr>trans_result_code := Some code\<rparr>) w;
     c \<leftarrow> heap w con;
     if test_connection_type_writer c then suspend_once con w
     else add_to_timer_queue con HDS_UDP_RESET_REACTION_TIME Force_Reset_Timer None w }"

definition connection_do_connection_reset :: "MsgType \<Rightarrow> Kernel_Recv_Data \<Rightarrow> world \<Rightarrow> world option" where
  "connection_do_connection_reset msgtype rdata w = do {
     h \<leftarrow> CONNECTION_UNFILL_HEADER (ReaderCDR_new (k_data rdata)) (k_data_length rdata);
     case cid_array w (get_connection_offset (h_conID h)) of
       CID_CON con \<Rightarrow> do {
         (r, w) \<leftarrow> at con set_connection_force_stop w;
         if r = 0 then force_end con (if msgtype = HDS_UDP_TRANS_RESET then TRANS_RESET else TRANS_REJECTED) w
         else Some w }
     | _ \<Rightarrow> Some w }"

definition connection_do_connection_stop :: "Connection_ID \<Rightarrow> world \<Rightarrow> (int \<times> world) option" where
  "connection_do_connection_stop conID w =
     (case cid_array w (get_connection_offset conID) of
        CID_CON con \<Rightarrow> do {
          (r, w) \<leftarrow> at con set_connection_force_stop w;
          if r = 0 then do {
            w \<leftarrow> force_end con TRANS_FORCE_STOP w;
            c \<leftarrow> heap w con;
            cdr \<leftarrow> CONNECTION_FILL_HEADER HDS_UDP_TRANS_RESET (connection_ID c) (- 1) 0
              (WriteCDR_new (replicate HDS_UDP_PACKET_MAX_HEADER_LENGTH (garbage w 0)));
            Some (0, kernel_send (w_data cdr) (WriteCDR_length cdr) (remote_addr c)
              (remote_addr_length c) w) }
          else Some (0, w) }
      | _ \<Rightarrow> Some (- 1, w))"

definition get_connection_info :: "Connection_ID \<Rightarrow> world \<Rightarrow> (int \<times> CONNECTION_INFO option) option" where
  "get_connection_info con_ID w =
     (case cid_array w (get_connection_offset con_ID) of
        CID_CON con \<Rightarrow> do {
          c \<leftarrow> heap w con;
          Some (0, Some \<lparr>complete_size = left_window_cursor c, total_size = ucast (transmit_buf_length c),
            info_result_code = trans_result_code c, info_remote_addr = remote_addr c,
            info_remote_addr_length = remote_addr_length c\<rparr>) }
      | _ \<Rightarrow> Some (- 1, None))"

definition set_recv_verification_func :: "verification_func option \<Rightarrow> world \<Rightarrow> world" where
  "set_recv_verification_func func w = w\<lparr>recv_verification_func := func\<rparr>"

definition set_complex_file_need_verification :: "world \<Rightarrow> world" where
  "set_complex_file_need_verification w = w\<lparr>complex_file_need_verification := 1\<rparr>"

definition reset_complex_file_need_verification :: "world \<Rightarrow> world" where
  "reset_complex_file_need_verification w = w\<lparr>complex_file_need_verification := 0\<rparr>"

text \<open>\<open>filter_data\<close>: the entry for every datagram.  An unknown type is an application message sent
  unreliably; it is copied and handed to the method processor.\<close>

definition filter_data :: "ops_table \<Rightarrow> Kernel_Recv_Data \<Rightarrow> world \<Rightarrow> world option" where
  "filter_data ops rdata w = do {
     (type, _) \<leftarrow> read_long (ReaderCDR_new (k_data rdata));
     if type = HDS_UDP_TRANS_SIMPLE_FILE_REQUIRE \<or> type = HDS_UDP_TRANS_COMPLEX_FILE_REQUIRE
     then start_recver ops type rdata w
     else if type = HDS_UDP_TRANS_SIMPLE_FILE_ACK \<or> type = HDS_UDP_TRANS_SIMPLE_FILE_DATA
       \<or> type = HDS_UDP_TRANS_COMPLEX_FILE_ACK \<or> type = HDS_UDP_TRANS_COMPLEX_FILE_DATA
       \<or> type = HDS_UDP_TRANS_COMPLEX_FILE_SACK
     then connection_do_network_data ops type rdata w
     else if type = HDS_UDP_TRANS_SIMPLE_FILE_REQUIRE_DUPLICATE
       \<or> type = HDS_UDP_TRANS_COMPLEX_FILE_REQUIRE_DUPLICATE
     then connection_do_require_duplicate ops type rdata w
     else if type = HDS_UDP_TRANS_RESET \<or> type = HDS_UDP_TRANS_SIMPLE_FILE_REJECTED
       \<or> type = HDS_UDP_TRANS_COMPLEX_FILE_REJECTED
     then connection_do_connection_reset type rdata w
     else if k_data_length rdata < 0 \<or> int (length (k_data rdata)) < k_data_length rdata then None
     else case get_buffer (nat (k_data_length rdata)) w of
       None \<Rightarrow> Some w
     | Some _ \<Rightarrow> Some (push_msg
         \<lparr>rp_remote_addr = k_remote_addr rdata, rp_remote_addr_length = k_remote_addr_length rdata,
          rp_data_length = of_int (k_data_length rdata),
          rp_buf_type = Some (if k_data_length rdata \<le> HDS_BUFFER_POOL_MAX_CTL_SIZE
             then POOL_SPACE else MALLOC_SPACE_DEL),
          rp_data = take (nat (k_data_length rdata)) (k_data rdata)\<rparr> w) }"

end
