(* ===== verification/Simple_Connection.thy ===== *)
theory Simple_Connection
  imports Connection_Core
begin

unbundle bit_operations_syntax

text \<open>
  \<open>connection/HDS_UDP_Simple_Connection.cpp\<close>: the stop-and-wait transfer of small files.  The
  writer keeps one packet in flight and moves on when it is acknowledged; the reader accepts the
  packet its cursor waits for, stores it, acknowledges its cursor, and hands the finished buffer
  to the method processor.
\<close>

section \<open>Writer\<close>

definition simple_writer_do_time_out ::
  "nat \<Rightarrow> Connection_Timer_Type \<Rightarrow> u64 \<Rightarrow> nat option \<Rightarrow> world \<Rightarrow> world option" where
  "simple_writer_do_time_out con timer_type run_count extend_data w = (case timer_type of
     Connection_Suspend_Timer \<Rightarrow> do {
       (r, w) \<leftarrow> at con set_connection_trans_succ w;
       if r = 0 then do {
         w \<leftarrow> writer_do_connection_sended_handle_and_clean_data con w;
         c \<leftarrow> heap w con;
         free_connetcion con (release_connection_ID (connection_ID c) w) }
       else Some w }
   | Sender_Keeping_Timer \<Rightarrow> do {
       c \<leftarrow> heap w con;
       if running_count c = run_count then do {
         let w = w\<lparr>time_out_count := snd (post_increment (time_out_count w))\<rparr>;
         (t, w) \<leftarrow> at con (\<lambda>c. let (r, v) = pre_increment (try_time c) in (r, c\<lparr>try_time := v\<rparr>)) w;
         if t = HDS_UDP_CONNECTION_SEND_TRY_TIME then do {
           w \<leftarrow> upd con (\<lambda>c. c\<lparr>trans_result_code := Some TRANS_TIME_OUT\<rparr>) w;
           suspend_once con w }
         else do {
           w \<leftarrow> upd con set_connection_RTO_Double w;
           add_to_sender_queue con w } }
       else Some w }
   | _ \<Rightarrow> Some w)"

definition simple_writer_do_send :: "nat \<Rightarrow> u8 list \<Rightarrow> world \<Rightarrow> world option" where
  "simple_writer_do_send con sender_buf w = do {
     c \<leftarrow> heap w con;
     if test_connection_force_stop c = 1 then suspend_once con w
     else do {
       let seq = (ucast (left_window_cursor c) :: u32);
       if transmit_buf_length c - 1 < seq then Some w
       else do {
         (msgtype, w) \<leftarrow> (if seq = 0 then do {
              (r, w) \<leftarrow> at con set_connection_status_has_send_require w;
              Some (if r = 0 then HDS_UDP_TRANS_SIMPLE_FILE_REQUIRE
                    else HDS_UDP_TRANS_SIMPLE_FILE_REQUIRE_DUPLICATE, w) }
            else Some (HDS_UDP_TRANS_SIMPLE_FILE_DATA, w));
         let dt_note = (if seq = 0 then transmit_buf_length c else seq);
         cdr \<leftarrow> CONNECTION_FILL_HEADER msgtype (connection_ID c) (connection_clock (now w)) dt_note
           (WriteCDR_new sender_buf);
         cdr \<leftarrow> CONNECTION_FILL_DATA cdr seq c;
         let w = kernel_send (w_data cdr) (WriteCDR_length cdr) (remote_addr c) (remote_addr_length c) w;
         w \<leftarrow> upd con (\<lambda>c. c\<lparr>running_count := snd (post_increment (running_count c))\<rparr>) w;
         add_to_timer_queue con (RTO c) Sender_Keeping_Timer None w } } }"

definition simple_writer_do_network_data ::
  "nat \<Rightarrow> MsgType \<Rightarrow> u32 \<Rightarrow> u32 \<Rightarrow> u8 list \<Rightarrow> int \<Rightarrow> Kernel_Recv_Data \<Rightarrow> world \<Rightarrow> world option" where
  "simple_writer_do_network_data con msgtype seq send_time recv_data recv_data_length rdata w = do {
     w \<leftarrow> upd con (\<lambda>c. c\<lparr>try_time := 0\<rparr>) w;
     (res, w) \<leftarrow> at con (\<lambda>c. set_connection_left_window_cursor c seq) w;
     if res = - 1 then Some w
     else do {
       w \<leftarrow> upd con (\<lambda>c. c\<lparr>running_count := snd (post_increment (running_count c))\<rparr>) w;
       c \<leftarrow> heap w con;
       if transmit_buf_length c - 1 < seq then do {
         w \<leftarrow> upd con (\<lambda>c. c\<lparr>trans_result_code := Some TRANS_SUCCESSFULLY\<rparr>) w;
         suspend_once con w }
       else do {
         w \<leftarrow> upd con (set_connection_RTO (now w) send_time) w;
         add_to_sender_queue con w } } }"

section \<open>Reader\<close>

definition simple_reader_do_time_out ::
  "nat \<Rightarrow> Connection_Timer_Type \<Rightarrow> u64 \<Rightarrow> nat option \<Rightarrow> world \<Rightarrow> world option" where
  "simple_reader_do_time_out con timer_type run_count extend_data w = (case timer_type of
     Force_Reset_Timer \<Rightarrow> do {
       (r, w) \<leftarrow> at con set_connection_trans_succ w;
       if r = 0 then reader_do_connection_sended_handle_and_clean_data con w else Some w }
   | Recver_Check_Dead_Timer \<Rightarrow> do {
       c \<leftarrow> heap w con;
       if running_count c = run_count then do {
         w \<leftarrow> upd con (\<lambda>c. c\<lparr>trans_result_code := Some TRANS_TIME_OUT\<rparr>) w;
         suspend_once con w }
       else add_to_timer_queue con HDS_UDP_CONNECTION_RECV_CHECK_DEAD_TIME Recver_Check_Dead_Timer None w }
   | Connection_Suspend_Timer \<Rightarrow> do {
       (r, w) \<leftarrow> at con set_connection_trans_succ w;
       w \<leftarrow> (if r = 0 then reader_do_connection_sended_handle_and_clean_data con w else Some w);
       c \<leftarrow> heap w con;
       free_connetcion con (release_connection_ID (connection_ID c) w) }
   | _ \<Rightarrow> Some w)"

text \<open>Storing a payload: \<open>memcpy(_transmit_buf+seq, recv_data, recv_data_length)\<close>.  The source is
  the receive buffer behind the header.\<close>

definition store_payload :: "u32 \<Rightarrow> u8 list \<Rightarrow> int \<Rightarrow> connection \<Rightarrow> connection option" where
  "store_payload seq recv_data recv_data_length c = do {
     buf \<leftarrow> transmit_buf c;
     (if recv_data_length < 0 \<or> int (length recv_data) < recv_data_length then None
      else do {
        buf \<leftarrow> overwrite buf (unat seq) (take (nat recv_data_length) recv_data);
        Some (c\<lparr>transmit_buf := Some buf,
          memcpy_count := snd (post_increment (memcpy_count c))\<rparr>) }) }"

definition simple_reader_deliver :: "nat \<Rightarrow> Kernel_Recv_Data \<Rightarrow> world \<Rightarrow> world option" where
  "simple_reader_deliver con rdata w = do {
     c \<leftarrow> heap w con;
     if ucast (transmit_buf_length c - 1) < left_window_cursor c
       \<and> memcpy_count c = ucast ((transmit_buf_length c - 1) div HDS_UDP_PACKET_MAX_DATA_LENGTH + 1)
     then do {
       (r, w) \<leftarrow> at con set_connection_trans_succ w;
       if r = 0 then do {
         w \<leftarrow> upd con (\<lambda>c. c\<lparr>trans_result_code := Some TRANS_SUCCESSFULLY\<rparr>) w;
         buf \<leftarrow> transmit_buf c;
         Some (push_msg \<lparr>rp_remote_addr = k_remote_addr rdata,
           rp_remote_addr_length = k_remote_addr_length rdata,
           rp_data_length = transmit_buf_length c, rp_buf_type = recv_buf_type c, rp_data = buf\<rparr> w) }
       else Some w }
     else Some w }"

definition simple_reader_do_network_data ::
  "nat \<Rightarrow> MsgType \<Rightarrow> u32 \<Rightarrow> u32 \<Rightarrow> u8 list \<Rightarrow> int \<Rightarrow> Kernel_Recv_Data \<Rightarrow> world \<Rightarrow> world option" where
  "simple_reader_do_network_data con msgtype seq send_time recv_data recv_data_length rdata w = do {
     c \<leftarrow> heap w con;
     if test_connection_force_stop c = 1 \<or> test_connection_trans_succ c = 1 then
       if left_window_cursor c - ucast (transmit_buf_length c) \<le> HDS_UDP_PACKET_MAX_DATA_LENGTH
       then reply_header HDS_UDP_TRANS_SIMPLE_FILE_ACK (connection_ID c) send_time
         (ucast (left_window_cursor c)) rdata (remote_addr c) (remote_addr_length c) w
       else reply_header HDS_UDP_TRANS_RESET (connection_ID c) send_time seq rdata
         (remote_addr c) (remote_addr_length c) w
     else do {
       w \<leftarrow> upd con (\<lambda>c. c\<lparr>running_count := snd (post_increment (running_count c))\<rparr>) w;
       (old, w) \<leftarrow> at con (\<lambda>c. let (r, v) = CompareExchange (left_window_cursor c)
            (ucast (seq + HDS_UDP_PACKET_MAX_DATA_LENGTH)) (ucast seq) in (r, c\<lparr>left_window_cursor := v\<rparr>)) w;
       w \<leftarrow> (if old = ucast seq then do {
            c \<leftarrow> heap w con;
            c \<leftarrow> store_payload seq recv_data recv_data_length c;
            w \<leftarrow> upd con (\<lambda>_. c) w;
            simple_reader_deliver con rdata w }
          else Some w);
       c \<leftarrow> heap w con;
       reply_header HDS_UDP_TRANS_SIMPLE_FILE_ACK (connection_ID c) send_time
         (ucast (left_window_cursor c)) rdata (remote_addr c) (remote_addr_length c) w } }"

section \<open>The function tables\<close>

text \<open>A reader object has no \<open>_do_send\<close> member: calling it is undefined.  The handlers of the
  complex connections are an argument.\<close>

definition simple_writer_ops :: conn_ops where
  "simple_writer_ops = \<lparr>do_time_out = simple_writer_do_time_out,
     do_network_data = simple_writer_do_network_data, do_send = simple_writer_do_send\<rparr>"

definition simple_reader_ops :: conn_ops where
  "simple_reader_ops = \<lparr>do_time_out = simple_reader_do_time_out,
     do_network_data = simple_reader_do_network_data, do_send = (\<lambda>_ _ _. None)\<rparr>"

definition ops_with :: "ops_table \<Rightarrow> ops_table" where
  "ops_with cplx k = (case k of Simple_Writer \<Rightarrow> simple_writer_ops | Simple_Reader \<Rightarrow> simple_reader_ops
     | _ \<Rightarrow> cplx k)"

end
