(* ===== verification/Host_Invariant.thy ===== *)
theory Host_Invariant
  imports Simple_Connection
begin

unbundle bit_operations_syntax

text \<open>
  A scheme for invariants of a host: a predicate \<open>P\<close> on every live connection object, a predicate
  \<open>Q\<close> on the objects that a slot of \<open>_cid_array\<close> refers to, and predicates on everything that
  leaves the library (datagrams \<open>S\<close>, delivered messages \<open>M\<close>, events \<open>E\<close>); with the flag
  \<open>B\<close> it also says that some message has been delivered.  The locale
  \<open>host_inv\<close> states what the shared operations of \<open>Connection_Core\<close> need of these predicates
  and proves once that those operations keep the invariant; the writer and the reader side of a
  transfer are its two interpretations.
\<close>

definition world_inv ::
  "(connection \<Rightarrow> bool) \<Rightarrow> (connection \<Rightarrow> bool) \<Rightarrow> (datagram \<Rightarrow> bool) \<Rightarrow> (Result_Process_Data \<Rightarrow> bool) \<Rightarrow>
   (event \<Rightarrow> bool) \<Rightarrow> bool \<Rightarrow> world \<Rightarrow> bool" where
  "world_inv P Q S M E B w \<longleftrightarrow>
     (\<forall>a c. heap w a = Some c \<longrightarrow> P c \<and> a < next_addr w) \<and>
     (\<forall>off a. cid_array w off = CID_CON a \<longrightarrow> a < next_addr w \<and> (\<forall>c. heap w a = Some c \<longrightarrow> Q c)) \<and>
     (\<forall>p \<in> set (sent w). S p) \<and> (\<forall>m \<in> set (processed w). M m) \<and> (\<forall>e \<in> set (events w). E e) \<and>
     (B \<longrightarrow> processed w \<noteq> [])"

text \<open>Fields of the world that no clause of the invariant mentions.\<close>

lemma world_inv_frame [simp]:
  "world_inv P Q S M E B (w\<lparr>timers := t\<rparr>) = world_inv P Q S M E B w"
  "world_inv P Q S M E B (w\<lparr>send_queue := q\<rparr>) = world_inv P Q S M E B w"
  "world_inv P Q S M E B (w\<lparr>wait_ack := m\<rparr>) = world_inv P Q S M E B w"
  "world_inv P Q S M E B (w\<lparr>type_count := k\<rparr>) = world_inv P Q S M E B w"
  "world_inv P Q S M E B (w\<lparr>time_out_count := n\<rparr>) = world_inv P Q S M E B w"
  "world_inv P Q S M E B (w\<lparr>complex_time_out_count := n\<rparr>) = world_inv P Q S M E B w"
  "world_inv P Q S M E B (w\<lparr>cid_array_offset := n\<rparr>) = world_inv P Q S M E B w"
  "world_inv P Q S M E B (w\<lparr>verification_actor := n\<rparr>) = world_inv P Q S M E B w"
  "world_inv P Q S M E B (w\<lparr>now := tv\<rparr>) = world_inv P Q S M E B w"
  "world_inv P Q S M E B (w\<lparr>oom := b\<rparr>) = world_inv P Q S M E B w" "world_inv P Q S M E B (w\<lparr>map_oom := b'\<rparr>) = world_inv P Q S M E B w"
  "world_inv P Q S M E B (w\<lparr>garbage := g\<rparr>) = world_inv P Q S M E B w"
  "world_inv P Q S M E B (w\<lparr>recv_verification_func := f\<rparr>) = world_inv P Q S M E B w"
  "world_inv P Q S M E B (w\<lparr>complex_file_need_verification := n\<rparr>) = world_inv P Q S M E B w"
  by (simp_all add: world_inv_def)

lemma world_inv_heap: "world_inv P Q S M E B w \<Longrightarrow> heap w a = Some c \<Longrightarrow> P c"
  by (auto simp: world_inv_def)

lemma world_inv_slot: "world_inv P Q S M E B w \<Longrightarrow> cid_array w off = CID_CON a \<Longrightarrow> heap w a = Some c \<Longrightarrow> Q c"
  by (auto simp: world_inv_def)

lemma world_inv_mono:
  "world_inv P Q S M E B w \<Longrightarrow> (\<And>c. P c \<Longrightarrow> P' c) \<Longrightarrow> (\<And>p. S p \<Longrightarrow> S' p) \<Longrightarrow> world_inv P' Q S' M E B w"
  by (auto simp: world_inv_def)

lemma upd_inv:
  "upd a f w = Some w' \<Longrightarrow> world_inv P Q S M E B w \<Longrightarrow> (\<And>c. heap w a = Some c \<Longrightarrow> P c \<Longrightarrow> P (f c)) \<Longrightarrow>
   (\<And>c. Q c \<Longrightarrow> Q (f c)) \<Longrightarrow> world_inv P Q S M E B w'"
  by (auto simp: upd_def world_inv_def split: option.splits if_splits)

lemma at_inv:
  "at a f w = Some (r, w') \<Longrightarrow> world_inv P Q S M E B w \<Longrightarrow>
   (\<And>c. heap w a = Some c \<Longrightarrow> P c \<Longrightarrow> P (snd (f c))) \<Longrightarrow>
   (\<And>c. Q c \<Longrightarrow> Q (snd (f c))) \<Longrightarrow> world_inv P Q S M E B w'"
  by (auto simp: at_def world_inv_def Let_def case_prod_beta split: option.splits if_splits)

lemma kernel_send_inv:
  "world_inv P Q S M E B w \<Longrightarrow> S \<lparr>d_data = take n buf, d_addr = take (unat l) a\<rparr> \<Longrightarrow>
   world_inv P Q S M E B (kernel_send buf n a l w)"
  by (auto simp: kernel_send_def world_inv_def)

lemma reply_header_inv:
  "reply_header t c s d rdata a l w = Some w' \<Longrightarrow> world_inv P Q S M E B w \<Longrightarrow>
   S \<lparr>d_data = header_bytes t c s d, d_addr = take (unat l) a\<rparr> \<Longrightarrow> world_inv P Q S M E B w'"
  by (auto simp: reply_header_def bind_eq_Some_conv WriteCDR_length_def WriteCDR_new_def written_def
      dest!: fill_header_Some(1) intro!: kernel_send_inv)

lemma push_msg_inv: "world_inv P Q S M E B w \<Longrightarrow> M d \<Longrightarrow> world_inv P Q S M E B (push_msg d w)"
  by (auto simp: push_msg_def world_inv_def)

lemma log_event_inv: "world_inv P Q S M E B w \<Longrightarrow> E e \<Longrightarrow> world_inv P Q S M E B (log_event e w)"
  by (auto simp: log_event_def world_inv_def)

lemma slot_inv:
  "world_inv P Q S M E B w \<Longrightarrow> world_inv P Q S M E B (suspend_connection_ID i w)"
  "world_inv P Q S M E B w \<Longrightarrow> world_inv P Q S M E B (release_connection_ID i w)"
  by (auto simp: suspend_connection_ID_def release_connection_ID_def world_inv_def split: if_splits)

lemma free_memory_inv: "world_inv P Q S M E B w \<Longrightarrow> world_inv P Q S M E B (connection_free_memory a w)"
  by (auto simp: connection_free_memory_def world_inv_def split: if_splits)

lemma type_count_inv:
  "world_inv P Q S M E B (increase_connection_type_count k w) = world_inv P Q S M E B w"
  "world_inv P Q S M E B (decrease_connection_type_count k w) = world_inv P Q S M E B w"
  by (simp_all add: increase_connection_type_count_def decrease_connection_type_count_def)

lemma malloc_inv:
  "malloc_connection k w = Some (con, w') \<Longrightarrow> world_inv P Q S M E B w \<Longrightarrow> P (construct k) \<Longrightarrow>
   world_inv P Q S M E B w'"
  by (fastforce simp: malloc_connection_def world_inv_def split: if_splits)

lemma timer_queue_inv:
  "add_to_timer_queue con t ty x w = Some w' \<Longrightarrow> world_inv P Q S M E B w \<Longrightarrow> world_inv P Q S M E B w'"
  by (auto simp: add_to_timer_queue_def bind_eq_Some_conv split: if_splits)

lemma wait_ack_inv:
  "world_inv P Q S M E B (wait_ack_insert i n w) = world_inv P Q S M E B w"
  "world_inv P Q S M E B (wait_ack_erase i w) = world_inv P Q S M E B w"
  by (simp_all add: wait_ack_insert_def wait_ack_erase_def)

lemmas inv_simps = type_count_inv wait_ack_inv

section \<open>The shared operations\<close>

locale host_inv =
  fixes P Q :: "connection \<Rightarrow> bool" and S :: "datagram \<Rightarrow> bool" and M :: "Result_Process_Data \<Rightarrow> bool"
    and E :: "event \<Rightarrow> bool" and B :: bool
  assumes P_status: "P c \<Longrightarrow> P (c\<lparr>status := s\<rparr>)"
    and Q_status: "Q c \<Longrightarrow> Q (c\<lparr>status := s\<rparr>)"
    and P_ID: "P c \<Longrightarrow> P (c\<lparr>connection_ID := i\<rparr>)"
    and Q_ID: "Q c \<Longrightarrow> Q (c\<lparr>connection_ID := i\<rparr>)"
    and P_fail: "P c \<Longrightarrow> code \<noteq> TRANS_SUCCESSFULLY \<Longrightarrow> P (c\<lparr>trans_result_code := Some code\<rparr>)"
    and Q_code: "Q c \<Longrightarrow> Q (c\<lparr>trans_result_code := x\<rparr>)"
begin

lemma P_bits: "P c \<Longrightarrow> P (snd (status_set n c))" "P c \<Longrightarrow> P (snd (status_reset n c))"
  "Q c \<Longrightarrow> Q (snd (status_set n c))" "Q c \<Longrightarrow> Q (snd (status_reset n c))"
  by (simp_all add: status_set_def status_reset_def case_prod_beta P_status Q_status)

lemma at_status_inv:
  assumes "at a f w = Some (r, w')" "world_inv P Q S M E B w" "(\<exists>n. f = status_set n) \<or> (\<exists>n. f = status_reset n)"
  shows "world_inv P Q S M E B w'"
  using assms at_inv [OF assms(1,2)] P_bits by metis

lemmas status_ops = set_connection_trans_succ_def [abs_def] set_connection_trans_suspend_def [abs_def]
  set_connection_force_stop_def [abs_def] set_connection_type_reader_def [abs_def]
  set_connection_type_writer_def [abs_def] set_connection_in_sender_def [abs_def]
  reset_connection_in_sender_def [abs_def] set_connection_reback_sender_def [abs_def]
  reset_connection_reback_sender_def [abs_def] set_connection_status_has_send_require_def [abs_def]
  set_reader_connection_status_recv_wait_ack_queue_def [abs_def]
  reset_reader_connection_status_recv_wait_ack_queue_def [abs_def]

lemma sender_queue_inv:
  "add_to_sender_queue con w = Some w' \<Longrightarrow> world_inv P Q S M E B w \<Longrightarrow> world_inv P Q S M E B w'"
  by (auto simp: add_to_sender_queue_def bind_eq_Some_conv status_ops split: if_splits
      dest!: at_status_inv)

lemma suspend_once_inv:
  "suspend_once con w = Some w' \<Longrightarrow> world_inv P Q S M E B w \<Longrightarrow> world_inv P Q S M E B w'"
  by (auto simp: suspend_once_def bind_eq_Some_conv status_ops split: if_splits
      dest!: at_status_inv timer_queue_inv intro: slot_inv)

lemma out_of_wait_ack_inv:
  "set_connection_out_recv_wait_ack_queue con i w = Some (j, w') \<Longrightarrow> world_inv P Q S M E B w \<Longrightarrow>
   world_inv P Q S M E B w'"
  by (auto simp: set_connection_out_recv_wait_ack_queue_def bind_eq_Some_conv status_ops Let_def
      inv_simps split: if_splits dest!: at_status_inv)

lemma set_ID_inv:
  "upd con (\<lambda>c. c\<lparr>connection_ID := i c\<rparr>) w = Some w' \<Longrightarrow> world_inv P Q S M E B w \<Longrightarrow> world_inv P Q S M E B w'"
  by (erule upd_inv) (auto intro: P_ID Q_ID)

lemma set_fail_inv:
  "upd con (\<lambda>c. c\<lparr>trans_result_code := Some code\<rparr>) w = Some w' \<Longrightarrow> world_inv P Q S M E B w \<Longrightarrow>
   code \<noteq> TRANS_SUCCESSFULLY \<Longrightarrow> world_inv P Q S M E B w'"
  by (erule upd_inv) (auto intro: P_fail Q_code)

lemma free_connetcion_inv:
  "free_connetcion con w = Some w' \<Longrightarrow> world_inv P Q S M E B w \<Longrightarrow> world_inv P Q S M E B w'"
  by (auto simp: free_connetcion_def bind_eq_Some_conv inv_simps split: if_splits
      dest!: out_of_wait_ack_inv set_ID_inv intro!: free_memory_inv)

lemma force_end_inv:
  "force_end con code w = Some w' \<Longrightarrow> world_inv P Q S M E B w \<Longrightarrow> code \<noteq> TRANS_SUCCESSFULLY \<Longrightarrow>
   world_inv P Q S M E B w'"
  by (auto simp: force_end_def bind_eq_Some_conv split: if_splits
      dest!: set_fail_inv dest: suspend_once_inv timer_queue_inv)

lemma do_reset_inv:
  assumes "connection_do_connection_reset t r w = Some w'" "world_inv P Q S M E B w"
  shows "world_inv P Q S M E B w'"
proof -
  from assms(1) obtain h where h:
    "CONNECTION_UNFILL_HEADER (ReaderCDR_new (k_data r)) (k_data_length r) = Some h"
    by (auto simp: connection_do_connection_reset_def bind_eq_Some_conv)
  show ?thesis
    using assms h
    by (cases "cid_array w (get_connection_offset (h_conID h))")
       (auto simp: connection_do_connection_reset_def bind_eq_Some_conv status_ops
         split: if_splits dest!: at_status_inv dest: force_end_inv)
qed

lemma do_stop_inv:
  assumes "connection_do_connection_stop i w = Some (r, w')" "world_inv P Q S M E B w"
    and S: "\<And>c s d a. S \<lparr>d_data = header_bytes HDS_UDP_TRANS_RESET c s d, d_addr = a\<rparr>"
  shows "world_inv P Q S M E B w'"
proof (cases "cid_array w (get_connection_offset i)")
  case (CID_CON con)
  with assms(1) obtain b w1 where a: "at con set_connection_force_stop w = Some (b, w1)"
    by (auto simp: connection_do_connection_stop_def bind_eq_Some_conv)
  then have w1: "world_inv P Q S M E B w1" using assms(2) by (auto simp: status_ops dest: at_status_inv)
  show ?thesis
  proof (cases "b = 0")
    case True
    with assms(1) CID_CON a obtain w2 c cdr where w2: "force_end con TRANS_FORCE_STOP w1 = Some w2"
      and "heap w2 con = Some c" and cdr: "CONNECTION_FILL_HEADER HDS_UDP_TRANS_RESET (connection_ID c) (- 1) 0
        (WriteCDR_new (replicate HDS_UDP_PACKET_MAX_HEADER_LENGTH (garbage w2 0))) = Some cdr"
      and w': "w' = kernel_send (w_data cdr) (WriteCDR_length cdr) (remote_addr c) (remote_addr_length c) w2"
      by (fastforce simp: connection_do_connection_stop_def bind_eq_Some_conv)
    have "world_inv P Q S M E B w2" using force_end_inv [OF w2 w1] by simp
    moreover have "take (WriteCDR_length cdr) (w_data cdr) = header_bytes HDS_UDP_TRANS_RESET (connection_ID c) (- 1) 0"
      using fill_header_Some(1) [OF cdr] by (simp add: WriteCDR_length_def WriteCDR_new_def written_def)
    ultimately show ?thesis unfolding w' by (intro kernel_send_inv) (simp_all add: S)
  next
    case False
    with assms(1) CID_CON a w1 show ?thesis
      by (auto simp: connection_do_connection_stop_def bind_eq_Some_conv)
  qed
qed (use assms in \<open>auto simp: connection_do_connection_stop_def\<close>)

end

end
