(* ===== verification/Transfer_Sender.thy ===== *)
theory Transfer_Sender
  imports Host_Invariant
begin

unbundle bit_operations_syntax

text \<open>
  The sending host of a simple transfer.  \<open>forward_ok D\<close> describes the datagrams a faithful sender
  of the data \<open>D\<close> emits, \<open>backward_ok\<close> those a faithful receiver answers with; \<open>sender_inv\<close> is
  the invariant of the sending host (an interpretation of \<open>host_inv\<close>), and the lemmas show that
  sending, receiving an answer, timeouts and forced ends keep it.
\<close>

section \<open>Datagrams of a transfer\<close>

definition forward_ok :: "u8 list \<Rightarrow> datagram \<Rightarrow> bool" where
  "forward_ok D p \<longleftrightarrow> (\<exists>t c s d payload. d_data p = header_bytes t c s d @ payload \<and>
     (t = HDS_UDP_TRANS_RESET \<or>
      (t = HDS_UDP_TRANS_SIMPLE_FILE_REQUIRE \<or> t = HDS_UDP_TRANS_SIMPLE_FILE_REQUIRE_DUPLICATE) \<and>
        d = of_nat (length D) \<and> payload = chunk D 0 \<or>
      t = HDS_UDP_TRANS_SIMPLE_FILE_DATA \<and> 0 < unat d \<and> unat d < length D \<and> payload = chunk D (unat d)))"

definition backward_ok :: "nat \<Rightarrow> bool \<Rightarrow> datagram \<Rightarrow> bool" where
  "backward_ok n dlv p \<longleftrightarrow> (\<exists>t c s d. d_data p = header_bytes t c s d \<and>
     (t = HDS_UDP_TRANS_RESET \<or> t = HDS_UDP_TRANS_SIMPLE_FILE_REJECTED \<or>
      t = HDS_UDP_TRANS_SIMPLE_FILE_ACK \<and> (n \<le> unat d \<longrightarrow> dlv)))"

definition transfer_size :: "u8 list \<Rightarrow> bool" where
  "transfer_size D \<longleftrightarrow> 0 < length D \<and> length D \<le> SMALL_FILE_MAX_SIZE"

declare unat_ucast_32_64 [simp]

lemma transfer_size_unat: "transfer_size D \<Longrightarrow> unat (of_nat (length D) :: u32) = length D"
  by (simp add: transfer_size_def unat_of_nat)

text \<open>The receive buffer a datagram arrives in.\<close>

definition receives :: "Kernel_Recv_Data \<Rightarrow> datagram \<Rightarrow> bool" where
  "receives r p \<longleftrightarrow> length (k_data r) = MAX_UDP_PACKET_SIZE \<and> k_data_length r = int (length (d_data p)) \<and>
     (\<exists>junk. k_data r = d_data p @ junk)"

lemma receives_header:
  assumes "receives r p" "d_data p = header_bytes t c s d @ payload"
  shows "\<exists>junk. CONNECTION_UNFILL_HEADER (ReaderCDR_new (k_data r)) (k_data_length r) =
      Some \<lparr>h_conID = CID (ID32_1 c) (ID32_0 c), h_send_time = s, h_dt_note = d,
        h_recv_data = payload @ junk, h_recv_data_length = int (length payload)\<rparr>"
    and "\<exists>x. read_long (ReaderCDR_new (k_data r)) = Some (t, x)"
proof -
  from assms obtain junk where k: "k_data r = header_bytes t c s d @ payload @ junk"
    and l: "k_data_length r = 20 + int (length payload)" by (auto simp: receives_def)
  then show "\<exists>junk. CONNECTION_UNFILL_HEADER (ReaderCDR_new (k_data r)) (k_data_length r) =
      Some \<lparr>h_conID = CID (ID32_1 c) (ID32_0 c), h_send_time = s, h_dt_note = d,
        h_recv_data = payload @ junk, h_recv_data_length = int (length payload)\<rparr>"
    using unfill_header [of "ReaderCDR_new (k_data r)" t c s d "payload @ junk" "k_data_length r"]
    by (auto simp: ReaderCDR_new_def)
  have "unread (ReaderCDR_new (k_data r)) = le_bytes32 t @ drop 4 (k_data r)"
    using k by (simp add: unread_def ReaderCDR_new_def header_bytes_def)
  from cdr_long.rd_written [OF this] show "\<exists>x. read_long (ReaderCDR_new (k_data r)) = Some (t, x)"
    by (auto simp: ReaderCDR_new_def)
qed

section \<open>The sending host\<close>

definition writer_ok :: "u8 list \<Rightarrow> bool \<Rightarrow> connection \<Rightarrow> bool" where
  "writer_ok D dlv c \<longleftrightarrow> kind c = Simple_Writer \<and> writer_wf c \<and> writer_data c = D \<and>
     transmit_buf_length c = of_nat (length D) \<and> RTO_ok c \<and>
     (trans_result_code c = Some TRANS_SUCCESSFULLY \<longrightarrow> dlv)"

definition event_ok :: "bool \<Rightarrow> event \<Rightarrow> bool" where
  "event_ok dlv e \<longleftrightarrow> (\<forall>h d l a. e = Send_Handler_Called h d l a (Some TRANS_SUCCESSFULLY) \<longrightarrow> dlv)"

abbreviation sender_inv :: "u8 list \<Rightarrow> bool \<Rightarrow> world \<Rightarrow> bool" where
  "sender_inv D dlv \<equiv> world_inv (writer_ok D dlv) (\<lambda>_. True) (forward_ok D) (\<lambda>_. True) (event_ok dlv) False"

lemma writer_data_frame [simp]:
  "writer_data (c\<lparr>status := s\<rparr>) = writer_data c"
  "writer_data (c\<lparr>connection_ID := i\<rparr>) = writer_data c"
  "writer_data (c\<lparr>running_count := n\<rparr>) = writer_data c"
  "writer_data (c\<lparr>try_time := n\<rparr>) = writer_data c"
  "writer_data (c\<lparr>left_window_cursor := n\<rparr>) = writer_data c"
  "writer_data (c\<lparr>SRTT := n\<rparr>) = writer_data c"
  "writer_data (c\<lparr>RTTVAR := n\<rparr>) = writer_data c"
  "writer_data (c\<lparr>RTO := n\<rparr>) = writer_data c"
  "writer_data (c\<lparr>trans_result_code := r\<rparr>) = writer_data c"
  by (simp_all add: writer_data_def cong: option.case_cong)

lemma writer_ok_frame:
  "writer_ok D dlv (c\<lparr>status := s\<rparr>) = writer_ok D dlv c"
  "writer_ok D dlv (c\<lparr>connection_ID := i\<rparr>) = writer_ok D dlv c"
  "writer_ok D dlv (c\<lparr>running_count := n\<rparr>) = writer_ok D dlv c"
  "writer_ok D dlv (c\<lparr>try_time := n\<rparr>) = writer_ok D dlv c"
  "writer_ok D dlv (c\<lparr>left_window_cursor := n\<rparr>) = writer_ok D dlv c"
  "writer_ok D dlv (c\<lparr>SRTT := n\<rparr>) = writer_ok D dlv c"
  "writer_ok D dlv (c\<lparr>RTTVAR := n\<rparr>) = writer_ok D dlv c"
  by (simp_all add: writer_ok_def writer_wf_def RTO_ok_def)

interpretation snd_side: host_inv "writer_ok D dlv" "\<lambda>_. True" "forward_ok D" "\<lambda>_. True" "event_ok dlv" False
  for D dlv
  by unfold_locales (auto simp: writer_ok_def writer_wf_def RTO_ok_def)

lemma RTO_update_fields:
  "writer_data (set_connection_RTO tv t c) = writer_data c"
  "writer_data (set_connection_RTO_Double c) = writer_data c"
  "kind (set_connection_RTO tv t c) = kind c" "kind (set_connection_RTO_Double c) = kind c"
  "transmit_buf_length (set_connection_RTO tv t c) = transmit_buf_length c"
  "transmit_buf_length (set_connection_RTO_Double c) = transmit_buf_length c"
  "trans_message_node (set_connection_RTO tv t c) = trans_message_node c"
  "trans_message_node (set_connection_RTO_Double c) = trans_message_node c"
  "trans_result_code (set_connection_RTO tv t c) = trans_result_code c"
  "trans_result_code (set_connection_RTO_Double c) = trans_result_code c"
  by (simp_all add: set_connection_RTO_def set_connection_RTO_Double_def status_macro_defs
      status_set_def status_reset_def Let_def case_prod_beta)

lemma writer_ok_RTO:
  assumes "writer_ok D dlv c"
  shows "writer_ok D dlv (set_connection_RTO tv t c)" "writer_ok D dlv (set_connection_RTO_Double c)"
  using assms set_RTO_cases [of tv t c] set_RTO_Double_value [of c] rto_clamp_bounds
  by (auto simp: writer_ok_def writer_wf_def RTO_update_fields RTO_ok_def)

lemma writer_send_packet:
  assumes w: "sender_inv D dlv w" and c: "writer_ok D dlv c" and D: "transfer_size D"
    and h: "CONNECTION_FILL_HEADER t (connection_ID c) s (if seq = 0 then transmit_buf_length c else seq)
      (WriteCDR_new buf) = Some cdr"
    and f: "CONNECTION_FILL_DATA cdr seq c = Some cdr'"
    and len: "length buf = MAX_UDP_PACKET_SIZE"
    and seq: "\<not> transmit_buf_length c - 1 < seq"
    and t: "if seq = 0 then t = HDS_UDP_TRANS_SIMPLE_FILE_REQUIRE \<or> t = HDS_UDP_TRANS_SIMPLE_FILE_REQUIRE_DUPLICATE
            else t = HDS_UDP_TRANS_SIMPLE_FILE_DATA"
  shows "sender_inv D dlv (kernel_send (w_data cdr') (WriteCDR_length cdr') a l w)"
proof -
  note hd = fill_header_Some [OF h]
  have n: "unat (transmit_buf_length c) = length D"
    using c D by (simp add: writer_ok_def transfer_size_unat)
  then have "unat (transmit_buf_length c - 1) = length D - 1"
    using D unat_diff_of_nat [of 1 "transmit_buf_length c"] by (simp add: transfer_size_def Suc_le_eq)
  then have s: "unat seq < length D" using seq D by (cases D) (simp_all add: word_less_nat_alt transfer_size_def)
  have "w_pos cdr + 1452 \<le> length (w_data cdr)" using hd len by (simp add: WriteCDR_new_def)
  from fill_data_spec [of c seq cdr] this c s n obtain cdr2 where
    "CONNECTION_FILL_DATA cdr seq c = Some cdr2"
    "written cdr2 = written cdr @ chunk D (unat seq)" by (auto simp: writer_ok_def)
  with f hd have "written cdr' = header_bytes t (connection_ID c) s
      (if seq = 0 then transmit_buf_length c else seq) @ chunk D (unat seq)"
    by (simp add: written_def WriteCDR_new_def)
  then have "forward_ok D \<lparr>d_data = take (WriteCDR_length cdr') (w_data cdr'), d_addr = take (unat l) a\<rparr>"
    using t s c unfolding forward_ok_def
    by (intro exI [of _ t] exI [of _ "connection_ID c"] exI [of _ s]
          exI [of _ "if seq = 0 then transmit_buf_length c else seq"] exI [of _ "chunk D (unat seq)"])
       (auto simp: written_def WriteCDR_length_def writer_ok_def unat_gt_0)
  then show ?thesis by (intro kernel_send_inv w)
qed

lemma writer_do_send_inv:
  assumes "simple_writer_do_send con buf w = Some w'" "sender_inv D dlv w" "transfer_size D"
    and "length buf = MAX_UDP_PACKET_SIZE"
  shows "sender_inv D dlv w'"
proof -
  from assms(1) obtain c where c: "heap w con = Some c"
    by (auto simp: simple_writer_do_send_def bind_eq_Some_conv)
  have P: "writer_ok D dlv c" using world_inv_heap [OF assms(2) c] .
  let ?seq = "ucast (left_window_cursor c) :: u32"
  consider (stop) "test_connection_force_stop c = 1" | (over) "test_connection_force_stop c \<noteq> 1" "transmit_buf_length c - 1 < ?seq"
    | (go) "test_connection_force_stop c \<noteq> 1" "\<not> transmit_buf_length c - 1 < ?seq" by blast
  then show ?thesis
  proof cases
    case stop
    then show ?thesis using assms c snd_side.suspend_once_inv
      by (auto simp: simple_writer_do_send_def)
  next
    case over
    then show ?thesis using assms c by (simp add: simple_writer_do_send_def)
  next
    case go
    then obtain t w1 cdr cdr' w2 where
      t: "(if ?seq = 0 then do {
              (r, w) \<leftarrow> at con set_connection_status_has_send_require w;
              Some (if r = 0 then HDS_UDP_TRANS_SIMPLE_FILE_REQUIRE
                    else HDS_UDP_TRANS_SIMPLE_FILE_REQUIRE_DUPLICATE, w) }
            else Some (HDS_UDP_TRANS_SIMPLE_FILE_DATA, w)) = Some (t, w1)"
      and cdr: "CONNECTION_FILL_HEADER t (connection_ID c) (connection_clock (now w1))
           (if ?seq = 0 then transmit_buf_length c else ?seq) (WriteCDR_new buf) = Some cdr"
        "CONNECTION_FILL_DATA cdr ?seq c = Some cdr'"
      and w2: "upd con (\<lambda>c. c\<lparr>running_count := snd (post_increment (running_count c))\<rparr>)
         (kernel_send (w_data cdr') (WriteCDR_length cdr') (remote_addr c) (remote_addr_length c) w1) = Some w2"
        "add_to_timer_queue con (RTO c) Sender_Keeping_Timer None w2 = Some w'"
      using assms(1) c by (auto simp: simple_writer_do_send_def bind_eq_Some_conv Let_def)
    have w1: "sender_inv D dlv w1" and tt: "if ?seq = 0 then t = HDS_UDP_TRANS_SIMPLE_FILE_REQUIRE \<or> t = HDS_UDP_TRANS_SIMPLE_FILE_REQUIRE_DUPLICATE
            else t = HDS_UDP_TRANS_SIMPLE_FILE_DATA"
      using t assms(2)
      by (auto simp: bind_eq_Some_conv snd_side.status_ops split: if_splits dest: snd_side.at_status_inv)
    note k = writer_send_packet [OF w1 P assms(3) cdr assms(4) go(2) tt]
    have "sender_inv D dlv w2"
      by (rule upd_inv [OF w2(1) k]) (auto simp: writer_ok_frame)
    then show ?thesis using timer_queue_inv [OF w2(2)] by blast
  qed
qed


lemma writer_do_network_data_inv:
  assumes "simple_writer_do_network_data con t seq st rd rl r w = Some w'" "sender_inv D dlv w"
    "transfer_size D" and dlv: "length D \<le> unat seq \<Longrightarrow> dlv"
  shows "sender_inv D dlv w'"
proof -
  from assms(1) obtain w1 res w2 where
    w1: "upd con (\<lambda>c. c\<lparr>try_time := 0\<rparr>) w = Some w1"
    and w2: "at con (\<lambda>c. set_connection_left_window_cursor c seq) w1 = Some (res, w2)"
    and rest: "(if res = - 1 then Some w2
     else do {
       w \<leftarrow> upd con (\<lambda>c. c\<lparr>running_count := snd (post_increment (running_count c))\<rparr>) w2;
       c \<leftarrow> heap w con;
       if transmit_buf_length c - 1 < seq then do {
         w \<leftarrow> upd con (\<lambda>c. c\<lparr>trans_result_code := Some TRANS_SUCCESSFULLY\<rparr>) w;
         suspend_once con w }
       else do {
         w \<leftarrow> upd con (set_connection_RTO (now w) st) w;
         add_to_sender_queue con w } }) = Some w'"
    by (auto simp: simple_writer_do_network_data_def bind_eq_Some_conv)
  have i1: "sender_inv D dlv w1" by (rule upd_inv [OF w1 assms(2)]) (auto simp: writer_ok_frame)
  have i2: "sender_inv D dlv w2"
    by (rule at_inv [OF w2 i1]) (auto simp: set_lwc_eq writer_ok_frame)
  show ?thesis
  proof (cases "res = - 1")
    case False
    with rest obtain w3 c where
      w3: "upd con (\<lambda>c. c\<lparr>running_count := snd (post_increment (running_count c))\<rparr>) w2 = Some w3"
      and c: "heap w3 con = Some c"
      and rest2: "(if transmit_buf_length c - 1 < seq then do {
         w \<leftarrow> upd con (\<lambda>c. c\<lparr>trans_result_code := Some TRANS_SUCCESSFULLY\<rparr>) w3;
         suspend_once con w }
       else do {
         w \<leftarrow> upd con (set_connection_RTO (now w3) st) w3;
         add_to_sender_queue con w }) = Some w'"
      by (auto simp: bind_eq_Some_conv)
    have i3: "sender_inv D dlv w3" by (rule upd_inv [OF w3 i2]) (auto simp: writer_ok_frame)
    have n: "unat (transmit_buf_length c - 1) = length D - 1"
      using world_inv_heap [OF i3 c] assms(3) unat_diff_of_nat [of 1 "transmit_buf_length c"]
      by (simp add: writer_ok_def transfer_size_unat) (simp add: transfer_size_def Suc_le_eq)
    show ?thesis
    proof (cases "transmit_buf_length c - 1 < seq")
      case True
      then have d: dlv using n by (intro dlv) (simp add: word_less_nat_alt)
      from True rest2 obtain w4 where
        w4: "upd con (\<lambda>c. c\<lparr>trans_result_code := Some TRANS_SUCCESSFULLY\<rparr>) w3 = Some w4"
        and w': "suspend_once con w4 = Some w'" by (auto simp: bind_eq_Some_conv)
      have "sender_inv D dlv w4"
        by (rule upd_inv [OF w4 i3]) (auto simp: writer_ok_def writer_wf_def RTO_ok_def d)
      then show ?thesis using snd_side.suspend_once_inv [OF w'] by blast
    next
      case False
      with rest2 obtain w4 where w4: "upd con (set_connection_RTO (now w3) st) w3 = Some w4"
        and w': "add_to_sender_queue con w4 = Some w'" by (auto simp: bind_eq_Some_conv)
      have "sender_inv D dlv w4" by (rule upd_inv [OF w4 i3]) (auto intro: writer_ok_RTO)
      then show ?thesis using snd_side.sender_queue_inv [OF w'] by blast
    qed
  qed (use rest i2 in simp)
qed

lemma node_callbacks_inv:
  assumes "sender_inv D dlv w" "writer_ok D dlv c"
  shows "sender_inv D dlv (node_callbacks c ns w)"
  using assms
proof (induction ns arbitrary: w)
  case (Cons n ns)
  have "event_ok dlv (Send_Handler_Called h (source_data n) (source_data_length n) (remote_addr c) (trans_result_code c))" for h
    using Cons.prems(2) by (simp add: event_ok_def writer_ok_def)
  moreover have "event_ok dlv (Freed (source_data n))" by (simp add: event_ok_def)
  ultimately show ?case using Cons.prems
    by (auto simp: Let_def split: option.splits intro!: Cons.IH log_event_inv)
qed simp

lemma release_nodes_inv: "sender_inv D dlv w \<Longrightarrow> sender_inv D dlv (release_nodes ns w)"
proof (induction ns arbitrary: w)
  case (Cons n ns)
  show ?case by (simp, rule Cons.IH, rule log_event_inv [OF Cons.prems]) (simp add: event_ok_def)
qed simp

text \<open>The suspend timer of a writer: callbacks and releases, then the object goes.  Between
  cleaning and freeing the object no longer carries its data, so the two are taken together.\<close>

definition same_except :: "nat \<Rightarrow> world \<Rightarrow> world \<Rightarrow> bool" where
  "same_except con w w1 \<longleftrightarrow> (\<forall>a. a \<noteq> con \<longrightarrow> heap w1 a = heap w a) \<and> cid_array w1 = cid_array w \<and>
     next_addr w1 = next_addr w \<and> sent w1 = sent w \<and> processed w1 = processed w \<and> events w1 = events w"

lemma same_except_at: "at con f w = Some (r, w1) \<Longrightarrow> same_except con w w1"
  by (auto simp: at_def same_except_def Let_def case_prod_beta split: option.splits)

lemma same_except_upd: "upd con f w = Some w1 \<Longrightarrow> same_except con w w1"
  by (auto simp: upd_def same_except_def split: option.splits)

lemma same_except_trans: "same_except con w w1 \<Longrightarrow> same_except con w1 w2 \<Longrightarrow> same_except con w w2"
  by (simp add: same_except_def)

lemma same_except_wait_ack:
  "set_connection_out_recv_wait_ack_queue con i w = Some (j, w1) \<Longrightarrow> same_except con w w1"
  by (auto simp: set_connection_out_recv_wait_ack_queue_def bind_eq_Some_conv Let_def
      wait_ack_erase_def split: if_splits dest!: same_except_at) (simp add: same_except_def)

lemma free_connetcion_effect:
  assumes "free_connetcion con w = Some w'"
  shows "heap w' = (heap w)(con := None)" "cid_array w' = cid_array w" "next_addr w' = next_addr w"
    "sent w' = sent w" "processed w' = processed w" "events w' = events w"
proof -
  from assms obtain c w1 where step: "(if test_connection_type_reader c then do {
            (cid, w) \<leftarrow> set_connection_out_recv_wait_ack_queue con (connection_ID c) w;
            upd con (\<lambda>c. c\<lparr>connection_ID := cid\<rparr>) w }
          else Some w) = Some w1"
    and w': "w' = decrease_connection_type_count (kind c) (connection_free_memory con w1)"
    by (auto simp: free_connetcion_def bind_eq_Some_conv)
  have "same_except con w w"  by (simp add: same_except_def)
  then have "same_except con w w1"
    using step by (auto simp: bind_eq_Some_conv split: if_splits
        intro: same_except_trans [OF same_except_wait_ack same_except_upd])
  with w' show "heap w' = (heap w)(con := None)" "cid_array w' = cid_array w" "next_addr w' = next_addr w"
    "sent w' = sent w" "processed w' = processed w" "events w' = events w"
    by (auto simp: same_except_def connection_free_memory_def decrease_connection_type_count_def fun_eq_iff)
qed

lemma writer_clean_inv:
  assumes "writer_do_connection_sended_handle_and_clean_data con w = Some w'" "sender_inv D dlv w"
  shows "\<exists>w1. sender_inv D dlv w1 \<and>
    (w' = w1 \<or> (\<exists>c. w' = w1\<lparr>heap := (heap w1)(con := Some c)\<rparr>))"
proof -
  from assms(1) obtain c where c: "heap w con = Some c"
    by (auto simp: writer_do_connection_sended_handle_and_clean_data_def bind_eq_Some_conv)
  note P = world_inv_heap [OF assms(2) c]
  show ?thesis
  proof (cases "trans_message_node c = []")
    case True
    have ev: "event_ok dlv (Send_Handler_Called h b l a (trans_result_code c))" "event_ok dlv (Freed b)" for h b l a
      using P by (auto simp: event_ok_def writer_ok_def)
    have "sender_inv D dlv w'"
      using assms c True ev
      by (auto simp: writer_do_connection_sended_handle_and_clean_data_def Let_def
          split: option.splits if_splits intro!: log_event_inv)
    then show ?thesis by blast
  next
    case False
    let ?w1 = "release_nodes (trans_message_node c) (node_callbacks c (trans_message_node c) w)"
    have "sender_inv D dlv ?w1" by (intro release_nodes_inv node_callbacks_inv assms(2) P)
    moreover have "\<exists>c'. w' = ?w1\<lparr>heap := (heap ?w1)(con := Some c')\<rparr>"
      using assms(1) c False
      by (auto simp: writer_do_connection_sended_handle_and_clean_data_def upd_def split: option.splits)
    ultimately show ?thesis by blast
  qed
qed

lemma writer_clean_free_inv:
  assumes "writer_do_connection_sended_handle_and_clean_data con w = Some w1" "sender_inv D dlv w"
    "free_connetcion con (release_connection_ID i w1) = Some w'"
  shows "sender_inv D dlv w'"
proof -
  from writer_clean_inv [OF assms(1,2)] obtain w2 where i: "sender_inv D dlv w2"
    and e: "w1 = w2 \<or> (\<exists>c. w1 = w2\<lparr>heap := (heap w2)(con := Some c)\<rparr>)" by blast
  note f = free_connetcion_effect [OF assms(3)]
  have "heap w' = (heap w2)(con := None)" "sent w' = sent w2" "processed w' = processed w2"
    "events w' = events w2" "next_addr w' = next_addr w2"
    "\<And>off a. cid_array w' off = CID_CON a \<Longrightarrow> cid_array w2 off = CID_CON a"
    using f e by (auto simp: release_connection_ID_def split: if_splits)
  then show ?thesis using i unfolding world_inv_def by (metis fun_upd_apply option.distinct(1))
qed

lemma writer_do_time_out_inv:
  assumes "simple_writer_do_time_out con ty n x w = Some w'" "sender_inv D dlv w"
  shows "sender_inv D dlv w'"
proof (cases ty)
  case Connection_Suspend_Timer
  with assms(1) obtain r w1 where w1: "at con set_connection_trans_succ w = Some (r, w1)"
    and rest: "(if r = 0 then do {
         w \<leftarrow> writer_do_connection_sended_handle_and_clean_data con w1;
         c \<leftarrow> heap w con;
         free_connetcion con (release_connection_ID (connection_ID c) w) }
       else Some w1) = Some w'"
    by (auto simp: simple_writer_do_time_out_def bind_eq_Some_conv)
  have "sender_inv D dlv w1"
    using w1 assms(2) by (auto simp: snd_side.status_ops dest: snd_side.at_status_inv)
  with rest show ?thesis by (auto simp: bind_eq_Some_conv split: if_splits dest: writer_clean_free_inv)
next
  case Sender_Keeping_Timer
  with assms(1) obtain c where c: "heap w con = Some c"
    by (auto simp: simple_writer_do_time_out_def bind_eq_Some_conv)
  show ?thesis
  proof (cases "running_count c = n")
    case True
    let ?w0 = "w\<lparr>time_out_count := snd (post_increment (time_out_count w))\<rparr>"
    from True c Sender_Keeping_Timer assms(1) obtain t w1 where
      w1: "at con (\<lambda>c. let (r, v) = pre_increment (try_time c) in (r, c\<lparr>try_time := v\<rparr>)) ?w0 = Some (t, w1)"
      and rest: "(if t = HDS_UDP_CONNECTION_SEND_TRY_TIME then do {
           w \<leftarrow> upd con (\<lambda>c. c\<lparr>trans_result_code := Some TRANS_TIME_OUT\<rparr>) w1;
           suspend_once con w }
         else do {
           w \<leftarrow> upd con set_connection_RTO_Double w1;
           add_to_sender_queue con w }) = Some w'"
      by (auto simp: simple_writer_do_time_out_def bind_eq_Some_conv)
    have "sender_inv D dlv ?w0" using assms(2) by simp
    from at_inv [OF w1 this] have i1: "sender_inv D dlv w1"
      by (auto simp: case_prod_beta Let_def writer_ok_frame)
    show ?thesis
    proof (cases "t = HDS_UDP_CONNECTION_SEND_TRY_TIME")
      case True
      with rest obtain w2 where "upd con (\<lambda>c. c\<lparr>trans_result_code := Some TRANS_TIME_OUT\<rparr>) w1 = Some w2"
        "suspend_once con w2 = Some w'" by (auto simp: bind_eq_Some_conv)
      then show ?thesis using snd_side.set_fail_inv [OF _ i1] snd_side.suspend_once_inv by blast
    next
      case False
      with rest obtain w2 where w2: "upd con set_connection_RTO_Double w1 = Some w2"
        "add_to_sender_queue con w2 = Some w'" by (auto simp: bind_eq_Some_conv)
      have "sender_inv D dlv w2" by (rule upd_inv [OF w2(1) i1]) (auto intro: writer_ok_RTO)
      then show ?thesis using snd_side.sender_queue_inv w2(2) by blast
    qed
  qed (use assms c Sender_Keeping_Timer in \<open>simp add: simple_writer_do_time_out_def\<close>)
qed (use assms in \<open>simp_all add: simple_writer_do_time_out_def\<close>)


section \<open>Dispatch on the sending host\<close>

lemma sender_do_sender_inv:
  assumes "connection_do_sender (ops_with cplx) off buf w = Some w'" "sender_inv D dlv w"
    "transfer_size D" "length buf = MAX_UDP_PACKET_SIZE"
  shows "sender_inv D dlv w'"
proof (cases "cid_array w off")
  case (CID_CON con)
  with assms(1) obtain x w1 c w2 y w3 z w4 where
    s: "at con reset_connection_reback_sender w = Some (x, w1)" "heap w1 con = Some c"
      "do_send (ops_with cplx (kind c)) con buf w1 = Some w2"
      "at con reset_connection_in_sender w2 = Some (y, w3)"
      "at con reset_connection_reback_sender w3 = Some (z, w4)"
    and rest: "(if z = 1 then add_to_sender_queue con w4 else Some w4) = Some w'"
    by (auto simp: connection_do_sender_def bind_eq_Some_conv)
  have i1: "sender_inv D dlv w1" using s(1) assms(2)
    by (auto simp: snd_side.status_ops dest: snd_side.at_status_inv)
  then have "kind c = Simple_Writer" using world_inv_heap [OF i1 s(2)] by (simp add: writer_ok_def)
  with s(3) have "simple_writer_do_send con buf w1 = Some w2"
    by (simp add: ops_with_def simple_writer_ops_def)
  from writer_do_send_inv [OF this i1 assms(3,4)] have i4: "sender_inv D dlv w4"
    using s(4,5) by (auto simp: snd_side.status_ops dest: snd_side.at_status_inv)
  with rest show ?thesis by (auto split: if_splits dest: snd_side.sender_queue_inv)
qed (use assms in \<open>simp_all add: connection_do_sender_def\<close>)

lemma sender_time_out_inv:
  assumes "connection_do_time_out (ops_with cplx) parm w = Some w'" "sender_inv D dlv w"
  shows "sender_inv D dlv w'"
proof (cases "cid_array w (tp_connection_offset parm) = CID_NULL")
  case False
  with assms(1) obtain con c where c: "heap w con = Some c"
    and d: "do_time_out (ops_with cplx (kind c)) con (tp_timeout_type parm) (tp_running_count parm)
       (tp_extend_data parm) w = Some w'"
    by (cases "cid_array w (tp_connection_offset parm)")
       (auto simp: connection_do_time_out_def bind_eq_Some_conv Let_def)
  have "kind c = Simple_Writer" using world_inv_heap [OF assms(2) c] by (simp add: writer_ok_def)
  with d show ?thesis
    using writer_do_time_out_inv [OF _ assms(2)] by (simp add: ops_with_def simple_writer_ops_def)
qed (use assms in \<open>simp add: connection_do_time_out_def\<close>)

lemma sender_ack_inv:
  assumes "connection_do_network_data (ops_with cplx) HDS_UDP_TRANS_SIMPLE_FILE_ACK r w = Some w'"
    and h: "CONNECTION_UNFILL_HEADER (ReaderCDR_new (k_data r)) (k_data_length r) = Some h"
    and "sender_inv D dlv w" "transfer_size D" "length D \<le> unat (h_dt_note h) \<Longrightarrow> dlv"
  shows "sender_inv D dlv w'"
proof (cases "cid_array w (get_connection_offset (h_conID h))")
  case (CID_CON con)
  with assms(1) h obtain c where c: "heap w con = Some c"
    by (auto simp: connection_do_network_data_def bind_eq_Some_conv Let_def)
  have k: "kind c = Simple_Writer" using world_inv_heap [OF assms(3) c] by (simp add: writer_ok_def)
  show ?thesis
  proof (cases "ID32_0 (connection_ID c) = ID32_0 (h_conID h)")
    case True
    with assms(1) h CID_CON c k obtain w1 where
      w1: "(if h_dt_note h = HDS_UDP_PACKET_MAX_DATA_LENGTH
        then upd con (\<lambda>c. c\<lparr>connection_ID := CID (ID32_0 (connection_ID c)) (ID32_1 (h_conID h))\<rparr>) w
        else Some w) = Some w1"
      and d: "simple_writer_do_network_data con HDS_UDP_TRANS_SIMPLE_FILE_ACK (h_dt_note h) (h_send_time h)
        (h_recv_data h) (h_recv_data_length h) r w1 = Some w'"
      by (auto simp: connection_do_network_data_def bind_eq_Some_conv Let_def ops_with_def simple_writer_ops_def
          split: if_splits)
    have "sender_inv D dlv w1" using w1 assms(3) snd_side.set_ID_inv by (auto split: if_splits)
    from writer_do_network_data_inv [OF d this assms(4,5)] show ?thesis .
  qed (use assms h CID_CON c in \<open>simp add: connection_do_network_data_def Let_def\<close>)
qed (use assms h in \<open>simp_all add: connection_do_network_data_def Let_def\<close>)

lemma sender_filter_inv:
  assumes "filter_data (ops_with cplx) r w = Some w'" "receives r p" "backward_ok (length D) dlv p"
    "sender_inv D dlv w" "transfer_size D"
  shows "sender_inv D dlv w'"
proof -
  from assms(3) obtain t c s d where p: "d_data p = header_bytes t c s d @ []"
    and t: "t = HDS_UDP_TRANS_RESET \<or> t = HDS_UDP_TRANS_SIMPLE_FILE_REJECTED \<or>
      t = HDS_UDP_TRANS_SIMPLE_FILE_ACK \<and> (length D \<le> unat d \<longrightarrow> dlv)"
    by (auto simp: backward_ok_def)
  from receives_header [OF assms(2) p] obtain x h where
    x: "read_long (ReaderCDR_new (k_data r)) = Some (t, x)"
    and h: "CONNECTION_UNFILL_HEADER (ReaderCDR_new (k_data r)) (k_data_length r) = Some h" "h_dt_note h = d"
    by auto
  show ?thesis
    using t assms(1,4,5) x sender_ack_inv [OF _ h(1) assms(4,5)] h(2) snd_side.do_reset_inv
    by (auto simp: filter_data_def)
qed

end
