(* ===== verification/Transfer_Receiver.thy ===== *)
theory Transfer_Receiver
  imports Transfer_Sender
begin

unbundle bit_operations_syntax

text \<open>
  The receiving host of a simple transfer.  A reader's cursor counts whole packets, its buffer
  holds the transmitted data up to the cursor, and a cursor past the end means that the message
  has been delivered.  The lemmas show that every operation the receiving host can run keeps
  this invariant when the datagrams it receives are those of a faithful sender.
\<close>

section \<open>The receiving host\<close>

definition packets :: "u8 list \<Rightarrow> nat" where
  "packets D = (length D - 1) div HDS_UDP_PACKET_MAX_DATA_LENGTH + 1"

lemma packets_bound:
  assumes "transfer_size D"
  shows "packets D \<le> 17"
proof -
  have "length D - 1 \<le> 23231" using assms unfolding transfer_size_def by linarith
  then have "(length D - 1) div 1452 \<le> 23231 div 1452" by (rule div_le_mono)
  then show ?thesis by (simp add: packets_def)
qed

text \<open>A reader's cursor counts whole packets, and up to it the buffer holds the data.\<close>

definition reader_ok :: "u8 list \<Rightarrow> bool \<Rightarrow> connection \<Rightarrow> bool" where
  "reader_ok D dlv c \<longleftrightarrow> kind c = Simple_Reader \<and>
     unat (left_window_cursor c) = HDS_UDP_PACKET_MAX_DATA_LENGTH * unat (memcpy_count c) \<and>
     unat (memcpy_count c) \<le> packets D \<and>
     (0 < unat (left_window_cursor c) \<longrightarrow>
        (\<exists>buf. transmit_buf c = Some buf \<and>
           take (min (unat (left_window_cursor c)) (length D)) buf =
           take (min (unat (left_window_cursor c)) (length D)) D)) \<and>
     (length D \<le> unat (left_window_cursor c) \<longrightarrow> dlv)"

definition slot_ok :: "u8 list \<Rightarrow> connection \<Rightarrow> bool" where
  "slot_ok D c \<longleftrightarrow> transmit_buf_length c = of_nat (length D)"

definition message_ok :: "u8 list \<Rightarrow> Result_Process_Data \<Rightarrow> bool" where
  "message_ok D m \<longleftrightarrow> rp_data_length m = of_nat (length D) \<and> take (length D) (rp_data m) = D"

abbreviation receiver_pre :: "u8 list \<Rightarrow> bool \<Rightarrow> bool \<Rightarrow> world \<Rightarrow> bool" where
  "receiver_pre D dlv B \<equiv> world_inv (reader_ok D dlv) (slot_ok D) (backward_ok (length D) dlv)
     (message_ok D) (\<lambda>_. True) B"

interpretation rcv_side: host_inv "reader_ok D dlv" "slot_ok D" "backward_ok (length D) dlv"
  "message_ok D" "\<lambda>_. True" B for D dlv B
  by unfold_locales (auto simp: reader_ok_def slot_ok_def)

lemma receiver_mono: "receiver_pre D dlv B w \<Longrightarrow> receiver_pre D True B w"
  by (erule world_inv_mono) (auto simp: reader_ok_def backward_ok_def)

lemma reader_ok_weak:
  "reader_ok D True c \<Longrightarrow> \<not> length D \<le> unat (left_window_cursor c) \<Longrightarrow> reader_ok D B c"
  unfolding reader_ok_def by blast

lemma store_chunk:
  assumes "overwrite buf s (chunk D s) = Some buf'" "take s buf = take s D" "s < length D"
  shows "take (min (s + HDS_UDP_PACKET_MAX_DATA_LENGTH) (length D)) buf' =
    take (min (s + HDS_UDP_PACKET_MAX_DATA_LENGTH) (length D)) D"
proof -
  have l: "s + length (chunk D s) = min (s + 1452) (length D)" using assms(3) by (auto simp: chunk_def)
  from overwrite_take [OF assms(1)] have "take (min (s + 1452) (length D)) buf' = take s D @ chunk D s"
    by (simp add: l assms(2))
  also have "\<dots> = take (s + 1452) D" unfolding chunk_def by (simp add: take_add)
  also have "\<dots> = take (min (s + 1452) (length D)) D" by (simp add: min_def)
  finally show ?thesis .
qed

text \<open>The object after the packet its cursor waits for has been stored.\<close>

lemma reader_store_ok:
  assumes c: "reader_ok D dlv c" and seq: "left_window_cursor c = ucast seq" and s: "unat seq < length D"
    and D: "transfer_size D"
    and st: "store_payload seq (chunk D (unat seq) @ junk) (int (length (chunk D (unat seq))))
      (c\<lparr>running_count := r, left_window_cursor := ucast (seq + HDS_UDP_PACKET_MAX_DATA_LENGTH)\<rparr>) = Some c'"
  shows "reader_ok D True c'" "unat (left_window_cursor c') = unat seq + HDS_UDP_PACKET_MAX_DATA_LENGTH"
    "\<exists>buf. transmit_buf c' = Some buf"
    "memcpy_count c' = memcpy_count c + 1" "status c' = status c" "transmit_buf_length c' = transmit_buf_length c"
    "unat (memcpy_count c') = unat seq div HDS_UDP_PACKET_MAX_DATA_LENGTH + 1"
proof -
  from st obtain buf buf' where b: "transmit_buf c = Some buf"
    and o: "overwrite buf (unat seq) (chunk D (unat seq)) = Some buf'"
    and c': "c' = c\<lparr>running_count := r, left_window_cursor := ucast (seq + HDS_UDP_PACKET_MAX_DATA_LENGTH),
      transmit_buf := Some buf', memcpy_count := memcpy_count c + 1\<rparr>"
    by (auto simp: store_payload_def bind_eq_Some_conv post_increment_def)
  have cur: "unat (left_window_cursor c) = unat seq" by (simp add: seq)
  have "unat seq \<le> 23232" using s D by (simp add: transfer_size_def)
  then have "unat (seq + 1452) = unat seq + 1452" by (subst unat_add_lem [THEN iffD1]) auto
  then show cur': "unat (left_window_cursor c') = unat seq + HDS_UDP_PACKET_MAX_DATA_LENGTH"
    by (simp add: c')
  have m: "unat seq = 1452 * unat (memcpy_count c)" "unat (memcpy_count c) \<le> packets D"
    using c cur by (auto simp: reader_ok_def)
  have pk: "packets D \<le> 17" using packets_bound [OF D] .
  have m': "unat (memcpy_count c + 1) = unat (memcpy_count c) + 1"
    using m pk by (subst unat_add_lem [THEN iffD1]) auto
  have "unat (memcpy_count c) = unat seq div 1452" using m by simp
  with m' show "unat (memcpy_count c') = unat seq div HDS_UDP_PACKET_MAX_DATA_LENGTH + 1" by (simp add: c')
  have le: "unat (memcpy_count c) + 1 \<le> packets D"
    using s m(1) unfolding packets_def by (simp add: less_eq_div_iff_mult_less_eq)
  have pre: "take (unat seq) buf = take (unat seq) D"
    using c cur b s by (cases "unat seq = 0") (auto simp: reader_ok_def min_def)
  show "reader_ok D True c'"
    using c cur' m m' le store_chunk [OF o pre s] by (simp add: reader_ok_def c')
  show "\<exists>buf. transmit_buf c' = Some buf" "memcpy_count c' = memcpy_count c + 1" "status c' = status c"
    "transmit_buf_length c' = transmit_buf_length c" by (simp_all add: c')
qed


lemma upd_Some: "heap w a = Some c \<Longrightarrow> upd a f w = Some (w\<lparr>heap := (heap w)(a := Some (f c))\<rparr>)"
  by (simp add: upd_def)

lemma at_Some: "heap w a = Some c \<Longrightarrow> at a f w = Some (fst (f c), w\<lparr>heap := (heap w)(a := Some (snd (f c)))\<rparr>)"
  by (simp add: at_def case_prod_beta Let_def)

lemma heap_put_inv:
  assumes "world_inv P Q S M E B w" "heap w a = Some c" "P c'" "Q c \<Longrightarrow> Q c'"
  shows "world_inv P Q S M E B (w\<lparr>heap := (heap w)(a := Some c')\<rparr>)"
  using assms by (auto simp: world_inv_def)

lemma reader_cursor_u32:
  assumes "reader_ok D dlv c" "transfer_size D"
  shows "unat (ucast (left_window_cursor c) :: u32) = unat (left_window_cursor c)"
proof -
  have "unat (left_window_cursor c) \<le> 1452 * 17"
    using assms packets_bound [of D] by (auto simp: reader_ok_def)
  then show ?thesis by (simp add: unsigned_ucast_eq take_bit_nat_eq_self)
qed

lemma reply_ack_inv:
  assumes "reply_header HDS_UDP_TRANS_SIMPLE_FILE_ACK i st (ucast (left_window_cursor c)) r a l w = Some w'"
    "receiver_pre D B B w" "heap w con = Some c" "transfer_size D"
  shows "receiver_pre D B B w'"
proof (rule reply_header_inv [OF assms(1,2)])
  have c: "reader_ok D B c" using world_inv_heap [OF assms(2,3)] .
  show "backward_ok (length D) B \<lparr>d_data = header_bytes HDS_UDP_TRANS_SIMPLE_FILE_ACK i st
      (ucast (left_window_cursor c)), d_addr = take (unat l) a\<rparr>"
    unfolding backward_ok_def
    using reader_cursor_u32 [OF c assms(4)] c
    by (intro exI [of _ HDS_UDP_TRANS_SIMPLE_FILE_ACK] exI [of _ i] exI [of _ st]
        exI [of _ "ucast (left_window_cursor c)"]) (simp add: reader_ok_def)
qed

lemma reply_reset_inv:
  assumes "reply_header t i st d r a l w = Some w'" "receiver_pre D dlv B w"
    "t = HDS_UDP_TRANS_RESET \<or> t = HDS_UDP_TRANS_SIMPLE_FILE_REJECTED"
  shows "receiver_pre D dlv B w'"
  by (rule reply_header_inv [OF assms(1,2)]) (use assms(3) in \<open>auto simp: backward_ok_def\<close>)

text \<open>Delivery happens exactly when the last packet has been stored.\<close>

lemma deliver_inv:
  assumes step: "simple_reader_deliver con r w = Some w'"
    and inv: "receiver_pre D True B w" and c: "heap w con = Some c"
    and cok: "reader_ok D True c" "slot_ok D c" and D: "transfer_size D"
    and cur: "unat (left_window_cursor c) = unat seq + HDS_UDP_PACKET_MAX_DATA_LENGTH"
    and cnt: "unat (memcpy_count c) = unat (seq::u32) div HDS_UDP_PACKET_MAX_DATA_LENGTH + 1"
    and nb: "\<not> bit (status c) 0" and s: "unat seq < length D"
  shows "if length D \<le> unat seq + HDS_UDP_PACKET_MAX_DATA_LENGTH
    then receiver_pre D True True w' \<and> (\<exists>c'. heap w' con = Some c' \<and> left_window_cursor c' = left_window_cursor c)
    else w' = w"
proof -
  have len: "unat (transmit_buf_length c) = length D" using cok(2) D by (simp add: slot_ok_def transfer_size_unat)
  then have l1: "unat (transmit_buf_length c - 1) = length D - 1"
    using D unat_diff_of_nat [of 1 "transmit_buf_length c"] by (simp add: transfer_size_def Suc_le_eq)
  have g1: "ucast (transmit_buf_length c - 1) < left_window_cursor c \<longleftrightarrow> length D \<le> unat seq + 1452"
    using l1 cur D by (auto simp: word_less_nat_alt transfer_size_def)
  show ?thesis
  proof (cases "length D \<le> unat seq + 1452")
    case False
    then have "\<not> ucast (transmit_buf_length c - 1) < left_window_cursor c" using g1 by simp
    then show ?thesis using step c False by (simp add: simple_reader_deliver_def)
  next
    case True
    have mult: "unat seq = 1452 * (unat seq div 1452)" using cok(1) cur cnt by (simp add: reader_ok_def)
    have q: "(length D - 1) div 1452 = unat seq div 1452"
    proof (rule div_nat_eqI)
      show "1452 * (unat seq div 1452) \<le> length D - 1" using mult s by linarith
      show "length D - 1 < 1452 * Suc (unat seq div 1452)"
        using mult s True by (simp only: mult_Suc_right)
    qed
    have "unat ((transmit_buf_length c - 1) div 1452) = (length D - 1) div 1452"
      by (simp add: unat_div l1)
    moreover have "(length D - 1) div 1452 \<le> 16" using packets_bound [OF D] by (simp add: packets_def)
    ultimately have "unat ((transmit_buf_length c - 1) div 1452 + 1) = (length D - 1) div 1452 + 1"
      by (subst unat_add_lem [THEN iffD1]) auto
    then have g2: "memcpy_count c = ucast ((transmit_buf_length c - 1) div HDS_UDP_PACKET_MAX_DATA_LENGTH + 1)"
      using cnt q unfolding word_unat_eq_iff by simp
    obtain buf where b: "transmit_buf c = Some buf" "take (length D) buf = D"
      using cok(1) cur True by (auto simp: reader_ok_def min_def split: if_splits)
    let ?c' = "(snd (set_connection_trans_succ c))\<lparr>trans_result_code := Some TRANS_SUCCESSFULLY\<rparr>"
    let ?m = "\<lparr>rp_remote_addr = k_remote_addr r, rp_remote_addr_length = k_remote_addr_length r,
           rp_data_length = transmit_buf_length c, rp_buf_type = recv_buf_type c, rp_data = buf\<rparr>"
    have w': "w' = push_msg ?m (w\<lparr>heap := (heap w)(con := Some ?c')\<rparr>)"
      using step c b nb g1 g2 True
      by (simp add: simple_reader_deliver_def at_Some upd_Some status_macro_defs status_set_def
          case_prod_beta)
    have i: "receiver_pre D True B (w\<lparr>heap := (heap w)(con := Some ?c')\<rparr>)"
      using cok by (intro heap_put_inv [OF inv c])
        (auto simp: reader_ok_def slot_ok_def status_macro_defs status_set_def case_prod_beta)
    have m: "message_ok D ?m" using b cok(2) by (simp add: message_ok_def slot_ok_def)
    have "receiver_pre D True True w'"
      using push_msg_inv [OF i m] unfolding w' by (simp add: world_inv_def push_msg_def)
    moreover have "heap w' con = Some ?c'" by (simp add: w' push_msg_def)
    moreover have "left_window_cursor ?c' = left_window_cursor c"
      by (simp add: status_macro_defs status_set_def case_prod_beta)
    ultimately show ?thesis using True by auto
  qed
qed


lemma reader_network_inv:
  assumes step: "simple_reader_do_network_data con t seq st (chunk D (unat seq) @ junk)
      (int (length (chunk D (unat seq)))) r w = Some w'"
    and inv: "receiver_pre D B B w" and c: "heap w con = Some c" and sl: "slot_ok D c"
    and D: "transfer_size D" and s: "unat seq < length D"
  shows "\<exists>B'. (B \<longrightarrow> B') \<and> receiver_pre D B' B' w'"
proof -
  note P = world_inv_heap [OF inv c]
  show ?thesis
  proof (cases "test_connection_force_stop c = 1 \<or> test_connection_trans_succ c = 1")
    case True
    with step c consider
      "reply_header HDS_UDP_TRANS_SIMPLE_FILE_ACK (connection_ID c) st (ucast (left_window_cursor c)) r
         (remote_addr c) (remote_addr_length c) w = Some w'"
      | "reply_header HDS_UDP_TRANS_RESET (connection_ID c) st seq r (remote_addr c) (remote_addr_length c) w = Some w'"
      by (auto simp: simple_reader_do_network_data_def split: if_splits)
    then show ?thesis
    proof cases
      case 1
      from reply_ack_inv [OF 1 inv c D] show ?thesis by blast
    next
      case 2
      from reply_reset_inv [OF 2 inv] show ?thesis by auto
    qed
  next
    case False
    let ?r = "snd (post_increment (running_count c))"
    show ?thesis
    proof (cases "left_window_cursor c = ucast seq")
      case other: False
      let ?c = "c\<lparr>running_count := ?r\<rparr>"
      let ?w = "w\<lparr>heap := (heap w)(con := Some ?c)\<rparr>"
      have i: "receiver_pre D B B ?w"
        using P by (intro heap_put_inv [OF inv c]) (auto simp: reader_ok_def slot_ok_def)
      have "reply_header HDS_UDP_TRANS_SIMPLE_FILE_ACK (connection_ID ?c) st (ucast (left_window_cursor ?c)) r
         (remote_addr ?c) (remote_addr_length ?c) ?w = Some w'"
        using step c False other
        by (simp add: simple_reader_do_network_data_def upd_Some at_Some CompareExchange_def)
      from reply_ack_inv [OF this i, of con] D show ?thesis by auto
    next
      case eq: True
      let ?c1 = "c\<lparr>running_count := ?r, left_window_cursor := ucast (seq + HDS_UDP_PACKET_MAX_DATA_LENGTH)\<rparr>"
      from step c False eq obtain c' w2 c2 where
        st: "store_payload seq (chunk D (unat seq) @ junk) (int (length (chunk D (unat seq)))) ?c1 = Some c'"
        and dl: "simple_reader_deliver con r (w\<lparr>heap := (heap w)(con := Some c')\<rparr>) = Some w2"
        and c2: "heap w2 con = Some c2"
        and rp: "reply_header HDS_UDP_TRANS_SIMPLE_FILE_ACK (connection_ID c2) st (ucast (left_window_cursor c2)) r
           (remote_addr c2) (remote_addr_length c2) w2 = Some w'"
        by (auto simp: simple_reader_do_network_data_def upd_Some at_Some CompareExchange_def
            bind_eq_Some_conv)
      note so = reader_store_ok [OF P eq s D st]
      let ?w1 = "w\<lparr>heap := (heap w)(con := Some c')\<rparr>"
      have i1: "receiver_pre D True B ?w1"
        using so sl by (intro heap_put_inv [OF receiver_mono [OF inv] c]) (auto simp: slot_ok_def)
      have nb: "\<not> bit (status c') 0"
        using False so(5) by (auto simp: status_macro_defs status_test_def BitTest_eq split: if_splits)
      have dv: "if length D \<le> unat seq + HDS_UDP_PACKET_MAX_DATA_LENGTH
        then receiver_pre D True True w2 \<and> (\<exists>c2. heap w2 con = Some c2 \<and> left_window_cursor c2 = left_window_cursor c')
        else w2 = ?w1"
        by (rule deliver_inv [OF dl i1]) (use so sl D nb s in \<open>auto simp: slot_ok_def\<close>)
      show ?thesis
      proof (cases "length D \<le> unat seq + HDS_UDP_PACKET_MAX_DATA_LENGTH")
        case True
        with dv have "receiver_pre D True True w2" by simp
        from reply_ack_inv [OF rp this c2 D] show ?thesis by blast
      next
        case no: False
        have "reader_ok D B c'" by (rule reader_ok_weak [OF so(1)]) (use so(2) no in simp)
        then have "receiver_pre D B B ?w1"
          using sl so(6) by (intro heap_put_inv [OF inv c]) (auto simp: slot_ok_def)
        with dv no have "receiver_pre D B B w2" by simp
        from reply_ack_inv [OF rp this c2 D] show ?thesis by blast
      qed
    qed
  qed
qed


section \<open>Opening a reader\<close>

definition fresh_reader :: "u8 list \<Rightarrow> nat \<Rightarrow> world \<Rightarrow> bool" where
  "fresh_reader D con w \<longleftrightarrow> (\<exists>c. heap w con = Some c \<and> left_window_cursor c = 0 \<and> slot_ok D c)"

lemma fresh_put:
  assumes "receiver_pre D B B w" "fresh_reader D con w"
    and f: "\<And>c. kind (f c) = kind c \<and> left_window_cursor (f c) = left_window_cursor c \<and>
      memcpy_count (f c) = memcpy_count c \<and> transmit_buf_length (f c) = transmit_buf_length c"
    and c: "heap w con = Some c"
  shows "receiver_pre D B B (w\<lparr>heap := (heap w)(con := Some (f c))\<rparr>) \<and>
    fresh_reader D con (w\<lparr>heap := (heap w)(con := Some (f c))\<rparr>)"
proof -
  have p: "reader_ok D B c" "left_window_cursor c = 0" "slot_ok D c"
    using world_inv_heap [OF assms(1) c] assms(2) c by (auto simp: fresh_reader_def)
  then have "reader_ok D B (f c)" "slot_ok D (f c)" using f [of c] by (auto simp: reader_ok_def slot_ok_def)
  then show ?thesis
    using heap_put_inv [OF assms(1) c, of "f c"] p(2) f [of c] by (auto simp: fresh_reader_def)
qed

lemma fresh_upd:
  assumes "upd con f w = Some w'" "receiver_pre D B B w" "fresh_reader D con w"
    and "\<And>c. kind (f c) = kind c \<and> left_window_cursor (f c) = left_window_cursor c \<and>
      memcpy_count (f c) = memcpy_count c \<and> transmit_buf_length (f c) = transmit_buf_length c"
  shows "receiver_pre D B B w' \<and> fresh_reader D con w'"
  using fresh_put [OF assms(2,3,4)] assms(1) by (auto simp: upd_def split: option.splits)

lemma fresh_at_status:
  assumes "at con f w = Some (r, w')" "receiver_pre D B B w" "fresh_reader D con w"
    and "(\<exists>n. f = status_set n) \<or> (\<exists>n. f = status_reset n)"
  shows "receiver_pre D B B w' \<and> fresh_reader D con w'"
proof -
  have "kind (snd (f c)) = kind c \<and> left_window_cursor (snd (f c)) = left_window_cursor c \<and>
      memcpy_count (snd (f c)) = memcpy_count c \<and> transmit_buf_length (snd (f c)) = transmit_buf_length c" for c
    using assms(4) by (auto simp: status_set_def status_reset_def case_prod_beta)
  from fresh_put [OF assms(2,3), of "\<lambda>c. snd (f c)", OF this] assms(1) show ?thesis
    by (auto simp: at_def case_prod_beta Let_def split: option.splits)
qed

lemma fresh_create_ID:
  assumes "create_connectionID con w = Some (r, w')" "receiver_pre D B B w" "fresh_reader D con w"
  shows "receiver_pre D B B w' \<and> fresh_reader D con w'"
proof -
  let ?off = "fst (post_increment (cid_array_offset w))"
  let ?w1 = "w\<lparr>cid_array_offset := snd (CompareExchange (snd (post_increment (cid_array_offset w))) 1
     HDS_UDP_MAX_CONNECTION_COUNT)\<rparr>"
  from assms(3) obtain c where c: "heap w con = Some c" "slot_ok D c" by (auto simp: fresh_reader_def)
  then have lt: "con < next_addr w" using assms(2) by (auto simp: world_inv_def)
  show ?thesis
  proof (cases "cid_array w (unat ?off) = CID_NULL")
    case False
    then have "w' = ?w1" using assms(1)
      by (auto simp: create_connectionID_def Let_def CompareExchange_def case_prod_beta split: if_splits)
    then show ?thesis using assms by (simp add: fresh_reader_def)
  next
    case True
    let ?w2 = "?w1\<lparr>cid_array := (cid_array w)(unat ?off := CID_CON con),
       verification_actor := snd (post_increment (verification_actor w))\<rparr>"
    obtain i where u: "upd con (\<lambda>c. c\<lparr>connection_ID := CID i (ID32_1 (connection_ID c))\<rparr>) ?w2 = Some w'"
      using assms(1) True
      by (auto simp: create_connectionID_def Let_def CompareExchange_def case_prod_beta bind_eq_Some_conv
          split: if_splits)
    have "receiver_pre D B B ?w2" using assms(2) c lt by (auto simp: world_inv_def)
    moreover have "fresh_reader D con ?w2" using assms(3) by (simp add: fresh_reader_def)
    ultimately show ?thesis using fresh_upd [OF u] by simp
  qed
qed

lemma fresh_verification:
  assumes "apply_verification con h r w = Some (ok, w')" "receiver_pre D B B w" "fresh_reader D con w"
  shows "receiver_pre D B B w' \<and> fresh_reader D con w'"
proof (cases "recv_verification_func w")
  case (Some f)
  from assms(3) obtain c where c: "heap w con = Some c" by (auto simp: fresh_reader_def)
  define a where "a = f (h_recv_data h) (h_recv_data_length h) (transmit_buf_length c) (connection_ID c) (k_remote_addr r)"
  let ?f1 = "\<lambda>b c. c\<lparr>transmit_buf := Some b,
             recv_buf_type := Some (if va_recv_buf_type a = Verification_Recv_Buf_Type_Manual_Manger
               then USER_SPACE_NO_DEL else USER_SPACE_DEL)\<rparr>"
  let ?f2 = "\<lambda>c. c\<lparr>recv_failed_handle := va_recv_failed_func a\<rparr>"
  have e: "apply_verification con h r w =
    (if va_recv_type a = Verification_Recv_Type_No_Recv then Some (False, w)
     else do {
       w \<leftarrow> (case va_recv_buf a of None \<Rightarrow> Some w | Some b \<Rightarrow> upd con (?f1 b) w);
       w \<leftarrow> upd con ?f2 w;
       Some (True, w) })"
    by (simp add: apply_verification_def Some c Let_def a_def)
  show ?thesis
  proof (cases "va_recv_type a = Verification_Recv_Type_No_Recv")
    case False
    with assms(1) obtain w1 where
      w1: "(case va_recv_buf a of None \<Rightarrow> Some w | Some b \<Rightarrow> upd con (?f1 b) w) = Some w1"
      and w': "upd con ?f2 w1 = Some w'"
      unfolding e by (auto simp: bind_eq_Some_conv)
    have i: "receiver_pre D B B w1 \<and> fresh_reader D con w1"
    proof (cases "va_recv_buf a")
      case (Some b)
      then have "upd con (?f1 b) w = Some w1" using w1 by simp
      from fresh_upd [OF this assms(2,3)] show ?thesis by simp
    qed (use w1 assms in simp)
    show ?thesis by (rule fresh_upd [OF w']) (use i in auto)
  qed (use assms e in auto)
qed (use assms in \<open>simp add: apply_verification_def\<close>)

lemma fresh_provide:
  assumes "provide_buffer con w = Some (ok, w')" "receiver_pre D B B w" "fresh_reader D con w"
  shows "receiver_pre D B B w' \<and> fresh_reader D con w'"
proof -
  let ?f = "\<lambda>b c. c\<lparr>transmit_buf := Some b,
    recv_buf_type := Some (if HDS_BUFFER_POOL_MAX_CTL_SIZE < transmit_buf_length c
      then MALLOC_SPACE_DEL else POOL_SPACE)\<rparr>"
  from assms(1) consider "w' = w" | b where "upd con (?f b) w = Some w'"
    by (auto simp: provide_buffer_def bind_eq_Some_conv split: option.splits)
  then show ?thesis
  proof cases
    case (2 b)
    from fresh_upd [OF 2 assms(2,3)] show ?thesis by simp
  qed (use assms in simp)
qed

lemma recv_reject_inv:
  assumes "recv_reject HDS_UDP_TRANS_SIMPLE_FILE_REQUIRE con st r w = Some w'" "receiver_pre D B B w"
  shows "receiver_pre D B B w'"
proof -
  from assms(1) obtain c :: connection where
    r: "reply_header HDS_UDP_TRANS_SIMPLE_FILE_REJECTED (connection_ID c) st st r (k_remote_addr r)
       (k_remote_addr_length r) (decrease_connection_type_count (kind c)
         (connection_free_memory con (release_connection_ID (connection_ID c) w))) = Some w'"
    by (simp add: recv_reject_def bind_eq_Some_conv Let_def) blast
  show ?thesis
    by (rule reply_reset_inv [OF r]) (simp_all add: type_count_inv free_memory_inv slot_inv assms(2))
qed

lemma alloc_reader_inv:
  assumes m: "malloc_connection Simple_Reader w = Some (con, w0)" and inv: "receiver_pre D B B w"
    and a: "at con set_connection_type_reader (increase_connection_type_count Simple_Reader w0) = Some (x, w1)"
    and u: "upd con (\<lambda>c. c\<lparr>connection_ID := i, transmit_buf_length := of_nat (length D)\<rparr>) w1 = Some w2"
    and D: "transfer_size D"
  shows "receiver_pre D B B w2 \<and> fresh_reader D con w2"
proof -
  let ?c = "(snd (set_connection_type_reader (construct Simple_Reader)))
    \<lparr>connection_ID := i, transmit_buf_length := of_nat (length D)\<rparr>"
  have con: "con = next_addr w" and
    w2: "w2 = (increase_connection_type_count Simple_Reader
      (w\<lparr>heap := (heap w)(con := Some ?c), next_addr := con + 1\<rparr>))"
    using m a u by (auto simp: malloc_connection_def at_def upd_def increase_connection_type_count_def
        Let_def case_prod_beta split: if_splits)
  have "reader_ok D B ?c" "slot_ok D ?c" "left_window_cursor ?c = 0"
    using D by (auto simp: reader_ok_def slot_ok_def construct_def zeroed_def status_macro_defs
        status_reset_def case_prod_beta transfer_size_def)
  moreover have "receiver_pre D B B (w\<lparr>heap := (heap w)(con := Some ?c), next_addr := con + 1\<rparr>)"
    using inv calculation(1,2) con by (fastforce simp: world_inv_def)
  ultimately show ?thesis
    unfolding w2 by (simp add: type_count_inv) (simp add: fresh_reader_def increase_connection_type_count_def)
qed


lemma recver_register_inv:
  assumes "recver_register con h r w = Some w'" "receiver_pre D B B w" "fresh_reader D con w"
  shows "receiver_pre D B B w' \<and> fresh_reader D con w'"
proof -
  from assms(1) obtain w1 n w2 y where
    w1: "upd con (\<lambda>c. c\<lparr>require_duplicate_label := ID32_0 (h_conID h)\<rparr>) w = Some w1"
    and w2: "upd con (\<lambda>c. c\<lparr>remote_addr := k_remote_addr r, remote_addr_length := k_remote_addr_length r\<rparr>)
         (wait_ack_insert (h_conID h) n w1) = Some w2"
    and w3: "at con set_reader_connection_status_recv_wait_ack_queue w2 = Some (y, w')"
    by (auto simp: recver_register_def bind_eq_Some_conv Let_def)
  have i1: "receiver_pre D B B w1" "fresh_reader D con w1" using fresh_upd [OF w1 assms(2,3)] by auto
  then have "receiver_pre D B B (wait_ack_insert (h_conID h) n w1)"
    "fresh_reader D con (wait_ack_insert (h_conID h) n w1)"
    by (auto simp: wait_ack_inv fresh_reader_def wait_ack_insert_def)
  from fresh_upd [OF w2 this] have i2: "receiver_pre D B B w2" "fresh_reader D con w2" by auto
  show ?thesis using fresh_at_status [OF w3 i2] by (auto simp: rcv_side.status_ops)
qed

lemma recver_accept_inv:
  assumes step: "recver_accept (ops_with cplx) Simple_Reader HDS_UDP_TRANS_SIMPLE_FILE_REQUIRE con h r w = Some w'"
    and inv: "receiver_pre D B B w" "fresh_reader D con w" and D: "transfer_size D"
    and hd: "h_recv_data h = chunk D 0 @ junk" "h_recv_data_length h = int (length (chunk D 0))"
  shows "\<exists>B'. (B \<longrightarrow> B') \<and> receiver_pre D B' B' w'"
proof -
  from step obtain ok w1 where w1: "apply_verification con h r w = Some (ok, w1)"
    and rest: "(if \<not> ok then recv_reject HDS_UDP_TRANS_SIMPLE_FILE_REQUIRE con (h_send_time h) r w1
     else do {
       (ok, w) \<leftarrow> provide_buffer con w1;
       if \<not> ok then recv_reject HDS_UDP_TRANS_SIMPLE_FILE_REQUIRE con (h_send_time h) r w
       else recver_run (ops_with cplx) Simple_Reader HDS_UDP_TRANS_SIMPLE_FILE_REQUIRE con h r w }) = Some w'"
    by (auto simp: recver_accept_def bind_eq_Some_conv)
  note i1 = fresh_verification [OF w1 inv]
  from rest consider (reject) w2 where "recv_reject HDS_UDP_TRANS_SIMPLE_FILE_REQUIRE con (h_send_time h) r w2 = Some w'"
      "receiver_pre D B B w2"
    | (run) w2 where "recver_run (ops_with cplx) Simple_Reader HDS_UDP_TRANS_SIMPLE_FILE_REQUIRE con h r w2 = Some w'"
      "receiver_pre D B B w2" "fresh_reader D con w2"
    using i1 fresh_provide [where w = w1 and con = con and D = D and B = B]
    by (auto simp: bind_eq_Some_conv split: if_splits)
  then show ?thesis
  proof cases
    case reject
    from recv_reject_inv [OF reject] show ?thesis by blast
  next
    case run
    from run(1) obtain w3 where
      w3: "simple_reader_do_network_data con HDS_UDP_TRANS_SIMPLE_FILE_REQUIRE 0 (h_send_time h)
            (chunk D (unat (0::u32)) @ junk) (int (length (chunk D (unat (0::u32))))) r w2 = Some w3"
      and w': "add_to_timer_queue con HDS_UDP_CONNECTION_RECV_CHECK_DEAD_TIME
                    Recver_Check_Dead_Timer None w3 = Some w'"
      by (auto simp: recver_run_def bind_eq_Some_conv hd ops_with_def simple_reader_ops_def)
    from run(3) obtain c where c: "heap w2 con = Some c" "slot_ok D c" by (auto simp: fresh_reader_def)
    have "unat (0::u32) < length D" using D by (simp add: transfer_size_def)
    from reader_network_inv [OF w3 run(2) c D this] obtain B' where
      b: "B \<longrightarrow> B'" "receiver_pre D B' B' w3" by blast
    from timer_queue_inv [OF w' b(2)] b(1) show ?thesis by blast
  qed
qed

lemma start_recver_inv:
  assumes step: "start_recver (ops_with cplx) HDS_UDP_TRANS_SIMPLE_FILE_REQUIRE r w = Some w'"
    and inv: "receiver_pre D B B w" and D: "transfer_size D"
    and h: "CONNECTION_UNFILL_HEADER (ReaderCDR_new (k_data r)) (k_data_length r) = Some h"
    and hd: "h_dt_note h = of_nat (length D)" "h_recv_data h = chunk D 0 @ junk"
      "h_recv_data_length h = int (length (chunk D 0))"
  shows "\<exists>B'. (B \<longrightarrow> B') \<and> receiver_pre D B' B' w'"
proof (cases "malloc_connection Simple_Reader w")
  case None
  with step inv show ?thesis by (auto simp: start_recver_def)
next
  case (Some p)
  obtain con w0 where p: "p = (con, w0)" by fastforce
  have nz: "\<not> h_dt_note h \<le> 0"
    using D hd(1) transfer_size_unat [OF D] by (auto simp: transfer_size_def)
  from step Some p h nz obtain x w1 w2 res w3 where
    w1: "at con set_connection_type_reader (increase_connection_type_count Simple_Reader w0) = Some (x, w1)"
    and w2: "upd con (\<lambda>c. c\<lparr>connection_ID := h_conID h, transmit_buf_length := h_dt_note h\<rparr>) w1 = Some w2"
    and w3: "create_connectionID con w2 = Some (res, w3)"
    and rest: "(if res = - 1 then do {
              w \<leftarrow> upd con (\<lambda>c. c\<lparr>connection_ID := CID_zero\<rparr>) w3;
              recv_reject HDS_UDP_TRANS_SIMPLE_FILE_REQUIRE con (h_send_time h) r w }
            else do {
              w \<leftarrow> recver_register con h r w3;
              recver_accept (ops_with cplx) Simple_Reader HDS_UDP_TRANS_SIMPLE_FILE_REQUIRE con h r w }) = Some w'"
    by (auto simp: start_recver_def bind_eq_Some_conv Let_def)
  have i2: "receiver_pre D B B w2" "fresh_reader D con w2"
    using alloc_reader_inv [OF Some [unfolded p] inv w1 w2 [unfolded hd(1)] D] by auto
  have i3: "receiver_pre D B B w3" "fresh_reader D con w3"
    using fresh_create_ID [OF w3 i2] by auto
  show ?thesis
  proof (cases "res = - 1")
    case True
    with rest obtain w4 where w4: "upd con (\<lambda>c. c\<lparr>connection_ID := CID_zero\<rparr>) w3 = Some w4"
      and rj: "recv_reject HDS_UDP_TRANS_SIMPLE_FILE_REQUIRE con (h_send_time h) r w4 = Some w'"
      by (auto simp: bind_eq_Some_conv)
    from recv_reject_inv [OF rj rcv_side.set_ID_inv [OF w4 i3(1)]] show ?thesis by blast
  next
    case False
    with rest obtain w4 where w4: "recver_register con h r w3 = Some w4"
      and a: "recver_accept (ops_with cplx) Simple_Reader HDS_UDP_TRANS_SIMPLE_FILE_REQUIRE con h r w4 = Some w'"
      by (auto simp: bind_eq_Some_conv)
    show ?thesis
      using recver_accept_inv [OF a _ _ D hd(2,3)] recver_register_inv [OF w4 i3] by blast
  qed
qed


section \<open>Dispatch on the receiving host\<close>

lemma receiver_data_inv:
  assumes step: "connection_do_network_data (ops_with cplx) HDS_UDP_TRANS_SIMPLE_FILE_DATA r w = Some w'"
    and inv: "receiver_pre D B B w" and D: "transfer_size D"
    and h: "CONNECTION_UNFILL_HEADER (ReaderCDR_new (k_data r)) (k_data_length r) = Some h"
    and hd: "unat (h_dt_note h) < length D" "h_recv_data h = chunk D (unat (h_dt_note h)) @ junk"
      "h_recv_data_length h = int (length (chunk D (unat (h_dt_note h))))"
  shows "\<exists>B'. (B \<longrightarrow> B') \<and> receiver_pre D B' B' w'"
proof (cases "cid_array w (get_connection_offset (h_conID h))")
  case (CID_CON con)
  with step h obtain c where c: "heap w con = Some c"
    by (auto simp: connection_do_network_data_def bind_eq_Some_conv Let_def)
  have k: "kind c = Simple_Reader" using world_inv_heap [OF inv c] by (simp add: reader_ok_def)
  show ?thesis
  proof (cases "ID32_0 (connection_ID c) = ID32_0 (h_conID h)")
    case True
    let ?i = "CID (reader_label w c) (ID32_1 (h_conID h))"
    from step h CID_CON c k True obtain w1 where
      w1: "w1 = w \<or> (\<exists>j. set_connection_out_recv_wait_ack_queue con ?i w = Some (j, w1))"
      and d: "simple_reader_do_network_data con HDS_UDP_TRANS_SIMPLE_FILE_DATA (h_dt_note h) (h_send_time h)
        (h_recv_data h) (h_recv_data_length h) r w1 = Some w'"
      by (auto simp: connection_do_network_data_def bind_eq_Some_conv Let_def ops_with_def
          simple_reader_ops_def split: if_splits)
    have i1: "receiver_pre D B B w1" using w1 inv rcv_side.out_of_wait_ack_inv by blast
    have "cid_array w1 = cid_array w" using w1 by (auto dest!: same_except_wait_ack simp: same_except_def)
    moreover obtain c1 where c1: "heap w1 con = Some c1"
      using d by (auto simp: simple_reader_do_network_data_def bind_eq_Some_conv)
    ultimately have "slot_ok D c1" using world_inv_slot [OF i1 _ c1] CID_CON by simp
    from reader_network_inv [OF d [unfolded hd(2,3)] i1 c1 this D hd(1)] show ?thesis .
  qed (use step inv h CID_CON c in \<open>auto simp: connection_do_network_data_def Let_def\<close>)
qed (use step inv h in \<open>auto simp: connection_do_network_data_def Let_def\<close>)

lemma write_type_receives:
  assumes "write_long (WriteCDR_new (k_data r)) t' = Some cdr" "receives r p"
    "d_data p = header_bytes t c s d @ payload"
  shows "receives (r\<lparr>k_data := w_data cdr\<rparr>) (p\<lparr>d_data := header_bytes t' c s d @ payload\<rparr>)"
proof -
  from assms obtain junk where k: "k_data r = le_bytes32 t @ drop 4 (header_bytes t c s d @ payload @ junk)"
    and l: "length (k_data r) = 1472" "k_data_length r = int (length (header_bytes t c s d @ payload))"
    by (auto simp: receives_def header_bytes_def)
  from assms(1) have o: "overwrite (k_data r) 0 (le_bytes32 t') = Some (w_data cdr)"
    by (auto simp: write_long_def write_char_array_def WriteCDR_new_def bind_eq_Some_conv)
  then have "w_data cdr = le_bytes32 t' @ drop 4 (header_bytes t c s d @ payload @ junk)"
    using k by (auto simp: overwrite_def split: if_splits)
  moreover have "drop 4 (header_bytes t c s d @ payload @ junk) = drop 4 (header_bytes t' c s d @ payload @ junk)"
    "le_bytes32 t' = take 4 (header_bytes t' c s d @ payload @ junk)"
    by (simp_all add: header_bytes_def)
  ultimately have "w_data cdr = header_bytes t' c s d @ payload @ junk" by simp
  then show ?thesis using l overwrite_length [OF o] by (simp add: receives_def)
qed

lemma receiver_duplicate_inv:
  assumes step: "connection_do_require_duplicate (ops_with cplx) HDS_UDP_TRANS_SIMPLE_FILE_REQUIRE_DUPLICATE r w = Some w'"
    and inv: "receiver_pre D B B w" and D: "transfer_size D" and rc: "receives r p"
    and p: "d_data p = header_bytes HDS_UDP_TRANS_SIMPLE_FILE_REQUIRE_DUPLICATE c s (of_nat (length D)) @ chunk D 0"
  shows "\<exists>B'. (B \<longrightarrow> B') \<and> receiver_pre D B' B' w'"
proof -
  from receives_header(1) [OF rc p] obtain h where
    h: "CONNECTION_UNFILL_HEADER (ReaderCDR_new (k_data r)) (k_data_length r) = Some h" by auto
  show ?thesis
  proof (cases "wait_ack w (h_conID h)")
    case None
    with step h obtain cdr where
      cdr: "write_long (WriteCDR_new (k_data r)) HDS_UDP_TRANS_SIMPLE_FILE_REQUIRE = Some cdr"
      and st: "start_recver (ops_with cplx) HDS_UDP_TRANS_SIMPLE_FILE_REQUIRE (r\<lparr>k_data := w_data cdr\<rparr>) w = Some w'"
      by (auto simp: connection_do_require_duplicate_def bind_eq_Some_conv Let_def)
    from receives_header(1) [OF write_type_receives [OF cdr rc p]] obtain h' junk where
      "CONNECTION_UNFILL_HEADER (ReaderCDR_new (k_data (r\<lparr>k_data := w_data cdr\<rparr>)))
         (k_data_length (r\<lparr>k_data := w_data cdr\<rparr>)) = Some h'"
      "h_dt_note h' = of_nat (length D)" "h_recv_data h' = chunk D 0 @ junk"
      "h_recv_data_length h' = int (length (chunk D 0))" by fastforce
    from start_recver_inv [OF st inv D this] show ?thesis .
  next
    case (Some off)
    show ?thesis
    proof (cases "cid_array w off")
      case (CID_CON con)
      with step h Some obtain co where co: "heap w con = Some co"
        by (auto simp: connection_do_require_duplicate_def bind_eq_Some_conv Let_def)
      show ?thesis
      proof (cases "ID32_1 (connection_ID co) = ID32_1 (h_conID h) \<and> reader_label w co = ID32_0 (h_conID h)
                \<and> left_window_cursor co = HDS_UDP_PACKET_MAX_DATA_LENGTH
                \<and> sockaddrcmp (k_remote_addr r) (k_remote_addr_length r)
                    (remote_addr co) (k_remote_addr_length r) = 0")
        case True
        then have "ucast (left_window_cursor co) = (HDS_UDP_PACKET_MAX_DATA_LENGTH :: u32)" by simp
        with True step h Some CID_CON co have
          "reply_header HDS_UDP_TRANS_SIMPLE_FILE_ACK (connection_ID co) (h_send_time h) (ucast (left_window_cursor co))
             r (remote_addr co) (remote_addr_length co) w = Some w'"
          by (simp add: connection_do_require_duplicate_def Let_def)
        from reply_ack_inv [OF this inv co D] show ?thesis by blast
      next
        case False
        with step h Some CID_CON co inv show ?thesis
          by (auto simp: connection_do_require_duplicate_def Let_def split: if_splits)
      qed
    qed (use step h Some inv in \<open>auto simp: connection_do_require_duplicate_def Let_def\<close>)
  qed
qed

lemma receiver_filter_inv:
  assumes step: "filter_data (ops_with cplx) r w = Some w'" and rc: "receives r p" and f: "forward_ok D p"
    and inv: "receiver_pre D B B w" and D: "transfer_size D"
  shows "\<exists>B'. (B \<longrightarrow> B') \<and> receiver_pre D B' B' w'"
proof -
  from f obtain t c s d payload where p: "d_data p = header_bytes t c s d @ payload"
    and t: "t = HDS_UDP_TRANS_RESET \<or>
      (t = HDS_UDP_TRANS_SIMPLE_FILE_REQUIRE \<or> t = HDS_UDP_TRANS_SIMPLE_FILE_REQUIRE_DUPLICATE) \<and>
        d = of_nat (length D) \<and> payload = chunk D 0 \<or>
      t = HDS_UDP_TRANS_SIMPLE_FILE_DATA \<and> 0 < unat d \<and> unat d < length D \<and> payload = chunk D (unat d)"
    by (auto simp: forward_ok_def)
  from receives_header [OF rc p] obtain x h junk where
    x: "read_long (ReaderCDR_new (k_data r)) = Some (t, x)"
    and h: "CONNECTION_UNFILL_HEADER (ReaderCDR_new (k_data r)) (k_data_length r) = Some h"
      "h_dt_note h = d" "h_recv_data h = payload @ junk" "h_recv_data_length h = int (length payload)"
    by fastforce
  from t consider (reset) "t = HDS_UDP_TRANS_RESET"
    | (req) "t = HDS_UDP_TRANS_SIMPLE_FILE_REQUIRE" "d = of_nat (length D)" "payload = chunk D 0"
    | (dup) "t = HDS_UDP_TRANS_SIMPLE_FILE_REQUIRE_DUPLICATE" "d = of_nat (length D)" "payload = chunk D 0"
    | (data) "t = HDS_UDP_TRANS_SIMPLE_FILE_DATA" "unat d < length D" "payload = chunk D (unat d)" by blast
  then show ?thesis
  proof cases
    case reset
    with step x have "connection_do_connection_reset t r w = Some w'" by (simp add: filter_data_def)
    from rcv_side.do_reset_inv [OF this inv] show ?thesis by blast
  next
    case req
    with step x have "start_recver (ops_with cplx) HDS_UDP_TRANS_SIMPLE_FILE_REQUIRE r w = Some w'"
      by (simp add: filter_data_def)
    from start_recver_inv [OF this inv D h(1)] h req show ?thesis by simp
  next
    case dup
    with step x have "connection_do_require_duplicate (ops_with cplx) HDS_UDP_TRANS_SIMPLE_FILE_REQUIRE_DUPLICATE r w = Some w'"
      by (simp add: filter_data_def)
    from receiver_duplicate_inv [OF this inv D rc] p dup show ?thesis by simp
  next
    case data
    with step x have "connection_do_network_data (ops_with cplx) HDS_UDP_TRANS_SIMPLE_FILE_DATA r w = Some w'"
      by (simp add: filter_data_def)
    from receiver_data_inv [OF this inv D h(1)] h data show ?thesis by simp
  qed
qed

lemma reader_clean_inv:
  "reader_do_connection_sended_handle_and_clean_data con w = Some w' \<Longrightarrow> receiver_pre D B B w \<Longrightarrow>
   receiver_pre D B B w'"
  by (auto simp: reader_do_connection_sended_handle_and_clean_data_def bind_eq_Some_conv Let_def
      split: option.splits Recv_Buf_Type.splits if_splits intro!: log_event_inv)

lemma reader_do_time_out_inv:
  assumes "simple_reader_do_time_out con ty n x w = Some w'" "receiver_pre D B B w"
  shows "receiver_pre D B B w'"
proof -
  have s: "receiver_pre D B B w1" if "at con set_connection_trans_succ w = Some (r, w1)" for r w1
    using that assms(2) by (auto simp: rcv_side.status_ops dest: rcv_side.at_status_inv)
  show ?thesis
  proof (cases ty)
    case Force_Reset_Timer
    with assms(1) s show ?thesis
      by (auto simp: simple_reader_do_time_out_def bind_eq_Some_conv split: if_splits dest: reader_clean_inv)
  next
    case Recver_Check_Dead_Timer
    with assms(1) consider w1 where "upd con (\<lambda>c. c\<lparr>trans_result_code := Some TRANS_TIME_OUT\<rparr>) w = Some w1"
        "suspend_once con w1 = Some w'"
      | "add_to_timer_queue con HDS_UDP_CONNECTION_RECV_CHECK_DEAD_TIME Recver_Check_Dead_Timer None w = Some w'"
      by (auto simp: simple_reader_do_time_out_def bind_eq_Some_conv split: if_splits)
    then show ?thesis
      by cases (auto dest!: rcv_side.set_fail_inv [OF _ assms(2)] dest: rcv_side.suspend_once_inv
          timer_queue_inv [OF _ assms(2)])
  next
    case Connection_Suspend_Timer
    with assms(1) obtain r w1 w2 i where w1: "at con set_connection_trans_succ w = Some (r, w1)"
      and w2: "(if r = 0 then reader_do_connection_sended_handle_and_clean_data con w1 else Some w1) = Some w2"
      and w': "free_connetcion con (release_connection_ID i w2) = Some w'"
      by (auto simp: simple_reader_do_time_out_def bind_eq_Some_conv)
    have "receiver_pre D B B w2" using w2 s [OF w1] by (auto split: if_splits dest: reader_clean_inv)
    then show ?thesis using rcv_side.free_connetcion_inv [OF w'] slot_inv(2) by blast
  qed (use assms in \<open>simp_all add: simple_reader_do_time_out_def\<close>)
qed

lemma receiver_time_out_inv:
  assumes "connection_do_time_out (ops_with cplx) parm w = Some w'" "receiver_pre D B B w"
  shows "receiver_pre D B B w'"
proof (cases "cid_array w (tp_connection_offset parm) = CID_NULL")
  case False
  with assms(1) obtain con c where c: "heap w con = Some c"
    and d: "do_time_out (ops_with cplx (kind c)) con (tp_timeout_type parm) (tp_running_count parm)
       (tp_extend_data parm) w = Some w'"
    by (cases "cid_array w (tp_connection_offset parm)")
       (auto simp: connection_do_time_out_def bind_eq_Some_conv Let_def)
  have "kind c = Simple_Reader" using world_inv_heap [OF assms(2) c] by (simp add: reader_ok_def)
  with d show ?thesis
    using reader_do_time_out_inv [OF _ assms(2)] by (simp add: ops_with_def simple_reader_ops_def)
qed (use assms in \<open>simp add: connection_do_time_out_def\<close>)

end
