(* ===== verification/Simple_Transfer.thy ===== *)
theory Simple_Transfer
  imports Transfer_Receiver
begin

unbundle bit_operations_syntax

text \<open>
  A simple transfer end to end: two hosts running the library's operations over a network that
  loses, duplicates, delays and reorders datagrams.
\<close>

section \<open>The two hosts\<close>

text \<open>
  One host sends, the other receives, over a network that may lose, duplicate, delay and reorder:
  a datagram that was sent can arrive any number of times at any later moment.  Timers fire at
  any moment, with any parameter; the applications stop connections at will; the clock, the
  allocator's success and the contents of fresh memory change arbitrarily.  A step exists only
  where the code's own operation has a defined result.
\<close>

record hosts =
  host_a :: world
  host_b :: world

definition environment_step :: "world \<Rightarrow> world \<Rightarrow> bool" where
  "environment_step w w' \<longleftrightarrow> (\<exists>tv b mo g. w' = w\<lparr>now := tv, oom := b, map_oom := mo, garbage := g\<rparr>)"

inductive transfer_step :: "ops_table \<Rightarrow> hosts \<Rightarrow> hosts \<Rightarrow> bool" for cplx :: ops_table where
  a_send: "connection_do_sender (ops_with cplx) off buf (host_a s) = Some w \<Longrightarrow> length buf = MAX_UDP_PACKET_SIZE \<Longrightarrow>
    transfer_step cplx s (s\<lparr>host_a := w\<rparr>)"
| a_recv: "p \<in> set (sent (host_b s)) \<Longrightarrow> receives r p \<Longrightarrow> filter_data (ops_with cplx) r (host_a s) = Some w \<Longrightarrow>
    transfer_step cplx s (s\<lparr>host_a := w\<rparr>)"
| a_timer: "connection_do_time_out (ops_with cplx) parm (host_a s) = Some w \<Longrightarrow>
    transfer_step cplx s (s\<lparr>host_a := w\<rparr>)"
| a_stop: "connection_do_connection_stop i (host_a s) = Some (res, w) \<Longrightarrow> transfer_step cplx s (s\<lparr>host_a := w\<rparr>)"
| a_env: "environment_step (host_a s) w \<Longrightarrow> transfer_step cplx s (s\<lparr>host_a := w\<rparr>)"
| b_recv: "p \<in> set (sent (host_a s)) \<Longrightarrow> receives r p \<Longrightarrow> filter_data (ops_with cplx) r (host_b s) = Some w \<Longrightarrow>
    transfer_step cplx s (s\<lparr>host_b := w\<rparr>)"
| b_timer: "connection_do_time_out (ops_with cplx) parm (host_b s) = Some w \<Longrightarrow>
    transfer_step cplx s (s\<lparr>host_b := w\<rparr>)"
| b_stop: "connection_do_connection_stop i (host_b s) = Some (res, w) \<Longrightarrow> transfer_step cplx s (s\<lparr>host_b := w\<rparr>)"
| b_env: "environment_step (host_b s) w \<Longrightarrow> transfer_step cplx s (s\<lparr>host_b := w\<rparr>)"

text \<open>A host before its first connection.\<close>

definition idle_host :: "world \<Rightarrow> bool" where
  "idle_host w \<longleftrightarrow> heap w = (\<lambda>_. None) \<and> cid_array w = (\<lambda>_. CID_NULL) \<and> sent w = [] \<and> processed w = [] \<and>
     events w = []"

definition transfer_inv :: "u8 list \<Rightarrow> hosts \<Rightarrow> bool" where
  "transfer_inv D s \<longleftrightarrow> (\<exists>dlv. sender_inv D dlv (host_a s) \<and> receiver_pre D dlv dlv (host_b s))"

lemma sender_mono: "sender_inv D dlv w \<Longrightarrow> (dlv \<longrightarrow> dlv') \<Longrightarrow> sender_inv D dlv' w"
  unfolding world_inv_def writer_ok_def event_ok_def by blast

lemma world_inv_sent: "world_inv P Q S M E B w \<Longrightarrow> p \<in> set (sent w) \<Longrightarrow> S p"
  by (simp add: world_inv_def)

lemma environment_inv: "environment_step w w' \<Longrightarrow> world_inv P Q S M E B w \<Longrightarrow> world_inv P Q S M E B w'"
  by (auto simp: environment_step_def)

lemma reset_datagram_ok:
  "forward_ok D \<lparr>d_data = header_bytes HDS_UDP_TRANS_RESET c s d, d_addr = a\<rparr>"
  "backward_ok n dlv \<lparr>d_data = header_bytes HDS_UDP_TRANS_RESET c s d, d_addr = a\<rparr>"
  unfolding forward_ok_def backward_ok_def
  by (rule exI [of _ HDS_UDP_TRANS_RESET], rule exI [of _ c], rule exI [of _ s], rule exI [of _ d],
      rule exI [of _ "[]"]) auto

lemma transfer_step_inv:
  assumes "transfer_step cplx s s'" "transfer_inv D s" "transfer_size D"
  shows "transfer_inv D s'"
proof -
  from assms(2) obtain dlv where i: "sender_inv D dlv (host_a s)" "receiver_pre D dlv dlv (host_b s)"
    by (auto simp: transfer_inv_def)
  have A: "transfer_inv D (s\<lparr>host_a := w\<rparr>)" if "sender_inv D dlv w" for w
    using that i(2) by (auto simp: transfer_inv_def)
  have B: "transfer_inv D (s\<lparr>host_b := w\<rparr>)" if "\<exists>d. (dlv \<longrightarrow> d) \<and> receiver_pre D d d w" for w
  proof -
    from that obtain d where d: "dlv \<longrightarrow> d" "receiver_pre D d d w" by blast
    from sender_mono [OF i(1) d(1)] d(2) show ?thesis by (auto simp: transfer_inv_def)
  qed
  from assms(1) show ?thesis
  proof cases
    case (a_send off buf w)
    show ?thesis unfolding a_send(1) by (rule A, rule sender_do_sender_inv [OF a_send(2) i(1) assms(3) a_send(3)])
  next
    case (a_recv p r w)
    have "backward_ok (length D) dlv p" using world_inv_sent [OF i(2) a_recv(2)] .
    from sender_filter_inv [OF a_recv(4,3) this i(1) assms(3)] show ?thesis unfolding a_recv(1) by (rule A)
  next
    case (a_timer parm w)
    show ?thesis unfolding a_timer(1) by (rule A, rule sender_time_out_inv [OF a_timer(2) i(1)])
  next
    case (a_stop j res w)
    from snd_side.do_stop_inv [OF a_stop(2) i(1) reset_datagram_ok(1)] show ?thesis
      unfolding a_stop(1) by (rule A)
  next
    case (a_env w)
    from environment_inv [OF a_env(2) i(1)] show ?thesis unfolding a_env(1) by (rule A)
  next
    case (b_recv p r w)
    have "forward_ok D p" using world_inv_sent [OF i(1) b_recv(2)] .
    from receiver_filter_inv [OF b_recv(4,3) this i(2) assms(3)] show ?thesis unfolding b_recv(1) by (rule B)
  next
    case (b_timer parm w)
    from receiver_time_out_inv [OF b_timer(2) i(2)] have "\<exists>d. (dlv \<longrightarrow> d) \<and> receiver_pre D d d w" by blast
    then show ?thesis unfolding b_timer(1) by (rule B)
  next
    case (b_stop j res w)
    from rcv_side.do_stop_inv [OF b_stop(2) i(2) reset_datagram_ok(2)]
    have "\<exists>d. (dlv \<longrightarrow> d) \<and> receiver_pre D d d w" by blast
    then show ?thesis unfolding b_stop(1) by (rule B)
  next
    case (b_env w)
    from environment_inv [OF b_env(2) i(2)] have "\<exists>d. (dlv \<longrightarrow> d) \<and> receiver_pre D d d w" by blast
    then show ?thesis unfolding b_env(1) by (rule B)
  qed
qed

text \<open>The start: the application hands the data to an idle host, in one buffer or in nodes.\<close>

definition send_request_ok :: "message_node list \<Rightarrow> u8 list option \<Rightarrow> u8 list \<Rightarrow> bool" where
  "send_request_ok node block D \<longleftrightarrow> (case block of Some b \<Rightarrow> b = D | None \<Rightarrow> nodes_data node = D) \<and>
     (\<forall>n \<in> set node. node_wf n)"

definition lone_object :: "nat \<Rightarrow> connection \<Rightarrow> world \<Rightarrow> bool" where
  "lone_object con c w \<longleftrightarrow> heap w = (\<lambda>_. None)(con := Some c) \<and>
     (\<forall>off a. cid_array w off = CID_CON a \<longrightarrow> a = con) \<and> con < next_addr w \<and> sent w = [] \<and> events w = [] \<and>
     processed w = []"

lemma lone_upd: "upd con f w = Some w' \<Longrightarrow> lone_object con c w \<Longrightarrow> lone_object con (f c) w'"
  by (auto simp: upd_def lone_object_def)

lemma lone_at: "at con f w = Some (r, w') \<Longrightarrow> lone_object con c w \<Longrightarrow> lone_object con (snd (f c)) w'"
  by (auto simp: at_def lone_object_def Let_def case_prod_beta)

lemma lone_create:
  assumes "create_connectionID con w = Some (r, w')" "lone_object con c w"
  shows "\<exists>i. lone_object con (c\<lparr>connection_ID := i\<rparr>) w'"
proof -
  have "\<exists>i. lone_object con (c\<lparr>connection_ID := i\<rparr>) (w\<lparr>cid_array_offset := o2\<rparr>)" for o2
    using assms(2) by (intro exI [of _ "connection_ID c"]) (simp add: lone_object_def)
  moreover have "lone_object con c (w\<lparr>cid_array_offset := o2, cid_array := (cid_array w)(off := CID_CON con),
    verification_actor := v\<rparr>)" for o2 off v
    using assms(2) by (auto simp: lone_object_def)
  ultimately show ?thesis
    using assms(1)
    by (auto simp: create_connectionID_def Let_def CompareExchange_def case_prod_beta bind_eq_Some_conv
        split: if_splits dest!: lone_upd)
qed

lemma lone_sender_inv: "lone_object con c w \<Longrightarrow> writer_ok D False c \<Longrightarrow> sender_inv D False w"
  by (auto simp: lone_object_def world_inv_def split: if_splits)

lemma idle_sender_inv: "idle_host w \<Longrightarrow> world_inv P Q S M E False w"
  by (simp add: idle_host_def world_inv_def)

lemma start_sender_impl_inv:
  assumes "start_sender_impl node block (of_nat (length D)) addr al dt hn ss mw w = Some (res, w')"
    and "idle_host w" and D: "transfer_size D" and rq: "send_request_ok node block D"
  shows "sender_inv D False w'"
proof (cases "malloc_connection Simple_Writer w")
  case None
  have "(of_nat (length D) :: u32) \<le> 23232" using D transfer_size_unat [OF D] by (simp add: word_le_nat_alt transfer_size_def)
  with None assms(1,2) show ?thesis by (simp add: start_sender_impl_def idle_sender_inv)
next
  case (Some p)
  have small: "(of_nat (length D) :: u32) \<le> 23232" using D transfer_size_unat [OF D] by (simp add: word_le_nat_alt transfer_size_def)
  obtain con w0 where p: "p = (con, w0)" by fastforce
  let ?z = "zeroed Simple_Writer"
  have l0: "lone_object con ?z w0"
    using Some p assms(2) by (auto simp: malloc_connection_def construct_def lone_object_def idle_host_def split: if_splits)
  from assms(1) Some p small obtain r w1 where w1: "create_connectionID con w0 = Some (r, w1)"
    by (auto simp: start_sender_impl_def bind_eq_Some_conv)
  from lone_create [OF w1 l0] obtain i where l1: "lone_object con (?z\<lparr>connection_ID := i\<rparr>) w1" by blast
  show ?thesis
  proof (cases "r = - 1")
    case True
    then have "w' = connection_free_memory con w1" using assms(1) Some p small w1 by (simp add: start_sender_impl_def)
    then show ?thesis using l1 by (auto simp: connection_free_memory_def lone_object_def world_inv_def)
  next
    case False
    let ?f = "\<lambda>c. c\<lparr>RTO := HDS_UDP_CONNECTION_DEFAULT_RTO, sended_handle := hn,
              del_type := dt, trans_message_node := node, transmit_buf := block,
              transmit_buf_length := of_nat (length D), remote_addr := addr, remote_addr_length := al\<rparr>"
    from False assms(1) Some p small w1 obtain w2 w3 x where
      w2: "create_connectionID_label con (increase_connection_type_count Simple_Writer w1) = Some w2"
      and w3: "upd con ?f w2 = Some w3"
      and w': "at con set_connection_type_writer w3 = Some (x, w')"
      by (auto simp: start_sender_impl_def bind_eq_Some_conv Let_def)
    have "lone_object con (?z\<lparr>connection_ID := i\<rparr>) (increase_connection_type_count Simple_Writer w1)"
      using l1 by (simp add: lone_object_def increase_connection_type_count_def)
    from lone_upd [OF w2 [unfolded create_connectionID_label_def] this]
    obtain j where l2: "lone_object con (?z\<lparr>connection_ID := j\<rparr>) w2" by auto
    from lone_at [OF w' lone_upd [OF w3 l2]]
    have l': "lone_object con (snd (set_connection_type_writer (?f (?z\<lparr>connection_ID := j\<rparr>)))) w'" .
    show ?thesis
    proof (rule lone_sender_inv [OF l'])
      show "writer_ok D False (snd (set_connection_type_writer (?f (?z\<lparr>connection_ID := j\<rparr>))))"
        using rq transfer_size_unat [OF D]
        by (cases block) (auto simp: writer_ok_def writer_wf_def writer_data_def RTO_ok_def zeroed_def
            status_macro_defs status_set_def case_prod_beta send_request_ok_def)
    qed
  qed
qed

lemma start_sender_inv:
  assumes "start_sender node block (of_nat (length D)) addr al dt hn ss mw w = Some (res, w')"
    and "idle_host w" "transfer_size D" "send_request_ok node block D"
  shows "sender_inv D False w'"
proof -
  from assms(1) obtain x w1 where
    w1: "start_sender_impl node block (of_nat (length D)) addr al dt hn ss mw w = Some (x, w1)"
    by (auto simp: start_sender_def bind_eq_Some_conv)
  note i = start_sender_impl_inv [OF w1 assms(2-4)]
  from assms(1) w1 consider "w' = w1" | con where "add_to_sender_queue con w1 = Some w'"
    by (auto simp: start_sender_def bind_eq_Some_conv split: option.splits cid_slot.splits)
  then show ?thesis
  proof cases
    case 2
    from snd_side.sender_queue_inv [OF 2 i] show ?thesis .
  qed (use i in simp)
qed

section \<open>Reachable states\<close>

lemma transfer_reachable_inv:
  assumes "(transfer_step cplx)\<^sup>*\<^sup>* s s'" "transfer_inv D s" "transfer_size D"
  shows "transfer_inv D s'"
  using assms by (induction rule: rtranclp_induct) (auto intro: transfer_step_inv)

lemma transfer_start_inv:
  assumes "start_sender node block (of_nat (length D)) addr al dt hn ss mw a0 = Some (res, a1)"
    "idle_host a0" "idle_host b0" "transfer_size D" "send_request_ok node block D"
  shows "transfer_inv D \<lparr>host_a = a1, host_b = b0\<rparr>"
  using start_sender_inv [OF assms(1,2,4,5)] idle_sender_inv [OF assms(3)]
  by (auto simp: transfer_inv_def)

section \<open>An evaluated transfer\<close>

text \<open>Three bytes sent from one fresh host to another: the states after each operation, computed by
  the definitions.\<close>

definition fresh_host :: world where
  "fresh_host = \<lparr>heap = (\<lambda>_. None), next_addr = 0, cid_array = (\<lambda>_. CID_NULL), cid_array_offset = 1,
     verification_actor = 0, complex_file_need_verification = 0, recv_verification_func = None,
     timers = [], send_queue = [], wait_ack = (\<lambda>_. None), processed = [], sent = [], events = [],
     type_count = (\<lambda>_. 0), time_out_count = 0, complex_time_out_count = 0, now = \<lparr>tv_sec = 1, tv_usec = 0\<rparr>, oom = False, map_oom = False,
     garbage = (\<lambda>_. 0)\<rparr>"

definition inert_ops :: ops_table where
  "inert_ops _ = \<lparr>do_time_out = (\<lambda>_ _ _ _ w. Some w), do_network_data = (\<lambda>_ _ _ _ _ _ _ w. Some w),
     do_send = (\<lambda>_ _ w. Some w)\<rparr>"

definition arrival :: "datagram \<Rightarrow> Kernel_Recv_Data" where
  "arrival p = \<lparr>k_remote_addr = replicate 16 0, k_remote_addr_length = 16,
     k_data_length = int (length (d_data p)),
     k_data = d_data p @ replicate (MAX_UDP_PACKET_SIZE - length (d_data p)) 0\<rparr>"

definition require_packet :: datagram where
  "require_packet = \<lparr>d_data = [115, 0, 0, 0, 0, 0, 0, 0, 1, 0, 0, 0, 232, 3, 0, 0, 3, 0, 0, 0, 1, 2, 3],
     d_addr = replicate 16 0\<rparr>"

definition ack_packet :: datagram where
  "ack_packet = \<lparr>d_data = [117, 0, 0, 0, 1, 0, 0, 0, 1, 0, 0, 0, 232, 3, 0, 0, 172, 5, 0, 0],
     d_addr = replicate 16 0\<rparr>"

definition run_a1 :: "world option" where
  "run_a1 = map_option snd (start_sender [] (Some [1, 2, 3]) 3 (replicate 16 0) 16 NO_DELETE_AFTER_SEND
     (Some 0) 0 0 fresh_host)"

definition run_a2 :: "world option" where
  "run_a2 = do { w \<leftarrow> run_a1;
     connection_do_sender (ops_with inert_ops) 1 (replicate MAX_UDP_PACKET_SIZE 0) w }"

definition run_b1 :: "world option" where
  "run_b1 = filter_data (ops_with inert_ops) (arrival require_packet) fresh_host"

definition run_b2 :: "world option" where
  "run_b2 = do { w \<leftarrow> run_b1; filter_data (ops_with inert_ops) (arrival require_packet) w }"

definition run_a3 :: "world option" where
  "run_a3 = do { w \<leftarrow> run_a2; filter_data (ops_with inert_ops) (arrival ack_packet) w }"

lemma run_a2_result: "map_option sent run_a2 = Some [require_packet]"
  by code_simp

lemma run_b1_result: "map_option (\<lambda>w. (map rp_data (processed w), sent w)) run_b1 = Some ([[1, 2, 3]], [ack_packet])"
  by code_simp

lemma run_b2_result: "map_option (\<lambda>w. map rp_data (processed w)) run_b2 = Some [[1, 2, 3], [1, 2, 3]]"
  by code_simp

lemma run_a3_result:
  "map_option (\<lambda>w. map_option trans_result_code (heap w 0)) run_a3 = Some (Some (Some TRANS_SUCCESSFULLY))"
  by code_simp


lemma run_obtain:
  obtains a1 a2 b1 b2 a3 res where
    "start_sender [] (Some [1, 2, 3]) (of_nat (length [1, 2, 3 :: u8])) (replicate 16 0) 16 NO_DELETE_AFTER_SEND
       (Some 0) 0 0 fresh_host = Some (res, a1)"
    "transfer_step inert_ops \<lparr>host_a = a1, host_b = fresh_host\<rparr> \<lparr>host_a = a2, host_b = fresh_host\<rparr>"
    "transfer_step inert_ops \<lparr>host_a = a2, host_b = fresh_host\<rparr> \<lparr>host_a = a2, host_b = b1\<rparr>"
    "transfer_step inert_ops \<lparr>host_a = a2, host_b = b1\<rparr> \<lparr>host_a = a2, host_b = b2\<rparr>"
    "transfer_step inert_ops \<lparr>host_a = a2, host_b = b1\<rparr> \<lparr>host_a = a3, host_b = b1\<rparr>"
    "map rp_data (processed b1) = [[1, 2, 3]]" "map rp_data (processed b2) = [[1, 2, 3], [1, 2, 3]]"
    "\<exists>c. heap a3 0 = Some c \<and> trans_result_code c = Some TRANS_SUCCESSFULLY"
proof -
  from run_a3_result obtain a2 a3 where a3: "run_a3 = Some a3" "run_a2 = Some a2"
    "filter_data (ops_with inert_ops) (arrival ack_packet) a2 = Some a3"
    "\<exists>c. heap a3 0 = Some c \<and> trans_result_code c = Some TRANS_SUCCESSFULLY"
    by (auto simp: run_a3_def bind_eq_Some_conv)
  from a3(2) obtain a1 where a1: "run_a1 = Some a1"
    "connection_do_sender (ops_with inert_ops) 1 (replicate MAX_UDP_PACKET_SIZE 0) a1 = Some a2"
    unfolding run_a2_def bind_eq_Some_conv by blast
  then obtain res where start: "start_sender [] (Some [1, 2, 3]) (of_nat (length [1, 2, 3 :: u8])) (replicate 16 0) 16
     NO_DELETE_AFTER_SEND (Some 0) 0 0 fresh_host = Some (res, a1)" by (auto simp: run_a1_def)
  obtain b2 where b2: "run_b2 = Some b2" "map rp_data (processed b2) = [[1, 2, 3], [1, 2, 3]]"
    using run_b2_result that unfolding map_option_eq_Some by (elim exE conjE) (rule that)
  from b2(1) obtain b1 where b: "run_b1 = Some b1"
    "filter_data (ops_with inert_ops) (arrival require_packet) b1 = Some b2"
    unfolding run_b2_def bind_eq_Some_conv by blast
  have sent: "sent a2 = [require_packet]" "sent b1 = [ack_packet]" "map rp_data (processed b1) = [[1, 2, 3]]"
    using run_a2_result run_b1_result unfolding a3(2) b(1) by simp_all
  have rc: "receives (arrival require_packet) require_packet" "receives (arrival ack_packet) ack_packet"
    by (auto simp: receives_def arrival_def require_packet_def ack_packet_def)
  show ?thesis
  proof (rule that [OF start])
    show "transfer_step inert_ops \<lparr>host_a = a1, host_b = fresh_host\<rparr> \<lparr>host_a = a2, host_b = fresh_host\<rparr>"
      using transfer_step.a_send [of inert_ops 1 "replicate 1472 0" "\<lparr>host_a = a1, host_b = fresh_host\<rparr>" a2] a1
      by simp
    show "transfer_step inert_ops \<lparr>host_a = a2, host_b = fresh_host\<rparr> \<lparr>host_a = a2, host_b = b1\<rparr>"
      using transfer_step.b_recv [of require_packet "\<lparr>host_a = a2, host_b = fresh_host\<rparr>" _ inert_ops b1] rc sent b(1)
      by (simp add: run_b1_def)
    show "transfer_step inert_ops \<lparr>host_a = a2, host_b = b1\<rparr> \<lparr>host_a = a2, host_b = b2\<rparr>"
      using transfer_step.b_recv [of require_packet "\<lparr>host_a = a2, host_b = b1\<rparr>" _ inert_ops b2] rc sent b(2)
      by simp
    show "transfer_step inert_ops \<lparr>host_a = a2, host_b = b1\<rparr> \<lparr>host_a = a3, host_b = b1\<rparr>"
      using transfer_step.a_recv [of ack_packet "\<lparr>host_a = a2, host_b = b1\<rparr>" _ inert_ops a3] rc sent a3(3)
      by simp
  qed (use sent b2 a3 in simp_all)
qed

section \<open>Properties\<close>

text \<open>C1. Integrity of a simple transfer.  Two hosts are idle, and one is given data \<open>D\<close> of 1 to
  23232 bytes (\<open>SMALL_FILE_MAX_SIZE\<close>; as one buffer or as a list of nodes), the first message between them; its
  datagrams reach the other host in any order, any number of times, or never; between any two handlers timers
  fire, transfers are stopped, memory runs out or comes back and the clock jumps at will.  Whatever the receiving library ever hands to the application is exactly \<open>D\<close>
  with its length: never a fragment, never reordered, never mixed.\<close>

theorem transfer_integrity:
  assumes "transfer_size D" "send_request_ok node block D" "idle_host a0" "idle_host b0"
    "start_sender node block (of_nat (length D)) addr al dt hn ss mw a0 = Some (res, a1)"
    "(transfer_step cplx)\<^sup>*\<^sup>* \<lparr>host_a = a1, host_b = b0\<rparr> s"
  shows "\<forall>m \<in> set (processed (host_b s)). rp_data_length m = of_nat (length D) \<and> take (length D) (rp_data m) = D"
proof -
  have "transfer_inv D s"
    using transfer_reachable_inv [OF assms(6) transfer_start_inv [OF assms(5,3,4,1,2)] assms(1)] .
  then show ?thesis by (auto simp: transfer_inv_def world_inv_def message_ok_def)
qed

theorem transfer_integrity_witness:
  "\<exists>a1 s. (transfer_step inert_ops)\<^sup>*\<^sup>* \<lparr>host_a = a1, host_b = fresh_host\<rparr> s \<and>
     map rp_data (processed (host_b s)) = [[1, 2, 3]] \<and>
     (\<forall>m \<in> set (processed (host_b s)). rp_data_length m = 3 \<and> take 3 (rp_data m) = [1, 2, 3])"
proof (rule run_obtain)
  fix a1 a2 b1 b2 a3 res
  assume st: "start_sender [] (Some [1, 2, 3]) (of_nat (length [1, 2, 3 :: u8])) (replicate 16 0) 16
      NO_DELETE_AFTER_SEND (Some 0) 0 0 fresh_host = Some (res, a1)"
    and r: "transfer_step inert_ops \<lparr>host_a = a1, host_b = fresh_host\<rparr> \<lparr>host_a = a2, host_b = fresh_host\<rparr>"
      "transfer_step inert_ops \<lparr>host_a = a2, host_b = fresh_host\<rparr> \<lparr>host_a = a2, host_b = b1\<rparr>"
    and m: "map rp_data (processed b1) = [[1, 2, 3]]"
  have s: "(transfer_step inert_ops)\<^sup>*\<^sup>* \<lparr>host_a = a1, host_b = fresh_host\<rparr> \<lparr>host_a = a2, host_b = b1\<rparr>"
    using r by (meson converse_rtranclp_into_rtranclp rtranclp.rtrancl_refl)
  have "transfer_size [1, 2, 3]" "send_request_ok [] (Some [1, 2, 3]) [1, 2, 3]" "idle_host fresh_host"
    by (simp_all add: transfer_size_def send_request_ok_def idle_host_def fresh_host_def)
  from transfer_integrity [OF this this(3) st s] s m show ?thesis by force
qed

text \<open>C2. Success is truthful.  In the same setting (a first message of 1 to 23232 bytes between two idle hosts), if the sending library marks a connection
  \<open>TRANS_SUCCESSFULLY\<close>, or has called a send handler with that result, then the receiving library
  has already handed the message to its application.\<close>

theorem transfer_success_delivered:
  assumes "transfer_size D" "send_request_ok node block D" "idle_host a0" "idle_host b0"
    "start_sender node block (of_nat (length D)) addr al dt hn ss mw a0 = Some (res, a1)"
    "(transfer_step cplx)\<^sup>*\<^sup>* \<lparr>host_a = a1, host_b = b0\<rparr> s"
    "(\<exists>a c. heap (host_a s) a = Some c \<and> trans_result_code c = Some TRANS_SUCCESSFULLY) \<or>
     (\<exists>h d l ad. Send_Handler_Called h d l ad (Some TRANS_SUCCESSFULLY) \<in> set (events (host_a s)))"
  shows "processed (host_b s) \<noteq> []"
proof -
  have "transfer_inv D s"
    using transfer_reachable_inv [OF assms(6) transfer_start_inv [OF assms(5,3,4,1,2)] assms(1)] .
  then obtain dlv where "sender_inv D dlv (host_a s)" "receiver_pre D dlv dlv (host_b s)"
    by (auto simp: transfer_inv_def)
  then show ?thesis
    using assms(7) unfolding world_inv_def writer_ok_def event_ok_def by blast
qed

theorem transfer_success_delivered_witness:
  "\<exists>a1 s. (transfer_step inert_ops)\<^sup>*\<^sup>* \<lparr>host_a = a1, host_b = fresh_host\<rparr> s \<and>
     (\<exists>a c. heap (host_a s) a = Some c \<and> trans_result_code c = Some TRANS_SUCCESSFULLY) \<and>
     processed (host_b s) \<noteq> []"
proof (rule run_obtain)
  fix a1 a2 b1 b2 a3 res
  assume st: "start_sender [] (Some [1, 2, 3]) (of_nat (length [1, 2, 3 :: u8])) (replicate 16 0) 16
      NO_DELETE_AFTER_SEND (Some 0) 0 0 fresh_host = Some (res, a1)"
    and r: "transfer_step inert_ops \<lparr>host_a = a1, host_b = fresh_host\<rparr> \<lparr>host_a = a2, host_b = fresh_host\<rparr>"
      "transfer_step inert_ops \<lparr>host_a = a2, host_b = fresh_host\<rparr> \<lparr>host_a = a2, host_b = b1\<rparr>"
      "transfer_step inert_ops \<lparr>host_a = a2, host_b = b1\<rparr> \<lparr>host_a = a3, host_b = b1\<rparr>"
    and c: "\<exists>c. heap a3 0 = Some c \<and> trans_result_code c = Some TRANS_SUCCESSFULLY"
  have s: "(transfer_step inert_ops)\<^sup>*\<^sup>* \<lparr>host_a = a1, host_b = fresh_host\<rparr> \<lparr>host_a = a3, host_b = b1\<rparr>"
    using r by (meson converse_rtranclp_into_rtranclp rtranclp.rtrancl_refl)
  have i: "transfer_size [1, 2, 3]" "send_request_ok [] (Some [1, 2, 3]) [1, 2, 3]" "idle_host fresh_host"
    by (simp_all add: transfer_size_def send_request_ok_def idle_host_def fresh_host_def)
  have "processed (host_b \<lparr>host_a = a3, host_b = b1\<rparr>) \<noteq> []"
    by (rule transfer_success_delivered [OF i i(3) st s]) (use c in auto)
  with s c show ?thesis by (metis hosts.select_convs(1,2))
qed

text \<open>Delivery is not exactly-once: when the network duplicates the first datagram
  (\<open>SIMPLE_FILE_REQUIRE\<close>), the receiving host opens a second reader for it, and the application
  gets the same message twice.\<close>

theorem require_replay_delivers_twice:
  "\<exists>a1 res s. start_sender [] (Some [1, 2, 3]) (of_nat (length [1, 2, 3 :: u8])) (replicate 16 0) 16
       NO_DELETE_AFTER_SEND (Some 0) 0 0 fresh_host = Some (res, a1) \<and>
     (transfer_step inert_ops)\<^sup>*\<^sup>* \<lparr>host_a = a1, host_b = fresh_host\<rparr> s \<and>
     map rp_data (processed (host_b s)) = [[1, 2, 3], [1, 2, 3]]"
  by (rule run_obtain) (metis (no_types, lifting) converse_rtranclp_into_rtranclp rtranclp.rtrancl_refl
      hosts.select_convs(2))

text \<open>The reader trusts the length of the datagram: a payload for the position it waits for that
  reaches beyond its buffer is copied all the same, a write outside the buffer (undefined in the
  model).\<close>

theorem reader_unchecked_length:
  assumes "heap w con = Some c" "transmit_buf c = Some buf"
    "\<not> bit (status c) CNT_STATUS_TRANS_SUC_BIT_OFFSET" "\<not> bit (status c) CNT_STATUS_FORCE_STOP"
    "left_window_cursor c = ucast seq" "length buf < unat seq + length payload"
  shows "simple_reader_do_network_data con t seq st payload (int (length payload)) r w = None"
  using assms
  by (simp add: simple_reader_do_network_data_def status_macro_defs status_test_def BitTest_eq upd_Some at_Some
      CompareExchange_def store_payload_def overwrite_def)

theorem reader_unchecked_length_witness:
  "simple_reader_do_network_data 0 HDS_UDP_TRANS_SIMPLE_FILE_DATA 0 0 [1, 2, 3] 3 (arrival require_packet)
     (fresh_host\<lparr>heap := (\<lambda>_. None)(0 := Some ((zeroed Simple_Reader)\<lparr>transmit_buf := Some [0, 0]\<rparr>))\<rparr>) = None"
  using reader_unchecked_length [of "fresh_host\<lparr>heap := (\<lambda>_. None)(0 := Some ((zeroed Simple_Reader)\<lparr>transmit_buf := Some [0, 0]\<rparr>))\<rparr>"
      0 "(zeroed Simple_Reader)\<lparr>transmit_buf := Some [0, 0]\<rparr>" "[0, 0]" 0 "[1, 2, 3]"]
  by (simp add: zeroed_def)

end
