(* ===== verification/RB_Tree.thy ===== *)
theory RB_Tree
  imports HDS_Prelude
begin

text \<open>
  The red-black tree inside \<open>HP_map\<close> and \<open>HP_set\<close> (\<open>common/HP_Map.h\<close>, \<open>common/HP_Set.h\<close>): rotations,
  recolouring after an insertion and after an erasure, search, order statistics and the in-order
  steps.

  The C++ tree is a graph of nodes with parent pointers.  A pointer to a node is modelled as a
  position: the subtree that hangs there, and the chain of its \<open>rb_parent\<close>s as a list of frames,
  innermost first.  A frame is an ancestor together with its other subtree, so the test
  \<open>parent\<rightarrow>rb_left == node\<close> is the kind of the first frame and \<open>rb_parent = NULL\<close> is the empty list.
  Dereferencing a null pointer is \<open>None\<close>.  Weights are C \<open>int\<close>s; they count nodes, so they stay far
  below the width of the type and are modelled as \<open>int\<close>.
\<close>

section \<open>Nodes and positions\<close>

datatype rb_color = RB_TREE_RED | RB_TREE_BLACK

datatype ('k, 'v) rb_node =
    Null
  | Node (rb_color: rb_color) (rb_left: "('k, 'v) rb_node") (node_first: 'k) (node_second: 'v)
      (node_weight: int) (rb_right: "('k, 'v) rb_node")

datatype ('k, 'v) rb_frame =
    In_Left rb_color 'k 'v int "('k, 'v) rb_node"
  | In_Right "('k, 'v) rb_node" rb_color 'k 'v int

type_synonym ('k, 'v) rb_path = "('k, 'v) rb_frame list"
type_synonym ('k, 'v) position = "('k, 'v) rb_node \<times> ('k, 'v) rb_path"

fun weight :: "('k, 'v) rb_node \<Rightarrow> int" where
  "weight Null = 0"
| "weight (Node c l k v w r) = w"

fun is_red :: "('k, 'v) rb_node \<Rightarrow> bool" where
  "is_red Null = False"
| "is_red (Node c l k v w r) \<longleftrightarrow> c = RB_TREE_RED"

fun set_color :: "rb_color \<Rightarrow> ('k, 'v) rb_node \<Rightarrow> ('k, 'v) rb_node" where
  "set_color c Null = Null"
| "set_color c (Node _ l k v w r) = Node c l k v w r"

fun fill :: "('k, 'v) rb_frame \<Rightarrow> ('k, 'v) rb_node \<Rightarrow> ('k, 'v) rb_node" where
  "fill (In_Left c k v w r) t = Node c t k v w r"
| "fill (In_Right l c k v w) t = Node c l k v w t"

fun plug :: "('k, 'v) rb_node \<Rightarrow> ('k, 'v) rb_path \<Rightarrow> ('k, 'v) rb_node" where
  "plug t [] = t"
| "plug t (f # fs) = plug (fill f t) fs"

fun frame_color :: "('k, 'v) rb_frame \<Rightarrow> rb_color" where
  "frame_color (In_Left c k v w r) = c"
| "frame_color (In_Right l c k v w) = c"

fun add_weight :: "int \<Rightarrow> ('k, 'v) rb_frame \<Rightarrow> ('k, 'v) rb_frame" where
  "add_weight d (In_Left c k v w r) = In_Left c k v (w + d) r"
| "add_weight d (In_Right l c k v w) = In_Right l c k v (w + d)"

section \<open>Rotations\<close>

fun rb_rotate_left :: "('k, 'v) rb_node \<Rightarrow> ('k, 'v) rb_node option" where
  "rb_rotate_left (Node nc a nk nv nw (Node rc b rk rv rw c)) =
     Some (Node rc (Node nc a nk nv (weight a + weight b + 1) b) rk rv
       (weight a + weight b + weight c + 2) c)"
| "rb_rotate_left _ = None"

fun rb_rotate_right :: "('k, 'v) rb_node \<Rightarrow> ('k, 'v) rb_node option" where
  "rb_rotate_right (Node nc (Node lc a lk lv lw b) nk nv nw c) =
     Some (Node lc a lk lv (weight a + weight b + weight c + 2)
       (Node nc b nk nv (weight b + weight c + 1) c))"
| "rb_rotate_right _ = None"

section \<open>Insertion\<close>

text \<open>The loop of \<open>rb_insert_color\<close> on the position of \<open>node\<close>; the result is the whole tree, its
  root painted black.  After the rotations the loop test runs once more, on the node below the new
  top of the rotated part.\<close>

fun rb_insert_color :: "('k, 'v) rb_node \<Rightarrow> ('k, 'v) rb_path \<Rightarrow> ('k, 'v) rb_node option" where
  "rb_insert_color node [] = Some (set_color RB_TREE_BLACK node)"
| "rb_insert_color node (parent # fs) =
    (if frame_color parent = RB_TREE_BLACK then Some (set_color RB_TREE_BLACK (plug node (parent # fs)))
     else case fs of
       [] \<Rightarrow> None
     | In_Left gc gk gv gw uncle # rest \<Rightarrow>
         if is_red uncle then
           rb_insert_color (Node RB_TREE_RED (set_color RB_TREE_BLACK (fill parent node)) gk gv gw
             (set_color RB_TREE_BLACK uncle)) rest
         else
           (case (case parent of In_Right _ _ _ _ _ \<Rightarrow> rb_rotate_left (fill parent node)
                  | In_Left _ _ _ _ _ \<Rightarrow> Some (fill parent node)) of
              None \<Rightarrow> None
            | Some p \<Rightarrow>
                (case rb_rotate_right (Node RB_TREE_RED (set_color RB_TREE_BLACK p) gk gv gw uncle) of
                   Some (Node c l k v w r) \<Rightarrow> rb_insert_color l (In_Left c k v w r # rest)
                 | _ \<Rightarrow> None))
     | In_Right uncle gc gk gv gw # rest \<Rightarrow>
         if is_red uncle then
           rb_insert_color (Node RB_TREE_RED (set_color RB_TREE_BLACK uncle) gk gv gw
             (set_color RB_TREE_BLACK (fill parent node))) rest
         else
           (case (case parent of In_Left _ _ _ _ _ \<Rightarrow> rb_rotate_right (fill parent node)
                  | In_Right _ _ _ _ _ \<Rightarrow> Some (fill parent node)) of
              None \<Rightarrow> None
            | Some p \<Rightarrow>
                (case rb_rotate_left (Node RB_TREE_RED uncle gk gv gw (set_color RB_TREE_BLACK p)) of
                   Some (Node c l k v w r) \<Rightarrow> rb_insert_color r (In_Right l c k v w # rest)
                 | _ \<Rightarrow> None)))"

text \<open>The descent of \<open>my_rb_insert\<close>: every node on the way gains weight; on an equal key the weights
  of that node and of its ancestors are taken back.\<close>

fun insert_descent :: "'k::linorder \<Rightarrow> ('k, 'v) rb_node \<Rightarrow> ('k, 'v) rb_path \<Rightarrow> ('k, 'v) rb_path + ('k, 'v) rb_node" where
  "insert_descent x Null fs = Inl fs"
| "insert_descent x (Node c l k v w r) fs =
    (if x < k then insert_descent x l (In_Left c k v (w + 1) r # fs)
     else if k < x then insert_descent x r (In_Right l c k v (w + 1) # fs)
     else Inr (plug (Node c l k v (w + 1 - 1) r) (map (add_weight (- 1)) fs)))"

record ('k, 'v) rb_root =
  root_node :: "('k, 'v) rb_node"
  root_size :: int

definition my_rb_insert :: "'k::linorder \<Rightarrow> 'v \<Rightarrow> ('k, 'v) rb_root \<Rightarrow> (int \<times> ('k, 'v) rb_root) option" where
  "my_rb_insert x y root =
    (case insert_descent x (root_node root) [] of
       Inr t \<Rightarrow> Some (- 1, root\<lparr>root_node := t\<rparr>)
     | Inl fs \<Rightarrow> map_option (\<lambda>t. (0, root\<lparr>root_size := root_size root + 1, root_node := t\<rparr>))
         (rb_insert_color (Node RB_TREE_RED Null x y 1 Null) fs))"

section \<open>Search\<close>

fun my_rb_find_from :: "'k::linorder \<Rightarrow> ('k, 'v) rb_node \<Rightarrow> ('k, 'v) rb_path \<Rightarrow> ('k, 'v) position option" where
  "my_rb_find_from x Null fs = None"
| "my_rb_find_from x (Node c l k v w r) fs =
    (if x < k then my_rb_find_from x l (In_Left c k v w r # fs)
     else if k < x then my_rb_find_from x r (In_Right l c k v w # fs)
     else Some (Node c l k v w r, fs))"

definition my_rb_find :: "'k::linorder \<Rightarrow> ('k, 'v) rb_root \<Rightarrow> ('k, 'v) position option" where
  "my_rb_find x root = my_rb_find_from x (root_node root) []"

fun select_loop :: "int \<Rightarrow> ('k, 'v) rb_node \<Rightarrow> ('k, 'v) rb_node option" where
  "select_loop order Null = None"
| "select_loop order (Node c l k v w r) =
    (let ls = weight l in
     if ls + 1 = order then Some (Node c l k v w r)
     else if order < ls + 1 then select_loop order l
     else select_loop (order - (ls + 1)) r)"

definition rb_select :: "int \<Rightarrow> ('k, 'v) rb_root \<Rightarrow> ('k, 'v) rb_node option" where
  "rb_select order root = (if order \<le> 0 \<or> root_size root < order then None
     else select_loop order (root_node root))"

section \<open>In-order steps\<close>

fun go_left :: "('k, 'v) rb_node \<Rightarrow> ('k, 'v) rb_path \<Rightarrow> ('k, 'v) position option" where
  "go_left Null fs = None"
| "go_left (Node c l k v w r) fs =
    (if l = Null then Some (Node c l k v w r, fs) else go_left l (In_Left c k v w r # fs))"

fun go_right :: "('k, 'v) rb_node \<Rightarrow> ('k, 'v) rb_path \<Rightarrow> ('k, 'v) position option" where
  "go_right Null fs = None"
| "go_right (Node c l k v w r) fs =
    (if r = Null then Some (Node c l k v w r, fs) else go_right r (In_Right l c k v w # fs))"

fun up_from_right :: "('k, 'v) rb_node \<Rightarrow> ('k, 'v) rb_path \<Rightarrow> ('k, 'v) position option" where
  "up_from_right t [] = None"
| "up_from_right t (In_Left c k v w r # fs) = Some (Node c t k v w r, fs)"
| "up_from_right t (In_Right l c k v w # fs) = up_from_right (Node c l k v w t) fs"

fun up_from_left :: "('k, 'v) rb_node \<Rightarrow> ('k, 'v) rb_path \<Rightarrow> ('k, 'v) position option" where
  "up_from_left t [] = None"
| "up_from_left t (In_Right l c k v w # fs) = Some (Node c l k v w t, fs)"
| "up_from_left t (In_Left c k v w r # fs) = up_from_left (Node c t k v w r) fs"

definition rb_first :: "('k, 'v) rb_root \<Rightarrow> ('k, 'v) position option" where
  "rb_first root = go_left (root_node root) []"

definition rb_last :: "('k, 'v) rb_root \<Rightarrow> ('k, 'v) position option" where
  "rb_last root = go_right (root_node root) []"

fun rb_next :: "('k, 'v) position \<Rightarrow> ('k, 'v) position option" where
  "rb_next (Null, fs) = None"
| "rb_next (Node c l k v w r, fs) =
    (if r \<noteq> Null then go_left r (In_Right l c k v w # fs) else up_from_right (Node c l k v w r) fs)"

fun rb_prev :: "('k, 'v) position \<Rightarrow> ('k, 'v) position option" where
  "rb_prev (Null, fs) = None"
| "rb_prev (Node c l k v w r, fs) =
    (if l \<noteq> Null then go_right l (In_Left c k v w r # fs) else up_from_left (Node c l k v w r) fs)"

section \<open>Erasure\<close>

text \<open>One round of the loop of \<open>__rb_erase_color\<close> for a left child, once the brother is black (or
  null, then dereferenced): either both nephews are black, and the round ends with the brother red
  (\<open>Inl\<close> the parent's subtree), or the rotations end the loop (\<open>Inr\<close> the subtree in the parent's
  place).\<close>

definition erase_left_round ::
  "rb_color \<Rightarrow> ('k, 'v) rb_node \<Rightarrow> 'k \<Rightarrow> 'v \<Rightarrow> int \<Rightarrow> ('k, 'v) rb_node \<Rightarrow> (('k, 'v) rb_node + ('k, 'v) rb_node) option" where
  "erase_left_round pc node pk pv pw other =
    (case other of Null \<Rightarrow> None
     | Node oc onl ok ov ow onr \<Rightarrow>
        if \<not> is_red onl \<and> \<not> is_red onr then Some (Inl (Node pc node pk pv pw (Node RB_TREE_RED onl ok ov ow onr)))
        else
          (case (if \<not> is_red onr then rb_rotate_right (Node RB_TREE_RED (set_color RB_TREE_BLACK onl) ok ov ow onr)
                 else Some other) of
             Some (Node _ onl' ok' ov' ow' onr') \<Rightarrow>
               map_option Inr (rb_rotate_left (Node RB_TREE_BLACK node pk pv pw
                 (Node pc onl' ok' ov' ow' (set_color RB_TREE_BLACK onr'))))
           | _ \<Rightarrow> None))"

definition erase_right_round ::
  "rb_color \<Rightarrow> ('k, 'v) rb_node \<Rightarrow> 'k \<Rightarrow> 'v \<Rightarrow> int \<Rightarrow> ('k, 'v) rb_node \<Rightarrow> (('k, 'v) rb_node + ('k, 'v) rb_node) option" where
  "erase_right_round pc node pk pv pw other =
    (case other of Null \<Rightarrow> None
     | Node oc onl ok ov ow onr \<Rightarrow>
        if \<not> is_red onl \<and> \<not> is_red onr then Some (Inl (Node pc (Node RB_TREE_RED onl ok ov ow onr) pk pv pw node))
        else
          (case (if \<not> is_red onl then rb_rotate_left (Node RB_TREE_RED onl ok ov ow (set_color RB_TREE_BLACK onr))
                 else Some other) of
             Some (Node _ onl' ok' ov' ow' onr') \<Rightarrow>
               map_option Inr (rb_rotate_right (Node RB_TREE_BLACK
                 (Node pc (set_color RB_TREE_BLACK onl') ok' ov' ow' onr') pk pv pw node))
           | _ \<Rightarrow> None))"

lemma erase_left_round_color: "erase_left_round pc node pk pv pw t = Some (Inl p) \<Longrightarrow> is_red p \<longleftrightarrow> pc = RB_TREE_RED"
  by (auto simp: erase_left_round_def split: rb_node.splits if_splits option.splits)

lemma erase_right_round_color: "erase_right_round pc node pk pv pw t = Some (Inl p) \<Longrightarrow> is_red p \<longleftrightarrow> pc = RB_TREE_RED"
  by (auto simp: erase_right_round_def split: rb_node.splits if_splits option.splits)

lemma rotate_left_red: "rb_rotate_left (Node c a k v w t) = Some (Node c' (Node pc l k' v' w' r) k2 v2 w2 r2) \<Longrightarrow> pc = c"
  by (cases t) auto

lemma rotate_right_red: "rb_rotate_right (Node c t k v w b) = Some (Node c' l2 k2 v2 w2 (Node pc l k' v' w' r)) \<Longrightarrow> pc = c"
  by (cases t) auto

text \<open>The loop.  A red brother is first rotated above the parent, which turns red.  A null \<open>node\<close>
  equals a null \<open>parent\<rightarrow>rb_left\<close>, so a right child can be taken for a left one; its brother, the
  node itself, is then dereferenced.\<close>

function rb_erase_color :: "('k, 'v) rb_node \<Rightarrow> ('k, 'v) rb_path \<Rightarrow> ('k, 'v) rb_node option" where
  "rb_erase_color node [] = Some (set_color RB_TREE_BLACK node)"
| "rb_erase_color node (In_Left pc pk pv pw other # fs) =
    (if is_red node then Some (plug (set_color RB_TREE_BLACK node) (In_Left pc pk pv pw other # fs))
     else if is_red other then
       (case rb_rotate_left (Node RB_TREE_RED node pk pv pw (set_color RB_TREE_BLACK other)) of
          Some (Node oc (Node pc' node' pk' pv' pw' other') ok ov ow onr) \<Rightarrow>
            (case erase_left_round pc' node' pk' pv' pw' other' of
               None \<Rightarrow> None
             | Some (Inl p) \<Rightarrow>
                 rb_erase_color p (In_Left oc ok ov ow onr # fs)
             | Some (Inr p) \<Rightarrow> Some (set_color RB_TREE_BLACK (plug p (In_Left oc ok ov ow onr # fs))))
        | _ \<Rightarrow> None)
     else (case erase_left_round pc node pk pv pw other of
             None \<Rightarrow> None
           | Some (Inl p) \<Rightarrow> rb_erase_color p fs
           | Some (Inr p) \<Rightarrow> Some (set_color RB_TREE_BLACK (plug p fs))))"
| "rb_erase_color node (In_Right other pc pk pv pw # fs) =
    (if is_red node then Some (plug (set_color RB_TREE_BLACK node) (In_Right other pc pk pv pw # fs))
     else if node = Null \<and> other = Null then None
     else if is_red other then
       (case rb_rotate_right (Node RB_TREE_RED (set_color RB_TREE_BLACK other) pk pv pw node) of
          Some (Node oc onl ok ov ow (Node pc' other' pk' pv' pw' node')) \<Rightarrow>
            (case erase_right_round pc' node' pk' pv' pw' other' of
               None \<Rightarrow> None
             | Some (Inl p) \<Rightarrow>
                 rb_erase_color p (In_Right onl oc ok ov ow # fs)
             | Some (Inr p) \<Rightarrow> Some (set_color RB_TREE_BLACK (plug p (In_Right onl oc ok ov ow # fs))))
        | _ \<Rightarrow> None)
     else (case erase_right_round pc node pk pv pw other of
             None \<Rightarrow> None
           | Some (Inl p) \<Rightarrow> rb_erase_color p fs
           | Some (Inr p) \<Rightarrow> Some (set_color RB_TREE_BLACK (plug p fs))))"
  by pat_completeness auto
termination
  by (relation "measure (\<lambda>(t, fs). 2 * length fs + (if is_red t then 0 else 1))")
    (auto dest!: rotate_left_red rotate_right_red dest: erase_left_round_color erase_right_round_color)

definition erase_fixup :: "rb_color \<Rightarrow> ('k, 'v) rb_node \<Rightarrow> ('k, 'v) rb_path \<Rightarrow> ('k, 'v) rb_node option" where
  "erase_fixup color child fs = (if color = RB_TREE_BLACK then rb_erase_color child fs else Some (plug child fs))"

text \<open>\<open>rb_erase\<close>: a node with two children gives its place, colour and (already decremented) weight
  to its successor, whose own child moves up.  The weights of all ancestors of the removed place
  decrease.\<close>

fun erase_node :: "('k, 'v) position \<Rightarrow> ('k, 'v) rb_node option" where
  "erase_node (Null, fs) = None"
| "erase_node (Node c l k v w r, fs) =
    (let up = map (add_weight (- 1)) fs in
     if l = Null then erase_fixup c r up
     else if r = Null then erase_fixup c l up
     else (case go_left r [] of
             Some (Node sc _ sk sv sw child, inner) \<Rightarrow>
               erase_fixup sc child (map (add_weight (- 1)) inner @ In_Right l c sk sv (w - 1) # up)
           | _ \<Rightarrow> None))"

definition rb_erase :: "('k, 'v) position \<Rightarrow> ('k, 'v) rb_root \<Rightarrow> ('k, 'v) rb_root option" where
  "rb_erase node root = map_option (\<lambda>t. root\<lparr>root_size := root_size root - 1, root_node := t\<rparr>) (erase_node node)"

section \<open>Contents\<close>

fun entries :: "('k, 'v) rb_node \<Rightarrow> ('k \<times> 'v) list" where
  "entries Null = []"
| "entries (Node c l k v w r) = entries l @ (k, v) # entries r"

fun before :: "('k, 'v) rb_path \<Rightarrow> ('k \<times> 'v) list" where
  "before [] = []"
| "before (In_Left c k v w r # fs) = before fs"
| "before (In_Right l c k v w # fs) = before fs @ entries l @ [(k, v)]"

fun after :: "('k, 'v) rb_path \<Rightarrow> ('k \<times> 'v) list" where
  "after [] = []"
| "after (In_Left c k v w r # fs) = (k, v) # entries r @ after fs"
| "after (In_Right l c k v w # fs) = after fs"

lemma entries_Nil [simp]: "entries t = [] \<longleftrightarrow> t = Null"
  by (cases t) auto

lemma entries_plug: "entries (plug t fs) = before fs @ entries t @ after fs"
proof (induction fs arbitrary: t)
  case (Cons f fs) then show ?case by (cases f) auto
qed simp

lemma entries_set_color [simp]: "entries (set_color c t) = entries t"
  by (cases t) auto

lemma before_add_weight [simp]: "before (map (add_weight d) fs) = before fs"
  by (induction fs rule: before.induct) auto

lemma after_add_weight [simp]: "after (map (add_weight d) fs) = after fs"
  by (induction fs rule: after.induct) auto

lemma before_append [simp]: "before (fs @ gs) = before gs @ before fs"
  by (induction fs rule: before.induct) auto

lemma after_append [simp]: "after (fs @ gs) = after fs @ after gs"
  by (induction fs rule: after.induct) auto

lemma entries_rotate_left: "rb_rotate_left t = Some t' \<Longrightarrow> entries t' = entries t"
  by (cases t rule: rb_rotate_left.cases) auto

lemma entries_rotate_right: "rb_rotate_right t = Some t' \<Longrightarrow> entries t' = entries t"
  by (cases t rule: rb_rotate_right.cases) auto

section \<open>Balance\<close>

fun black_height :: "('k, 'v) rb_node \<Rightarrow> nat" where
  "black_height Null = 0"
| "black_height (Node c l k v w r) = black_height l + (if c = RB_TREE_BLACK then 1 else 0)"

fun inv_height :: "('k, 'v) rb_node \<Rightarrow> bool" where
  "inv_height Null = True"
| "inv_height (Node c l k v w r) \<longleftrightarrow> inv_height l \<and> inv_height r \<and> black_height l = black_height r"

fun inv_color :: "('k, 'v) rb_node \<Rightarrow> bool" where
  "inv_color Null = True"
| "inv_color (Node c l k v w r) \<longleftrightarrow> inv_color l \<and> inv_color r \<and> (c = RB_TREE_RED \<longrightarrow> \<not> is_red l \<and> \<not> is_red r)"

definition rb_balanced :: "('k, 'v) rb_node \<Rightarrow> bool" where
  "rb_balanced t \<longleftrightarrow> inv_height t \<and> inv_color t \<and> \<not> is_red t"

fun path_height :: "('k, 'v) rb_path \<Rightarrow> nat \<Rightarrow> bool" where
  "path_height [] n = True"
| "path_height (In_Left c k v w t # fs) n \<longleftrightarrow>
     inv_height t \<and> black_height t = n \<and> path_height fs (n + (if c = RB_TREE_BLACK then 1 else 0))"
| "path_height (In_Right t c k v w # fs) n \<longleftrightarrow>
     inv_height t \<and> black_height t = n \<and> path_height fs (n + (if c = RB_TREE_BLACK then 1 else 0))"

definition under_black :: "('k, 'v) rb_path \<Rightarrow> bool" where
  "under_black fs \<longleftrightarrow> fs \<noteq> [] \<and> frame_color (hd fs) = RB_TREE_BLACK"

fun path_color :: "('k, 'v) rb_path \<Rightarrow> bool" where
  "path_color [] = True"
| "path_color (In_Left c k v w t # fs) \<longleftrightarrow> inv_color t \<and> (c = RB_TREE_RED \<longrightarrow> \<not> is_red t \<and> under_black fs) \<and> path_color fs"
| "path_color (In_Right t c k v w # fs) \<longleftrightarrow> inv_color t \<and> (c = RB_TREE_RED \<longrightarrow> \<not> is_red t \<and> under_black fs) \<and> path_color fs"

end
