(* ===== verification/RB_Balance.thy ===== *)
theory RB_Balance
  imports RB_Tree
begin

text \<open>
  The red-black tree keeps its contents and its balance: the recolouring loops of insertion and
  erasure never dereference a null pointer on a balanced tree, end in a balanced tree, and do not
  change the in-order sequence of entries.
\<close>


lemma color_simps [simp]: "c \<noteq> RB_TREE_BLACK \<longleftrightarrow> c = RB_TREE_RED" "c \<noteq> RB_TREE_RED \<longleftrightarrow> c = RB_TREE_BLACK"
  by (cases c; simp)+

lemma inv_height_plug: "inv_height t \<Longrightarrow> path_height fs (black_height t) \<Longrightarrow> inv_height (plug t fs)"
proof (induction fs arbitrary: t)
  case (Cons f fs) then show ?case by (cases f) (auto split: if_splits)
qed simp

lemma inv_color_plug:
  "inv_color t \<Longrightarrow> path_color fs \<Longrightarrow> (is_red t \<longrightarrow> fs = [] \<or> under_black fs) \<Longrightarrow> inv_color (plug t fs)"
proof (induction fs arbitrary: t)
  case (Cons f fs) show ?case
    unfolding plug.simps by (rule Cons.IH) (use Cons.prems in \<open>cases f; auto simp: under_black_def\<close>)+
qed simp

lemma plug_black: "path_color fs \<Longrightarrow> fs = [] \<longrightarrow> \<not> is_red t \<Longrightarrow> \<not> is_red (plug t fs)"
proof (induction fs arbitrary: t)
  case (Cons f fs) show ?case
    unfolding plug.simps by (rule Cons.IH) (use Cons.prems in \<open>cases f; auto simp: under_black_def\<close>)+
qed simp

lemma set_color_black [simp]: "\<not> is_red (set_color RB_TREE_BLACK t)"
  by (cases t) auto

lemma set_color_id: "\<not> is_red t \<Longrightarrow> set_color RB_TREE_BLACK t = t"
  by (cases t) auto

lemma balanced_plug:
  "inv_height t \<Longrightarrow> path_height fs (black_height t) \<Longrightarrow> inv_color t \<Longrightarrow> path_color fs \<Longrightarrow>
   (is_red t \<longrightarrow> under_black fs) \<Longrightarrow> rb_balanced (plug t fs)"
  unfolding rb_balanced_def
  using inv_height_plug inv_color_plug plug_black by (metis under_black_def)

lemma rb_balanced_paint: "rb_balanced t \<Longrightarrow> rb_balanced (set_color RB_TREE_BLACK t)"
  by (simp add: rb_balanced_def set_color_id)

lemma inv_color_black [simp]: "inv_color t \<Longrightarrow> inv_color (set_color RB_TREE_BLACK t)"
  by (cases t) auto

lemma inv_height_set_color [simp]: "inv_height (set_color c t) = inv_height t"
  by (cases t) auto

lemma black_height_black [simp]: "black_height (set_color RB_TREE_BLACK t) = black_height t + (if is_red t then 1 else 0)"
  by (cases t) auto

lemma rb_insert_color_balanced:
  assumes "is_red t" "inv_height t" "inv_color t" "path_height fs (black_height t)" "path_color fs"
  shows "\<exists>t'. rb_insert_color t fs = Some t' \<and> rb_balanced t'"
  using assms
proof (induction t fs rule: rb_insert_color.induct)
  case (1 node) then show ?case by (simp add: rb_balanced_def)
next
  case (2 node parent fs)
  show ?case
  proof (cases "frame_color parent = RB_TREE_BLACK")
    case True
    with 2 have "rb_balanced (plug node (parent # fs))" by (intro balanced_plug) (auto simp: under_black_def)
    with True show ?thesis by (simp add: rb_balanced_def)
  next
    case False
    with "2.prems" obtain g rest where fs: "fs = g # rest" "frame_color g = RB_TREE_BLACK"
      by (cases parent; cases fs) (auto simp: under_black_def)
    show ?thesis
    proof (cases g)
      case (In_Left gc gk gv gw uncle)
      show ?thesis
      proof (cases "is_red uncle")
        case True
        show ?thesis
          using "2.IH"(1) [OF False fs(1) In_Left True] "2.prems" False True fs In_Left
          by (cases parent) auto
      next
        case nred: False
        obtain nl nk nv nw nr where node: "node = Node RB_TREE_RED nl nk nv nw nr"
          using "2.prems"(1) by (cases node) auto
        have b: "rb_balanced (plug (Node RB_TREE_BLACK l k v w r) rest)"
          if "inv_height (Node RB_TREE_BLACK l k v w r)" "inv_color (Node RB_TREE_BLACK l k v w r)"
            "black_height l = black_height uncle"
          for l k v w r
          using "2.prems" False fs In_Left that by (intro balanced_plug; cases parent) auto
        show ?thesis
          using "2.prems" False fs In_Left nred node
          by (cases parent) (auto intro!: rb_balanced_paint b)
      qed
    next
      case (In_Right uncle gc gk gv gw)
      show ?thesis
      proof (cases "is_red uncle")
        case True
        show ?thesis
          using "2.IH"(3) [OF False fs(1) In_Right True] "2.prems" False True fs In_Right
          by (cases parent) auto
      next
        case nred: False
        obtain nl nk nv nw nr where node: "node = Node RB_TREE_RED nl nk nv nw nr"
          using "2.prems"(1) by (cases node) auto
        have b: "rb_balanced (plug (Node RB_TREE_BLACK l k v w r) rest)"
          if "inv_height (Node RB_TREE_BLACK l k v w r)" "inv_color (Node RB_TREE_BLACK l k v w r)"
            "black_height l = black_height uncle"
          for l k v w r
          using "2.prems" False fs In_Right that by (intro balanced_plug; cases parent) auto
        show ?thesis
          using "2.prems" False fs In_Right nred node
          by (cases parent) (auto intro!: rb_balanced_paint b)
      qed
    qed
  qed
qed


lemma rb_insert_color_entries:
  "rb_insert_color t fs = Some t' \<Longrightarrow> entries t' = before fs @ entries t @ after fs"
proof (induction t fs rule: rb_insert_color.induct)
  case (2 node parent fs)
  then show ?case
    by (cases parent; cases fs rule: before.cases; cases node)
      (auto simp: entries_plug split: if_splits rb_node.splits rb_frame.splits option.splits)
qed auto

lemmas rotation_entries = entries_rotate_left entries_rotate_right

definition round_tree :: "('k, 'v) rb_node + ('k, 'v) rb_node \<Rightarrow> ('k, 'v) rb_node" where
  "round_tree x = (case x of Inl t \<Rightarrow> t | Inr t \<Rightarrow> t)"

lemma erase_left_round_entries:
  "erase_left_round pc node pk pv pw other = Some x \<Longrightarrow>
   entries (round_tree x) = entries node @ (pk, pv) # entries other"
  by (auto simp: erase_left_round_def round_tree_def dest!: rotation_entries split: rb_node.splits if_splits option.splits)

lemma erase_right_round_entries:
  "erase_right_round pc node pk pv pw other = Some x \<Longrightarrow>
   entries (round_tree x) = entries other @ (pk, pv) # entries node"
  by (auto simp: erase_right_round_def round_tree_def dest!: rotation_entries split: rb_node.splits if_splits option.splits)

lemma rb_erase_color_entries:
  "rb_erase_color t fs = Some t' \<Longrightarrow> entries t' = before fs @ entries t @ after fs"
proof (induction t fs rule: rb_erase_color.induct)
  case (2 node pc pk pv pw other fs)
  then show ?case
    by (cases other)
      (auto simp: entries_plug round_tree_def dest!: erase_left_round_entries split: if_splits option.splits sum.splits)
next
  case (3 node other pc pk pv pw fs)
  then show ?case
    by (cases other)
      (auto simp: entries_plug round_tree_def dest!: erase_right_round_entries split: if_splits option.splits sum.splits)
qed auto

lemma erase_left_round_balanced:
  assumes "\<not> is_red other" "inv_height node" "inv_height other" "inv_color node" "\<not> is_red node" "inv_color other"
    "black_height other = black_height node + 1"
  shows "\<exists>x. erase_left_round pc node pk pv pw other = Some x \<and> inv_height (round_tree x) \<and>
    (case x of Inl t \<Rightarrow> inv_color (set_color RB_TREE_BLACK t) \<and>
          black_height t = black_height node + (if pc = RB_TREE_BLACK then 1 else 0)
     | Inr t \<Rightarrow> inv_color t \<and> black_height t = black_height other + (if pc = RB_TREE_BLACK then 1 else 0) \<and>
          (is_red t \<longrightarrow> pc = RB_TREE_RED))"
proof -
  obtain ol ok ov ow onr where o: "other = Node RB_TREE_BLACK ol ok ov ow onr"
    using assms(1,7) by (cases other) auto
  show ?thesis
    using assms by (cases ol; cases onr) (auto simp: o erase_left_round_def round_tree_def split: if_splits)
qed

lemma erase_right_round_balanced:
  assumes "\<not> is_red other" "inv_height node" "inv_height other" "inv_color node" "\<not> is_red node" "inv_color other"
    "black_height other = black_height node + 1"
  shows "\<exists>x. erase_right_round pc node pk pv pw other = Some x \<and> inv_height (round_tree x) \<and>
    (case x of Inl t \<Rightarrow> inv_color (set_color RB_TREE_BLACK t) \<and>
          black_height t = black_height node + (if pc = RB_TREE_BLACK then 1 else 0)
     | Inr t \<Rightarrow> inv_color t \<and> black_height t = black_height other + (if pc = RB_TREE_BLACK then 1 else 0) \<and>
          (is_red t \<longrightarrow> pc = RB_TREE_RED))"
proof -
  obtain ol ok ov ow onr where o: "other = Node RB_TREE_BLACK ol ok ov ow onr"
    using assms(1,7) by (cases other) auto
  show ?thesis
    using assms by (cases ol; cases onr) (auto simp: o erase_right_round_def round_tree_def split: if_splits)
qed


lemma inv_color_of_black: "inv_color (set_color RB_TREE_BLACK t) \<Longrightarrow> \<not> is_red t \<Longrightarrow> inv_color t"
  by (simp add: set_color_id)

lemma inv_color_nonroot: "inv_color t \<Longrightarrow> inv_color (set_color RB_TREE_BLACK t)"
  by simp

lemma erase_left_red_brother:
  assumes "\<not> is_red node" "is_red other" "inv_height node" "inv_color node"
    "path_height (In_Left pc pk pv pw other # fs) (black_height node + 1)" "path_color (In_Left pc pk pv pw other # fs)"
  shows "\<exists>t'. rb_erase_color node (In_Left pc pk pv pw other # fs) = Some t' \<and> rb_balanced t'"
proof -
  obtain a ok ov ow b where o: "other = Node RB_TREE_RED a ok ov ow b" using assms(2) by (cases other) auto
  let ?up = "In_Left RB_TREE_BLACK ok ov (weight node + weight a + weight b + 2) b # fs"
  have pre: "\<not> is_red a" "inv_height a" "inv_color a" "black_height a = black_height node + 1"
    "path_color ?up" "path_height ?up (black_height node + 1)"
    using assms o by auto
  obtain x where x: "erase_left_round RB_TREE_RED node pk pv (weight node + weight a + 1) a = Some x"
      "inv_height (round_tree x)"
      "case x of Inl t \<Rightarrow> inv_color (set_color RB_TREE_BLACK t) \<and> black_height t = black_height node
       | Inr t \<Rightarrow> inv_color t \<and> black_height t = black_height node + 1"
    using erase_left_round_balanced [OF pre(1) assms(3) pre(2) assms(4,1) pre(3,4)] pre(4)
    by (fastforce split: sum.splits)
  show ?thesis
  proof (cases x)
    case (Inl p)
    have "is_red p" by (simp add: erase_left_round_color [OF x(1) [unfolded Inl]])
    moreover have "rb_balanced (plug (set_color RB_TREE_BLACK p) ?up)"
      by (rule balanced_plug) (use x Inl pre \<open>is_red p\<close> in \<open>auto simp: round_tree_def\<close>)
    ultimately show ?thesis using x Inl assms(1) o by simp
  next
    case (Inr p)
    then have "rb_balanced (plug p ?up)"
      using x pre by (intro balanced_plug) (auto simp: round_tree_def under_black_def)
    with x Inr assms(1) o show ?thesis by (simp add: rb_balanced_paint)
  qed
qed

lemma erase_right_red_brother:
  assumes "\<not> is_red node" "is_red other" "inv_height node" "inv_color node"
    "path_height (In_Right other pc pk pv pw # fs) (black_height node + 1)" "path_color (In_Right other pc pk pv pw # fs)"
  shows "\<exists>t'. rb_erase_color node (In_Right other pc pk pv pw # fs) = Some t' \<and> rb_balanced t'"
proof -
  obtain a ok ov ow b where o: "other = Node RB_TREE_RED b ok ov ow a" using assms(2) by (cases other) auto
  let ?up = "In_Right b RB_TREE_BLACK ok ov (weight b + weight a + weight node + 2) # fs"
  have pre: "\<not> is_red a" "inv_height a" "inv_color a" "black_height a = black_height node + 1"
    "path_color ?up" "path_height ?up (black_height node + 1)"
    using assms o by auto
  obtain x where x: "erase_right_round RB_TREE_RED node pk pv (weight a + weight node + 1) a = Some x"
      "inv_height (round_tree x)"
      "case x of Inl t \<Rightarrow> inv_color (set_color RB_TREE_BLACK t) \<and> black_height t = black_height node
       | Inr t \<Rightarrow> inv_color t \<and> black_height t = black_height node + 1"
    using erase_right_round_balanced [OF pre(1) assms(3) pre(2) assms(4,1) pre(3,4)] pre(4)
    by (fastforce split: sum.splits)
  show ?thesis
  proof (cases x)
    case (Inl p)
    have "is_red p" by (simp add: erase_right_round_color [OF x(1) [unfolded Inl]])
    moreover have "rb_balanced (plug (set_color RB_TREE_BLACK p) ?up)"
      by (rule balanced_plug) (use x Inl pre \<open>is_red p\<close> in \<open>auto simp: round_tree_def\<close>)
    ultimately show ?thesis using x Inl assms(1) o by simp
  next
    case (Inr p)
    then have "rb_balanced (plug p ?up)"
      using x pre by (intro balanced_plug) (auto simp: round_tree_def under_black_def)
    with x Inr assms(1) o show ?thesis by (simp add: rb_balanced_paint)
  qed
qed

lemma rb_erase_color_balanced:
  assumes "inv_height t" "inv_color (set_color RB_TREE_BLACK t)" "path_height fs (black_height t + 1)" "path_color fs"
  shows "\<exists>t'. rb_erase_color t fs = Some t' \<and> rb_balanced t'"
  using assms
proof (induction t fs rule: rb_erase_color.induct)
  case (1 node) then show ?case by (simp add: rb_balanced_def)
next
  case (2 node pc pk pv pw other fs)
  consider "is_red node" | "\<not> is_red node" "is_red other" | "\<not> is_red node" "\<not> is_red other" by blast
  then show ?case
  proof cases
    case 1
    then have "rb_balanced (plug (set_color RB_TREE_BLACK node) (In_Left pc pk pv pw other # fs))"
      using "2.prems" by (intro balanced_plug) auto
    with 1 show ?thesis by simp
  next
    case k: 2
    with "2.prems" show ?thesis by (intro erase_left_red_brother) (auto intro: inv_color_of_black)
  next
    case k: 3
    have pre: "inv_height other" "inv_color other" "black_height other = black_height node + 1"
      "inv_color node" using "2.prems" k by (auto intro: inv_color_of_black)
    from erase_left_round_balanced [OF k(2) "2.prems"(1) pre(1,4) k(1) pre(2,3), of pc pk pv pw]
    obtain x where x: "erase_left_round pc node pk pv pw other = Some x" "inv_height (round_tree x)"
      "case x of Inl t \<Rightarrow> inv_color (set_color RB_TREE_BLACK t) \<and>
          black_height t = black_height node + (if pc = RB_TREE_BLACK then 1 else 0)
       | Inr t \<Rightarrow> inv_color t \<and> black_height t = black_height other + (if pc = RB_TREE_BLACK then 1 else 0) \<and>
          (is_red t \<longrightarrow> pc = RB_TREE_RED)" by blast
    show ?thesis
    proof (cases x)
      case (Inl p)
      have "\<exists>t'. rb_erase_color p fs = Some t' \<and> rb_balanced t'"
        by (rule "2.IH"(2) [OF k x(1) Inl]) (use x Inl "2.prems" in \<open>auto simp: round_tree_def\<close>)
      with x Inl k show ?thesis by simp
    next
      case (Inr p)
      then have "rb_balanced (plug p fs)"
        using x "2.prems" by (intro balanced_plug) (auto simp: round_tree_def)
      with x Inr k show ?thesis by (simp add: rb_balanced_paint)
    qed
  qed
next
  case (3 node other pc pk pv pw fs)
  consider "is_red node" | "\<not> is_red node" "is_red other" | "\<not> is_red node" "\<not> is_red other" by blast
  then show ?case
  proof cases
    case 1
    then have "rb_balanced (plug (set_color RB_TREE_BLACK node) (In_Right other pc pk pv pw # fs))"
      using "3.prems" by (intro balanced_plug) auto
    with 1 show ?thesis by simp
  next
    case k: 2
    with "3.prems" show ?thesis by (intro erase_right_red_brother) (auto intro: inv_color_of_black)
  next
    case k: 3
    have pre: "inv_height other" "inv_color other" "black_height other = black_height node + 1"
      "inv_color node" using "3.prems" k by (auto intro: inv_color_of_black)
    have nn: "\<not> (node = Null \<and> other = Null)" using pre(3) by auto
    from erase_right_round_balanced [OF k(2) "3.prems"(1) pre(1,4) k(1) pre(2,3), of pc pk pv pw]
    obtain x where x: "erase_right_round pc node pk pv pw other = Some x" "inv_height (round_tree x)"
      "case x of Inl t \<Rightarrow> inv_color (set_color RB_TREE_BLACK t) \<and>
          black_height t = black_height node + (if pc = RB_TREE_BLACK then 1 else 0)
       | Inr t \<Rightarrow> inv_color t \<and> black_height t = black_height other + (if pc = RB_TREE_BLACK then 1 else 0) \<and>
          (is_red t \<longrightarrow> pc = RB_TREE_RED)" by blast
    show ?thesis
    proof (cases x)
      case (Inl p)
      have "\<exists>t'. rb_erase_color p fs = Some t' \<and> rb_balanced t'"
        by (rule "3.IH"(2) [OF k(1) nn k(2) x(1) Inl]) (use x Inl "3.prems" in \<open>auto simp: round_tree_def\<close>)
      with x Inl k nn show ?thesis by simp
    next
      case (Inr p)
      then have "rb_balanced (plug p fs)"
        using x "3.prems" by (intro balanced_plug) (auto simp: round_tree_def)
      with x Inr k nn show ?thesis by (simp add: rb_balanced_paint)
    qed
  qed
qed

section \<open>Weights\<close>

fun weights_ok :: "('k, 'v) rb_node \<Rightarrow> bool" where
  "weights_ok Null = True"
| "weights_ok (Node c l k v w r) \<longleftrightarrow> weights_ok l \<and> weights_ok r \<and> w = weight l + weight r + 1"

fun path_weight :: "('k, 'v) rb_path \<Rightarrow> int \<Rightarrow> bool" where
  "path_weight [] n = True"
| "path_weight (In_Left c k v w t # fs) n \<longleftrightarrow> weights_ok t \<and> w = n + weight t + 1 \<and> path_weight fs w"
| "path_weight (In_Right t c k v w # fs) n \<longleftrightarrow> weights_ok t \<and> w = n + weight t + 1 \<and> path_weight fs w"

lemma weight_length: "weights_ok t \<Longrightarrow> weight t = int (length (entries t))"
  by (induction t) auto

lemma weights_plug: "weights_ok t \<Longrightarrow> path_weight fs (weight t) \<Longrightarrow> weights_ok (plug t fs)"
proof (induction fs arbitrary: t)
  case (Cons f fs) then show ?case by (cases f) (auto simp: add.commute)
qed simp

lemma weights_set_color [simp]: "weights_ok (set_color c t) = weights_ok t" "weight (set_color c t) = weight t"
  by (cases t; simp)+

lemma is_redE: "is_red t \<Longrightarrow> (\<And>a k v w b. t = Node RB_TREE_RED a k v w b \<Longrightarrow> P) \<Longrightarrow> P"
  by (cases t) auto

lemma insert_rotations_weights_left:
  assumes "frame_color parent = RB_TREE_RED" "\<not> is_red uncle" "is_red node" "weights_ok node"
    "rb_insert_color node (parent # In_Left gc gk gv gw uncle # rest) = Some t'"
    "path_weight (parent # In_Left gc gk gv gw uncle # rest) (weight node)"
  shows "weights_ok t'"
  using assms by (cases parent) (auto elim!: is_redE simp: ac_simps intro!: weights_plug)

lemma insert_rotations_weights_right:
  assumes "frame_color parent = RB_TREE_RED" "\<not> is_red uncle" "is_red node" "weights_ok node"
    "rb_insert_color node (parent # In_Right uncle gc gk gv gw # rest) = Some t'"
    "path_weight (parent # In_Right uncle gc gk gv gw # rest) (weight node)"
  shows "weights_ok t'"
  using assms by (cases parent) (auto elim!: is_redE simp: ac_simps intro!: weights_plug)

lemma rb_insert_color_weights:
  "rb_insert_color t fs = Some t' \<Longrightarrow> weights_ok t \<Longrightarrow> path_weight fs (weight t) \<Longrightarrow> is_red t \<Longrightarrow> weights_ok t'"
proof (induction t fs rule: rb_insert_color.induct)
  case (2 node parent fs)
  show ?case
  proof (cases "frame_color parent = RB_TREE_BLACK")
    case True
    with 2 show ?thesis using weights_plug [of node "parent # fs"] by auto
  next
    case False
    with "2.prems" obtain g rest where fs: "fs = g # rest" by (cases fs) auto
    show ?thesis
    proof (cases g)
      case (In_Left gc gk gv gw uncle)
      show ?thesis
      proof (cases "is_red uncle")
        case True
        with "2.IH"(1) [OF False fs In_Left True] "2.prems" False fs In_Left show ?thesis
          by (cases parent) (auto simp: ac_simps)
      next
        case u: False
        have "frame_color parent = RB_TREE_RED" using False by simp
        then show ?thesis
          by (rule insert_rotations_weights_left [OF _ u "2.prems"(4,2) "2.prems"(1,3) [unfolded fs In_Left]])
      qed
    next
      case (In_Right uncle gc gk gv gw)
      show ?thesis
      proof (cases "is_red uncle")
        case True
        with "2.IH"(3) [OF False fs In_Right True] "2.prems" False fs In_Right show ?thesis
          by (cases parent) (auto simp: ac_simps)
      next
        case u: False
        have "frame_color parent = RB_TREE_RED" using False by simp
        then show ?thesis
          by (rule insert_rotations_weights_right [OF _ u "2.prems"(4,2) "2.prems"(1,3) [unfolded fs In_Right]])
      qed
    qed
  qed
qed auto

lemma erase_left_round_weights:
  assumes "erase_left_round pc node pk pv pw other = Some x" "weights_ok node" "weights_ok other"
    "pw = weight node + weight other + 1"
  shows "weights_ok (round_tree x) \<and> weight (round_tree x) = pw"
  using assms
  by (cases other; cases "rb_left other"; cases "rb_right other")
    (auto simp: erase_left_round_def round_tree_def split: if_splits)

lemma erase_right_round_weights:
  assumes "erase_right_round pc node pk pv pw other = Some x" "weights_ok node" "weights_ok other"
    "pw = weight node + weight other + 1"
  shows "weights_ok (round_tree x) \<and> weight (round_tree x) = pw"
  using assms
  by (cases other; cases "rb_left other"; cases "rb_right other")
    (auto simp: erase_right_round_def round_tree_def split: if_splits)

lemma rb_erase_color_step_left:
  "is_red node \<Longrightarrow> rb_erase_color node (In_Left pc pk pv pw other # fs) =
     Some (plug (set_color RB_TREE_BLACK node) (In_Left pc pk pv pw other # fs))"
  "\<not> is_red node \<Longrightarrow> \<not> is_red other \<Longrightarrow> rb_erase_color node (In_Left pc pk pv pw other # fs) =
     (case erase_left_round pc node pk pv pw other of
        None \<Rightarrow> None
      | Some (Inl p) \<Rightarrow> rb_erase_color p fs
      | Some (Inr p) \<Rightarrow> Some (set_color RB_TREE_BLACK (plug p fs)))"
  "\<not> is_red node \<Longrightarrow> rb_erase_color node (In_Left pc pk pv pw (Node RB_TREE_RED a ok ov ow b) # fs) =
     (let up = In_Left RB_TREE_BLACK ok ov (weight node + weight a + weight b + 2) b # fs in
      case erase_left_round RB_TREE_RED node pk pv (weight node + weight a + 1) a of
        None \<Rightarrow> None
      | Some (Inl p) \<Rightarrow> Some (plug (set_color RB_TREE_BLACK p) up)
      | Some (Inr p) \<Rightarrow> Some (set_color RB_TREE_BLACK (plug p up)))"
  by (auto dest: erase_left_round_color split: option.splits sum.splits)

lemma rb_erase_color_step_right:
  "is_red node \<Longrightarrow> rb_erase_color node (In_Right other pc pk pv pw # fs) =
     Some (plug (set_color RB_TREE_BLACK node) (In_Right other pc pk pv pw # fs))"
  "\<not> is_red node \<Longrightarrow> \<not> is_red other \<Longrightarrow> rb_erase_color node (In_Right other pc pk pv pw # fs) =
     (if node = Null \<and> other = Null then None else
      case erase_right_round pc node pk pv pw other of
        None \<Rightarrow> None
      | Some (Inl p) \<Rightarrow> rb_erase_color p fs
      | Some (Inr p) \<Rightarrow> Some (set_color RB_TREE_BLACK (plug p fs)))"
  "\<not> is_red node \<Longrightarrow> rb_erase_color node (In_Right (Node RB_TREE_RED b ok ov ow a) pc pk pv pw # fs) =
     (let up = In_Right b RB_TREE_BLACK ok ov (weight b + weight a + weight node + 2) # fs in
      case erase_right_round RB_TREE_RED node pk pv (weight a + weight node + 1) a of
        None \<Rightarrow> None
      | Some (Inl p) \<Rightarrow> Some (plug (set_color RB_TREE_BLACK p) up)
      | Some (Inr p) \<Rightarrow> Some (set_color RB_TREE_BLACK (plug p up)))"
  by (auto dest: erase_right_round_color split: option.splits sum.splits)

lemma rb_erase_color_weights:
  "rb_erase_color t fs = Some t' \<Longrightarrow> weights_ok t \<Longrightarrow> path_weight fs (weight t) \<Longrightarrow> weights_ok t'"
proof (induction t fs rule: rb_erase_color.induct)
  case (2 node pc pk pv pw other fs)
  note erase_left_round_weights [dest!] weights_plug [intro!]
  consider "is_red node" | "\<not> is_red node" "is_red other" | "\<not> is_red node" "\<not> is_red other" by blast
  then show ?case
  proof cases
    case 1 with "2.prems" weights_plug [of "set_color RB_TREE_BLACK node" "In_Left pc pk pv pw other # fs"]
    show ?thesis by (auto simp: rb_erase_color_step_left simp del: rb_erase_color.simps plug.simps)
  next
    case k: 2 with "2.prems" show ?thesis
      by (auto simp: rb_erase_color_step_left Let_def round_tree_def ac_simps simp del: rb_erase_color.simps
          elim!: is_redE split: option.splits sum.splits)
  next
    case k: 3 with 2 show ?thesis
      by (auto simp: rb_erase_color_step_left round_tree_def simp del: rb_erase_color.simps
          split: option.splits sum.splits)
  qed
next
  case (3 node other pc pk pv pw fs)
  note erase_right_round_weights [dest!] weights_plug [intro!]
  consider "is_red node" | "\<not> is_red node" "is_red other" | "\<not> is_red node" "\<not> is_red other" by blast
  then show ?case
  proof cases
    case 1 with "3.prems" weights_plug [of "set_color RB_TREE_BLACK node" "In_Right other pc pk pv pw # fs"]
    show ?thesis by (auto simp: rb_erase_color_step_right simp del: rb_erase_color.simps plug.simps)
  next
    case k: 2 with "3.prems" show ?thesis
      by (auto simp: rb_erase_color_step_right Let_def round_tree_def ac_simps simp del: rb_erase_color.simps
          elim!: is_redE split: option.splits sum.splits)
  next
    case k: 3 with 3 show ?thesis
      by (auto simp: rb_erase_color_step_right round_tree_def simp del: rb_erase_color.simps
          split: option.splits sum.splits if_splits)
  qed
qed auto

end
