(* ===== verification/RB_Operations.thy ===== *)
theory RB_Operations
  imports RB_Balance
begin

text \<open>
  The operations of the red-black tree on well-formed trees: search, insertion and erasure as
  operations on the sorted list of entries, the order statistic, and the in-order steps.
\<close>

section \<open>Positions\<close>

definition position_ok :: "('k, 'v) position \<Rightarrow> bool" where
  "position_ok p = (case p of (t, fs) \<Rightarrow> inv_height t \<and> path_height fs (black_height t) \<and> inv_color t \<and>
     path_color fs \<and> (is_red t \<longrightarrow> under_black fs) \<and> weights_ok t \<and> path_weight fs (weight t))"

lemma position_ok_root: "position_ok (t, []) \<longleftrightarrow> rb_balanced t \<and> weights_ok t"
  by (auto simp: position_ok_def rb_balanced_def under_black_def)

lemma position_ok_down:
  "position_ok (Node c l k v w r, fs) \<Longrightarrow> position_ok (l, In_Left c k v w r # fs)"
  "position_ok (Node c l k v w r, fs) \<Longrightarrow> position_ok (r, In_Right l c k v w # fs)"
  by (auto simp: position_ok_def under_black_def split: if_splits)

lemma position_ok_key:
  "position_ok (t, xs @ In_Right l c k v w # ys) \<longleftrightarrow> position_ok (t, xs @ In_Right l c k' v' w # ys)"
proof -
  have "path_height (xs @ In_Right l c k v w # ys) n = path_height (xs @ In_Right l c k' v' w # ys) n" for n
    by (induction xs n rule: path_height.induct) auto
  moreover have "path_weight (xs @ In_Right l c k v w # ys) n = path_weight (xs @ In_Right l c k' v' w # ys) n" for n
    by (induction xs n rule: path_weight.induct) auto
  moreover have u: "under_black (xs @ In_Right l c k v w # ys) = under_black (xs @ In_Right l c k' v' w # ys)" for xs
    by (cases xs) (auto simp: under_black_def)
  moreover have "path_color (xs @ In_Right l c k v w # ys) = path_color (xs @ In_Right l c k' v' w # ys)"
    by (induction xs rule: path_color.induct) (auto simp: u)
  ultimately show ?thesis by (simp add: position_ok_def)
qed

lemma path_weight_dec: "path_weight fs n \<Longrightarrow> path_weight (map (add_weight (- 1)) fs) (n - 1)"
  by (induction fs n rule: path_weight.induct) auto

lemma path_shape_dec [simp]:
  "path_height (map (add_weight d) fs) n = path_height fs n"
  "under_black (map (add_weight d) fs) = under_black fs"
  "path_color (map (add_weight d) fs) = path_color fs"
proof -
  show "path_height (map (add_weight d) fs) n = path_height fs n"
    by (induction fs n rule: path_height.induct) auto
  show u: "under_black (map (add_weight d) fs) = under_black fs" for fs :: "('k, 'v) rb_path"
    by (cases fs rule: before.cases) (auto simp: under_black_def)
  show "path_color (map (add_weight d) fs) = path_color fs"
    by (induction fs rule: path_color.induct) (auto simp: u)
qed

lemma go_left_append: "go_left t (fs @ gs) = map_option (\<lambda>(n, p). (n, p @ gs)) (go_left t fs)"
  by (induction t fs rule: go_left.induct) (auto simp: append_Cons [symmetric] simp del: append_Cons)

lemma go_left_ok:
  assumes "t \<noteq> Null" "position_ok (t, fs)"
  shows "\<exists>c k v w r gs. go_left t fs = Some (Node c Null k v w r, gs) \<and> position_ok (Node c Null k v w r, gs) \<and>
    plug (Node c Null k v w r) gs = plug t fs \<and> before gs = before fs \<and>
    (k, v) # entries r @ after gs = entries t @ after fs"
  using assms
proof (induction t fs rule: go_left.induct)
  case (2 c l k v w r fs)
  show ?case
  proof (cases "l = Null")
    case False
    from "2.IH" [OF False False position_ok_down(1) [OF "2.prems"(2)]] False show ?thesis by force
  qed (use 2 in auto)
qed simp

lemma go_right_ok:
  assumes "t \<noteq> Null" "position_ok (t, fs)"
  shows "\<exists>c k v w l gs. go_right t fs = Some (Node c l k v w Null, gs) \<and> position_ok (Node c l k v w Null, gs) \<and>
    plug (Node c l k v w Null) gs = plug t fs \<and> after gs = after fs \<and>
    before gs @ entries l @ [(k, v)] = before fs @ entries t"
  using assms
proof (induction t fs rule: go_right.induct)
  case (2 c l k v w r fs)
  show ?case
  proof (cases "r = Null")
    case False
    from "2.IH" [OF False False position_ok_down(2) [OF "2.prems"(2)]] False show ?thesis by force
  qed (use 2 in auto)
qed simp

section \<open>Search\<close>

abbreviation keys_sorted :: "('k::linorder \<times> 'v) list \<Rightarrow> bool" where
  "keys_sorted xs \<equiv> sorted_wrt (<) (map fst xs)"

lemma keys_sorted_node:
  "keys_sorted (xs @ (k, v) # ys) \<longleftrightarrow>
   keys_sorted xs \<and> keys_sorted ys \<and> (\<forall>e \<in> set xs. fst e < k) \<and> (\<forall>e \<in> set ys. k < fst e)"
  by (fastforce simp: sorted_wrt_append)

lemma filter_split:
  fixes x k :: "'k::linorder"
  assumes "\<forall>e \<in> set xs. fst e < k" "\<forall>e \<in> set ys. k < fst e"
  shows "x \<le> k \<Longrightarrow> filter (\<lambda>e. fst e < x) ys = []" "x \<le> k \<Longrightarrow> filter (\<lambda>e. x < fst e) ys = ys"
    "k \<le> x \<Longrightarrow> filter (\<lambda>e. fst e < x) xs = xs" "k \<le> x \<Longrightarrow> filter (\<lambda>e. x < fst e) xs = []"
  using assms by (force simp: filter_empty_conv filter_id_conv)+

lemma find_ok:
  assumes "keys_sorted (entries t)" "position_ok (t, fs)"
  shows "case my_rb_find_from x t fs of
      None \<Rightarrow> x \<notin> fst ` set (entries t)
    | Some (n, gs) \<Rightarrow> \<exists>c l v w r. n = Node c l x v w r \<and> position_ok (n, gs) \<and> plug n gs = plug t fs \<and>
        before gs @ entries l = before fs @ filter (\<lambda>e. fst e < x) (entries t) \<and>
        entries r @ after gs = filter (\<lambda>e. x < fst e) (entries t) @ after fs \<and> (x, v) \<in> set (entries t)"
  using assms
proof (induction x t fs rule: my_rb_find_from.induct)
  case (2 x c l k v w r fs)
  from "2.prems"(1) have s: "keys_sorted (entries l)" "keys_sorted (entries r)"
      "\<forall>e \<in> set (entries l). fst e < k" "\<forall>e \<in> set (entries r). k < fst e"
    by (auto simp: sorted_wrt_append)
  consider "x < k" | "k < x" | "x = k" by force
  then show ?case
  proof cases
    case 1
    with "2.IH"(1) [OF 1 s(1) position_ok_down(1) [OF "2.prems"(2)]] s show ?thesis
      by (auto simp: filter_split [OF s(3,4)] split: option.splits prod.splits)
  next
    case 2
    then have "\<not> x < k" by simp
    from "2.IH"(2) [OF this 2 s(2) position_ok_down(2) [OF "2.prems"(2)]] 2 s show ?thesis
      by (auto simp: filter_split [OF s(3,4)] split: option.splits prod.splits)
  next
    case 3
    with "2.prems" show ?thesis by (auto simp: filter_split [OF s(3,4)])
  qed
qed simp

section \<open>Insertion\<close>

lemma insert_descent_ok:
  assumes "keys_sorted (entries t)" "inv_height t" "path_height fs (black_height t)" "inv_color t"
    "path_color fs" "is_red t \<longrightarrow> under_black fs" "weights_ok t" "path_weight fs (weight t + 1)"
  shows "case insert_descent x t fs of
      Inl gs \<Rightarrow> x \<notin> fst ` set (entries t) \<and> path_height gs 0 \<and> path_color gs \<and> path_weight gs 1 \<and>
        before gs = before fs @ filter (\<lambda>e. fst e < x) (entries t) \<and>
        after gs = filter (\<lambda>e. x < fst e) (entries t) @ after fs
    | Inr t' \<Rightarrow> x \<in> fst ` set (entries t) \<and> t' = plug t (map (add_weight (- 1)) fs)"
  using assms
proof (induction x t fs rule: insert_descent.induct)
  case (2 x c l k v w r fs)
  from "2.prems"(1) have s: "keys_sorted (entries l)" "keys_sorted (entries r)"
      "\<forall>e \<in> set (entries l). fst e < k" "\<forall>e \<in> set (entries r). k < fst e"
    by (auto simp: sorted_wrt_append)
  consider "x < k" | "k < x" | "x = k" by force
  then show ?case
  proof cases
    case 1
    with "2.IH"(1) [OF 1 s(1)] "2.prems" s show ?thesis
      by (auto simp: filter_split [OF s(3,4)] under_black_def ac_simps split: sum.splits if_splits)
  next
    case 2
    then have "\<not> x < k" by simp
    from "2.IH"(2) [OF this 2 s(2)] "2.prems" 2 s show ?thesis
      by (auto simp: filter_split [OF s(3,4)] under_black_def ac_simps split: sum.splits if_splits)
  qed simp
qed simp


text \<open>The tree of a map: sorted keys, balance, weights that count, and a size that agrees.\<close>

definition rb_ok :: "('k::linorder, 'v) rb_root \<Rightarrow> bool" where
  "rb_ok root \<longleftrightarrow> keys_sorted (entries (root_node root)) \<and> rb_balanced (root_node root) \<and>
     weights_ok (root_node root) \<and> root_size root = int (length (entries (root_node root)))"

definition rb_entries :: "('k, 'v) rb_root \<Rightarrow> ('k \<times> 'v) list" where
  "rb_entries root = entries (root_node root)"

abbreviation less_entries :: "'k::linorder \<Rightarrow> ('k \<times> 'v) list \<Rightarrow> ('k \<times> 'v) list" where
  "less_entries x xs \<equiv> filter (\<lambda>e. fst e < x) xs"

abbreviation greater_entries :: "'k::linorder \<Rightarrow> ('k \<times> 'v) list \<Rightarrow> ('k \<times> 'v) list" where
  "greater_entries x xs \<equiv> filter (\<lambda>e. x < fst e) xs"

lemma keys_sorted_filter: "keys_sorted xs \<Longrightarrow> keys_sorted (filter P xs)"
  by (induction xs) auto

lemma keys_sorted_insert: "keys_sorted xs \<Longrightarrow> keys_sorted (less_entries x xs @ (x, y) # greater_entries x xs)"
  unfolding keys_sorted_node by (auto simp: keys_sorted_filter)

lemma keys_sorted_remove: "keys_sorted xs \<Longrightarrow> keys_sorted (less_entries x xs @ greater_entries x xs)"
  by (auto simp: sorted_wrt_append keys_sorted_filter)

lemma split_length:
  "keys_sorted xs \<Longrightarrow> length (less_entries x xs) + length (greater_entries x xs) =
     length xs - (if x \<in> fst ` set xs then 1 else 0)"
proof (induction xs)
  case (Cons e xs)
  then have "x = fst e \<Longrightarrow> filter (\<lambda>e. fst e < x) xs = [] \<and> filter (\<lambda>e. x < fst e) xs = xs"
    by (auto simp: filter_empty_conv filter_id_conv)
  with Cons show ?case by (auto simp: neq_iff Suc_diff_le dest: length_pos_if_in_set)
qed simp

theorem my_rb_insert_ok:
  assumes "rb_ok root"
  shows "if x \<in> fst ` set (rb_entries root) then my_rb_insert x y root = Some (- 1, root)
    else \<exists>root'. my_rb_insert x y root = Some (0, root') \<and> rb_ok root' \<and>
      rb_entries root' = less_entries x (rb_entries root) @ (x, y) # greater_entries x (rb_entries root)"
proof -
  let ?t = "root_node root"
  from assms have a: "keys_sorted (entries ?t)" "inv_height ?t" "inv_color ?t" "\<not> is_red ?t" "weights_ok ?t"
    "root_size root = int (length (entries ?t))" by (auto simp: rb_ok_def rb_balanced_def)
  have d: "case insert_descent x ?t [] of
      Inl gs \<Rightarrow> x \<notin> fst ` set (entries ?t) \<and> path_height gs 0 \<and> path_color gs \<and> path_weight gs 1 \<and>
        before gs = less_entries x (entries ?t) \<and> after gs = greater_entries x (entries ?t)
    | Inr t' \<Rightarrow> x \<in> fst ` set (entries ?t) \<and> t' = ?t"
    using insert_descent_ok [of ?t "[]" x] a by (auto split: sum.splits)
  show ?thesis
  proof (cases "insert_descent x ?t []")
    case (Inr t') with d show ?thesis by (simp add: my_rb_insert_def rb_entries_def)
  next
    case (Inl gs)
    let ?n = "Node RB_TREE_RED Null x y 1 Null"
    from rb_insert_color_balanced [of ?n gs] d Inl obtain t' where t': "rb_insert_color ?n gs = Some t'" "rb_balanced t'"
      by auto
    have e: "entries t' = less_entries x (entries ?t) @ (x, y) # greater_entries x (entries ?t)"
      using rb_insert_color_entries [OF t'(1)] d Inl by simp
    have "weights_ok t'" using rb_insert_color_weights [OF t'(1)] d Inl by simp
    moreover have "length (entries t') = length (entries ?t) + 1"
      using e split_length [OF a(1), of x] d Inl by simp
    ultimately show ?thesis
      using d Inl t' e a keys_sorted_insert [OF a(1), of x y]
      by (auto simp: my_rb_insert_def rb_ok_def rb_entries_def simp del: map_append)
  qed
qed


section \<open>Erasure\<close>

lemma erase_fixup_ok:
  assumes "inv_height child" "inv_color child" "path_color fs" "weights_ok child" "path_weight fs (weight child)"
    "path_height fs (black_height child + (if c = RB_TREE_BLACK then 1 else 0))"
    "c = RB_TREE_RED \<longrightarrow> \<not> is_red child"
  shows "\<exists>t. erase_fixup c child fs = Some t \<and> rb_balanced t \<and> weights_ok t \<and>
    entries t = before fs @ entries child @ after fs"
proof (cases c)
  case RB_TREE_RED
  with assms show ?thesis
    by (auto simp: erase_fixup_def entries_plug intro!: balanced_plug weights_plug)
next
  case RB_TREE_BLACK
  with assms rb_erase_color_balanced [of child fs] obtain t where "rb_erase_color child fs = Some t" "rb_balanced t"
    by auto
  with RB_TREE_BLACK assms rb_erase_color_entries rb_erase_color_weights show ?thesis
    by (fastforce simp: erase_fixup_def)
qed

text \<open>What the removal of a node with at most one child leaves behind.\<close>

lemma erase_single:
  assumes "position_ok (Node c l k v w r, fs)" "l = Null \<and> child = r \<or> r = Null \<and> child = l"
  shows "\<exists>t. erase_fixup c child (map (add_weight (- 1)) fs) = Some t \<and> rb_balanced t \<and> weights_ok t \<and>
    entries t = before fs @ entries child @ after fs"
proof -
  have "path_weight (map (add_weight (- 1)) fs) (weight child)"
    using assms path_weight_dec [of fs w] by (auto simp: position_ok_def)
  with assms have "\<exists>t. erase_fixup c child (map (add_weight (- 1)) fs) = Some t \<and> rb_balanced t \<and> weights_ok t \<and>
    entries t = before (map (add_weight (- 1)) fs) @ entries child @ after (map (add_weight (- 1)) fs)"
    by (intro erase_fixup_ok) (auto simp: position_ok_def)
  then show ?thesis by simp
qed

lemma erase_node_ok:
  assumes "position_ok (Node c l k v w r, fs)"
  shows "\<exists>t. erase_node (Node c l k v w r, fs) = Some t \<and> rb_balanced t \<and> weights_ok t \<and>
    entries t = before fs @ entries l @ entries r @ after fs"
proof -
  consider "l = Null" | "l \<noteq> Null" "r = Null" | "l \<noteq> Null" "r \<noteq> Null" by blast
  then show ?thesis
  proof cases
    case 1 with erase_single [OF assms, of r] show ?thesis by (simp add: Let_def)
  next
    case 2 with erase_single [OF assms, of l] show ?thesis by (simp add: Let_def)
  next
    case 3
    from go_left_ok [OF 3(2) position_ok_down(2) [OF assms]]
    obtain sc sk sv sw child gs where g: "go_left r (In_Right l c k v w # fs) = Some (Node sc Null sk sv sw child, gs)"
      "position_ok (Node sc Null sk sv sw child, gs)" "before gs = before (In_Right l c k v w # fs)"
      "(sk, sv) # entries child @ after gs = entries r @ after (In_Right l c k v w # fs)" by blast
    then obtain inner where inner: "go_left r [] = Some (Node sc Null sk sv sw child, inner)"
      "gs = inner @ In_Right l c k v w # fs"
      using go_left_append [of r "[]" "In_Right l c k v w # fs"] by (cases "go_left r []") auto
    have "position_ok (Node sc Null sk sv sw child, inner @ In_Right l c sk sv w # fs)"
      by (rule iffD1 [OF position_ok_key g(2) [unfolded inner(2)]])
    moreover have "entries r = (sk, sv) # entries child @ after inner" "before inner = []"
      using g(3,4) inner(2) by simp_all
    ultimately show ?thesis using erase_single [of sc Null sk sv sw child _ child] inner(1) 3
      by (fastforce simp: Let_def)
  qed
qed

theorem rb_erase_ok:
  assumes "rb_ok root"
  shows "case my_rb_find x root of
      None \<Rightarrow> x \<notin> fst ` set (rb_entries root)
    | Some p \<Rightarrow> x \<in> fst ` set (rb_entries root) \<and> (\<exists>root'. rb_erase p root = Some root' \<and> rb_ok root' \<and>
        rb_entries root' = less_entries x (rb_entries root) @ greater_entries x (rb_entries root))"
proof -
  let ?t = "root_node root"
  from assms have a: "keys_sorted (entries ?t)" "position_ok (?t, [])"
    "root_size root = int (length (entries ?t))" by (auto simp: rb_ok_def position_ok_root)
  note f = find_ok [OF a(1,2), of x, folded my_rb_find_def]
  show ?thesis
  proof (cases "my_rb_find x root")
    case None with f show ?thesis by (simp add: rb_entries_def)
  next
    case (Some p)
    then obtain c l v w r gs where p: "p = (Node c l x v w r, gs)" "position_ok p"
        "before gs @ entries l = less_entries x (entries ?t)" "entries r @ after gs = greater_entries x (entries ?t)"
        "(x, v) \<in> set (entries ?t)"
      using f by (cases p) auto
    from erase_node_ok [OF p(2) [unfolded p(1)]] p obtain t where t: "erase_node p = Some t" "rb_balanced t"
      "weights_ok t" "entries t = less_entries x (entries ?t) @ greater_entries x (entries ?t)"
      by (metis append_assoc)
    have x: "x \<in> fst ` set (entries ?t)" using p(5) by force
    then have "int (length (entries t)) = int (length (entries ?t)) - 1"
      using t(4) split_length [OF a(1), of x] by (cases "length (entries ?t)") auto
    with Some t x a keys_sorted_remove [OF a(1), of x] show ?thesis
      by (auto simp: rb_erase_def rb_ok_def rb_entries_def simp del: map_append)
  qed
qed


section \<open>Order\<close>

lemma select_loop_ok:
  assumes "weights_ok t" "0 < n" "n \<le> int (length (entries t))"
  shows "\<exists>c l k v w r. select_loop n t = Some (Node c l k v w r) \<and> (k, v) = entries t ! nat (n - 1)"
  using assms
proof (induction n t rule: select_loop.induct)
  case (2 n c l k v w r)
  have l: "weight l = int (length (entries l))" using "2.prems" by (simp add: weight_length)
  consider "weight l + 1 = n" | "n < weight l + 1" | "weight l + 1 < n" by linarith
  then show ?case
  proof cases
    case 1 with l show ?thesis by (auto simp: Let_def nth_append)
  next
    case k: 2
    with "2.IH"(1) [OF refl] "2.prems" l show ?thesis by (auto simp: Let_def nth_append)
  next
    case k: 3
    moreover have "nat (n - 1) - length (entries l) = Suc (nat (n - (weight l + 1) - 1))"
      using k l "2.prems" by linarith
    ultimately show ?thesis
      using "2.IH"(2) [OF refl] "2.prems" l by (auto simp: Let_def nth_append)
  qed
qed simp

theorem rb_select_ok:
  assumes "rb_ok root"
  shows "if 0 < n \<and> n \<le> root_size root
    then \<exists>c l k v w r. rb_select n root = Some (Node c l k v w r) \<and> (k, v) = rb_entries root ! nat (n - 1)
    else rb_select n root = None"
  using assms select_loop_ok [of "root_node root" n] by (auto simp: rb_select_def rb_ok_def rb_entries_def)

text \<open>The entries from a position onwards.  A step forward drops the first of them; a step backward
  from a position is undone by a step forward.\<close>

fun from_here :: "('k, 'v) position \<Rightarrow> ('k \<times> 'v) list" where
  "from_here (Null, fs) = []"
| "from_here (Node c l k v w r, fs) = (k, v) # entries r @ after fs"

lemma position_ok_up:
  "position_ok (t, In_Left c k v w r # fs) \<Longrightarrow> position_ok (Node c t k v w r, fs)"
  "position_ok (t, In_Right l c k v w # fs) \<Longrightarrow> position_ok (Node c l k v w t, fs)"
  by (auto simp: position_ok_def under_black_def ac_simps split: if_splits)

lemma up_from_right_ok:
  assumes "position_ok (t, fs)"
  shows "case up_from_right t fs of None \<Rightarrow> after fs = []
   | Some p \<Rightarrow> position_ok p \<and> plug (fst p) (snd p) = plug t fs \<and> from_here p = after fs \<and> after fs \<noteq> []"
  using assms by (induction t fs rule: up_from_right.induct) (auto dest: position_ok_up split: option.splits)

lemma rb_next_ok:
  assumes "position_ok p" "from_here p \<noteq> []"
  shows "case rb_next p of None \<Rightarrow> tl (from_here p) = []
   | Some q \<Rightarrow> position_ok q \<and> plug (fst q) (snd q) = plug (fst p) (snd p) \<and>
       from_here q = tl (from_here p) \<and> from_here q \<noteq> []"
proof -
  from assms(2) obtain c l k v w r fs where p: "p = (Node c l k v w r, fs)" by (cases p rule: from_here.cases) auto
  show ?thesis
  proof (cases "r = Null")
    case True
    with up_from_right_ok [OF assms(1) [unfolded p]] p show ?thesis by (auto split: option.splits)
  next
    case False
    from go_left_ok [OF this position_ok_down(2) [OF assms(1) [unfolded p]]] False p show ?thesis by auto
  qed
qed

theorem iteration_ok:
  assumes "rb_ok root" "i \<le> length (rb_entries root)"
  shows "case ((\<lambda>p. Option.bind p rb_next) ^^ i) (rb_first root) of
      None \<Rightarrow> i = length (rb_entries root)
    | Some p \<Rightarrow> i < length (rb_entries root) \<and> position_ok p \<and> plug (fst p) (snd p) = root_node root \<and>
       from_here p = drop i (rb_entries root)"
  using assms(2)
proof (induction i)
  case 0
  have "position_ok (root_node root, [])" using assms(1) by (simp add: rb_ok_def position_ok_root)
  with go_left_ok [of "root_node root" "[]"] show ?case
    by (cases "root_node root = Null") (auto simp: rb_first_def rb_entries_def)
next
  case (Suc i)
  then show ?case
    using rb_next_ok by (fastforce simp: drop_Suc tl_drop split: option.splits)
qed


fun before_here :: "('k, 'v) position \<Rightarrow> ('k \<times> 'v) list" where
  "before_here (Null, fs) = []"
| "before_here (Node c l k v w r, fs) = before fs @ entries l"

lemma up_from_left_ok:
  assumes "position_ok (t, fs)"
  shows "case up_from_left t fs of None \<Rightarrow> before fs = []
   | Some p \<Rightarrow> position_ok p \<and> fst p \<noteq> Null \<and> plug (fst p) (snd p) = plug t fs \<and> before_here p = butlast (before fs) \<and> before fs \<noteq> []"
  using assms by (induction t fs rule: up_from_left.induct) (auto dest: position_ok_up simp: butlast_append split: option.splits)

theorem rb_prev_ok:
  assumes "position_ok p" "fst p \<noteq> Null"
  shows "case rb_prev p of None \<Rightarrow> before_here p = []
   | Some q \<Rightarrow> position_ok q \<and> fst q \<noteq> Null \<and> plug (fst q) (snd q) = plug (fst p) (snd p) \<and>
       before_here q = butlast (before_here p) \<and> before_here p \<noteq> []"
proof -
  from assms(2) obtain c l k v w r fs where p: "p = (Node c l k v w r, fs)" by (cases p rule: before_here.cases) auto
  show ?thesis
  proof (cases "l = Null")
    case True
    with up_from_left_ok [OF assms(1) [unfolded p]] p show ?thesis by (auto split: option.splits)
  next
    case False
    from go_right_ok [OF this position_ok_down(1) [OF assms(1) [unfolded p]]]
    obtain c' k' v' w' l' gs where g: "go_right l (In_Left c k v w r # fs) = Some (Node c' l' k' v' w' Null, gs)"
      "position_ok (Node c' l' k' v' w' Null, gs)" "plug (Node c' l' k' v' w' Null) gs = plug (Node c l k v w r) fs"
      "(before gs @ entries l') @ [(k', v')] = before fs @ entries l" by auto
    have "butlast (before fs @ entries l) = before gs @ entries l'" unfolding g(4) [symmetric] by (simp only: butlast_snoc)
    with False p g show ?thesis by simp
  qed
qed

end
