(* ===== verification/HP_Map.thy ===== *)
theory HP_Map
  imports RB_Operations
begin

text \<open>
  The class \<open>HP_map\<close> (\<open>common/HP_Map.h\<close>): its members over the red-black tree, its iterator, and the
  contract they give their clients.

  Output parameters are part of the result.  Whether the node pool has memory is an argument.
  \<open>rank\<close> is left out: it compares the address of a key with a key, and no code instantiates it.
\<close>

section \<open>Members\<close>

definition HP_map_new :: "('k, 'v) rb_root" where
  "HP_map_new = \<lparr>root_node = Null, root_size = 0\<rparr>"

definition HP_map_insert :: "bool \<Rightarrow> 'k::linorder \<Rightarrow> 'v \<Rightarrow> ('k, 'v) rb_root \<Rightarrow> (int \<times> ('k, 'v) rb_root) option" where
  "HP_map_insert memory first second root = (if \<not> memory then Some (- 1, root) else my_rb_insert first second root)"

definition HP_map_find :: "'k::linorder \<Rightarrow> ('k, 'v) rb_root \<Rightarrow> int \<times> 'v option" where
  "HP_map_find first root =
    (case my_rb_find first root of
       Some (Node _ _ _ second _ _, _) \<Rightarrow> (0, Some second)
     | _ \<Rightarrow> (- 1, None))"

definition HP_map_contains :: "'k::linorder \<Rightarrow> ('k, 'v) rb_root \<Rightarrow> int" where
  "HP_map_contains first root = (case my_rb_find first root of Some _ \<Rightarrow> 0 | None \<Rightarrow> - 1)"

definition HP_map_erase :: "'k::linorder \<Rightarrow> ('k, 'v) rb_root \<Rightarrow> (int \<times> ('k, 'v) rb_root) option" where
  "HP_map_erase first root =
    (case my_rb_find first root of
       Some fnode \<Rightarrow> map_option (\<lambda>root. (0, root)) (rb_erase fnode root)
     | None \<Rightarrow> Some (- 1, root))"

definition HP_map_find_and_del :: "'k::linorder \<Rightarrow> ('k, 'v) rb_root \<Rightarrow> (int \<times> ('k, 'v) rb_root) option" where
  "HP_map_find_and_del first root =
    (case my_rb_find first root of
       Some fnode \<Rightarrow> map_option (\<lambda>root. (0, root)) (rb_erase fnode root)
     | None \<Rightarrow> Some (- 1, root))"

definition HP_map_take :: "'k::linorder \<Rightarrow> ('k, 'v) rb_root \<Rightarrow> (int \<times> 'v option \<times> ('k, 'v) rb_root) option" where
  "HP_map_take first root =
    (case my_rb_find first root of
       Some (Node c l k second w r, fs) \<Rightarrow>
         map_option (\<lambda>root. (0, Some second, root)) (rb_erase (Node c l k second w r, fs) root)
     | _ \<Rightarrow> Some (- 1, None, root))"

definition HP_map_change :: "'k::linorder \<Rightarrow> 'v \<Rightarrow> ('k, 'v) rb_root \<Rightarrow> int \<times> ('k, 'v) rb_root" where
  "HP_map_change first second root =
    (case my_rb_find first root of
       Some (Node c l k _ w r, fs) \<Rightarrow> (0, root\<lparr>root_node := plug (Node c l k second w r) fs\<rparr>)
     | _ \<Rightarrow> (- 1, root))"

definition HP_map_clear :: "('k, 'v) rb_root \<Rightarrow> ('k, 'v) rb_root" where
  "HP_map_clear root = root\<lparr>root_node := Null, root_size := 0\<rparr>"

definition HP_map_size :: "('k, 'v) rb_root \<Rightarrow> int" where
  "HP_map_size root = root_size root"

section \<open>Iterator\<close>

record ('k, 'v) HP_iterator =
  current_node :: "('k, 'v) position option"
  it_root :: "('k, 'v) rb_root"

definition HP_map_begin :: "('k, 'v) rb_root \<Rightarrow> ('k, 'v) HP_iterator" where
  "HP_map_begin root = \<lparr>current_node = rb_first root, it_root = root\<rparr>"

definition HP_map_end :: "('k, 'v) rb_root \<Rightarrow> ('k, 'v) HP_iterator" where
  "HP_map_end root = \<lparr>current_node = None, it_root = root\<rparr>"

definition iterator_inc :: "('k, 'v) HP_iterator \<Rightarrow> ('k, 'v) HP_iterator" where
  "iterator_inc it = (case current_node it of None \<Rightarrow> it | Some p \<Rightarrow> it\<lparr>current_node := rb_next p\<rparr>)"

definition iterator_dec :: "('k, 'v) HP_iterator \<Rightarrow> ('k, 'v) HP_iterator" where
  "iterator_dec it = (case current_node it of
      Some p \<Rightarrow> it\<lparr>current_node := rb_prev p\<rparr>
    | None \<Rightarrow> it\<lparr>current_node := rb_last (it_root it)\<rparr>)"

definition iterator_first :: "('k, 'v) HP_iterator \<Rightarrow> 'k option" where
  "iterator_first it = (case current_node it of Some (Node _ _ k _ _ _, _) \<Rightarrow> Some k | _ \<Rightarrow> None)"

definition iterator_second :: "('k, 'v) HP_iterator \<Rightarrow> 'v option" where
  "iterator_second it = (case current_node it of Some (Node _ _ _ v _ _, _) \<Rightarrow> Some v | _ \<Rightarrow> None)"

section \<open>The contract of a map\<close>

text \<open>What the clients of a map rely on: \<open>insert\<close> keeps an entry that is there, \<open>find\<close>, \<open>erase\<close> and
  \<open>change\<close> address exactly one key, and none of them fails on a well-formed map.\<close>

locale key_map =
  fixes wf :: "'m \<Rightarrow> bool" and contents :: "'m \<Rightarrow> 'k \<Rightarrow> 'v option"
    and empty :: 'm
    and ins :: "bool \<Rightarrow> 'k \<Rightarrow> 'v \<Rightarrow> 'm \<Rightarrow> (int \<times> 'm) option"
    and find :: "'k \<Rightarrow> 'm \<Rightarrow> int \<times> 'v option"
    and del :: "'k \<Rightarrow> 'm \<Rightarrow> (int \<times> 'm) option"
  assumes wf_empty: "wf empty" "contents empty = Map.empty"
    and ins_new: "wf m \<Longrightarrow> contents m k = None \<Longrightarrow>
      \<exists>m'. ins True k v m = Some (0, m') \<and> wf m' \<and> contents m' = (contents m)(k \<mapsto> v)"
    and ins_old: "wf m \<Longrightarrow> contents m k \<noteq> None \<Longrightarrow> ins True k v m = Some (- 1, m)"
    and ins_no_memory: "ins False k v m = Some (- 1, m)"
    and find_eq: "wf m \<Longrightarrow> find k m = (case contents m k of None \<Rightarrow> (- 1, None) | Some v \<Rightarrow> (0, Some v))"
    and del_old: "wf m \<Longrightarrow> contents m k \<noteq> None \<Longrightarrow>
      \<exists>m'. del k m = Some (0, m') \<and> wf m' \<and> contents m' = (contents m)(k := None)"
    and del_new: "wf m \<Longrightarrow> contents m k = None \<Longrightarrow> del k m = Some (- 1, m)"
begin

lemma ins_ok: "wf m \<Longrightarrow> \<exists>r m'. ins b k v m = Some (r, m') \<and> wf m' \<and>
    contents m' = (if b \<and> contents m k = None then (contents m)(k \<mapsto> v) else contents m)"
  using ins_new [of m k v] ins_old [of m k v] ins_no_memory [of k v m]
  by (cases b; cases "contents m k = None") auto

lemma del_ok: "wf m \<Longrightarrow> \<exists>r m'. del k m = Some (r, m') \<and> wf m' \<and> contents m' = (contents m)(k := None)"
  using del_old [of m k] del_new [of m k] by (cases "contents m k = None") (auto simp: fun_upd_idem)

end

section \<open>The red-black tree keeps the contract\<close>

definition HP_map_contents :: "('k::linorder, 'v) rb_root \<Rightarrow> 'k \<Rightarrow> 'v option" where
  "HP_map_contents root = map_of (rb_entries root)"

lemma map_of_filter_key: "map_of (filter (\<lambda>e. P (fst e)) xs) z = (if P z then map_of xs z else None)"
  by (induction xs) auto

lemma contents_insert:
  "map_of (less_entries x xs @ (x, y) # greater_entries x xs) = (map_of xs)(x \<mapsto> y)"
  by (rule ext) (auto simp: map_add_def map_of_filter_key [where P = "\<lambda>k. k < x"]
      map_of_filter_key [where P = "\<lambda>k. x < k"] split: option.splits)

lemma contents_remove:
  "map_of (less_entries x xs @ greater_entries x xs) = (map_of xs)(x := None)"
  by (rule ext) (auto simp: map_add_def map_of_filter_key [where P = "\<lambda>k. k < x"]
      map_of_filter_key [where P = "\<lambda>k. x < k"] split: option.splits)

lemma contents_None: "HP_map_contents root k = None \<longleftrightarrow> k \<notin> fst ` set (rb_entries root)"
  by (simp add: HP_map_contents_def map_of_eq_None_iff)

lemma distinct_keys: "keys_sorted xs \<Longrightarrow> distinct (map fst xs)"
  by (simp add: strict_sorted_iff)

text \<open>Search finds the entry of the key, in place.\<close>

lemma find_position:
  assumes "rb_ok root"
  shows "case my_rb_find x root of
      None \<Rightarrow> HP_map_contents root x = None
    | Some p \<Rightarrow> \<exists>c l v w r fs. p = (Node c l x v w r, fs) \<and> position_ok p \<and> HP_map_contents root x = Some v \<and>
        plug (Node c l x v w r) fs = root_node root"
proof -
  let ?t = "root_node root"
  from assms have a: "keys_sorted (entries ?t)" "position_ok (?t, [])" by (auto simp: rb_ok_def position_ok_root)
  note f = find_ok [OF a(1,2), of x, folded my_rb_find_def]
  have "HP_map_contents root x = Some v" if "(x, v) \<in> set (entries ?t)" for v
    using that distinct_keys [OF a(1)] by (simp add: HP_map_contents_def rb_entries_def)
  with f show ?thesis
    by (cases "my_rb_find x root") (auto simp: contents_None rb_entries_def)
qed

interpretation hp_map: key_map rb_ok HP_map_contents HP_map_new HP_map_insert HP_map_find HP_map_erase
proof
  show "rb_ok HP_map_new" "HP_map_contents HP_map_new = Map.empty"
    by (auto simp: HP_map_new_def rb_ok_def rb_balanced_def HP_map_contents_def rb_entries_def)
  fix m :: "('k::linorder, 'v) rb_root" and k v
  show "HP_map_insert False k v m = Some (- 1, m)" by (simp add: HP_map_insert_def)
  assume ok: "rb_ok m"
  note i = my_rb_insert_ok [OF ok, of k v] and e = rb_erase_ok [OF ok, of k] and f = find_position [OF ok, of k]
  show "HP_map_find k m = (case HP_map_contents m k of None \<Rightarrow> (- 1, None) | Some v \<Rightarrow> (0, Some v))"
    using f by (auto simp: HP_map_find_def split: option.splits)
  show "HP_map_insert True k v m = Some (- 1, m)" if "HP_map_contents m k \<noteq> None"
    using i that by (simp add: HP_map_insert_def contents_None)
  show "\<exists>m'. HP_map_insert True k v m = Some (0, m') \<and> rb_ok m' \<and> HP_map_contents m' = (HP_map_contents m)(k \<mapsto> v)"
    if "HP_map_contents m k = None"
    using i that by (auto simp: HP_map_insert_def contents_None) (simp add: HP_map_contents_def contents_insert del: map_of_append)
  show "HP_map_erase k m = Some (- 1, m)" if "HP_map_contents m k = None"
    using f that by (auto simp: HP_map_erase_def split: option.splits)
  show "\<exists>m'. HP_map_erase k m = Some (0, m') \<and> rb_ok m' \<and> HP_map_contents m' = (HP_map_contents m)(k := None)"
    if "HP_map_contents m k \<noteq> None"
    using e that
    by (auto simp: HP_map_erase_def contents_None split: option.splits)
      (simp add: HP_map_contents_def contents_remove del: map_of_append)
qed


lemma position_ok_value:
  "position_ok (Node c l k v w r, fs) \<longleftrightarrow> position_ok (Node c l k v' w r, fs)"
  by (simp add: position_ok_def)

lemma position_ok_plug: "position_ok (t, fs) \<Longrightarrow> rb_balanced (plug t fs) \<and> weights_ok (plug t fs)"
  by (auto simp: position_ok_def intro: balanced_plug weights_plug)

lemma map_of_middle: "k \<notin> fst ` set xs \<Longrightarrow> map_of (xs @ (k, v') # ys) = (map_of (xs @ (k, v) # ys))(k \<mapsto> v')"
  by (induction xs) (auto simp del: map_of_append simp: fun_upd_twist)

lemma change_ok:
  assumes "rb_ok m"
  shows "case HP_map_change k v m of (r, m') \<Rightarrow> rb_ok m' \<and> r = (if HP_map_contents m k = None then - 1 else 0) \<and>
    HP_map_contents m' = (if HP_map_contents m k = None then HP_map_contents m else (HP_map_contents m)(k \<mapsto> v))"
proof (cases "my_rb_find k m")
  case None with find_position [OF assms, of k] assms show ?thesis by (simp add: HP_map_change_def)
next
  case (Some p)
  with find_position [OF assms, of k] obtain c l u w r fs where p: "p = (Node c l k u w r, fs)" "position_ok p"
    "HP_map_contents m k = Some u" "plug (Node c l k u w r) fs = root_node m" by auto
  let ?t = "plug (Node c l k v w r) fs"
  have e: "entries (root_node m) = (before fs @ entries l) @ (k, u) # entries r @ after fs"
    "entries ?t = (before fs @ entries l) @ (k, v) # entries r @ after fs"
    by (simp_all add: entries_plug p(4) [symmetric])
  have ok: "keys_sorted (entries (root_node m))" using assms by (simp add: rb_ok_def)
  from position_ok_plug p(1,2) position_ok_value have "rb_balanced ?t \<and> weights_ok ?t" by metis
  moreover have "map_of (entries ?t) = (map_of (entries (root_node m)))(k \<mapsto> v)"
    unfolding e by (rule map_of_middle) (use distinct_keys [OF ok] in \<open>auto simp: e\<close>)
  ultimately show ?thesis
    using Some p assms by (simp add: HP_map_change_def rb_ok_def e HP_map_contents_def rb_entries_def)
qed

lemma size_contents: "rb_ok m \<Longrightarrow> HP_map_size m = int (card (dom (HP_map_contents m)))"
  using distinct_card [OF distinct_keys, of "rb_entries m"]
  by (simp add: HP_map_size_def rb_ok_def HP_map_contents_def dom_map_of_conv_image_fst rb_entries_def)

lemma find_and_del_erase: "HP_map_find_and_del k m = HP_map_erase k m"
  by (simp add: HP_map_find_and_del_def HP_map_erase_def)

lemma take_erase:
  assumes "rb_ok m"
  shows "HP_map_take k m = map_option (\<lambda>(r, m'). (r, HP_map_contents m k, m')) (HP_map_erase k m)"
  using find_position [OF assms, of k] by (auto simp: HP_map_take_def HP_map_erase_def option.map_comp comp_def split: option.splits)

lemma erase_ok:
  assumes "rb_ok m"
  shows "\<exists>m'. HP_map_erase k m = Some (if HP_map_contents m k = None then - 1 else 0, m') \<and> rb_ok m' \<and>
    HP_map_contents m' = (HP_map_contents m)(k := None)"
  using hp_map.del_new [OF assms, of k] hp_map.del_old [OF assms, of k] assms by auto

lemma clear_new: "HP_map_clear m = HP_map_new"
  by (simp add: HP_map_clear_def HP_map_new_def)

text \<open>The maps a program can have.\<close>

inductive hp_reach :: "('k::linorder, 'v) rb_root \<Rightarrow> bool" where
  made: "hp_reach HP_map_new"
| inserted: "hp_reach m \<Longrightarrow> HP_map_insert memory k v m = Some (r, m') \<Longrightarrow> hp_reach m'"
| erased: "hp_reach m \<Longrightarrow> HP_map_erase k m = Some (r, m') \<Longrightarrow> hp_reach m'"
| deleted: "hp_reach m \<Longrightarrow> HP_map_find_and_del k m = Some (r, m') \<Longrightarrow> hp_reach m'"
| taken: "hp_reach m \<Longrightarrow> HP_map_take k m = Some (r, v, m') \<Longrightarrow> hp_reach m'"
| changed: "hp_reach m \<Longrightarrow> HP_map_change k v m = (r, m') \<Longrightarrow> hp_reach m'"
| cleared: "hp_reach m \<Longrightarrow> hp_reach (HP_map_clear m)"

lemma hp_reach_ok: "hp_reach m \<Longrightarrow> rb_ok m"
proof (induction rule: hp_reach.induct)
  case made
  show ?case by (rule hp_map.wf_empty)
next
  case (inserted m memory k v r m')
  then show ?case using hp_map.ins_ok [of m memory k v] by auto
next
  case (erased m k r m')
  then show ?case using erase_ok [of m k] by auto
next
  case (deleted m k r m')
  then show ?case using erase_ok [of m k] by (auto simp: find_and_del_erase)
next
  case (taken m k r v m')
  then show ?case using erase_ok [of m k] by (auto simp: take_erase)
next
  case (changed m k v r m')
  then show ?case using change_ok [of m k v] by auto
next
  case (cleared m)
  show ?case using hp_map.wf_empty(1) by (simp add: clear_new)
qed

section \<open>Height\<close>

fun rb_height :: "('k, 'v) rb_node \<Rightarrow> nat" where
  "rb_height Null = 0"
| "rb_height (Node c l k v w r) = Suc (max (rb_height l) (rb_height r))"

lemma height_black_height:
  "inv_color t \<Longrightarrow> inv_height t \<Longrightarrow> rb_height t \<le> 2 * black_height t + (if is_red t then 1 else 0)"
  by (induction t) (auto split: if_splits)

lemma black_height_size: "inv_height t \<Longrightarrow> 2 ^ black_height t \<le> length (entries t) + 1"
  by (induction t) (auto split: if_splits)

text \<open>The search with the number of its comparisons.\<close>

fun find_counted_from :: "'k::linorder \<Rightarrow> ('k, 'v) rb_node \<Rightarrow> ('k, 'v) rb_path \<Rightarrow> nat \<times> ('k, 'v) position option" where
  "find_counted_from x Null fs = (0, None)"
| "find_counted_from x (Node c l k v w r) fs =
     (if x < k then apfst Suc (find_counted_from x l (In_Left c k v w r # fs))
      else if k < x then apfst Suc (find_counted_from x r (In_Right l c k v w # fs))
      else (1, Some (Node c l k v w r, fs)))"

definition find_counted :: "'k::linorder \<Rightarrow> ('k, 'v) rb_root \<Rightarrow> nat \<times> ('k, 'v) position option" where
  "find_counted x root = find_counted_from x (root_node root) []"

lemma find_counted_result: "snd (find_counted x root) = my_rb_find x root"
proof -
  have "snd (find_counted_from x t fs) = my_rb_find_from x t fs" for t :: "('a, 'b) rb_node" and fs
    by (induction x t fs rule: find_counted_from.induct) simp_all
  then show ?thesis by (simp add: find_counted_def my_rb_find_def)
qed

lemma find_counted_height: "fst (find_counted_from x t fs) \<le> rb_height t"
  by (induction x t fs rule: find_counted_from.induct) auto

lemma find_counted_log:
  assumes "rb_ok m"
  shows "2 ^ (fst (find_counted k m) div 2) \<le> root_size m + 1"
proof -
  let ?t = "root_node m" and ?n = "fst (find_counted k m)"
  have b: "rb_height ?t \<le> 2 * black_height ?t" "2 ^ black_height ?t \<le> length (entries ?t) + 1"
    using assms(1) height_black_height [of ?t] black_height_size [of ?t] by (auto simp: rb_ok_def rb_balanced_def)
  have "?n div 2 \<le> black_height ?t" using find_counted_height [of k ?t "[]"] b(1) by (simp add: find_counted_def)
  then have "(2::nat) ^ (?n div 2) \<le> length (entries ?t) + 1"
    by (intro order_trans [OF power_increasing b(2)]) simp_all
  then have "int (2 ^ (?n div 2)) \<le> int (length (entries ?t) + 1)" by (simp only: of_nat_le_iff)
  then show ?thesis using assms(1) by (simp add: rb_ok_def)
qed

section \<open>The set\<close>

text \<open>\<open>HP_set\<close> (\<open>common/HP_Set.h\<close>) repeats the tree with entries that have a key only.\<close>

definition HP_set_insert :: "bool \<Rightarrow> 'k::linorder \<Rightarrow> ('k, unit) rb_root \<Rightarrow> (int \<times> ('k, unit) rb_root) option" where
  "HP_set_insert memory first root = (if \<not> memory then Some (- 1, root) else my_rb_insert first () root)"

definition HP_set_find :: "'k::linorder \<Rightarrow> ('k, unit) rb_root \<Rightarrow> int" where
  "HP_set_find first root = (case my_rb_find first root of Some _ \<Rightarrow> 0 | None \<Rightarrow> - 1)"

definition HP_set_erase :: "'k::linorder \<Rightarrow> ('k, unit) rb_root \<Rightarrow> (int \<times> ('k, unit) rb_root) option" where
  "HP_set_erase first root =
    (case my_rb_find first root of
       Some fnode \<Rightarrow> map_option (\<lambda>root. (0, root)) (rb_erase fnode root)
     | None \<Rightarrow> Some (- 1, root))"

definition HP_set_size :: "('k, unit) rb_root \<Rightarrow> int" where
  "HP_set_size root = root_size root"

definition HP_set_members :: "('k::linorder, unit) rb_root \<Rightarrow> 'k set" where
  "HP_set_members root = dom (HP_map_contents root)"

lemma HP_set_as_map:
  "HP_set_insert memory first root = HP_map_insert memory first () root"
  "HP_set_erase first root = HP_map_erase first root"
  by (simp_all add: HP_set_insert_def HP_map_insert_def HP_set_erase_def HP_map_erase_def)

lemma iterator_inc_steps:
  "(iterator_inc ^^ i) (HP_map_begin m) =
     \<lparr>current_node = ((\<lambda>p. Option.bind p rb_next) ^^ i) (rb_first m), it_root = m\<rparr>"
  by (induction i) (auto simp: HP_map_begin_def iterator_inc_def split: option.splits)

lemma from_here_Cons: "from_here p = e # es \<Longrightarrow> \<exists>c l w r fs. p = (Node c l (fst e) (snd e) w r, fs)"
  by (cases p rule: from_here.cases) auto

section \<open>Properties\<close>

text \<open>C20. \<open>HP_map\<close> is a map.  On a well-formed tree (sorted, balanced, weighted) no operation fails or
  touches a null pointer, each leaves a well-formed tree, and they act on the contents as on a
  partial function: \<open>insert\<close> adds a new key and reports \<open>-1\<close> without changing anything for a key that is there and when
  there is no memory, both \<open>find\<close> look a key up, \<open>erase\<close> and both \<open>find_and_del\<close> remove exactly their key, the one with a value
  giving back what was stored, \<open>change\<close> overwrites, \<open>clear\<close> empties, and \<open>size\<close> counts the keys.\<close>

theorem HP_map_refines_map:
  assumes "rb_ok m"
  shows "(\<exists>m'. HP_map_insert True k v m = Some (if HP_map_contents m k = None then 0 else - 1, m') \<and> rb_ok m' \<and>
       HP_map_contents m' = (if HP_map_contents m k = None then (HP_map_contents m)(k \<mapsto> v) else HP_map_contents m)) \<and>
    HP_map_insert False k v m = Some (- 1, m) \<and>
    HP_map_find k m = (case HP_map_contents m k of None \<Rightarrow> (- 1, None) | Some u \<Rightarrow> (0, Some u)) \<and>
    HP_map_contains k m = (if HP_map_contents m k = None then - 1 else 0) \<and>
    (\<exists>m'. HP_map_erase k m = Some (if HP_map_contents m k = None then - 1 else 0, m') \<and> rb_ok m' \<and>
       HP_map_contents m' = (HP_map_contents m)(k := None)) \<and>
    (\<exists>m'. HP_map_find_and_del k m = Some (if HP_map_contents m k = None then - 1 else 0, m') \<and> rb_ok m' \<and>
       HP_map_contents m' = (HP_map_contents m)(k := None)) \<and>
    (\<exists>m'. HP_map_take k m = Some (if HP_map_contents m k = None then - 1 else 0, HP_map_contents m k, m') \<and> rb_ok m' \<and>
       HP_map_contents m' = (HP_map_contents m)(k := None)) \<and>
    (case HP_map_change k v m of (r, m') \<Rightarrow> rb_ok m' \<and> r = (if HP_map_contents m k = None then - 1 else 0) \<and>
       HP_map_contents m' = (if HP_map_contents m k = None then HP_map_contents m else (HP_map_contents m)(k \<mapsto> v))) \<and>
    rb_ok (HP_map_clear m) \<and> HP_map_contents (HP_map_clear m) = Map.empty \<and>
    HP_map_size m = int (card (dom (HP_map_contents m)))"
proof (intro conjI)
  show "\<exists>m'. HP_map_insert True k v m = Some (if HP_map_contents m k = None then 0 else - 1, m') \<and> rb_ok m' \<and>
       HP_map_contents m' = (if HP_map_contents m k = None then (HP_map_contents m)(k \<mapsto> v) else HP_map_contents m)"
    using hp_map.ins_new [OF assms, of k v] hp_map.ins_old [OF assms, of k v] assms by auto
  show "HP_map_contains k m = (if HP_map_contents m k = None then - 1 else 0)"
    using find_position [OF assms, of k] by (auto simp: HP_map_contains_def split: option.splits)
  show "\<exists>m'. HP_map_take k m = Some (if HP_map_contents m k = None then - 1 else 0, HP_map_contents m k, m') \<and> rb_ok m' \<and>
       HP_map_contents m' = (HP_map_contents m)(k := None)"
    using erase_ok [OF assms, of k] take_erase [OF assms, of k] by auto
qed (use hp_map.find_eq [OF assms] hp_map.ins_no_memory [of k v m] hp_map.wf_empty erase_ok [OF assms, of k] change_ok [OF assms]
      size_contents [OF assms] in \<open>simp_all add: find_and_del_erase clear_new\<close>)

text \<open>Two entries, read back and erased again.\<close>

definition two_entries :: "(int, int) rb_root" where
  "two_entries = \<lparr>root_node = Node RB_TREE_BLACK Null 1 10 2 (Node RB_TREE_RED Null 2 20 1 Null), root_size = 2\<rparr>"

lemma two_entries_ok: "rb_ok two_entries"
  by (simp add: two_entries_def rb_ok_def rb_balanced_def)

theorem HP_map_refines_map_witness:
  "(\<exists>m'. HP_map_insert True 3 30 two_entries = Some (0, m') \<and> rb_ok m' \<and> HP_map_contents m' 3 = Some 30) \<and>
   HP_map_find 2 two_entries = (0, Some 20) \<and> HP_map_size two_entries = int (card (dom (HP_map_contents two_entries)))"
  using HP_map_refines_map [OF two_entries_ok, of 3 30] HP_map_refines_map [OF two_entries_ok, of 2 20]
  by (auto simp: HP_map_contents_def rb_entries_def two_entries_def)

text \<open>Iteration: after \<open>i\<close> steps from \<open>begin()\<close> the iterator shows the \<open>i\<close>-th entry in ascending order
  of the keys, and after as many steps as there are entries it equals \<open>end()\<close>.\<close>

theorem HP_map_iteration:
  assumes "rb_ok m" "i \<le> length (rb_entries m)"
  shows "(let it = (iterator_inc ^^ i) (HP_map_begin m) in
    if i = length (rb_entries m) then it = HP_map_end m
    else iterator_first it = Some (fst (rb_entries m ! i)) \<and> iterator_second it = Some (snd (rb_entries m ! i)))"
proof -
  let ?p = "((\<lambda>p. Option.bind p rb_next) ^^ i) (rb_first m)"
  note ok = iteration_ok [OF assms]
  show ?thesis
  proof (cases ?p)
    case None with ok show ?thesis by (simp add: iterator_inc_steps HP_map_end_def Let_def)
  next
    case (Some p)
    with ok have i: "i < length (rb_entries m)" "from_here p = rb_entries m ! i # drop (Suc i) (rb_entries m)"
      by (auto simp: Cons_nth_drop_Suc)
    from from_here_Cons [OF i(2)] Some i(1) show ?thesis
      by (auto simp: iterator_inc_steps Let_def iterator_first_def iterator_second_def)
  qed
qed

theorem HP_map_iteration_witness:
  "iterator_first (iterator_inc (HP_map_begin two_entries)) = Some 2 \<and>
   iterator_inc (iterator_inc (HP_map_begin two_entries)) = HP_map_end two_entries"
  using HP_map_iteration [OF two_entries_ok, of 1] HP_map_iteration [OF two_entries_ok, of 2]
  by (auto simp: rb_entries_def two_entries_def numeral_2_eq_2 Let_def)

text \<open>C21. Searches are logarithmic.  In every map that any sequence of operations makes from an empty one, the search for any
  key, there or not, returns what the map holds for it and compares at most \<open>2 log\<^sub>2 (n + 1) + 1\<close> keys in a tree of \<open>n\<close>
  entries.\<close>

theorem HP_map_find_depth:
  assumes "hp_reach m"
  shows "snd (find_counted k m) = my_rb_find k m \<and>
    (case my_rb_find k m of
       None \<Rightarrow> HP_map_contents m k = None
     | Some (node, ancestors) \<Rightarrow> \<exists>c l v w r. node = Node c l k v w r \<and> HP_map_contents m k = Some v) \<and>
    2 ^ (fst (find_counted k m) div 2) \<le> root_size m + 1"
proof (intro conjI)
  note ok = hp_reach_ok [OF assms]
  show "snd (find_counted k m) = my_rb_find k m" by (rule find_counted_result)
  show "case my_rb_find k m of None \<Rightarrow> HP_map_contents m k = None
     | Some (node, ancestors) \<Rightarrow> \<exists>c l v w r. node = Node c l k v w r \<and> HP_map_contents m k = Some v"
    using find_position [OF ok, of k] by (auto split: option.splits)
  show "2 ^ (fst (find_counted k m) div 2) \<le> root_size m + 1" by (rule find_counted_log [OF ok])
qed

theorem HP_map_find_depth_witness:
  "\<exists>m :: (int, int) rb_root. HP_map_insert True 1 10 HP_map_new = Some (0, m) \<and> my_rb_find 2 m = None \<and> fst (find_counted 2 m) = 1 \<and>
     (2 :: int) ^ (1 div 2) \<le> root_size m + 1"
proof -
  obtain m :: "(int, int) rb_root" where m: "HP_map_insert True 1 10 HP_map_new = Some (0, m)" "my_rb_find 2 m = None" "fst (find_counted 2 m) = 1"
    by (simp add: HP_map_insert_def HP_map_new_def my_rb_insert_def my_rb_find_def find_counted_def)
  from HP_map_find_depth [OF hp_reach.inserted [OF hp_reach.made m(1)], of 2] m show ?thesis by auto
qed

text \<open>Order statistics: \<open>select\<close> returns the entry of the given rank (from 1) in ascending order, and
  null for every rank outside the tree.\<close>

theorem HP_map_select:
  assumes "rb_ok m"
  shows "if 0 < n \<and> n \<le> HP_map_size m
    then \<exists>c l k v w r. rb_select n m = Some (Node c l k v w r) \<and> (k, v) = rb_entries m ! nat (n - 1)
    else rb_select n m = None"
  using rb_select_ok [OF assms, of n] by (simp add: HP_map_size_def)

theorem HP_map_select_witness:
  "(\<exists>c l k v w r. rb_select 2 two_entries = Some (Node c l k v w r) \<and> (k, v) = (2, 20)) \<and> rb_select 3 two_entries = None"
  using HP_map_select [OF two_entries_ok, of 2] HP_map_select [OF two_entries_ok, of 3]
  by (simp add: HP_map_size_def two_entries_def rb_entries_def)

text \<open>\<open>HP_set\<close> is a set: \<open>insert\<close> adds its key and reports \<open>-1\<close> for a member, \<open>erase\<close> removes exactly
  its key and reports \<open>-1\<close> for a stranger, \<open>find\<close> tests membership and \<open>size\<close> is the cardinality.\<close>

theorem HP_set_refines_set:
  assumes "rb_ok s"
  shows "(\<exists>s'. HP_set_insert True x s = Some (if x \<in> HP_set_members s then - 1 else 0, s') \<and> rb_ok s' \<and>
       HP_set_members s' = insert x (HP_set_members s)) \<and>
    (\<exists>s'. HP_set_erase x s = Some (if x \<in> HP_set_members s then 0 else - 1, s') \<and> rb_ok s' \<and>
       HP_set_members s' = HP_set_members s - {x}) \<and>
    HP_set_find x s = (if x \<in> HP_set_members s then 0 else - 1) \<and>
    HP_set_size s = int (card (HP_set_members s))"
proof (intro conjI)
  have in_iff: "x \<in> HP_set_members s \<longleftrightarrow> HP_map_contents s x \<noteq> None" by (simp add: HP_set_members_def domIff)
  show "\<exists>s'. HP_set_insert True x s = Some (if x \<in> HP_set_members s then - 1 else 0, s') \<and> rb_ok s' \<and>
       HP_set_members s' = insert x (HP_set_members s)"
    using hp_map.ins_new [OF assms, of x "()"] hp_map.ins_old [OF assms, of x "()"] assms
    unfolding HP_set_as_map in_iff by (cases "HP_map_contents s x = None") (auto simp: HP_set_members_def)
  show "\<exists>s'. HP_set_erase x s = Some (if x \<in> HP_set_members s then 0 else - 1, s') \<and> rb_ok s' \<and>
       HP_set_members s' = HP_set_members s - {x}"
    using hp_map.del_new [OF assms, of x] hp_map.del_old [OF assms, of x] assms
    unfolding HP_set_as_map in_iff by (cases "HP_map_contents s x = None") (auto simp: HP_set_members_def)
  show "HP_set_find x s = (if x \<in> HP_set_members s then 0 else - 1)"
    using find_position [OF assms, of x] by (auto simp: HP_set_find_def in_iff split: option.splits)
  show "HP_set_size s = int (card (HP_set_members s))"
    using size_contents [OF assms] by (simp add: HP_set_size_def HP_map_size_def HP_set_members_def)
qed

theorem HP_set_refines_set_witness:
  "\<exists>s'. HP_set_insert True (5 :: int) HP_map_new = Some (0, s') \<and> rb_ok s' \<and> HP_set_members s' = {5}"
  using HP_set_refines_set [OF hp_map.wf_empty(1), of "5 :: int"]
  by (auto simp: HP_set_members_def hp_map.wf_empty(2))

end
