(* ===== verification/Wait_Ack_Queue.thy ===== *)
theory Wait_Ack_Queue
  imports Connection_Core HP_Map
begin

text \<open>
  \<open>Recv_Wait_Ack_Queue\<close> (\<open>connection/HDS_UDP_Connection_Recv_Wait_ACK_Queue.cpp\<close>): the readers whose
  first acknowledgement is outstanding, by the identifier the peer used.  It is an \<open>HP_map\<close> from
  identifiers to slots behind a mutex; the mutex makes each call one step.
\<close>

definition Recv_Wait_Ack_Queue_find :: "Connection_ID \<Rightarrow> (Connection_ID, nat) rb_root \<Rightarrow> int \<times> nat option" where
  "Recv_Wait_Ack_Queue_find con offset_map = HP_map_find con offset_map"

definition Recv_Wait_Ack_Queue_insert ::
  "bool \<Rightarrow> Connection_ID \<Rightarrow> nat \<Rightarrow> (Connection_ID, nat) rb_root \<Rightarrow> (int \<times> (Connection_ID, nat) rb_root) option" where
  "Recv_Wait_Ack_Queue_insert memory con offset offset_map = HP_map_insert memory con offset offset_map"

definition Recv_Wait_Ack_Queue_erase ::
  "Connection_ID \<Rightarrow> (Connection_ID, nat) rb_root \<Rightarrow> (int \<times> (Connection_ID, nat) rb_root) option" where
  "Recv_Wait_Ack_Queue_erase con offset_map = HP_map_erase con offset_map"

text \<open>The queue of a host is the map the connection layer is modelled with.\<close>

definition queue_of :: "(Connection_ID, nat) rb_root \<Rightarrow> world \<Rightarrow> bool" where
  "queue_of q w \<longleftrightarrow> rb_ok q \<and> HP_map_contents q = wait_ack w"

text \<open>C22. The red-black tree behind \<open>Recv_Wait_Ack_Queue\<close> implements the partial map of the connection
  layer: every call is defined on it, inserting, with and without memory, and erasing correspond step by step, and a search
  returns the slot registered for the identifier.\<close>

theorem wait_ack_queue_refines:
  assumes "queue_of q w"
  shows "(\<exists>r q'. Recv_Wait_Ack_Queue_insert (\<not> map_oom w) cid offset q = Some (r, q') \<and> queue_of q' (wait_ack_insert cid offset w)) \<and>
    (\<exists>r q'. Recv_Wait_Ack_Queue_erase cid q = Some (r, q') \<and> queue_of q' (wait_ack_erase cid w)) \<and>
    Recv_Wait_Ack_Queue_find cid q = (case wait_ack w cid of None \<Rightarrow> (- 1, None) | Some offset \<Rightarrow> (0, Some offset))"
proof -
  have q: "rb_ok q" "HP_map_contents q = wait_ack w" using assms by (auto simp: queue_of_def)
  show ?thesis
    using hp_map.ins_ok [OF q(1), of "\<not> map_oom w" cid offset] hp_map.del_ok [OF q(1), of cid] hp_map.find_eq [OF q(1), of cid]
    by (auto simp: Recv_Wait_Ack_Queue_insert_def Recv_Wait_Ack_Queue_erase_def Recv_Wait_Ack_Queue_find_def
        queue_of_def q(2) wait_ack_insert_def wait_ack_erase_def)
qed

text \<open>A host with one reader waiting.\<close>

definition one_waiting :: "(Connection_ID, nat) rb_root" where
  "one_waiting = \<lparr>root_node = Node RB_TREE_BLACK Null (CID 7 9) 3 1 Null, root_size = 1\<rparr>"

definition waiting_world :: world where
  "waiting_world = \<lparr>heap = (\<lambda>_. None), next_addr = 0, cid_array = (\<lambda>_. CID_NULL), cid_array_offset = 1,
     verification_actor = 0, complex_file_need_verification = 0, recv_verification_func = None, timers = [],
     send_queue = [], wait_ack = [CID 7 9 \<mapsto> 3], processed = [], sent = [], events = [],
     type_count = (\<lambda>_. 0), time_out_count = 0, complex_time_out_count = 0, now = \<lparr>tv_sec = 0, tv_usec = 0\<rparr>, oom = False, map_oom = False,
     garbage = (\<lambda>_. 0)\<rparr>"

theorem wait_ack_queue_refines_witness:
  "Recv_Wait_Ack_Queue_find (CID 7 9) one_waiting = (0, Some 3) \<and>
   (\<exists>r q'. Recv_Wait_Ack_Queue_erase (CID 7 9) one_waiting = Some (r, q') \<and> HP_map_contents q' = Map.empty)"
proof -
  have "queue_of one_waiting waiting_world"
    by (simp add: queue_of_def one_waiting_def waiting_world_def rb_ok_def rb_balanced_def HP_map_contents_def rb_entries_def)
  from wait_ack_queue_refines [OF this, of "CID 7 9" 0] show ?thesis
    by (auto simp: queue_of_def waiting_world_def wait_ack_erase_def)
qed

end
