(* ===== verification/S_List.thy ===== *)
theory S_List
  imports Atomic_T "HOL-Library.Monad_Syntax"
begin

text \<open>
  The singly linked list \<open>s_list\<close> (\<open>common/s_list.h\<close>), the storage of the queues.  The nodes live in a
  memory of addresses; \<open>None\<close> as a result is an access to memory that is null or was freed.  What the
  node pool returns is an argument: the address of an unused node, or \<open>None\<close> for a null pointer.
\<close>

section \<open>Nodes and operations\<close>

record 'a s_node =
  s_next :: "nat option"
  s_data :: 'a

record 'a s_list =
  mem :: "nat \<Rightarrow> 'a s_node option"
  head :: "nat option"
  tail :: "nat option"
  cur_size :: u32

definition s_list_new :: "'a s_list" where
  "s_list_new = \<lparr>mem = Map.empty, head = None, tail = None, cur_size = 0\<rparr>"

definition s_list_size :: "'a s_list \<Rightarrow> int" where
  "s_list_size l = sint (cur_size l)"

definition deref :: "'a s_list \<Rightarrow> nat option \<Rightarrow> 'a s_node option" where
  "deref l p = Option.bind p (mem l)"

definition free_node :: "nat option \<Rightarrow> 'a s_list \<Rightarrow> 'a s_list" where
  "free_node p l = (case p of None \<Rightarrow> l | Some a \<Rightarrow> l\<lparr>mem := (mem l)(a := None)\<rparr>)"

definition push_back :: "nat option \<Rightarrow> 'a \<Rightarrow> 'a s_list \<Rightarrow> (int \<times> 'a s_list) option" where
  "push_back temp t1 l =
    (case temp of
       None \<Rightarrow> Some (- 1, l)
     | Some a \<Rightarrow> do {
         let l = l\<lparr>mem := (mem l)(a \<mapsto> \<lparr>s_next = None, s_data = t1\<rparr>)\<rparr>;
         l \<leftarrow> (if cur_size l = 0 then Some (l\<lparr>head := temp, tail := temp\<rparr>)
              else do {
                p \<leftarrow> tail l;
                n \<leftarrow> mem l p;
                Some (l\<lparr>mem := (mem l)(p \<mapsto> n\<lparr>s_next := temp\<rparr>), tail := temp\<rparr>) });
         let l = l\<lparr>cur_size := cur_size l + 1\<rparr>;
         Some (sint (cur_size l), l) })"

definition dequeue_head :: "'a s_list \<Rightarrow> (int \<times> 'a option \<times> 'a s_list) option" where
  "dequeue_head l =
    (if cur_size l = 0 then Some (- 1, None, l)
     else do {
       n \<leftarrow> deref l (head l);
       if cur_size l = 1 then
         Some (0, Some (s_data n), (free_node (head l) l)\<lparr>head := None, tail := None, cur_size := cur_size l - 1\<rparr>)
       else
         Some (0, Some (s_data n), free_node (head l) (l\<lparr>head := s_next n, cur_size := cur_size l - 1\<rparr>)) })"

definition s_list_clear :: "'a s_list \<Rightarrow> 'a s_list" where
  "s_list_clear l = l\<lparr>mem := Map.empty, cur_size := 0, head := None, tail := None\<rparr>"

text \<open>The search loops follow \<open>next\<close> until a null pointer.\<close>

partial_function (option) find_loop :: "('a \<Rightarrow> bool) \<Rightarrow> 'a s_list \<Rightarrow> nat option \<Rightarrow> int option" where
  "find_loop eq l temp =
    (if temp = None then Some (- 1)
     else do {
       n \<leftarrow> deref l temp;
       if eq (s_data n) then Some 0 else find_loop eq l (s_next n) })"

definition s_list_find :: "'a \<Rightarrow> 'a s_list \<Rightarrow> int option" where
  "s_list_find t1 l = find_loop (\<lambda>x. x = t1) l (head l)"

definition unlink :: "nat option \<Rightarrow> nat option \<Rightarrow> 'a s_node \<Rightarrow> 'a s_list \<Rightarrow> 'a s_list option" where
  "unlink temp xtemp n l =
    (if temp = head l then Some (free_node temp (l\<lparr>head := s_next n, cur_size := cur_size l - 1\<rparr>))
     else do {
       x \<leftarrow> xtemp;
       m \<leftarrow> mem l x;
       Some (free_node temp (l\<lparr>mem := (mem l)(x \<mapsto> m\<lparr>s_next := s_next n\<rparr>), cur_size := cur_size l - 1\<rparr>)) })"

partial_function (option) find_and_del_loop ::
  "'a \<Rightarrow> 'a s_list \<Rightarrow> nat option \<Rightarrow> nat option \<Rightarrow> (int \<times> 'a s_list) option" where
  "find_and_del_loop t1 l temp xtemp =
    (if temp = None then Some (- 1, l)
     else do {
       n \<leftarrow> deref l temp;
       if s_data n = t1 then do { l \<leftarrow> unlink temp xtemp n l; Some (0, l) }
       else find_and_del_loop t1 l (s_next n) temp })"

definition s_list_find_and_del :: "'a \<Rightarrow> 'a s_list \<Rightarrow> (int \<times> 'a s_list) option" where
  "s_list_find_and_del t1 l = find_and_del_loop t1 l (head l) None"

section \<open>The chain of nodes\<close>

fun chain :: "(nat \<Rightarrow> 'a s_node option) \<Rightarrow> nat option \<Rightarrow> nat list \<Rightarrow> 'a list \<Rightarrow> bool" where
  "chain m p [] [] \<longleftrightarrow> p = None"
| "chain m p (a # as) (x # xs) \<longleftrightarrow> p = Some a \<and> (\<exists>n. m a = Some n \<and> s_data n = x \<and> chain m (s_next n) as xs)"
| "chain m p _ _ \<longleftrightarrow> False"

definition s_list_rep :: "'a s_list \<Rightarrow> nat list \<Rightarrow> 'a list \<Rightarrow> bool" where
  "s_list_rep l as xs \<longleftrightarrow> chain (mem l) (head l) as xs \<and> distinct as \<and> dom (mem l) = set as \<and>
     length as < 2 ^ 31 \<and> cur_size l = of_nat (length as) \<and> (as \<noteq> [] \<longrightarrow> tail l = Some (last as))"

definition s_list_wf :: "'a s_list \<Rightarrow> bool" where
  "s_list_wf l \<longleftrightarrow> (\<exists>as xs. s_list_rep l as xs)"

fun walk :: "nat \<Rightarrow> (nat \<Rightarrow> 'a s_node option) \<Rightarrow> nat option \<Rightarrow> 'a list" where
  "walk 0 m p = []"
| "walk (Suc k) m p = (case Option.bind p m of None \<Rightarrow> [] | Some n \<Rightarrow> s_data n # walk k m (s_next n))"

definition s_list_contents :: "'a s_list \<Rightarrow> 'a list" where
  "s_list_contents l = walk (unat (cur_size l)) (mem l) (head l)"

lemma chain_length: "chain m p as xs \<Longrightarrow> length xs = length as"
  by (induction m p as xs rule: chain.induct) auto

lemma chain_walk: "chain m p as xs \<Longrightarrow> walk (length as) m p = xs"
  by (induction m p as xs rule: chain.induct) auto

lemma rep_contents: "s_list_rep l as xs \<Longrightarrow> s_list_contents l = xs"
  by (auto simp: s_list_rep_def s_list_contents_def unat_of_nat chain_walk)

lemma chain_fresh: "chain m p as xs \<Longrightarrow> a \<notin> set as \<Longrightarrow> chain (m(a := v)) p as xs"
  by (induction m p as xs rule: chain.induct) auto

lemma chain_snoc:
  assumes "chain m p as xs" "as \<noteq> []" "distinct as" "a \<notin> set as" "m (last as) = Some n"
    "m' = m(a \<mapsto> \<lparr>s_next = None, s_data = x\<rparr>, last as \<mapsto> n\<lparr>s_next := Some a\<rparr>)"
  shows "chain m' p (as @ [a]) (xs @ [x])"
  using assms
proof (induction m p as xs rule: chain.induct)
  case (2 m p b as y ys)
  show ?case
  proof (cases "as = []")
    case True
    with "2.prems" have "ys = []" using chain_length by fastforce
    with True "2.prems" show ?thesis by auto
  next
    case False
    then have "b \<noteq> last as" "b \<noteq> a" using "2.prems" by auto
    with False 2 show ?thesis by auto
  qed
qed auto

lemma small_size:
  assumes "n < 2 ^ 31"
  shows "(of_nat n :: u32) = 0 \<longleftrightarrow> n = 0" "(of_nat n :: u32) = 1 \<longleftrightarrow> n = 1" "sint (of_nat n :: u32) = int n"
proof -
  have u: "unat (of_nat n :: u32) = n" using assms by (simp add: unat_of_nat)
  show "(of_nat n :: u32) = 0 \<longleftrightarrow> n = 0" "(of_nat n :: u32) = 1 \<longleftrightarrow> n = 1"
    using u by (auto simp: word_unat_eq_iff simp del: unat_of_nat)
  show "sint (of_nat n :: u32) = int n"
    using assms by (rule sint_of_nat32)
qed

lemma chain_last: "chain m p as xs \<Longrightarrow> as \<noteq> [] \<Longrightarrow> m (last as) \<noteq> None"
  by (induction m p as xs rule: chain.induct) auto

lemma push_back_ok:
  assumes "s_list_rep l as xs" "mem l a = None" "length as + 1 < 2 ^ 31"
  shows "\<exists>l'. push_back (Some a) x l = Some (int (length as) + 1, l') \<and> s_list_rep l' (as @ [a]) (xs @ [x])"
proof -
  have r: "chain (mem l) (head l) as xs" "distinct as" "dom (mem l) = set as" "cur_size l = of_nat (length as)"
    "as \<noteq> [] \<longrightarrow> tail l = Some (last as)" using assms(1) by (auto simp: s_list_rep_def)
  have a: "a \<notin> set as" using assms(2) r(3) by auto
  note size = small_size [of "length as"] small_size(3) [of "length as + 1"]
  show ?thesis
  proof (cases "as = []")
    case True
    with r(1) have "xs = []" using chain_length by fastforce
    with True r a show ?thesis by (auto simp: push_back_def s_list_rep_def)
  next
    case False
    with r chain_last obtain n where n: "mem l (last as) = Some n" by blast
    from False a have l: "last as \<noteq> a" by auto
    from chain_snoc [OF r(1) False r(2) a n refl, of x] False n l r a assms(3) size show ?thesis
      by (auto simp: push_back_def s_list_rep_def add.commute)
  qed
qed

lemma dequeue_head_ok:
  assumes "s_list_rep l as xs"
  shows "case xs of [] \<Rightarrow> dequeue_head l = Some (- 1, None, l)
    | y # ys \<Rightarrow> \<exists>l'. dequeue_head l = Some (0, Some y, l') \<and> s_list_rep l' (tl as) ys"
proof -
  have r: "chain (mem l) (head l) as xs" "distinct as" "dom (mem l) = set as" "cur_size l = of_nat (length as)"
    "as \<noteq> [] \<longrightarrow> tail l = Some (last as)" "length as < 2 ^ 31" using assms(1) by (auto simp: s_list_rep_def)
  note size = small_size [OF r(6)]
  show ?thesis
  proof (cases xs)
    case Nil
    with r(1) have "as = []" using chain_length by fastforce
    with Nil r show ?thesis by (simp add: dequeue_head_def)
  next
    case (Cons y ys)
    with r(1) obtain b bs n where b: "as = b # bs" "head l = Some b" "mem l b = Some n" "s_data n = y"
      "chain (mem l) (s_next n) bs ys" by (cases as) auto
    have c: "chain ((mem l)(b := None)) (s_next n) bs ys" using chain_fresh [OF b(5)] r(2) b(1) by auto
    have d: "dom ((mem l)(b := None)) = set bs" using r(2,3) b(1) by auto
    show ?thesis
    proof (cases bs)
      case Nil
      with d have "(mem l)(b := None) = Map.empty" by (metis dom_eq_empty_conv list.set(1))
      with Nil c Cons b r size show ?thesis
        by (cases ys) (auto simp: dequeue_head_def deref_def free_node_def s_list_rep_def)
    next
      case (Cons b' bs')
      with \<open>xs = y # ys\<close> c d b r size show ?thesis
        by (auto simp: dequeue_head_def deref_def free_node_def s_list_rep_def)
    qed
  qed
qed

lemma find_loop_ok: "chain (mem l) p as xs \<Longrightarrow> find_loop eq l p = Some (if \<exists>x \<in> set xs. eq x then 0 else - 1)"
proof (induction "mem l" p as xs rule: chain.induct)
  case (1 p) then show ?case by (subst find_loop.simps) simp
next
  case (2 p a as x xs)
  then show ?case by (subst find_loop.simps) (auto simp: deref_def)
qed auto

text \<open>Unlinking the first node that carries a value; the first part of the chain stays.\<close>

lemma chain_append:
  "chain m p (as @ bs) (xs @ ys) \<Longrightarrow> length as = length xs \<Longrightarrow>
   \<exists>q. chain m q bs ys \<and> (as = [] \<longrightarrow> q = p) \<and> (as \<noteq> [] \<longrightarrow> (\<exists>n. m (last as) = Some n \<and> s_next n = q))"
proof (induction as xs arbitrary: p rule: list_induct2')
  case (4 a as x xs)
  then show ?case by (cases as) auto
qed auto

lemma find_and_del_loop_absent:
  "chain (mem l) p as xs \<Longrightarrow> t \<notin> set xs \<Longrightarrow> find_and_del_loop t l p q = Some (- 1, l)"
proof (induction "mem l" p as xs arbitrary: q rule: chain.induct)
  case (1 p) then show ?case by (subst find_and_del_loop.simps) simp
next
  case (2 p a as x xs)
  then show ?case by (subst find_and_del_loop.simps) (auto simp: deref_def)
qed auto

lemma find_and_del_loop_skip:
  assumes "chain (mem l) p (as @ bs) (xs @ ys)" "length as = length xs" "t \<notin> set xs" "bs \<noteq> []"
  shows "find_and_del_loop t l p q = find_and_del_loop t l (Some (hd bs)) (if as = [] then q else Some (last as))"
  using assms
proof (induction as xs arbitrary: p q rule: list_induct2')
  case 1 then show ?case by (cases bs; cases ys) auto
next
  case (4 a as x xs)
  then obtain n where "p = Some a" "mem l a = Some n" "s_data n = x" "chain (mem l) (s_next n) (as @ bs) (xs @ ys)" by auto
  with 4 show ?case by (subst find_and_del_loop.simps) (auto simp: deref_def)
qed auto

lemma chain_unlink:
  assumes "chain m p (as @ b # bs) (xs @ y # ys)" "length as = length xs" "as \<noteq> []" "distinct (as @ b # bs)"
    "m (last as) = Some n" "m b = Some k"
  shows "chain (m(last as \<mapsto> n\<lparr>s_next := s_next k\<rparr>, b := None)) p (as @ bs) (xs @ ys)"
  using assms
proof (induction as xs arbitrary: p rule: list_induct2')
  case (4 a as x xs)
  show ?case
  proof (cases "as = []")
    case True
    with 4 have "chain m (s_next k) bs ys" by auto
    then have "chain (m(a \<mapsto> n\<lparr>s_next := s_next k\<rparr>, b := None)) (s_next k) bs ys"
      using "4.prems" by (auto intro!: chain_fresh)
    with True 4 show ?thesis by (auto simp: fun_upd_def)
  next
    case False
    then have "a \<noteq> last as" "a \<noteq> b" using "4.prems" by auto
    with False 4 show ?thesis by auto
  qed
qed auto

text \<open>The first node that carries the value is unlinked, unless it is the last node: then the list is
  left with a \<open>tail\<close> that points to the freed node.\<close>

lemma find_and_del_ok:
  assumes "s_list_rep l (as @ b # bs) (xs @ t # ys)" "length as = length xs" "t \<notin> set xs"
  shows "\<exists>l'. s_list_find_and_del t l = Some (0, l') \<and> chain (mem l') (head l') (as @ bs) (xs @ ys) \<and>
    dom (mem l') = set (as @ bs) \<and> tail l' = tail l \<and> cur_size l' = cur_size l - 1"
proof -
  have r: "chain (mem l) (head l) (as @ b # bs) (xs @ t # ys)" "distinct (as @ b # bs)"
    "dom (mem l) = set (as @ b # bs)" using assms(1) by (auto simp: s_list_rep_def)
  from chain_append [OF r(1) assms(2)] obtain k where k: "mem l b = Some k" "s_data k = t"
    "chain (mem l) (s_next k) bs ys" "as = [] \<longrightarrow> head l = Some b"
    "as \<noteq> [] \<longrightarrow> (\<exists>n. mem l (last as) = Some n \<and> s_next n = Some b)" by auto
  have "find_and_del_loop t l (Some b) q = map_option (Pair 0) (unlink (Some b) q k l)" for q
    by (subst find_and_del_loop.simps) (simp add: deref_def k map_conv_bind_option comp_def)
  then have loop: "s_list_find_and_del t l =
      map_option (Pair 0) (unlink (Some b) (if as = [] then None else Some (last as)) k l)"
    using find_and_del_loop_skip [OF r(1) assms(2,3), of None] by (simp add: s_list_find_and_del_def)
  show ?thesis
  proof (cases "as = []")
    case True
    with loop k r assms(2) chain_fresh [OF k(3), of b None] show ?thesis
      by (auto simp: unlink_def free_node_def)
  next
    case False
    then obtain n where n: "mem l (last as) = Some n" using k(5) by blast
    have "head l = Some (hd as)" using r(1) False assms(2) by (cases as; cases xs) auto
    moreover have "hd as \<noteq> b" "last as \<noteq> b" using r(2) False by (cases as; auto)+
    ultimately show ?thesis
      using loop False n k r chain_unlink [OF r(1) assms(2) False r(2) n k(1)]
      by (auto simp: unlink_def free_node_def)
  qed
qed

section \<open>The contract of a queue\<close>

locale fifo =
  fixes wf :: "'q \<Rightarrow> bool" and contents :: "'q \<Rightarrow> 'a list"
    and empty :: 'q
    and usable :: "nat \<Rightarrow> 'q \<Rightarrow> bool"
    and enq :: "nat option \<Rightarrow> 'a \<Rightarrow> 'q \<Rightarrow> (int \<times> 'q) option"
    and deq :: "'q \<Rightarrow> (int \<times> 'a option \<times> 'q) option"
    and count :: "'q \<Rightarrow> int"
  assumes wf_empty: "wf empty" "contents empty = []"
    and enq_wf: "wf q \<Longrightarrow> usable a q \<Longrightarrow>
      \<exists>r q'. enq (Some a) x q = Some (r, q') \<and> 0 \<le> r \<and> wf q' \<and> contents q' = contents q @ [x]"
    and enq_null: "enq None x q = Some (- 1, q)"
    and deq_nil: "wf q \<Longrightarrow> contents q = [] \<Longrightarrow> deq q = Some (- 1, None, q)"
    and deq_cons: "wf q \<Longrightarrow> contents q = y # ys \<Longrightarrow> \<exists>q'. deq q = Some (0, Some y, q') \<and> wf q' \<and> contents q' = ys"
    and count_eq: "wf q \<Longrightarrow> count q = int (length (contents q))"
begin

lemma enq_cases:
  assumes "wf q" "case p of None \<Rightarrow> True | Some a \<Rightarrow> usable a q"
  obtains r q' where "enq p x q = Some (r, q')" "wf q'" "contents q' = contents q @ (if p = None then [] else [x])"
  using assms enq_wf [of q _ x] enq_null [of x q] by (cases p) fastforce+

lemma deq_cases:
  assumes "wf q" "deq q = Some (r, d, q')"
  shows "wf q' \<and> (case d of None \<Rightarrow> r = - 1 \<and> contents q = [] \<and> q' = q | Some y \<Rightarrow> r = 0 \<and> contents q = y # contents q')"
  using assms deq_nil [of q] deq_cons [of q] by (cases "contents q") fastforce+

end

definition s_list_usable :: "nat \<Rightarrow> 'a s_list \<Rightarrow> bool" where
  "s_list_usable a l \<longleftrightarrow> mem l a = None \<and> length (s_list_contents l) + 1 < 2 ^ 31"

lemma wf_rep: "s_list_wf l \<Longrightarrow> \<exists>as. s_list_rep l as (s_list_contents l) \<and> length as = length (s_list_contents l)"
  unfolding s_list_wf_def using rep_contents chain_length by (metis s_list_rep_def)

interpretation sl: fifo s_list_wf s_list_contents s_list_new s_list_usable push_back dequeue_head s_list_size
proof
  show "s_list_wf s_list_new" "s_list_contents s_list_new = []"
    by (auto simp: s_list_wf_def s_list_rep_def s_list_new_def s_list_contents_def intro!: exI [of _ "[]"])
  fix q :: "'a s_list" and a x
  show "push_back None x q = Some (- 1, q)" by (simp add: push_back_def)
  assume wf: "s_list_wf q"
  then obtain as where as: "s_list_rep q as (s_list_contents q)" "length as = length (s_list_contents q)"
    using wf_rep by blast
  show "\<exists>r q'. push_back (Some a) x q = Some (r, q') \<and> 0 \<le> r \<and> s_list_wf q' \<and> s_list_contents q' = s_list_contents q @ [x]"
    if "s_list_usable a q"
    using push_back_ok [OF as(1), of a x] that as(2) rep_contents
    by (fastforce simp: s_list_usable_def s_list_wf_def)
  show "dequeue_head q = Some (- 1, None, q)" if "s_list_contents q = []"
    using dequeue_head_ok [OF as(1)] that by simp
  show "\<exists>q'. dequeue_head q = Some (0, Some y, q') \<and> s_list_wf q' \<and> s_list_contents q' = ys"
    if "s_list_contents q = y # ys" for y ys
    using dequeue_head_ok [OF as(1)] that rep_contents by (fastforce simp: s_list_wf_def)
  show "s_list_size q = int (length (s_list_contents q))"
    using as small_size(3) [of "length as"] by (simp add: s_list_size_def s_list_rep_def)
qed

section \<open>Properties\<close>

text \<open>\<open>s_list\<close> is a FIFO queue: on a well-formed list, \<open>push_back\<close> with a fresh node appends and returns
  the new length, \<open>dequeue_head\<close> removes and returns the oldest element (\<open>-1\<close> on an empty list), and
  \<open>find\<close> tells membership; none of them touches freed memory, and the search ends.\<close>

theorem s_list_fifo:
  assumes "s_list_wf l" "mem l a = None" "length (s_list_contents l) + 1 < 2 ^ 31"
  shows "(\<exists>l'. push_back (Some a) x l = Some (int (length (s_list_contents l)) + 1, l') \<and> s_list_wf l' \<and>
       s_list_contents l' = s_list_contents l @ [x]) \<and>
    (case s_list_contents l of
       [] \<Rightarrow> dequeue_head l = Some (- 1, None, l)
     | y # ys \<Rightarrow> \<exists>l'. dequeue_head l = Some (0, Some y, l') \<and> s_list_wf l' \<and> s_list_contents l' = ys) \<and>
    s_list_find x l = Some (if x \<in> set (s_list_contents l) then 0 else - 1)"
proof (intro conjI)
  from assms(1) obtain as where as: "s_list_rep l as (s_list_contents l)" "length as = length (s_list_contents l)"
    using wf_rep by blast
  show "\<exists>l'. push_back (Some a) x l = Some (int (length (s_list_contents l)) + 1, l') \<and> s_list_wf l' \<and>
       s_list_contents l' = s_list_contents l @ [x]"
    using push_back_ok [OF as(1) assms(2), of x] as(2) assms(3) rep_contents by (fastforce simp: s_list_wf_def)
  show "case s_list_contents l of [] \<Rightarrow> dequeue_head l = Some (- 1, None, l)
     | y # ys \<Rightarrow> \<exists>l'. dequeue_head l = Some (0, Some y, l') \<and> s_list_wf l' \<and> s_list_contents l' = ys"
    using sl.deq_nil [OF assms(1)] sl.deq_cons [OF assms(1)] by (auto split: list.splits)
  show "s_list_find x l = Some (if x \<in> set (s_list_contents l) then 0 else - 1)"
    using find_loop_ok [of l "head l" as] as(1) by (auto simp: s_list_find_def s_list_rep_def)
qed

definition pair_list :: "nat s_list" where
  "pair_list = \<lparr>mem = [0 \<mapsto> \<lparr>s_next = Some 1, s_data = 5\<rparr>, 1 \<mapsto> \<lparr>s_next = None, s_data = 6\<rparr>],
     head = Some 0, tail = Some 1, cur_size = 2\<rparr>"

lemma pair_list_rep: "s_list_rep pair_list [0, 1] [5, 6]"
  by (auto simp: s_list_rep_def pair_list_def)

theorem s_list_fifo_witness:
  "\<exists>l'. push_back (Some 2) 7 pair_list = Some (3, l') \<and> s_list_contents l' = [5, 6, 7]"
  using s_list_fifo [of pair_list 2 7] pair_list_rep rep_contents [OF pair_list_rep]
  by (auto simp: s_list_wf_def pair_list_def)

text \<open>\<open>find_and_del\<close> does not maintain \<open>tail\<close>: after it removes the last of several elements, \<open>tail\<close>
  points to the freed node, and the next \<open>push_back\<close> writes to it.\<close>

theorem find_and_del_dangling_tail:
  assumes "s_list_rep l (as @ [b]) (xs @ [t])" "xs \<noteq> []" "t \<notin> set xs"
  shows "\<exists>l'. s_list_find_and_del t l = Some (0, l') \<and> tail l' = Some b \<and> mem l' b = None \<and>
    (\<forall>a x. a \<noteq> b \<longrightarrow> push_back (Some a) x l' = None)"
proof -
  have len: "length as = length xs" and small: "length (as @ [b]) < 2 ^ 31" "cur_size l = of_nat (length (as @ [b]))"
      "distinct (as @ [b])" "tail l = Some b"
    using assms(1) chain_length [of "mem l" "head l" "as @ [b]" "xs @ [t]"] by (auto simp: s_list_rep_def)
  from find_and_del_ok [OF assms(1) len assms(3)] obtain l' where l': "s_list_find_and_del t l = Some (0, l')"
    "dom (mem l') = set as" "tail l' = tail l" "cur_size l' = cur_size l - 1" by auto
  have "cur_size l' = of_nat (length as)" using l'(4) small(2) by simp
  then have "cur_size l' \<noteq> 0" using small_size(1) [of "length as"] small(1) len assms(2) by auto
  moreover have "mem l' b = None" using l'(2) small(3) by auto
  ultimately show ?thesis using l' small(4) by (auto simp: push_back_def)
qed

theorem find_and_del_dangling_tail_witness:
  "\<exists>l'. s_list_find_and_del 6 pair_list = Some (0, l') \<and> push_back (Some 2) 7 l' = None"
  using find_and_del_dangling_tail [of pair_list "[0]" 1 "[5]" 6] pair_list_rep by auto

end
