(* ===== verification/Blocking_Queue.thy ===== *)
theory Blocking_Queue
  imports S_List
begin

text \<open>
  \<open>HDS_Blocking_Queue\<close> (\<open>common/HDS_Blocking_Queue.h\<close>, Linux branch): two lists, one that writers fill
  under \<open>_lock\<close> and one that readers empty under \<open>_read_lock\<close>; a reader that finds its list empty swaps
  the two.  The queue feeds the sender threads and the kernel's receive threads.

  A call is cut where other threads can run: \<open>enqueue\<close> is one step (it holds \<open>_lock\<close> throughout), a
  \<open>dequeue\<close> is a first part up to \<open>_lock\<close>, the part under \<open>_lock\<close>, the start of the wait and the part
  after it.
\<close>

section \<open>State\<close>

record 'a HDS_Blocking_Queue =
  queue :: "bool \<Rightarrow> 'a s_list"
  read_queue_cursor :: bool
  write_queue_cursor :: bool
  reader_blocked :: u64

definition Blocking_Queue_new :: "'a HDS_Blocking_Queue" where
  "Blocking_Queue_new = \<lparr>queue = (\<lambda>_. s_list_new), read_queue_cursor = True, write_queue_cursor = False,
     reader_blocked = 0\<rparr>"

definition set_queue :: "bool \<Rightarrow> 'a s_list \<Rightarrow> 'a HDS_Blocking_Queue \<Rightarrow> 'a HDS_Blocking_Queue" where
  "set_queue i l q = q\<lparr>queue := (queue q)(i := l)\<rparr>"

section \<open>Operations\<close>

text \<open>\<open>enqueue\<close>; the result of \<open>push_back\<close> is ignored, so a message is dropped when there is no memory.
  The flag tells whether the waiting readers are woken.\<close>

definition enqueue :: "nat option \<Rightarrow> 'a \<Rightarrow> 'a HDS_Blocking_Queue \<Rightarrow> (bool \<times> 'a HDS_Blocking_Queue) option" where
  "enqueue node data q = do {
     (_, l) \<leftarrow> push_back node data (queue q (write_queue_cursor q));
     let q = set_queue (write_queue_cursor q) l q;
     let (old, new) = CompareExchange (reader_blocked q) 0 1;
     Some (old = 1, q\<lparr>reader_blocked := new\<rparr>) }"

text \<open>\<open>dequeue\<close>, first part: the reader's own list, or a look at the flag.\<close>

datatype 'a dequeue_begin = Taken 'a | Take_Lock | Go_Wait

definition dequeue_begin :: "'a HDS_Blocking_Queue \<Rightarrow> ('a dequeue_begin \<times> 'a HDS_Blocking_Queue) option" where
  "dequeue_begin q =
    (if 0 < s_list_size (queue q (read_queue_cursor q)) then do {
       (_, d, l) \<leftarrow> dequeue_head (queue q (read_queue_cursor q));
       x \<leftarrow> d;
       Some (Taken x, set_queue (read_queue_cursor q) l q) }
     else Some (if reader_blocked q = 0 then Take_Lock else Go_Wait, q))"

text \<open>The part under \<open>_lock\<close>: swap and take, or announce a blocked reader.\<close>

definition dequeue_locked :: "'a HDS_Blocking_Queue \<Rightarrow> ('a option \<times> 'a HDS_Blocking_Queue) option" where
  "dequeue_locked q =
    (if 0 < s_list_size (queue q (write_queue_cursor q)) then do {
       let q = q\<lparr>write_queue_cursor := \<not> write_queue_cursor q, read_queue_cursor := \<not> read_queue_cursor q\<rparr>;
       (_, d, l) \<leftarrow> dequeue_head (queue q (read_queue_cursor q));
       Some (d, set_queue (read_queue_cursor q) l q) }
     else Some (None, q\<lparr>reader_blocked := 1\<rparr>))"

text \<open>After the wait: the reader looks at its own list only.\<close>

definition dequeue_woken :: "'a HDS_Blocking_Queue \<Rightarrow> (int \<times> 'a option \<times> 'a HDS_Blocking_Queue) option" where
  "dequeue_woken q = do {
     (status, d, l) \<leftarrow> dequeue_head (queue q (read_queue_cursor q));
     Some (status, d, set_queue (read_queue_cursor q) l q) }"

text \<open>\<open>set_time\<close> (\<open>common/HDS_Event.h\<close>), the absolute deadline of a timed wait.\<close>

record timespec =
  ts_sec :: int
  ts_nsec :: int

definition set_time :: "int \<Rightarrow> int \<Rightarrow> int \<Rightarrow> timespec" where
  "set_time now_sec now_usec timeout =
    (let sec = now_sec + timeout div 1000;
         nsec = now_usec * 1000 + (timeout mod 1000) * 1000000
     in if nsec \<ge> 1000000000
        then \<lparr>ts_sec = sec + nsec div 1000000000, ts_nsec = nsec mod 1000000000\<rparr>
        else \<lparr>ts_sec = sec, ts_nsec = nsec\<rparr>)"

section \<open>Threads\<close>

text \<open>Where a reader stands: outside, on its way to \<open>_lock\<close>, on its way into the wait, waiting, or woken.
  The history lists what was stored and what was taken.\<close>

datatype reader_pc = Outside | At_Lock | Before_Wait | Waiting | Woken

record 'a bq_system =
  bq :: "'a HDS_Blocking_Queue"
  pc :: "nat \<Rightarrow> reader_pc"
  read_lock :: "nat option"
  stored :: "'a list"
  taken :: "'a list"

definition wake :: "bool \<Rightarrow> (nat \<Rightarrow> reader_pc) \<Rightarrow> nat \<Rightarrow> reader_pc" where
  "wake b p = (\<lambda>t. if b \<and> p t = Waiting then Woken else p t)"

text \<open>One step of reader \<open>t\<close> in a \<open>dequeue\<close> that goes on by itself.\<close>

inductive reader_turn :: "nat \<Rightarrow> 'a bq_system \<Rightarrow> 'a bq_system \<Rightarrow> bool" for t :: nat where
  bq_take: "pc s t = Outside \<Longrightarrow> read_lock s = None \<Longrightarrow> dequeue_begin (bq s) = Some (Taken x, q) \<Longrightarrow>
    reader_turn t s (s\<lparr>bq := q, taken := taken s @ [x]\<rparr>)"
| bq_look: "pc s t = Outside \<Longrightarrow> read_lock s = None \<Longrightarrow> dequeue_begin (bq s) = Some (Take_Lock, q) \<Longrightarrow>
    reader_turn t s (s\<lparr>bq := q, pc := (pc s)(t := At_Lock), read_lock := Some t\<rparr>)"
| bq_blocked: "pc s t = Outside \<Longrightarrow> read_lock s = None \<Longrightarrow> dequeue_begin (bq s) = Some (Go_Wait, q) \<Longrightarrow>
    reader_turn t s (s\<lparr>bq := q, pc := (pc s)(t := Before_Wait), read_lock := Some t\<rparr>)"
| bq_swap: "pc s t = At_Lock \<Longrightarrow> dequeue_locked (bq s) = Some (Some x, q) \<Longrightarrow>
    reader_turn t s (s\<lparr>bq := q, pc := (pc s)(t := Outside), read_lock := None, taken := taken s @ [x]\<rparr>)"
| bq_block: "pc s t = At_Lock \<Longrightarrow> dequeue_locked (bq s) = Some (None, q) \<Longrightarrow>
    reader_turn t s (s\<lparr>bq := q, pc := (pc s)(t := Before_Wait)\<rparr>)"
| bq_wait: "pc s t = Before_Wait \<Longrightarrow> reader_turn t s (s\<lparr>pc := (pc s)(t := Waiting), read_lock := None\<rparr>)"
| bq_woken: "pc s t = Woken \<Longrightarrow> read_lock s = None \<Longrightarrow> dequeue_woken (bq s) = Some (r, d, q) \<Longrightarrow>
    reader_turn t s (s\<lparr>bq := q, pc := (pc s)(t := Outside), taken := taken s @ (case d of None \<Rightarrow> [] | Some x \<Rightarrow> [x])\<rparr>)"

text \<open>All steps: writers, with and without memory, readers, and the two ways a wait ends on its own.\<close>

inductive bq_step :: "'a bq_system \<Rightarrow> 'a bq_system \<Rightarrow> bool" where
  bq_enqueue: "s_list_usable a (queue (bq s) (write_queue_cursor (bq s))) \<Longrightarrow>
    enqueue (Some a) x (bq s) = Some (b, q) \<Longrightarrow>
    bq_step s (s\<lparr>bq := q, pc := wake b (pc s), stored := stored s @ [x]\<rparr>)"
| bq_enqueue_no_memory: "enqueue None x (bq s) = Some (b, q) \<Longrightarrow> bq_step s (s\<lparr>bq := q, pc := wake b (pc s)\<rparr>)"
| bq_reader: "reader_turn t s s' \<Longrightarrow> bq_step s s'"
| bq_timeout: "pc s t = Waiting \<Longrightarrow> read_lock s = None \<Longrightarrow> bq_step s (s\<lparr>pc := (pc s)(t := Outside)\<rparr>)"
| bq_spurious: "pc s t = Waiting \<Longrightarrow> bq_step s (s\<lparr>pc := (pc s)(t := Woken)\<rparr>)"

definition bq_start :: "'a bq_system" where
  "bq_start = \<lparr>bq = Blocking_Queue_new, pc = (\<lambda>_. Outside), read_lock = None, stored = [], taken = []\<rparr>"

section \<open>Nothing is lost or reordered\<close>

definition bq_wf :: "'a HDS_Blocking_Queue \<Rightarrow> bool" where
  "bq_wf q \<longleftrightarrow> (\<forall>i. s_list_wf (queue q i)) \<and> write_queue_cursor q = (\<not> read_queue_cursor q) \<and> reader_blocked q \<le> 1"

definition bq_contents :: "'a HDS_Blocking_Queue \<Rightarrow> 'a list" where
  "bq_contents q = s_list_contents (queue q (read_queue_cursor q)) @ s_list_contents (queue q (write_queue_cursor q))"

lemma bq_new: "bq_wf Blocking_Queue_new" "bq_contents Blocking_Queue_new = []"
  by (simp_all add: bq_wf_def bq_contents_def Blocking_Queue_new_def sl.wf_empty)

lemma enqueue_ok:
  assumes "bq_wf q" "case p of None \<Rightarrow> True | Some a \<Rightarrow> s_list_usable a (queue q (write_queue_cursor q))"
  shows "\<exists>b q'. enqueue p x q = Some (b, q') \<and> bq_wf q' \<and>
    bq_contents q' = bq_contents q @ (if p = None then [] else [x])"
proof -
  from assms(1) have "s_list_wf (queue q (write_queue_cursor q))" by (simp add: bq_wf_def)
  from sl.enq_cases [OF this assms(2)] obtain r l where l: "push_back p x (queue q (write_queue_cursor q)) = Some (r, l)"
    "s_list_wf l" "s_list_contents l = s_list_contents (queue q (write_queue_cursor q)) @ (if p = None then [] else [x])" .
  with assms(1) show ?thesis
    by (auto simp: enqueue_def set_queue_def CompareExchange_def bq_wf_def bq_contents_def Let_def)
qed

lemma bq_lists_wf: "bq_wf q \<Longrightarrow> s_list_wf (queue q i)"
  by (simp add: bq_wf_def)

lemma dequeue_begin_ok:
  assumes "bq_wf q"
  shows "\<exists>r q'. dequeue_begin q = Some (r, q') \<and> bq_wf q' \<and>
    (case r of Taken x \<Rightarrow> bq_contents q = x # bq_contents q'
     | _ \<Rightarrow> q' = q \<and> s_list_contents (queue q (read_queue_cursor q)) = [])"
proof (cases "s_list_contents (queue q (read_queue_cursor q))")
  case Nil
  with assms sl.count_eq [OF bq_lists_wf [OF assms], of "read_queue_cursor q"] show ?thesis
    by (auto simp: dequeue_begin_def)
next
  case (Cons y ys)
  from sl.deq_cons [OF bq_lists_wf [OF assms] Cons] obtain l where
    "dequeue_head (queue q (read_queue_cursor q)) = Some (0, Some y, l)" "s_list_wf l" "s_list_contents l = ys" by blast
  with assms Cons sl.count_eq [OF bq_lists_wf [OF assms], of "read_queue_cursor q"] show ?thesis
    by (auto simp: dequeue_begin_def set_queue_def bq_wf_def bq_contents_def)
qed

lemma dequeue_locked_ok:
  assumes "bq_wf q" "s_list_contents (queue q (read_queue_cursor q)) = []"
  shows "\<exists>d q'. dequeue_locked q = Some (d, q') \<and> bq_wf q' \<and>
    (case d of Some x \<Rightarrow> bq_contents q = x # bq_contents q' | None \<Rightarrow> bq_contents q = [] \<and> bq_contents q' = [])"
proof (cases "s_list_contents (queue q (write_queue_cursor q))")
  case Nil
  with assms sl.count_eq [OF bq_lists_wf [OF assms(1)], of "write_queue_cursor q"] show ?thesis
    by (auto simp: dequeue_locked_def bq_wf_def bq_contents_def)
next
  case (Cons y ys)
  from assms(1) have c: "(\<not> read_queue_cursor q) = write_queue_cursor q" by (auto simp: bq_wf_def)
  from sl.deq_cons [OF bq_lists_wf [OF assms(1)] Cons] obtain l where
    "dequeue_head (queue q (write_queue_cursor q)) = Some (0, Some y, l)" "s_list_wf l" "s_list_contents l = ys" by blast
  with assms Cons c sl.count_eq [OF bq_lists_wf [OF assms(1)], of "write_queue_cursor q"] show ?thesis
    by (auto simp: dequeue_locked_def set_queue_def bq_wf_def bq_contents_def Let_def)
qed

lemma dequeue_woken_ok:
  assumes "bq_wf q"
  shows "\<exists>r d q'. dequeue_woken q = Some (r, d, q') \<and> bq_wf q' \<and>
    (case d of Some x \<Rightarrow> r = 0 \<and> bq_contents q = x # bq_contents q' | None \<Rightarrow> r = - 1 \<and> q' = q)"
proof (cases "s_list_contents (queue q (read_queue_cursor q))")
  case Nil
  with assms sl.deq_nil [OF bq_lists_wf [OF assms] Nil] show ?thesis
    by (simp add: dequeue_woken_def set_queue_def)
next
  case (Cons y ys)
  from sl.deq_cons [OF bq_lists_wf [OF assms] Cons] obtain l where
    "dequeue_head (queue q (read_queue_cursor q)) = Some (0, Some y, l)" "s_list_wf l" "s_list_contents l = ys" by blast
  with assms Cons show ?thesis by (auto simp: dequeue_woken_def set_queue_def bq_wf_def bq_contents_def)
qed

definition bq_inv :: "'a bq_system \<Rightarrow> bool" where
  "bq_inv s \<longleftrightarrow> bq_wf (bq s) \<and> taken s @ bq_contents (bq s) = stored s \<and>
     (\<forall>t. pc s t = At_Lock \<or> pc s t = Before_Wait \<longrightarrow> read_lock s = Some t) \<and>
     (\<forall>t. pc s t = At_Lock \<longrightarrow> s_list_contents (queue (bq s) (read_queue_cursor (bq s))) = [])"

lemma enqueue_read_list:
  assumes "bq_wf q" "enqueue p x q = Some (b, q')"
  shows "queue q' (read_queue_cursor q') = queue q (read_queue_cursor q)" "read_queue_cursor q' = read_queue_cursor q"
  using assms by (auto simp: enqueue_def set_queue_def CompareExchange_def bq_wf_def bind_eq_Some_conv Let_def
      split: prod.splits)

lemma bq_holder:
  assumes "bq_inv s" "pc s t = At_Lock \<or> pc s t = Before_Wait" "u \<noteq> t"
  shows "pc s u \<noteq> At_Lock \<and> pc s u \<noteq> Before_Wait"
  using assms unfolding bq_inv_def by (metis option.inject)

lemma reader_turn_inv: "reader_turn t s s' \<Longrightarrow> bq_inv s \<Longrightarrow> bq_inv s'"
proof (induction rule: reader_turn.induct)
  case (bq_swap s x q)
  then have "\<forall>u. u \<noteq> t \<longrightarrow> pc s u \<noteq> At_Lock \<and> pc s u \<noteq> Before_Wait" using bq_holder by blast
  with bq_swap show ?case using dequeue_locked_ok [of "bq s"] by (auto simp: bq_inv_def)
next
  case (bq_block s q)
  then have "\<forall>u. u \<noteq> t \<longrightarrow> pc s u \<noteq> At_Lock \<and> pc s u \<noteq> Before_Wait" using bq_holder by blast
  with bq_block show ?case using dequeue_locked_ok [of "bq s"] by (auto simp: bq_inv_def)
next
  case (bq_wait s)
  then have "\<forall>u. u \<noteq> t \<longrightarrow> pc s u \<noteq> At_Lock \<and> pc s u \<noteq> Before_Wait" using bq_holder by blast
  with bq_wait show ?case by (auto simp: bq_inv_def)
next
  case (bq_woken s r d q)
  then show ?case using dequeue_woken_ok [of "bq s"] by (auto simp: bq_inv_def split: option.splits)
qed (use dequeue_begin_ok in \<open>fastforce simp: bq_inv_def\<close>)+

lemma bq_step_inv: "bq_step s s' \<Longrightarrow> bq_inv s \<Longrightarrow> bq_inv s'"
proof (induction rule: bq_step.induct)
  case (bq_enqueue a s x b q)
  then show ?case using enqueue_ok [of "bq s" "Some a" x] enqueue_read_list [of "bq s" "Some a" x b q]
    by (auto simp: bq_inv_def wake_def)
next
  case (bq_enqueue_no_memory x s b q)
  then show ?case using enqueue_ok [of "bq s" None x] enqueue_read_list [of "bq s" None x b q]
    by (auto simp: bq_inv_def wake_def)
next
  case (bq_reader t s s')
  then show ?case by (rule reader_turn_inv)
qed (auto simp: bq_inv_def)

lemma bq_start_inv: "bq_inv bq_start"
  by (auto simp: bq_inv_def bq_start_def bq_new)

lemma bq_reachable_inv: "bq_step\<^sup>*\<^sup>* bq_start s \<Longrightarrow> bq_inv s"
  by (induction rule: rtranclp_induct) (blast intro: bq_start_inv bq_step_inv)+

section \<open>A wake-up is lost\<close>

text \<open>The run of one reader and one writer in which the writer's broadcast falls between the reader's
  release of \<open>_lock\<close> and its wait.\<close>

definition lost_list :: "nat s_list" where
  "lost_list = \<lparr>mem = [0 \<mapsto> \<lparr>s_next = None, s_data = 7\<rparr>], head = Some 0, tail = Some 0, cur_size = 1\<rparr>"

definition lost_queue :: "nat HDS_Blocking_Queue" where
  "lost_queue = \<lparr>queue = (\<lambda>_. s_list_new)(False := lost_list), read_queue_cursor = True,
     write_queue_cursor = False, reader_blocked = 0\<rparr>"

definition lost_state :: "nat bq_system" where
  "lost_state = \<lparr>bq = lost_queue, pc = (\<lambda>_. Outside)(0 := Waiting), read_lock = None, stored = [7], taken = []\<rparr>"

lemma lost_run: "bq_step\<^sup>*\<^sup>* bq_start lost_state"
proof -
  let ?q1 = "(Blocking_Queue_new :: nat HDS_Blocking_Queue)\<lparr>reader_blocked := 1\<rparr>"
  let ?s1 = "(bq_start :: nat bq_system)\<lparr>bq := Blocking_Queue_new, pc := (pc (bq_start :: nat bq_system))(0 := At_Lock), read_lock := Some 0\<rparr>"
  let ?s2 = "?s1\<lparr>bq := ?q1, pc := (pc ?s1)(0 := Before_Wait)\<rparr>"
  let ?s3 = "?s2\<lparr>bq := lost_queue, pc := wake True (pc ?s2), stored := stored ?s2 @ [7]\<rparr>"
  have a: "bq_step bq_start ?s1"
    by (rule bq_reader [OF reader_turn.bq_look [where t = 0]]) (simp_all add: bq_start_def dequeue_begin_def Blocking_Queue_new_def s_list_size_def s_list_new_def)
  have b: "bq_step ?s1 ?s2"
    by (rule bq_reader [OF reader_turn.bq_block [where t = 0]]) (simp_all add: dequeue_locked_def Blocking_Queue_new_def s_list_size_def s_list_new_def)
  have c: "bq_step ?s2 ?s3"
    by (rule bq_enqueue [where a = 0])
      (simp_all add: s_list_usable_def enqueue_def push_back_def Blocking_Queue_new_def s_list_new_def
        s_list_contents_def set_queue_def CompareExchange_def lost_queue_def lost_list_def Let_def)
  have "bq_step ?s3 (?s3\<lparr>pc := (pc ?s3)(0 := Waiting), read_lock := None\<rparr>)"
    by (rule bq_reader [OF reader_turn.bq_wait]) (simp add: wake_def)
  moreover have "?s3\<lparr>pc := (pc ?s3)(0 := Waiting), read_lock := None\<rparr> = lost_state"
    by (auto simp: lost_state_def bq_start_def wake_def fun_eq_iff)
  ultimately have d: "bq_step ?s3 lost_state" by simp
  note more = converse_rtranclp_into_rtranclp
  show ?thesis by (rule more [OF a more [OF b more [OF c r_into_rtranclp [of bq_step, OF d]]]])
qed

definition writer_step :: "'a bq_system \<Rightarrow> 'a bq_system \<Rightarrow> bool" where
  "writer_step s s' \<longleftrightarrow> (\<exists>p x b q. enqueue p x (bq s) = Some (b, q) \<and>
     s' = s\<lparr>bq := q, pc := wake b (pc s), stored := stored s @ [x]\<rparr>)"

lemma writers_do_not_wake:
  assumes "writer_step\<^sup>*\<^sup>* s s'" "reader_blocked (bq s) = 0"
  shows "reader_blocked (bq s') = 0 \<and> pc s' = pc s"
  using assms
proof (induction rule: rtranclp_induct)
  case (step y z)
  then show ?case
    by (auto simp: writer_step_def enqueue_def set_queue_def CompareExchange_def wake_def bind_eq_Some_conv Let_def
        split: prod.splits)
qed simp

section \<open>Properties\<close>

text \<open>C25. The blocking queue neither loses, duplicates nor reorders: in every interleaving of any number of
  writers and readers, with time-outs and spurious waits, what the readers have taken followed by what
  the two lists hold is exactly what was stored, in order.\<close>

theorem blocking_queue_order:
  assumes "bq_step\<^sup>*\<^sup>* bq_start s"
  shows "taken s @ bq_contents (bq s) = stored s"
  using bq_reachable_inv [OF assms] by (simp add: bq_inv_def)

theorem blocking_queue_order_witness: "taken lost_state @ bq_contents (bq lost_state) = [7]"
  using blocking_queue_order [OF lost_run] by (simp add: lost_state_def)

text \<open>A wake-up can be lost for good: there is a reachable state in which the queue holds a message, the
  only reader waits, and however many further messages are stored, it is never woken.  The reader
  gives up \<open>_lock\<close> before it waits on a condition tied to the other lock.\<close>

theorem blocking_queue_lost_wakeup:
  "\<exists>s :: nat bq_system. bq_step\<^sup>*\<^sup>* bq_start s \<and> bq_contents (bq s) \<noteq> [] \<and> pc s 0 = Waiting \<and>
     (\<forall>t. t \<noteq> 0 \<longrightarrow> pc s t = Outside) \<and> (\<forall>s'. writer_step\<^sup>*\<^sup>* s s' \<longrightarrow> pc s' 0 = Waiting)"
proof (intro exI conjI)
  show "bq_step\<^sup>*\<^sup>* bq_start lost_state" by (rule lost_run)
  show "bq_contents (bq lost_state) \<noteq> []"
    by (simp add: lost_state_def lost_queue_def lost_list_def bq_contents_def s_list_contents_def)
qed (auto simp: lost_state_def lost_queue_def dest!: writers_do_not_wake)

theorem blocking_queue_lost_wakeup_witness:
  "\<exists>s :: nat bq_system. bq_step\<^sup>*\<^sup>* bq_start s \<and> bq_contents (bq s) \<noteq> [] \<and> pc s 0 = Waiting \<and> pc s 1 = Outside"
proof -
  obtain s :: "nat bq_system" where s: "bq_step\<^sup>*\<^sup>* bq_start s" "bq_contents (bq s) \<noteq> []" "pc s 0 = Waiting"
    "\<forall>t. t \<noteq> 0 \<longrightarrow> pc s t = Outside" using blocking_queue_lost_wakeup by blast
  then have "pc s 1 = Outside" by simp
  with s show ?thesis by blast
qed

end
