(* ===== verification/Timer_Wheel.thy ===== *)
theory Timer_Wheel
  imports HDS_Unistd "HOL-Library.Monad_Syntax" "HOL-Library.Multiset"
begin

unbundle bit_operations_syntax

text \<open>
  The timer wheel (\<open>common/HDS_Timer_Wheel.cpp\<close>, \<open>HDS_Timer_Wheel.h\<close>): 65536 buckets of one millisecond
  for the current slot, 65536 slots of 65536 milliseconds for later.  Times are milliseconds since the
  wheel was made, as \<open>wl_clock\<close> gives them (32 bits); expiry times are a \<open>long\<close>, modelled as \<open>int\<close>.  The
  clock is an argument.  An index outside the two arrays is \<open>None\<close>.
\<close>

section \<open>State\<close>

record 'p HDS_Timer_Node =
  expers_time :: int
  node_parm :: 'p

record 'p HDS_timer_wheel =
  nearly_array :: "nat \<Rightarrow> 'p HDS_Timer_Node list"
  slot_array :: "nat \<Rightarrow> 'p HDS_Timer_Node list"
  nearly_cursor :: nat
  nearly_count :: int
  total_timer_count :: int
  slot_cursor :: nat
  event_array :: "bool list"
  wait_up_thread_cursor :: nat
  timer_hexit :: bool

definition wheel_new :: "nat \<Rightarrow> 'p HDS_timer_wheel" where
  "wheel_new thread_num = \<lparr>nearly_array = (\<lambda>_. []), slot_array = (\<lambda>_. []), nearly_cursor = 0, nearly_count = 0,
     total_timer_count = 0, slot_cursor = 0, event_array = replicate thread_num False,
     wait_up_thread_cursor = 0, timer_hexit = False\<rparr>"

section \<open>Clock\<close>

definition wl_clock :: "timeval \<Rightarrow> timeval \<Rightarrow> u32" where
  "wl_clock start_tv tod = connection_clock (timeval_sub tod start_tv)"

text \<open>Comparisons of times modulo \<open>2\<^sup>3\<^sup>2\<close>.\<close>

definition time_after :: "u32 \<Rightarrow> u32 \<Rightarrow> bool" where
  "time_after a b \<longleftrightarrow> sint (b - a) < 0"

definition time_before :: "u32 \<Rightarrow> u32 \<Rightarrow> bool" where
  "time_before a b = time_after b a"

definition time_after_eq :: "u32 \<Rightarrow> u32 \<Rightarrow> bool" where
  "time_after_eq a b \<longleftrightarrow> 0 \<le> sint (a - b)"

definition time_before_eq :: "u32 \<Rightarrow> u32 \<Rightarrow> bool" where
  "time_before_eq a b = time_after_eq b a"

definition slot_time :: "nat \<Rightarrow> u32" where
  "slot_time s = push_bit 16 (of_nat s)"

section \<open>Adding a timer\<close>

text \<open>Both \<open>add_to_tail\<close> put the node in front; \<open>dequeue_head\<close> takes the front.\<close>

definition add_to_tail :: "'n \<Rightarrow> 'n list \<Rightarrow> 'n list" where
  "add_to_tail node root = node # root"

definition wake_thread :: "'p HDS_timer_wheel \<Rightarrow> 'p HDS_timer_wheel" where
  "wake_thread w = w\<lparr>event_array := (event_array w)[wait_up_thread_cursor w := True],
     wait_up_thread_cursor := (if length (event_array w) \<le> wait_up_thread_cursor w + 1 then 0
       else wait_up_thread_cursor w + 1)\<rparr>"

definition add_timer :: "bool \<Rightarrow> u32 \<Rightarrow> int \<Rightarrow> 'p \<Rightarrow> 'p HDS_timer_wheel \<Rightarrow> (int \<times> 'p HDS_timer_wheel) option" where
  "add_timer memory clock DueTime parm w =
    (if timer_hexit w then Some (- 1, w)
     else if 0x0fffffff < DueTime then Some (- 1, w)
     else if \<not> memory then None
     else
       let w = w\<lparr>total_timer_count := total_timer_count w + 1\<rparr>;
           xtime = DueTime + uint clock;
           node = \<lparr>expers_time = xtime, node_parm = parm\<rparr>;
           slot_num = xtime div 65536
       in if slot_num = int (slot_cursor w) \<and> nearly_cursor w < 65536 then
            let bucket = max (nearly_cursor w) (nat (xtime mod 65536))
            in Some (0, wake_thread (w\<lparr>nearly_array := (nearly_array w)(bucket := add_to_tail node (nearly_array w bucket)),
                 nearly_count := nearly_count w + 1\<rparr>))
          else if slot_num < 0 \<or> 65536 \<le> slot_num then None
          else
            let s = nat slot_num;
                w = w\<lparr>slot_array := (slot_array w)(s := add_to_tail node (slot_array w s))\<rparr>
            in Some (0, if total_timer_count w = 1 then wake_thread w else w))"

section \<open>Expiry\<close>

text \<open>The two loops of \<open>get_node_from_nearly_array\<close>: up to the current bucket, and onwards to the next
  one in use.\<close>

function advance_cursor :: "nat \<Rightarrow> (nat \<Rightarrow> 'n list) \<Rightarrow> nat \<Rightarrow> nat" where
  "advance_cursor index a cur = (if cur \<le> index \<and> a cur = [] then advance_cursor index a (cur + 1) else cur)"
  by pat_completeness auto
termination by (relation "measure (\<lambda>(index, a, cur). index + 1 - cur)") auto

function next_bucket :: "(nat \<Rightarrow> 'n list) \<Rightarrow> nat \<Rightarrow> nat" where
  "next_bucket a index = (if index < 65536 \<and> a index = [] then next_bucket a (index + 1) else index)"
  by pat_completeness auto
termination by (relation "measure (\<lambda>(a, index). 65536 - index)") auto

declare advance_cursor.simps [simp del] next_bucket.simps [simp del]

datatype 'p expiry = Expired "'p HDS_Timer_Node" | Sleep int | Sleep_Forever

definition get_node_from_nearly_array :: "u32 \<Rightarrow> 'p HDS_timer_wheel \<Rightarrow> 'p expiry \<times> 'p HDS_timer_wheel" where
  "get_node_from_nearly_array cur_time w =
    (let index = unat (cur_time AND 0xffff);
         cur = advance_cursor index (nearly_array w) (nearly_cursor w);
         w = w\<lparr>nearly_cursor := cur\<rparr>
     in if cur \<le> index then
          (case nearly_array w cur of
             node # root \<Rightarrow> (Expired node, w\<lparr>total_timer_count := total_timer_count w - 1,
               nearly_count := nearly_count w - 1, nearly_array := (nearly_array w)(cur := root)\<rparr>)
           | [] \<Rightarrow> (Sleep 0, w))
        else (Sleep (int (next_bucket (nearly_array w) index) - int index), w))"

text \<open>Moving a slot into the buckets: the nodes are taken one by one from the front.\<close>

fun spread :: "'p HDS_Timer_Node list \<Rightarrow> 'p HDS_timer_wheel \<Rightarrow> 'p HDS_timer_wheel" where
  "spread [] w = w"
| "spread (xnode # rest) w =
    (let b = nat (expers_time xnode mod 65536) in
     spread rest (w\<lparr>nearly_array := (nearly_array w)(b := add_to_tail xnode (nearly_array w b)),
       nearly_count := nearly_count w + 1\<rparr>))"

text \<open>The search for the next slot that is due and not empty.  The distance of the slot from the clock
  shrinks, so it ends; a slot number of 65536 is outside the array.\<close>

lemma slot_distance:
  assumes "0 \<le> sint (cur - slot_time (Suc s))"
  shows "sint (cur - slot_time (Suc (Suc s))) = sint (cur - slot_time (Suc s)) - 65536"
proof -
  have "cur - slot_time (Suc (Suc s)) = (cur - slot_time (Suc s)) - 65536"
    by (simp add: slot_time_def push_bit_eq_mult algebra_simps)
  also have "sint \<dots> = sint (cur - slot_time (Suc s)) - sint (65536 :: u32)"
    by (rule sint_minus_small) (use assms sint_lt [of "cur - slot_time (Suc s)"] in simp_all)
  finally show ?thesis by simp
qed

function next_slot :: "nat \<Rightarrow> u32 \<Rightarrow> 'p HDS_timer_wheel \<Rightarrow> ('p expiry \<times> 'p HDS_timer_wheel) option" where
  "next_slot next_slot_cursor cur_time w =
    (let next = next_slot_cursor + 1;
         w = (if next = 65536 then w\<lparr>slot_cursor := 0\<rparr> else w)
     in if time_before_eq (slot_time next) cur_time then
          if 65536 \<le> next then None
          else if slot_array w next \<noteq> [] then
            let nodes = slot_array w next;
                w = spread nodes (w\<lparr>slot_cursor := next, slot_array := (slot_array w)(next := [])\<rparr>);
                cur_time = (if time_before_eq (slot_time (next + 1)) cur_time then cur_time OR 0xffff else cur_time)
            in Some (get_node_from_nearly_array cur_time w)
          else next_slot next cur_time (w\<lparr>slot_cursor := next\<rparr>)
        else Some (Sleep (0xffff - uint (cur_time AND 0xffff) + 1), w\<lparr>slot_cursor := next - 1\<rparr>))"
  by pat_completeness auto
termination
  by (relation "measure (\<lambda>(s, cur, w). nat (sint (cur - slot_time (s + 1)) + 1))")
    (auto simp: slot_distance time_before_eq_def time_after_eq_def)

declare next_slot.simps [simp del]

definition expire :: "u32 \<Rightarrow> 'p HDS_timer_wheel \<Rightarrow> ('p expiry \<times> 'p HDS_timer_wheel) option" where
  "expire clock w =
    (if total_timer_count w = 0 then Some (Sleep_Forever, w)
     else
       let slot_end = slot_time (slot_cursor w) OR 0xffff
       in if nearly_count w \<noteq> 0 then
            Some (get_node_from_nearly_array (if time_after clock slot_end then slot_end else clock) w)
          else if time_before_eq clock slot_end then
            Some (Sleep (0xffff - uint (clock AND 0xffff) + 1), w)
          else next_slot (slot_cursor w) clock (w\<lparr>nearly_array := (\<lambda>_. []), nearly_cursor := 0\<rparr>))"

text \<open>A round of the loop of \<open>do_expire\<close> in the thread with event \<open>i\<close>.  The lock is released between \<open>expire\<close>
  and the reset of the event, so the two halves are separate steps.\<close>

datatype 'p thread_state = Call_Back "'p HDS_Timer_Node" | Before_Wait int | Before_Wait_Forever | Thread_Exit

definition do_expire_check :: "u32 \<Rightarrow> 'p HDS_timer_wheel \<Rightarrow> ('p thread_state \<times> 'p HDS_timer_wheel) option" where
  "do_expire_check clock w =
    (if timer_hexit w then Some (Thread_Exit, w)
     else do {
       (e, w) \<leftarrow> expire clock w;
       Some (case e of Expired node \<Rightarrow> Call_Back node | Sleep t \<Rightarrow> Before_Wait t | Sleep_Forever \<Rightarrow> Before_Wait_Forever, w)
     })"

text \<open>After the reset the thread blocks exactly when its event is not set.\<close>

definition do_expire_wait :: "nat \<Rightarrow> 'p HDS_timer_wheel \<Rightarrow> 'p HDS_timer_wheel" where
  "do_expire_wait i w = w\<lparr>event_array := (event_array w)[i := False]\<rparr>"

definition wheel_exit :: "'p HDS_timer_wheel \<Rightarrow> 'p HDS_timer_wheel" where
  "wheel_exit w = w\<lparr>timer_hexit := True, event_array := replicate (length (event_array w)) True\<rparr>"

section \<open>Times below the horizon\<close>

text \<open>The laws below hold while the clock is below \<open>2\<^sup>3\<^sup>0\<close> ms, some twelve days.\<close>

lemma unat_slot_time: "s < 65536 \<Longrightarrow> unat (slot_time s) = s * 65536"
  by (simp add: slot_time_def push_bit_eq_mult unat_word_ariths unat_of_nat)

lemma slot_end: "slot_time s OR 0xffff = slot_time s + 0xffff"
proof -
  have "slot_time s AND mask 16 = 0" by (rule bit_word_eqI) (auto simp: slot_time_def bit_simps)
  then have "slot_time s + mask 16 = slot_time s OR mask 16" by (simp add: disjunctive_add_eq_or)
  then show ?thesis by (simp add: mask_numeral)
qed

lemma unat_slot_end: "s < 65536 \<Longrightarrow> unat (slot_time s OR 0xffff) = s * 65536 + 65535"
  by (simp add: slot_end unat_word_ariths unat_slot_time)

lemma low_bits: "unat (x AND 0xffff :: u32) = unat x mod 65536"
proof -
  have "x AND 0xffff = take_bit 16 x" by (simp add: take_bit_eq_mask mask_numeral)
  then have "unat (x AND 0xffff) = take_bit 16 (unat x)" by (simp only: unsigned_take_bit_eq)
  then show ?thesis by (simp add: take_bit_eq_mod)
qed

lemma low_bits_or: "(x OR 0xffff) AND 0xffff = (0xffff :: u32)"
  by (simp add: and.commute)

lemma sint_minus_horizon:
  assumes "unat (a :: u32) < 2 ^ 31" "unat b < 2 ^ 31"
  shows "sint (b - a) = uint b - uint a"
proof -
  have s: "sint a = uint a" "sint b = uint b"
    using assms sint_of_nat32 [of "unat a"] sint_of_nat32 [of "unat b"] by simp_all
  have "uint a < 2 ^ 31" "uint b < 2 ^ 31" "0 \<le> uint a" "0 \<le> uint b"
    using assms by (simp_all add: nat_less_iff flip: nat_uint_eq)
  then have "- (2 ^ 31) \<le> uint b - uint a" "uint b - uint a < 2 ^ 31" by linarith+
  with s show ?thesis by (subst sint_minus_small) auto
qed

lemma time_compare:
  assumes "unat a < 2 ^ 31" "unat b < 2 ^ 31"
  shows "time_after a b \<longleftrightarrow> unat b < unat a" "time_before_eq a b \<longleftrightarrow> unat a \<le> unat b"
  using sint_minus_horizon [OF assms]
  by (auto simp: time_after_def time_before_eq_def time_after_eq_def word_le_nat_alt [symmetric] word_less_nat_alt [symmetric]
      word_le_def word_less_def)

section \<open>The timers of a wheel\<close>

definition bag :: "(nat \<Rightarrow> 'n list) \<Rightarrow> 'n multiset" where
  "bag a = (\<Sum>i < 65536. mset (a i))"

definition wheel_timers :: "'p HDS_timer_wheel \<Rightarrow> 'p HDS_Timer_Node multiset" where
  "wheel_timers w = bag (nearly_array w) + bag (slot_array w)"

text \<open>Well-formedness at a time \<open>T\<close>: the buckets hold the timers of the current slot, each in its
  millisecond, none of them behind the cursor; later timers are in their slots; the counters count.\<close>

definition wheel_ok :: "nat \<Rightarrow> 'p HDS_timer_wheel \<Rightarrow> bool" where
  "wheel_ok T w \<longleftrightarrow>
     (\<forall>i. \<forall>n \<in> set (nearly_array w i). i < 65536 \<and> expers_time n = int (slot_cursor w) * 65536 + int i) \<and>
     (\<forall>i < nearly_cursor w. nearly_array w i = []) \<and>
     (\<forall>s. \<forall>n \<in> set (slot_array w s). s < 65536 \<and> slot_cursor w < s \<and> expers_time n div 65536 = int s) \<and>
     nearly_count w = int (size (bag (nearly_array w))) \<and>
     total_timer_count w = int (size (wheel_timers w)) \<and>
     nearly_cursor w \<le> 65536 \<and> slot_cursor w * 65536 + nearly_cursor w \<le> T + 1 \<and> slot_cursor w * 65536 \<le> T"

lemma bag_update: "b < 65536 \<Longrightarrow> bag (a(b := ys)) + mset (a b) = bag a + mset ys"
proof -
  assume b: "b < 65536"
  have "bag (a(b := ys)) = mset ys + (\<Sum>i \<in> {..<65536} - {b}. mset (a i))"
    unfolding bag_def using b by (subst sum.remove [of _ b]) auto
  moreover have "bag a = mset (a b) + (\<Sum>i \<in> {..<65536} - {b}. mset (a i))"
    unfolding bag_def using b by (subst sum.remove [of _ b]) auto
  ultimately show ?thesis by (simp add: ac_simps)
qed

lemma bag_Cons: "b < 65536 \<Longrightarrow> bag (a(b := x # a b)) = add_mset x (bag a)"
  using bag_update [of b a "x # a b"] by simp

lemma bag_member: "n \<in># bag a \<longleftrightarrow> (\<exists>i < 65536. n \<in> set (a i))"
proof -
  have "n \<in># (\<Sum>i < k. mset (a i)) \<longleftrightarrow> (\<exists>i < k. n \<in> set (a i))" for k
    by (induction k) (auto simp: less_Suc_eq)
  then show ?thesis by (simp add: bag_def)
qed

lemma bag_empty [simp]: "bag (\<lambda>_. []) = {#}"
  by (simp add: bag_def)

lemma advance_cursor_spec:
  "(\<forall>i. cur \<le> i \<and> i < advance_cursor index a cur \<longrightarrow> a i = []) \<and> cur \<le> advance_cursor index a cur \<and>
   (advance_cursor index a cur \<le> index \<longrightarrow> a (advance_cursor index a cur) \<noteq> []) \<and>
   (cur \<le> index + 1 \<longrightarrow> advance_cursor index a cur \<le> index + 1)"
proof (induction index a cur rule: advance_cursor.induct)
  case (1 index a cur)
  show ?case
  proof (cases "cur \<le> index \<and> a cur = []")
    case True
    then have eq: "advance_cursor index a cur = advance_cursor index a (cur + 1)" by (subst advance_cursor.simps) simp
    from True "1.IH" [OF True] show ?thesis unfolding eq
      by (intro conjI allI impI; (elim conjE)?) (metis add.commute le_eq_less_or_eq less_eq_Suc_le plus_1_eq_Suc, auto)
  qed (auto simp: advance_cursor.simps [of index a cur])
qed

lemma next_bucket_spec:
  "(\<forall>i. index \<le> i \<and> i < next_bucket a index \<longrightarrow> a i = []) \<and> index \<le> next_bucket a index \<and>
   (index \<le> 65536 \<longrightarrow> next_bucket a index \<le> 65536)"
proof (induction a index rule: next_bucket.induct)
  case (1 a index)
  show ?case
  proof (cases "index < 65536 \<and> a index = []")
    case True
    then have eq: "next_bucket a index = next_bucket a (index + 1)" by (subst next_bucket.simps) simp
    from True "1.IH" [OF True] show ?thesis unfolding eq
      by (intro conjI allI impI; (elim conjE)?) (metis add.commute le_eq_less_or_eq less_eq_Suc_le plus_1_eq_Suc, auto)
  qed (auto simp: next_bucket.simps [of a index])
qed

section \<open>Adding\<close>

lemma wake_thread_fields [simp]:
  "nearly_array (wake_thread w) = nearly_array w" "slot_array (wake_thread w) = slot_array w"
  "nearly_cursor (wake_thread w) = nearly_cursor w" "nearly_count (wake_thread w) = nearly_count w"
  "total_timer_count (wake_thread w) = total_timer_count w" "slot_cursor (wake_thread w) = slot_cursor w"
  by (simp_all add: wake_thread_def)

lemma wake_thread_ok [simp]: "wheel_ok T (wake_thread w) = wheel_ok T w" "wheel_timers (wake_thread w) = wheel_timers w"
  by (simp_all add: wheel_ok_def wheel_timers_def)

lemma add_near:
  assumes "wheel_ok T w" "i < 65536" "nearly_cursor w \<le> i" "expers_time n = int (slot_cursor w) * 65536 + int i"
    "w' = w\<lparr>total_timer_count := total_timer_count w + 1,
       nearly_array := (nearly_array w)(i := n # nearly_array w i), nearly_count := nearly_count w + 1\<rparr>"
  shows "wheel_ok T w' \<and> wheel_timers w' = add_mset n (wheel_timers w)"
proof -
  have t: "wheel_timers w' = add_mset n (wheel_timers w)"
    using assms(2,5) by (simp add: wheel_timers_def bag_Cons)
  with assms show ?thesis unfolding wheel_ok_def t by (auto simp: bag_Cons)
qed

lemma add_far:
  assumes "wheel_ok T w" "s < 65536" "slot_cursor w < s" "expers_time n div 65536 = int s"
    "w' = w\<lparr>total_timer_count := total_timer_count w + 1, slot_array := (slot_array w)(s := n # slot_array w s)\<rparr>"
  shows "wheel_ok T w' \<and> wheel_timers w' = add_mset n (wheel_timers w)"
proof -
  have t: "wheel_timers w' = add_mset n (wheel_timers w)"
    using assms(2,5) by (simp add: wheel_timers_def bag_Cons)
  with assms show ?thesis unfolding wheel_ok_def t by auto
qed

lemma wheel_ok_later: "wheel_ok T w \<Longrightarrow> T \<le> T' \<Longrightarrow> wheel_ok T' w"
  by (auto simp: wheel_ok_def)

lemma add_timer_ok:
  assumes "wheel_ok T w" "T \<le> unat clock" "unat clock < 2 ^ 30" "1 \<le> due" "due \<le> 0x0fffffff" "\<not> timer_hexit w"
  shows "\<exists>w'. add_timer True clock due parm w = Some (0, w') \<and> wheel_ok (unat clock) w' \<and>
    wheel_timers w' = add_mset \<lparr>expers_time = int (unat clock) + due, node_parm = parm\<rparr> (wheel_timers w)"
proof -
  let ?x = "due + uint clock"
  let ?n = "\<lparr>expers_time = ?x, node_parm = parm\<rparr>"
  have ok: "wheel_ok (unat clock) w" using wheel_ok_later [OF assms(1,2)] .
  have u: "uint clock = int (unat clock)" by simp
  have b: "slot_cursor w * 65536 \<le> unat clock" "nearly_cursor w \<le> 65536"
    "slot_cursor w * 65536 + nearly_cursor w \<le> unat clock + 1" using ok by (auto simp: wheel_ok_def)
  have "uint clock < 1073741824" using assms(3) by (simp add: nat_less_iff flip: nat_uint_eq)
  then have xb: "int (slot_cursor w) * 65536 \<le> ?x" "?x < 65536 * 65536" using b(1) u assms(4,5) by linarith+
  have lo: "int (slot_cursor w) \<le> ?x div 65536" using zdiv_mono1 [OF xb(1), of 65536] by simp
  have hi: "?x div 65536 < 65536" using xb(2) by (simp add: div_less_iff_less_mult)
  show ?thesis
  proof (cases "?x div 65536 = int (slot_cursor w)")
    case True
    then have x: "?x = int (slot_cursor w) * 65536 + ?x mod 65536" by (metis div_mult_mod_eq)
    have "nearly_cursor w \<le> nat (?x mod 65536)" "nat (?x mod 65536) < 65536"
      using x b u assms(4) by linarith+
    then show ?thesis
      using add_near [OF ok, of "nat (?x mod 65536)" ?n] True x assms(5,6)
      by (auto simp: add_timer_def add_to_tail_def Let_def max_absorb2 add.commute)
  next
    case False
    then show ?thesis
      using add_far [OF ok, of "nat (?x div 65536)" ?n] lo hi assms(5,6)
      by (auto simp: add_timer_def add_to_tail_def Let_def add.commute)
  qed
qed

section \<open>Expiry\<close>

text \<open>What a call of \<open>expire\<close> at time \<open>T\<close> promises: a timer handed out is due and leaves the wheel, a sleep
  ends no later than the first pending timer, and a sleep without end happens only on an empty wheel.\<close>

definition expiry_ok :: "nat \<Rightarrow> 'p HDS_timer_wheel \<Rightarrow> 'p expiry \<Rightarrow> 'p HDS_timer_wheel \<Rightarrow> bool" where
  "expiry_ok T w e w' \<longleftrightarrow> wheel_ok T w' \<and>
    (case e of
       Expired n \<Rightarrow> wheel_timers w = add_mset n (wheel_timers w') \<and> expers_time n \<le> int T
     | Sleep t \<Rightarrow> wheel_timers w' = wheel_timers w \<and> 0 < t \<and> (\<forall>n \<in># wheel_timers w. int T + t \<le> expers_time n)
     | Sleep_Forever \<Rightarrow> wheel_timers w' = wheel_timers w \<and> wheel_timers w = {#})"

lemma expiry_ok_cong: "wheel_timers w1 = wheel_timers w2 \<Longrightarrow> expiry_ok T w1 e w' = expiry_ok T w2 e w'"
  by (simp add: expiry_ok_def split: expiry.split)

lemma wheel_okD:
  assumes "wheel_ok T w"
  shows "n \<in> set (nearly_array w i) \<Longrightarrow> i < 65536"
    "n \<in> set (nearly_array w i) \<Longrightarrow> expers_time n = int (slot_cursor w) * 65536 + int i"
    "m \<in> set (slot_array w s) \<Longrightarrow> s < 65536 \<and> slot_cursor w < s \<and> expers_time m div 65536 = int s"
  using assms by (simp_all add: wheel_ok_def)

lemma nearly_empty:
  assumes "wheel_ok T w"
  shows "nearly_count w = 0 \<longleftrightarrow> (\<forall>i. nearly_array w i = [])"
proof
  assume "nearly_count w = 0"
  then have "bag (nearly_array w) = {#}" using assms by (simp add: wheel_ok_def)
  then have "n \<notin> set (nearly_array w i)" if "i < 65536" for i n using that bag_member [of n "nearly_array w"] by auto
  moreover have "i < 65536" if "n \<in> set (nearly_array w i)" for i n using assms that by (auto simp: wheel_ok_def)
  ultimately show "\<forall>i. nearly_array w i = []" by (metis list.set_intros(1) neq_Nil_conv)
next
  assume "\<forall>i. nearly_array w i = []"
  then have "nearly_array w = (\<lambda>_. [])" by auto
  then show "nearly_count w = 0" using assms by (simp add: wheel_ok_def)
qed

lemma slot_timers_later:
  assumes "wheel_ok T w" "n \<in># bag (slot_array w)"
  shows "int (slot_cursor w) * 65536 + 65536 \<le> expers_time n"
proof -
  obtain s where "slot_cursor w < s" "expers_time n div 65536 = int s"
    using assms wheel_okD(3) [OF assms(1)] by (auto simp: bag_member)
  moreover have "expers_time n div 65536 * 65536 \<le> expers_time n" by simp
  ultimately show ?thesis by linarith
qed

lemma get_node_sleep:
  assumes ok: "wheel_ok T w" and now: "slot_cursor w * 65536 + index = T" and "index < 65536"
    and empty: "\<forall>i \<le> index. nearly_array w i = []" and n: "n \<in># wheel_timers w"
  shows "int T + (int (next_bucket (nearly_array w) index) - int index) \<le> expers_time n"
proof -
  let ?b = "next_bucket (nearly_array w) index"
  note nb = next_bucket_spec [of index "nearly_array w"]
  from n consider "n \<in># bag (nearly_array w)" | "n \<in># bag (slot_array w)" by (auto simp: wheel_timers_def)
  then show ?thesis
  proof cases
    case 1
    then obtain i where i: "i < 65536" "n \<in> set (nearly_array w i)" by (auto simp: bag_member)
    then have "expers_time n = int (slot_cursor w) * 65536 + int i" using ok by (auto simp: wheel_ok_def)
    moreover have "?b \<le> i" using nb i empty by (metis empty_iff list.set(1) nat_le_linear not_le)
    ultimately show ?thesis using now by linarith
  next
    case 2
    then show ?thesis using slot_timers_later [OF ok 2] nb now \<open>index < 65536\<close> by linarith
  qed
qed

lemma take_head:
  assumes ok: "wheel_ok T w" and cur: "nearly_cursor w \<le> cur" "\<forall>i < cur. nearly_array w i = []"
    and now: "slot_cursor w * 65536 + cur \<le> T" and root: "nearly_array w cur = node # root"
    and w': "w' = w\<lparr>nearly_cursor := cur, total_timer_count := total_timer_count w - 1,
      nearly_count := nearly_count w - 1, nearly_array := (nearly_array w)(cur := root)\<rparr>"
  shows "wheel_ok T w' \<and> wheel_timers w = add_mset node (wheel_timers w')"
proof -
  have c: "cur < 65536" using wheel_okD(1) [OF ok, of node cur] root by simp
  then have b: "bag (nearly_array w) = add_mset node (bag ((nearly_array w)(cur := root)))"
    using bag_update [OF c, of "nearly_array w" root] root by simp
  then have t: "wheel_timers w = add_mset node (wheel_timers w')" by (simp add: wheel_timers_def w')
  have members: "n \<in> set (nearly_array w i)" if "n \<in> set (nearly_array w' i)" for n i
    using that root by (auto simp: w' split: if_splits)
  have "\<forall>i. \<forall>n \<in> set (nearly_array w' i). i < 65536 \<and> expers_time n = int (slot_cursor w) * 65536 + int i"
    using wheel_okD(1,2) [OF ok] members by blast
  moreover have "nearly_count w' = int (size (bag (nearly_array w')))"
    using ok b by (simp add: wheel_ok_def w')
  moreover have "total_timer_count w' = int (size (wheel_timers w'))"
  proof -
    have "total_timer_count w = int (size (wheel_timers w))" using ok by (simp add: wheel_ok_def)
    then have "total_timer_count w - 1 = int (size (wheel_timers w'))" unfolding t by simp
    then show ?thesis by (simp add: w')
  qed
  ultimately have "wheel_ok T w'" using ok cur now c by (simp add: wheel_ok_def w')
  with t show ?thesis by simp
qed

lemma get_node_ok:
  assumes ok: "wheel_ok T w" and i: "index = unat (cur_time AND 0xffff)"
    and now: "slot_cursor w * 65536 + index \<le> T" "nearly_cursor w \<le> index + 1"
    and clip: "slot_cursor w * 65536 + index = T \<or> (\<exists>b \<le> index. nearly_array w b \<noteq> [])"
  shows "case get_node_from_nearly_array cur_time w of (e, w') \<Rightarrow> expiry_ok T w e w'"
proof -
  let ?c = "advance_cursor index (nearly_array w) (nearly_cursor w)"
  note ac = advance_cursor_spec [of "nearly_cursor w" index "nearly_array w"]
  have below: "\<forall>i < ?c. nearly_array w i = []" using ac ok by (metis not_le wheel_ok_def)
  have lt: "index < 65536" by (simp add: i low_bits)
  show ?thesis
  proof (cases "?c \<le> index")
    case True
    then obtain node root where r: "nearly_array w ?c = node # root" using ac by (meson neq_Nil_conv)
    have "expers_time node = int (slot_cursor w) * 65536 + int ?c" using wheel_okD(2) [OF ok, of node ?c] r by simp
    then have "expers_time node \<le> int T" using True now by linarith
    moreover have "slot_cursor w * 65536 + ?c \<le> T" using True now by linarith
    ultimately show ?thesis using take_head [OF ok _ below _ r refl] ac True r
      by (simp add: get_node_from_nearly_array_def expiry_ok_def Let_def flip: i)
  next
    case False
    then have e: "\<forall>i \<le> index. nearly_array w i = []" using below by simp
    then have T: "slot_cursor w * 65536 + index = T" using clip by blast
    have "next_bucket (nearly_array w) index = next_bucket (nearly_array w) (index + 1)"
      using lt e by (subst next_bucket.simps) simp
    then have pos: "index < next_bucket (nearly_array w) index" using next_bucket_spec [of "index + 1" "nearly_array w"] by simp
    have "wheel_ok T (w\<lparr>nearly_cursor := ?c\<rparr>)" using ok below ac now lt T
      by (auto simp: wheel_ok_def wheel_timers_def)
    then show ?thesis using get_node_sleep [OF ok T lt e] pos False
      by (simp add: get_node_from_nearly_array_def expiry_ok_def Let_def wheel_timers_def flip: i)
  qed
qed

lemma spread_frame [simp]:
  "slot_array (spread ns w) = slot_array w" "slot_cursor (spread ns w) = slot_cursor w"
  "nearly_cursor (spread ns w) = nearly_cursor w" "total_timer_count (spread ns w) = total_timer_count w"
  by (induction ns w rule: spread.induct) (simp_all add: Let_def)

lemma spread_nearly:
  "nearly_count (spread ns w) = nearly_count w + int (length ns)"
  "bag (nearly_array (spread ns w)) = mset ns + bag (nearly_array w)"
  "n \<in> set (nearly_array (spread ns w) i) \<longleftrightarrow> n \<in> set (nearly_array w i) \<or> n \<in> set ns \<and> i = nat (expers_time n mod 65536)"
  by (induction ns w rule: spread.induct) (auto simp: Let_def add_to_tail_def bag_Cons nat_less_iff)

text \<open>Moving a due slot into the empty buckets keeps the wheel well formed and loses nothing.\<close>

lemma spread_ok:
  assumes ok: "wheel_ok T w" and empty: "nearly_array w = (\<lambda>_. [])" "nearly_cursor w = 0"
    and due: "Suc (slot_cursor w) * 65536 \<le> T" and bound: "Suc (slot_cursor w) < 65536"
    and w': "w' = spread (slot_array w (Suc (slot_cursor w)))
      (w\<lparr>slot_cursor := Suc (slot_cursor w), slot_array := (slot_array w)(Suc (slot_cursor w) := [])\<rparr>)"
  shows "wheel_ok T w' \<and> wheel_timers w' = wheel_timers w"
proof -
  let ?s = "Suc (slot_cursor w)"
  have t: "wheel_timers w' = wheel_timers w"
    using bag_update [OF bound, of "slot_array w" "[]"] by (simp add: wheel_timers_def w' spread_nearly empty ac_simps)
  have "\<forall>i. \<forall>n \<in> set (nearly_array w' i). i < 65536 \<and> expers_time n = int ?s * 65536 + int i"
  proof (intro allI ballI)
    fix i n assume "n \<in> set (nearly_array w' i)"
    then have "expers_time n div 65536 = int ?s" and i: "i = nat (expers_time n mod 65536)"
      using wheel_okD(3) [OF ok, of n ?s] by (auto simp: w' spread_nearly empty)
    then have "expers_time n = int ?s * 65536 + expers_time n mod 65536" by (metis div_mult_mod_eq)
    with i show "i < 65536 \<and> expers_time n = int ?s * 65536 + int i" by (simp add: nat_less_iff)
  qed
  moreover have "\<forall>s. \<forall>n \<in> set (slot_array w' s). s < 65536 \<and> ?s < s \<and> expers_time n div 65536 = int s"
  proof (intro allI ballI)
    fix s n assume "n \<in> set (slot_array w' s)"
    then have "n \<in> set (slot_array w s)" "s \<noteq> ?s" by (auto simp: w' split: if_splits)
    with wheel_okD(3) [OF ok this(1)] show "s < 65536 \<and> ?s < s \<and> expers_time n div 65536 = int s" by auto
  qed
  moreover have "nearly_count w = 0" using nearly_empty [OF ok] by (simp add: empty)
  ultimately have "wheel_ok T w'"
    using ok due unfolding wheel_ok_def t by (simp add: w' spread_nearly empty)
  with t show ?thesis by simp
qed

text \<open>The end of the current slot is the time to look again when its buckets are empty.\<close>

lemma sleep_to_slot_end:
  fixes clock :: u32
  assumes ok: "wheel_ok (unat clock) w" and "nearly_count w = 0" "unat clock < Suc (slot_cursor w) * 65536"
  shows "expiry_ok (unat clock) w (Sleep (0xffff - uint (clock AND 0xffff) + 1)) w"
proof -
  let ?T = "unat clock"
  have "slot_cursor w * 65536 \<le> ?T" using ok by (simp add: wheel_ok_def)
  then obtain d where d: "?T = slot_cursor w * 65536 + d" by (auto simp: le_iff_add)
  then have "d < 65536" using assms(3) by simp
  then have "unat (clock AND 0xffff) = d" unfolding low_bits d by simp
  then have "uint (clock AND 0xffff) = int d" by (metis uint_nat)
  moreover have "int ?T = int (slot_cursor w) * 65536 + int d" using d by linarith
  ultimately have t: "uint (clock AND 0xffff) = int ?T - int (slot_cursor w) * 65536" by linarith
  have "nearly_array w = (\<lambda>_. [])" using nearly_empty [OF ok] assms(2) by auto
  then have "int (slot_cursor w) * 65536 + 65536 \<le> expers_time n" if "n \<in># wheel_timers w" for n
    using that slot_timers_later [OF ok] by (simp add: wheel_timers_def)
  then have later: "int ?T + (0xffff - (int ?T - int (slot_cursor w) * 65536) + 1) \<le> expers_time n"
    if "n \<in># wheel_timers w" for n using that by fastforce
  have "d < 65536" using assms(3) d by simp
  then have "int ?T < int (slot_cursor w) * 65536 + 65536" using d by linarith
  then have "0 < 0xffff - (int ?T - int (slot_cursor w) * 65536) + 1" by linarith
  with later ok show ?thesis unfolding expiry_ok_def t expiry.case by blast
qed

lemma slot_cursor_bound: "s * 65536 \<le> T \<Longrightarrow> T < 2 ^ 30 \<Longrightarrow> s < 16384" for s T :: nat
  by simp

lemma slot_due: "s < 16385 \<Longrightarrow> unat clock < 2 ^ 30 \<Longrightarrow> time_before_eq (slot_time s) clock \<longleftrightarrow> s * 65536 \<le> unat clock"
  by (subst time_compare(2)) (simp_all add: unat_slot_time)

lemma current_index: "slot_cursor w * 65536 \<le> T \<Longrightarrow> T < Suc (slot_cursor w) * 65536 \<Longrightarrow> slot_cursor w * 65536 + T mod 65536 = T"
  for T :: nat
  by (metis div_nat_eqI mult.commute div_mult_mod_eq)

lemma spread_get_ok:
  assumes ok: "wheel_ok (unat clock) w" and cur: "nearly_cursor w = 0" "b < 65536" "nearly_array w b \<noteq> []"
    and "unat clock < 2 ^ 30"
    and c: "cur = (if time_before_eq (slot_time (Suc (slot_cursor w))) clock then clock OR 0xffff else clock)"
  shows "case get_node_from_nearly_array cur w of (e, w') \<Rightarrow> expiry_ok (unat clock) w e w'"
proof (rule get_node_ok [OF ok refl])
  let ?T = "unat clock" and ?i = "unat (cur AND 0xffff)"
  have s: "slot_cursor w * 65536 \<le> ?T" using ok by (simp add: wheel_ok_def)
  have d: "time_before_eq (slot_time (Suc (slot_cursor w))) clock \<longleftrightarrow> Suc (slot_cursor w) * 65536 \<le> ?T"
    using slot_cursor_bound [OF s assms(5)] slot_due [of "Suc (slot_cursor w)" clock] assms(5) by simp
  have i: "?i = 65535 \<and> Suc (slot_cursor w) * 65536 \<le> ?T \<or> slot_cursor w * 65536 + ?i = ?T"
  proof (cases "Suc (slot_cursor w) * 65536 \<le> ?T")
    case True
    then show ?thesis using d c low_bits_or [of clock] by simp
  next
    case False
    then have "cur = clock" using d c by simp
    then show ?thesis using current_index [OF s] False low_bits [of clock] by simp
  qed
  show "slot_cursor w * 65536 + ?i \<le> ?T" using i by auto
  show "nearly_cursor w \<le> ?i + 1" using cur by simp
  show "slot_cursor w * 65536 + ?i = ?T \<or> (\<exists>b \<le> ?i. nearly_array w b \<noteq> [])" using i cur(2,3) by auto
qed

lemma next_slot_ok:
  "wheel_ok (unat clock) w \<Longrightarrow> slot_cursor w = s \<Longrightarrow> nearly_array w = (\<lambda>_. []) \<Longrightarrow> nearly_cursor w = 0 \<Longrightarrow>
   unat clock < 2 ^ 30 \<Longrightarrow> \<exists>e w'. next_slot s clock w = Some (e, w') \<and> expiry_ok (unat clock) w e w'"
proof (induction s clock w rule: next_slot.induct)
  case (1 s clock w)
  let ?T = "unat clock"
  have sT: "s * 65536 \<le> ?T" using "1.prems" by (simp add: wheel_ok_def)
  have b: "Suc s < 65536" "Suc s < 16385" using slot_cursor_bound [OF sT "1.prems"(5)] by simp_all
  have due: "time_before_eq (slot_time (Suc s)) clock \<longleftrightarrow> Suc s * 65536 \<le> ?T" using slot_due [OF b(2) "1.prems"(5)] .
  consider (sleep) "?T < Suc s * 65536" | (skip) "Suc s * 65536 \<le> ?T" "slot_array w (Suc s) = []"
    | (take) "Suc s * 65536 \<le> ?T" "slot_array w (Suc s) \<noteq> []" by linarith
  then show ?case
  proof cases
    case sleep
    have "nearly_count w = 0" using nearly_empty [OF "1.prems"(1)] "1.prems"(3) by simp
    moreover have eq: "w\<lparr>slot_cursor := s\<rparr> = w" using "1.prems"(2) by (cases w) simp
    ultimately have "expiry_ok ?T w (Sleep (0xffff - uint (clock AND 0xffff) + 1)) (w\<lparr>slot_cursor := s\<rparr>)"
      unfolding eq using sleep_to_slot_end [OF "1.prems"(1)] sleep "1.prems"(2) by simp
    then show ?thesis using sleep b due by (subst next_slot.simps) (simp add: Let_def)
  next
    case skip
    let ?w = "w\<lparr>slot_cursor := Suc s\<rparr>"
    have "s' \<noteq> Suc s" if "n \<in> set (slot_array w s')" for n s' using that skip by auto
    then have ok: "wheel_ok ?T ?w" using "1.prems"(1,2,3,4) skip(1)
      by (simp add: wheel_ok_def wheel_timers_def) (metis Suc_leI le_neq_implies_less)
    obtain e w' where r: "next_slot (Suc s) clock ?w = Some (e, w')" "expiry_ok ?T ?w e w'"
      using "1.IH" [OF refl refl] ok "1.prems" skip due b by auto
    have "wheel_timers ?w = wheel_timers w" by (simp add: wheel_timers_def)
    then have "expiry_ok ?T w e w'" using r(2) expiry_ok_cong by blast
    then show ?thesis using r(1) skip due b by (subst next_slot.simps) (simp add: Let_def)
  next
    case take
    let ?w = "spread (slot_array w (Suc s)) (w\<lparr>slot_cursor := Suc s, slot_array := (slot_array w)(Suc s := [])\<rparr>)"
    have sp: "wheel_ok ?T ?w \<and> wheel_timers ?w = wheel_timers w"
      using spread_ok [OF "1.prems"(1,3,4)] take(1) b(1) "1.prems"(2) by simp
    obtain n where n: "n \<in> set (slot_array w (Suc s))" using take(2) by (metis last_in_set)
    let ?b = "nat (expers_time n mod 65536)"
    have m: "n \<in> set (nearly_array ?w ?b)" using n by (simp add: spread_nearly)
    obtain e w' where r: "get_node_from_nearly_array (if time_before_eq (slot_time (Suc (Suc s))) clock then clock OR 0xffff else clock) ?w
        = (e, w')" by (meson surj_pair)
    have "nearly_array ?w ?b \<noteq> []" using m by auto
    then have "expiry_ok ?T ?w e w'" using spread_get_ok [of clock ?w ?b, OF _ _ _ _ "1.prems"(5) refl] sp m r "1.prems"(4)
      by (simp add: nat_less_iff)
    then have "expiry_ok ?T w e w'" using sp expiry_ok_cong by blast
    then show ?thesis using r take due b by (subst next_slot.simps) (simp add: Let_def)
  qed
qed

lemma expire_ok:
  assumes "wheel_ok T0 w" "T0 \<le> unat clock" "unat clock < 2 ^ 30"
  shows "\<exists>e w'. expire clock w = Some (e, w') \<and> expiry_ok (unat clock) w e w'"
proof -
  let ?T = "unat clock" and ?slot_last = "slot_time (slot_cursor w) OR 0xffff"
  have ok: "wheel_ok ?T w" using wheel_ok_later [OF assms(1,2)] .
  have sT: "slot_cursor w * 65536 \<le> ?T" and cur: "nearly_cursor w \<le> 65536" "slot_cursor w * 65536 + nearly_cursor w \<le> ?T + 1"
    using ok by (auto simp: wheel_ok_def)
  have s: "slot_cursor w < 16384" using slot_cursor_bound [OF sT assms(3)] .
  have e: "unat ?slot_last = slot_cursor w * 65536 + 65535" using s by (simp add: unat_slot_end)
  have cmp: "time_after clock ?slot_last \<longleftrightarrow> Suc (slot_cursor w) * 65536 \<le> ?T" "time_before_eq clock ?slot_last \<longleftrightarrow> ?T < Suc (slot_cursor w) * 65536"
    using time_compare [of clock ?slot_last] assms(3) e s by auto
  consider (empty) "total_timer_count w = 0" | (near) "total_timer_count w \<noteq> 0" "nearly_count w \<noteq> 0"
    | (far) "total_timer_count w \<noteq> 0" "nearly_count w = 0" by blast
  then show ?thesis
  proof cases
    case empty
    then have "wheel_timers w = {#}" using ok by (simp add: wheel_ok_def)
    then show ?thesis using empty ok by (simp add: expire_def expiry_ok_def)
  next
    case near
    then obtain b where b: "nearly_array w b \<noteq> []" using nearly_empty [OF ok] by blast
    then obtain n where "n \<in> set (nearly_array w b)" by (metis last_in_set)
    then have b': "b < 65536" using wheel_okD(1) [OF ok] by blast
    let ?cur = "if time_after clock ?slot_last then ?slot_last else clock"
    let ?i = "unat (?cur AND 0xffff)"
    have i: "?i = 65535 \<and> Suc (slot_cursor w) * 65536 \<le> ?T \<or> slot_cursor w * 65536 + ?i = ?T"
    proof (cases "Suc (slot_cursor w) * 65536 \<le> ?T")
      case True
      then show ?thesis using cmp(1) low_bits_or [of "slot_time (slot_cursor w)"] by simp
    next
      case False
      then have "?cur = clock" using cmp(1) by simp
      then show ?thesis using current_index [OF sT] False low_bits [of clock] by simp
    qed
    have "case get_node_from_nearly_array ?cur w of (e, w') \<Rightarrow> expiry_ok ?T w e w'"
    proof (rule get_node_ok [OF ok refl])
      show "slot_cursor w * 65536 + ?i \<le> ?T" using i by auto
      show "nearly_cursor w \<le> ?i + 1" using i cur by linarith
      show "slot_cursor w * 65536 + ?i = ?T \<or> (\<exists>b \<le> ?i. nearly_array w b \<noteq> [])"
        using i
      proof
        assume "?i = 65535 \<and> Suc (slot_cursor w) * 65536 \<le> ?T"
        then have "b \<le> ?i" using b' by linarith
        then show ?thesis using b by blast
      qed blast
    qed
    then show ?thesis using near by (auto simp: expire_def Let_def split: prod.splits)
  next
    case far
    show ?thesis
    proof (cases "?T < Suc (slot_cursor w) * 65536")
      case True
      then show ?thesis using sleep_to_slot_end [OF ok far(2) True] far cmp(2) by (simp add: expire_def Let_def)
    next
      case False
      let ?w = "w\<lparr>nearly_array := (\<lambda>_. []), nearly_cursor := 0\<rparr>"
      have "nearly_array w = (\<lambda>_. [])" using nearly_empty [OF ok] far(2) by auto
      then have t: "wheel_timers ?w = wheel_timers w" and "wheel_ok ?T ?w"
        using ok far(2) by (simp_all add: wheel_timers_def wheel_ok_def)
      then obtain e w' where "next_slot (slot_cursor w) clock ?w = Some (e, w')" "expiry_ok ?T ?w e w'"
        using next_slot_ok [of clock ?w] assms(3) by auto
      then show ?thesis using far False cmp(2) expiry_ok_cong [OF t] by (simp add: expire_def Let_def)
    qed
  qed
qed

section \<open>Histories\<close>

text \<open>The wheel after a sequence of calls under its lock, the clock never going back and below the
  horizon: the timers added, those handed out and when, and the wheel.\<close>

inductive timer_history ::
    "nat \<Rightarrow> nat \<Rightarrow> 'p HDS_Timer_Node multiset \<Rightarrow> ('p HDS_Timer_Node \<times> u32) list \<Rightarrow> 'p HDS_timer_wheel \<Rightarrow> bool"
  for threads :: nat where
  new: "timer_history threads 0 {#} [] (wheel_new threads)"
| add: "timer_history threads (unat clock) (add_mset \<lparr>expers_time = int (unat clock) + due, node_parm = parm\<rparr> added) fired w'"
    if "timer_history threads now added fired w" "now \<le> unat clock" "unat clock < 2 ^ 30" "1 \<le> due"
      "add_timer True clock due parm w = Some (0, w')"
| expired: "timer_history threads (unat clock) added (fired @ [(node, clock)]) w'"
    if "timer_history threads now added fired w" "now \<le> unat clock" "unat clock < 2 ^ 30"
      "expire clock w = Some (Expired node, w')"
| asleep: "timer_history threads (unat clock) added fired w'"
    if "timer_history threads now added fired w" "now \<le> unat clock" "unat clock < 2 ^ 30"
      "expire clock w = Some (e, w')" "\<forall>n. e \<noteq> Expired n"

lemma wheel_new_ok: "wheel_ok 0 (wheel_new threads) \<and> wheel_timers (wheel_new threads) = {#}"
  by (simp add: wheel_ok_def wheel_new_def wheel_timers_def)

lemma wheel_new_running: "\<not> timer_hexit (wheel_new threads)"
  by (simp add: wheel_new_def)

lemma add_timer_added:
  "add_timer True clock due parm w = Some (0, w') \<Longrightarrow> \<not> timer_hexit w \<and> due \<le> 0x0fffffff"
  by (auto simp: add_timer_def split: if_splits)

lemma history_invariant:
  "timer_history threads now added fired w \<Longrightarrow>
   wheel_ok now w \<and> added = mset (map fst fired) + wheel_timers w \<and> (\<forall>(n, c) \<in> set fired. expers_time n \<le> int (unat c))"
proof (induction rule: timer_history.induct)
  case new
  show ?case using wheel_new_ok by simp
next
  case (add now added fired w clock due parm w')
  then show ?case using add_timer_ok [of now w clock due parm] add_timer_added [OF add.hyps(5)] by auto
next
  case (expired now added fired w clock node w')
  then have "expiry_ok (unat clock) w (Expired node) w'" using expire_ok [of now w clock] by auto
  with expired.IH show ?case by (auto simp: expiry_ok_def)
next
  case (asleep now added fired w clock e w')
  then have "expiry_ok (unat clock) w e w'" using expire_ok [of now w clock] by auto
  with asleep.IH asleep.hyps(5) show ?case by (auto simp: expiry_ok_def split: expiry.splits)
qed

text \<open>C23. The timer wheel neither loses nor invents a timer, and none fires early: in every history of
  \<open>add_timer\<close> and \<open>expire\<close> in which the clock does not run backwards and stays below \<open>2\<^sup>30\<close> milliseconds (twelve days) and
  timers are added at least a millisecond ahead, the timers added are those handed out together with those still in the wheel,
  and each was handed out at a clock at or after its expiry time.\<close>

theorem timer_wheel_conserves:
  assumes "timer_history threads now added fired w"
  shows "added = mset (map fst fired) + wheel_timers w \<and> (\<forall>(n, c) \<in> set fired. expers_time n \<le> int (unat c))"
  using history_invariant [OF assms] by blast

abbreviation demo_timer :: "nat HDS_Timer_Node" where
  "demo_timer \<equiv> \<lparr>expers_time = 8, node_parm = 1\<rparr>"

lemma demo_history:
  "\<exists>w w'. timer_history 1 5 {#demo_timer#} [] w \<and> timer_history 1 9 {#demo_timer#} [(demo_timer, 9)] w'"
proof -
  obtain w where w: "add_timer True 5 3 (1 :: nat) (wheel_new 1) = Some (0, w)"
    and t: "wheel_timers w = {#demo_timer#}" "wheel_ok 5 w"
    using add_timer_ok [of 0 "wheel_new 1" 5 3 "1 :: nat"] wheel_new_ok [of 1, where ?'a = nat]
      wheel_new_running [of 1, where ?'a = nat] by auto
  have h: "timer_history 1 5 {#demo_timer#} [] w"
    using timer_history.add [OF timer_history.new, where clock = 5 and due = 3 and parm = 1 and w' = w] w by simp
  obtain e w' where e: "expire 9 w = Some (e, w')" "expiry_ok 9 w e w'" using expire_ok [of 5 w 9] t by auto
  then have "e = Expired demo_timer" using t by (cases e) (auto simp: expiry_ok_def)
  then show ?thesis using h timer_history.expired [OF h, where clock = 9 and node = demo_timer and w' = w'] e by auto
qed

theorem timer_wheel_conserves_witness:
  "\<exists>w. timer_history 1 9 {#demo_timer#} [(demo_timer, 9)] w \<and> wheel_timers w = {#}"
  using demo_history timer_wheel_conserves [of 1 9 "{#demo_timer#}" "[(demo_timer, 9)]"] by auto

text \<open>C24. Timers do fire: after any such history, at a clock that has not run back and is below \<open>2\<^sup>30\<close> milliseconds, whenever
  the wheel holds a timer whose time has come, \<open>expire\<close> hands out a due
  timer; otherwise the sleep it asks for ends at the latest when the first pending timer is due, and it
  asks for an endless sleep only when no timer is pending.  It never leaves the arrays.\<close>

theorem timer_wheel_fires:
  assumes "timer_history threads now added fired w" "now \<le> unat clock" "unat clock < 2 ^ 30"
  shows "\<exists>e w'. expire clock w = Some (e, w') \<and>
    (if \<exists>n \<in># wheel_timers w. expers_time n \<le> int (unat clock)
     then \<exists>n. e = Expired n \<and> n \<in># wheel_timers w \<and> expers_time n \<le> int (unat clock)
     else (case e of Expired n \<Rightarrow> False
             | Sleep t \<Rightarrow> 0 < t \<and> (\<forall>n \<in># wheel_timers w. int (unat clock) + t \<le> expers_time n)
             | Sleep_Forever \<Rightarrow> wheel_timers w = {#}))"
proof -
  obtain e w' where e: "expire clock w = Some (e, w')" "expiry_ok (unat clock) w e w'"
    using expire_ok [of now w clock] history_invariant [OF assms(1)] assms(2,3) by blast
  show ?thesis
  proof (intro exI conjI)
    show "expire clock w = Some (e, w')" by (fact e(1))
    show "if \<exists>n \<in># wheel_timers w. expers_time n \<le> int (unat clock)
     then \<exists>n. e = Expired n \<and> n \<in># wheel_timers w \<and> expers_time n \<le> int (unat clock)
     else (case e of Expired n \<Rightarrow> False
             | Sleep t \<Rightarrow> 0 < t \<and> (\<forall>n \<in># wheel_timers w. int (unat clock) + t \<le> expers_time n)
             | Sleep_Forever \<Rightarrow> wheel_timers w = {#})"
      using e(2) unfolding expiry_ok_def by (cases e) fastforce+
  qed
qed

theorem timer_wheel_fires_witness:
  "\<exists>w w'. timer_history 1 5 {#demo_timer#} [] w \<and> expire 9 w = Some (Expired demo_timer, w')"
proof -
  obtain w where w: "timer_history 1 5 {#demo_timer#} [] w" using demo_history by blast
  then have "wheel_timers w = {#demo_timer#}" using history_invariant [OF w] by simp
  then show ?thesis using timer_wheel_fires [OF w, of 9] w by auto
qed

text \<open>The slot number is not bounded: a timer whose expiry time reaches \<open>2\<^sup>3\<^sup>2\<close> ms is put into a slot
  behind the end of the slot array, whatever the wheel holds.\<close>

theorem add_timer_out_of_range:
  assumes "\<not> timer_hexit w" "due \<le> 0x0fffffff" "2 ^ 32 \<le> due + uint clock" "slot_cursor w < 65536"
  shows "add_timer memory clock due parm w = None"
proof -
  have "65536 \<le> (due + uint clock) div 65536" using zdiv_mono1 [OF assms(3), of 65536] by simp
  then show ?thesis using assms(1,2,4) by (simp add: add_timer_def Let_def)
qed

theorem add_timer_out_of_range_witness:
  "add_timer True 0xffffffff 1 (0 :: nat) (wheel_new 1) = None"
  by (rule add_timer_out_of_range) (simp_all add: wheel_new_def)

text \<open>A wake-up can be lost: the timer thread finds the wheel empty, a timer is added and the event set
  before the thread resets it, and the thread then waits without end on an event that is not set while a
  timer is pending.\<close>

theorem timer_lost_wakeup:
  "\<exists>w1 w2. do_expire_check 0 (wheel_new 1 :: nat HDS_timer_wheel) = Some (Before_Wait_Forever, w1) \<and>
     add_timer True 0 1 7 w1 = Some (0, w2) \<and> event_array w2 ! 0 \<and>
     wheel_timers (do_expire_wait 0 w2) = {#\<lparr>expers_time = 1, node_parm = 7\<rparr>#} \<and>
     \<not> event_array (do_expire_wait 0 w2) ! 0"
  using bag_Cons [of 1 "\<lambda>_. []" "\<lparr>expers_time = 1, node_parm = 7 :: nat\<rparr>"]
  by (simp add: do_expire_check_def expire_def wheel_new_def add_timer_def add_to_tail_def do_expire_wait_def
      wake_thread_def wheel_timers_def)

end
