(* ===== verification/Complex_Connection.thy ===== *)
theory Complex_Connection
  imports Simple_Connection
begin

unbundle bit_operations_syntax

text \<open>
  \<open>connection/HDS_UDP_Complex_Connection.cpp\<close>: the sliding-window transfer of large files.  The writer
  sends what its window allows, at most sixteen packets at a time, and adapts the window to
  acknowledgements, repeated acknowledgements and timeouts; the reader notes the arrival of every
  packet in its acknowledgement collector, stores it, and acknowledges from a timer.
\<close>

section \<open>Writer\<close>

definition writer_congestion :: "connection \<Rightarrow> connection" where
  "writer_congestion c =
     (let next_window_ssthresh = drop_bit 1 (window_ssthresh c);
          next_window_ssthresh = (if next_window_ssthresh < HDS_UDP_PACKET_MAX_DATA_LENGTH
            then HDS_UDP_PACKET_MAX_DATA_LENGTH else next_window_ssthresh)
      in c\<lparr>window_ssthresh := next_window_ssthresh, window_site := HDS_UDP_PACKET_MAX_DATA_LENGTH,
           old_current_window_cursor := current_window_cursor c,
           right_window_cursor := ucast (current_window_cursor c),
           ack_seq_window_increase_factor := single_half (ack_seq_window_increase_factor c)\<rparr>)"

definition complex_writer_do_time_out ::
  "nat \<Rightarrow> Connection_Timer_Type \<Rightarrow> u64 \<Rightarrow> nat option \<Rightarrow> world \<Rightarrow> world option" where
  "complex_writer_do_time_out con timer_type run_count extend_data w = (case timer_type of
     Connection_Suspend_Timer \<Rightarrow> do {
       (r, w) \<leftarrow> at con set_connection_trans_succ w;
       if r = 0 then do {
         w \<leftarrow> writer_do_connection_sended_handle_and_clean_data con w;
         c \<leftarrow> heap w con;
         free_connetcion con (release_connection_ID (connection_ID c) w) }
       else Some w }
   | Sender_Keeping_Timer \<Rightarrow> do {
       c \<leftarrow> heap w con;
       if running_count c = run_count then do {
         let w = w\<lparr>complex_time_out_count := snd (post_increment (complex_time_out_count w))\<rparr>;
         (t, w) \<leftarrow> at con (\<lambda>c. let (r, v) = pre_increment (try_time c) in (r, c\<lparr>try_time := v\<rparr>)) w;
         if t = HDS_UDP_CONNECTION_SEND_TRY_TIME then do {
           w \<leftarrow> upd con (\<lambda>c. c\<lparr>trans_result_code := Some TRANS_TIME_OUT\<rparr>) w;
           suspend_once con w }
         else do {
           w \<leftarrow> upd con set_connection_RTO_Double w;
           (r, w) \<leftarrow> at con lock_connection_status_ack_mutex w;
           w \<leftarrow> (if r = 0 then upd con (\<lambda>c. snd (unlock_connection_status_ack_mutex (writer_congestion c))) w
                else Some w);
           (_, w) \<leftarrow> at con set_connection_status_has_time_out w;
           add_to_sender_queue con w } }
       else Some w }
   | _ \<Rightarrow> Some w)"

definition process_sender_msg_bit :: "connection \<Rightarrow> connection" where
  "process_sender_msg_bit c =
     (let (r, c) = reset_connection_status_has_time_out c;
          c = (if r = 1 then c\<lparr>current_window_cursor := ucast (left_window_cursor c)\<rparr> else c);
          (r, c) = reset_connection_status_has_sack c;
          c = (if r = 1 then snd (set_connection_status_in_process_sack
                 (c\<lparr>current_window_cursor := ucast (left_window_cursor c)\<rparr>)) else c);
          (r, c) = reset_sack_has_new_ack c
      in if r = 1 then c\<lparr>current_window_cursor := old_current_window_cursor c\<rparr> else c)"

text \<open>One packet of the loop in \<open>_writer_conneciton_do_send\<close>; the buffer is used again for the next.\<close>

definition complex_send_packet :: "nat \<Rightarrow> u8 list \<Rightarrow> world \<Rightarrow> (u8 list \<times> world) option" where
  "complex_send_packet con sender_buf w = do {
     c \<leftarrow> heap w con;
     let cur = current_window_cursor c;
     (msgtype, w) \<leftarrow> (if cur = 0 then do {
          (r, w) \<leftarrow> at con set_connection_status_has_send_require w;
          Some (if r = 0 then HDS_UDP_TRANS_COMPLEX_FILE_REQUIRE
                else HDS_UDP_TRANS_COMPLEX_FILE_REQUIRE_DUPLICATE, w) }
        else Some (HDS_UDP_TRANS_COMPLEX_FILE_DATA, w));
     let dt_note = (if cur = 0 then transmit_buf_length c else cur);
     cdr \<leftarrow> CONNECTION_FILL_HEADER msgtype (connection_ID c) (connection_clock (now w)) dt_note
       (WriteCDR_new sender_buf);
     cdr \<leftarrow> CONNECTION_FILL_DATA cdr cur c;
     let w = kernel_send (w_data cdr) (WriteCDR_length cdr) (remote_addr c) (remote_addr_length c) w;
     w \<leftarrow> upd con (\<lambda>c. c\<lparr>running_count := snd (post_increment (running_count c)),
       current_window_cursor := current_window_cursor c + HDS_UDP_PACKET_MAX_DATA_LENGTH\<rparr>) w;
     Some (w_data cdr, w) }"

text \<open>The loop, by the number \<open>16 - send_count\<close> of packets that may still be sent.\<close>

primrec complex_send_loop :: "nat \<Rightarrow> nat \<Rightarrow> u8 list \<Rightarrow> world \<Rightarrow> world option" where
  "complex_send_loop 0 con sender_buf w = do {
     c \<leftarrow> heap w con;
     if ucast (current_window_cursor c) < right_window_cursor c \<and> current_window_cursor c < transmit_buf_length c
     then do {
       w \<leftarrow> upd con process_sender_msg_bit w;
       (_, w) \<leftarrow> at con set_connection_reback_sender w;
       c \<leftarrow> heap w con;
       add_to_timer_queue con (RTO c) Sender_Keeping_Timer None w }
     else add_to_timer_queue con (RTO c) Sender_Keeping_Timer None w }"
| "complex_send_loop (Suc n) con sender_buf w = do {
     c \<leftarrow> heap w con;
     if ucast (current_window_cursor c) < right_window_cursor c \<and> current_window_cursor c < transmit_buf_length c
     then do {
       w \<leftarrow> upd con process_sender_msg_bit w;
       (sender_buf, w) \<leftarrow> complex_send_packet con sender_buf w;
       complex_send_loop n con sender_buf w }
     else add_to_timer_queue con (RTO c) Sender_Keeping_Timer None w }"

definition complex_writer_do_send :: "nat \<Rightarrow> u8 list \<Rightarrow> world \<Rightarrow> world option" where
  "complex_writer_do_send con sender_buf w = do {
     c \<leftarrow> heap w con;
     if test_connection_force_stop c = 1 then suspend_once con w
     else do {
       w \<leftarrow> upd con process_sender_msg_bit w;
       complex_send_loop 16 con sender_buf w } }"

text \<open>The window after an acknowledgement: either the branch of the third repetition, or growth,
  doubling below the threshold and by a fraction of the newly acknowledged bytes above it.\<close>

definition next_increase_factor :: "single \<Rightarrow> single" where
  "next_increase_factor factor =
     (let next = single_plus factor single_0_05 in if single_1 \<le> next then single_1 else next)"

definition next_window_size :: "u64 \<Rightarrow> connection \<Rightarrow> u64" where
  "next_window_size d c =
     (let n = window_site c + d;
          n = (if default_window_size c < n then default_window_size c else n)
      in if n < window_site c then window_site c else n)"

definition complex_window_increase :: "u64 \<Rightarrow> u64 \<Rightarrow> connection \<Rightarrow> connection option" where
  "complex_window_increase is_new_sack seq_interval c = do {
     let f = next_increase_factor (ack_seq_window_increase_factor c);
     let c = c\<lparr>ack_seq_window_increase_factor := f\<rparr>;
     c \<leftarrow> (if is_new_sack \<noteq> 0
          then Some (snd (set_sack_has_new_ack (c\<lparr>window_site := window_ssthresh c\<rparr>)))
          else if window_ssthresh c \<le> window_site c then do {
            d \<leftarrow> single_times_ulong f seq_interval;
            let n = next_window_size d c;
            Some (c\<lparr>window_ssthresh := n, window_site := n\<rparr>) }
          else Some (c\<lparr>window_site := push_bit 1 (window_site c)\<rparr>));
     Some (if test_connection_status_in_process_sack c \<noteq> 1
       then c\<lparr>right_window_cursor := left_window_cursor c + window_site c\<rparr> else c) }"

definition complex_count_ack :: "u32 \<Rightarrow> connection \<Rightarrow> u64 \<times> connection" where
  "complex_count_ack seq c =
     (if sack_seq c \<noteq> ucast seq then
        let c = c\<lparr>sack_seq := ucast seq, sack_same_count := 1\<rparr>
        in if current_window_cursor c \<le> seq then reset_connection_status_in_process_sack c else (0, c)
      else (0, c\<lparr>sack_same_count := sack_same_count c + 1\<rparr>))"

definition complex_writer_ack :: "timeval \<Rightarrow> u32 \<Rightarrow> u32 \<Rightarrow> u64 \<Rightarrow> connection \<Rightarrow> connection option" where
  "complex_writer_ack tv seq send_time seq_interval c = do {
     let c = set_connection_RTO tv send_time c;
     let (is_new_sack, c) = complex_count_ack seq c;
     c \<leftarrow> (if 3 \<le> sack_same_count c then Some (snd (set_connection_status_has_sack (writer_congestion c)))
          else complex_window_increase is_new_sack seq_interval c);
     Some (snd (unlock_connection_status_ack_mutex c)) }"

definition complex_writer_do_network_data ::
  "nat \<Rightarrow> MsgType \<Rightarrow> u32 \<Rightarrow> u32 \<Rightarrow> u8 list \<Rightarrow> int \<Rightarrow> Kernel_Recv_Data \<Rightarrow> world \<Rightarrow> world option" where
  "complex_writer_do_network_data con msgtype seq send_time recv_data recv_data_length rdata w = do {
     w \<leftarrow> upd con (\<lambda>c. c\<lparr>try_time := 0\<rparr>) w;
     c \<leftarrow> heap w con;
     let seq_interval = ucast seq - left_window_cursor c;
     (res, w) \<leftarrow> at con (\<lambda>c. set_connection_left_window_cursor c seq) w;
     if res = - 1 then Some w
     else do {
       w \<leftarrow> upd con (\<lambda>c. c\<lparr>running_count := snd (post_increment (running_count c))\<rparr>) w;
       c \<leftarrow> heap w con;
       if transmit_buf_length c - 1 < seq then do {
         w \<leftarrow> upd con (\<lambda>c. c\<lparr>trans_result_code := Some TRANS_SUCCESSFULLY\<rparr>) w;
         suspend_once con w }
       else do {
         (r, w) \<leftarrow> at con lock_connection_status_ack_mutex w;
         if r = 1 then Some w
         else do {
           c \<leftarrow> heap w con;
           c \<leftarrow> complex_writer_ack (now w) seq send_time seq_interval c;
           w \<leftarrow> upd con (\<lambda>_. c) w;
           add_to_sender_queue con w } } } }"

section \<open>Reader\<close>

text \<open>Running the collector of the reader object at an address.\<close>

definition collector_at :: "nat \<Rightarrow> (Ack_Collector \<Rightarrow> ('r \<times> Ack_Collector) option) \<Rightarrow> world \<Rightarrow> ('r \<times> world) option" where
  "collector_at con f w = do {
     c \<leftarrow> heap w con;
     (r, a) \<leftarrow> f (ack_info_collector c);
     w \<leftarrow> upd con (\<lambda>c. c\<lparr>ack_info_collector := a\<rparr>) w;
     Some (r, w) }"

definition next_ack :: "nat \<Rightarrow> world \<Rightarrow> ((Ack_Type \<times> u32 \<times> u32) \<times> world) option" where
  "next_ack con = collector_at con (\<lambda>a. do { (ty, seq, t, a) \<leftarrow> collector_get_next_ack a; Some ((ty, seq, t), a) })"

text \<open>The branch \<open>Recver_ACK_Timer\<close>: acknowledge, and go on doing so until everything has arrived.\<close>

definition complex_reader_ack_timer :: "nat \<Rightarrow> world \<Rightarrow> world option" where
  "complex_reader_ack_timer con w = do {
     c \<leftarrow> heap w con;
     if test_connection_force_stop c = 1 \<or> test_connection_trans_succ c = 1 then Some w
     else do {
       ((type, ack_seq, send_time), w) \<leftarrow> next_ack con w;
       (_, w) \<leftarrow> at con (if type = SACK then set_reader_connection_sack else reset_reader_connection_sack) w;
       cdr \<leftarrow> CONNECTION_FILL_HEADER
         (if type = SACK then HDS_UDP_TRANS_COMPLEX_FILE_SACK else HDS_UDP_TRANS_COMPLEX_FILE_ACK)
         (connection_ID c) send_time ack_seq
         (WriteCDR_new (replicate HDS_UDP_PACKET_MAX_HEADER_LENGTH (garbage w 0)));
       let w = kernel_send (w_data cdr) (WriteCDR_length cdr) (remote_addr c) (remote_addr_length c) w;
       if transmit_buf_length c - 1 < ack_seq then do {
         w \<leftarrow> upd con (\<lambda>c. c\<lparr>trans_result_code := Some TRANS_SUCCESSFULLY\<rparr>) w;
         (r, w) \<leftarrow> at con set_reader_connection_status_recv_succ_timer w;
         if r = 0 then add_to_timer_queue con HDS_UDP_RECVER_SUCC_TIMER Recver_Succ_Timer None w
         else Some w }
       else add_to_timer_queue con HDS_UDP_RECV_ACK_TIMER Recver_ACK_Timer None w } }"

definition complex_reader_do_time_out ::
  "nat \<Rightarrow> Connection_Timer_Type \<Rightarrow> u64 \<Rightarrow> nat option \<Rightarrow> world \<Rightarrow> world option" where
  "complex_reader_do_time_out con timer_type run_count extend_data w = (case timer_type of
     Force_Reset_Timer \<Rightarrow> do {
       (r, w) \<leftarrow> at con set_connection_trans_succ w;
       if r = 0 then reader_do_connection_sended_handle_and_clean_data con w else Some w }
   | Recver_Check_Dead_Timer \<Rightarrow> do {
       c \<leftarrow> heap w con;
       if running_count c = run_count then do {
         w \<leftarrow> upd con (\<lambda>c. c\<lparr>trans_result_code := Some TRANS_TIME_OUT\<rparr>) w;
         suspend_once con w }
       else add_to_timer_queue con HDS_UDP_CONNECTION_RECV_CHECK_DEAD_TIME Recver_Check_Dead_Timer None w }
   | Connection_Suspend_Timer \<Rightarrow> do {
       (r, w) \<leftarrow> at con set_connection_trans_succ w;
       w \<leftarrow> (if r = 0 then reader_do_connection_sended_handle_and_clean_data con w else Some w);
       c \<leftarrow> heap w con;
       free_connetcion con (release_connection_ID (connection_ID c) w) }
   | Recver_Succ_Timer \<Rightarrow> do {
       (r, w) \<leftarrow> at con set_connection_trans_succ w;
       if r = 0 then do {
         c \<leftarrow> heap w con;
         Some (push_msg \<lparr>rp_remote_addr = remote_addr c, rp_remote_addr_length = remote_addr_length c,
           rp_data_length = transmit_buf_length c, rp_buf_type = recv_buf_type c,
           rp_data = (case transmit_buf c of None \<Rightarrow> [] | Some b \<Rightarrow> b)\<rparr> w) }
       else Some w }
   | Recver_ACK_Timer \<Rightarrow> complex_reader_ack_timer con w
   | _ \<Rightarrow> Some w)"

definition complex_store :: "u32 \<Rightarrow> u8 list \<Rightarrow> int \<Rightarrow> connection \<Rightarrow> connection option" where
  "complex_store seq recv_data recv_data_length c = do {
     buf \<leftarrow> transmit_buf c;
     (if recv_data_length < 0 \<or> int (length recv_data) < recv_data_length then None
      else do {
        buf \<leftarrow> overwrite buf (unat seq) (take (nat recv_data_length) recv_data);
        Some (c\<lparr>transmit_buf := Some buf\<rparr>) }) }"

definition complex_reader_do_network_data ::
  "nat \<Rightarrow> MsgType \<Rightarrow> u32 \<Rightarrow> u32 \<Rightarrow> u8 list \<Rightarrow> int \<Rightarrow> Kernel_Recv_Data \<Rightarrow> world \<Rightarrow> world option" where
  "complex_reader_do_network_data con msgtype seq send_time recv_data recv_data_length rdata w = do {
     c \<leftarrow> heap w con;
     if test_connection_force_stop c = 1 \<or> test_connection_trans_succ c = 1 then do {
       ((_, ack_seq, send_time), w) \<leftarrow> next_ack con w;
       reply_header (if ack_seq - transmit_buf_length c \<le> HDS_UDP_PACKET_MAX_DATA_LENGTH
           then HDS_UDP_TRANS_COMPLEX_FILE_ACK else HDS_UDP_TRANS_RESET)
         (connection_ID c) send_time ack_seq rdata (remote_addr c) (remote_addr_length c) w }
     else do {
       w \<leftarrow> upd con (\<lambda>c. c\<lparr>running_count := snd (post_increment (running_count c))\<rparr>) w;
       ((res, bit_value), w) \<leftarrow> collector_at con (\<lambda>a. do {
          (res, oldvalue, a) \<leftarrow> collector_set seq send_time a; Some ((res, oldvalue), a) }) w;
       if res = - 1 then Some w
       else if bit_value = Some 1 then Some w
       else do {
         c \<leftarrow> heap w con;
         c \<leftarrow> complex_store seq recv_data recv_data_length c;
         upd con (\<lambda>_. c) w } } }"

section \<open>The function tables\<close>

definition complex_writer_ops :: conn_ops where
  "complex_writer_ops = \<lparr>do_time_out = complex_writer_do_time_out,
     do_network_data = complex_writer_do_network_data, do_send = complex_writer_do_send\<rparr>"

definition complex_reader_ops :: conn_ops where
  "complex_reader_ops = \<lparr>do_time_out = complex_reader_do_time_out,
     do_network_data = complex_reader_do_network_data, do_send = (\<lambda>_ _ _. None)\<rparr>"

definition complex_ops :: ops_table where
  "complex_ops k = (if k = Complex_Writer then complex_writer_ops else complex_reader_ops)"

definition library_ops :: ops_table where
  "library_ops = ops_with complex_ops"

end
