(* ===== verification/Complex_Reader.thy ===== *)
theory Complex_Reader
  imports Complex_Connection
begin

unbundle bit_operations_syntax

text \<open>
  The receiving side of a complex transfer: whatever packets of a message arrive, in whatever order and
  however often, the buffer holds the message wherever the acknowledgement collector says so, and only a
  complete buffer is handed to the method processor.
\<close>

section \<open>The reader's buffer\<close>

definition complex_size :: "u8 list \<Rightarrow> bool" where
  "complex_size D \<longleftrightarrow> 0 < length D \<and> length D + HDS_UDP_PACKET_MAX_DATA_LENGTH \<le> 2 ^ 32"

definition reader_has :: "u8 list \<Rightarrow> connection \<Rightarrow> bool" where
  "reader_has D c \<longleftrightarrow> transmit_buf_length c = of_nat (length D) \<and> collector_ok (ack_info_collector c) \<and>
     (\<forall>p. received (ack_info_collector c) p \<longrightarrow> 1452 * p < length D) \<and>
     (\<exists>buf. transmit_buf c = Some buf \<and> length buf = length D \<and>
       (\<forall>i < length D. received (ack_info_collector c) (i div 1452) \<longrightarrow> buf ! i = D ! i))"

definition complete :: "u8 list \<Rightarrow> connection \<Rightarrow> bool" where
  "complete D c \<longleftrightarrow> (\<forall>p. 1452 * p < length D \<longrightarrow> received (ack_info_collector c) p)"

lemma unat_of_nat32: "n < 2 ^ 32 \<Longrightarrow> unat (of_nat n :: u32) = n"
  by (simp add: unat_of_nat)

lemma complete_buffer:
  assumes "reader_has D c" "complete D c"
  shows "transmit_buf c = Some D"
proof -
  from assms(1) obtain buf where b: "transmit_buf c = Some buf" "length buf = length D"
    "\<forall>i < length D. received (ack_info_collector c) (i div 1452) \<longrightarrow> buf ! i = D ! i"
    by (auto simp: reader_has_def)
  have "received (ack_info_collector c) (i div 1452)" if "i < length D" for i
  proof -
    have "1452 * (i div 1452) \<le> i" by simp
    then show ?thesis using assms(2) that by (auto simp: complete_def)
  qed
  then have "buf = D" using b(2,3) by (intro nth_equalityI) auto
  with b show ?thesis by simp
qed

text \<open>The next acknowledgement passes the end of the message exactly when everything has arrived.\<close>

lemma ack_beyond_end:
  assumes "reader_has D c" "complex_size D"
  shows "transmit_buf_length c - 1 < (of_nat (1452 * (LEAST p. \<not> received (ack_info_collector c) p)) :: u32) \<longleftrightarrow> complete D c"
proof -
  let ?r = "received (ack_info_collector c)" and ?n = "length D"
  let ?l = "LEAST p. \<not> ?r p"
  have len: "transmit_buf_length c = of_nat ?n" and in_message: "\<forall>p. ?r p \<longrightarrow> 1452 * p < ?n"
    using assms(1) by (auto simp: reader_has_def)
  have D: "0 < ?n" "?n + 1452 \<le> 2 ^ 32" using assms(2) by (auto simp: complex_size_def)
  have ex: "\<not> ?r ?n" using in_message D(1) by auto
  then have l: "\<not> ?r ?l" by (rule LeastI)
  have below: "p < ?l \<Longrightarrow> ?r p" for p using not_less_Least by blast
  have "1452 * ?l < 2 ^ 32"
  proof (cases ?l)
    case (Suc m)
    then have "1452 * m < ?n" using below [of m] in_message by simp
    then show ?thesis using Suc D(2) by simp
  qed simp
  then have u: "unat (of_nat (1452 * ?l) :: u32) = 1452 * ?l" by (rule unat_of_nat32)
  have "?n < 2 ^ 32" using D by simp
  then have "unat (of_nat ?n :: u32) = ?n" by (simp add: unat_of_nat)
  then have n: "unat (transmit_buf_length c - 1) = ?n - 1"
    using D(1) unat_diff_of_nat [of 1 "transmit_buf_length c"] len by (simp add: Suc_le_eq)
  have "complete D c \<longleftrightarrow> ?n \<le> 1452 * ?l"
  proof
    assume "complete D c"
    then show "?n \<le> 1452 * ?l" using l by (meson complete_def not_le)
  next
    assume "?n \<le> 1452 * ?l"
    then have "p < ?l" if "1452 * p < ?n" for p using that by linarith
    then show "complete D c" unfolding complete_def using below by blast
  qed
  moreover have "transmit_buf_length c - 1 < (of_nat (1452 * ?l) :: u32) \<longleftrightarrow> ?n - 1 < 1452 * ?l"
    unfolding word_less_nat_alt u n ..
  moreover have "?n - 1 < 1452 * ?l \<longleftrightarrow> ?n \<le> 1452 * ?l" using D(1) by linarith
  ultimately show ?thesis by blast
qed

section \<open>What the operations leave alone\<close>

definition succ_timer :: "world \<Rightarrow> bool" where
  "succ_timer w \<longleftrightarrow> Recver_Succ_Timer \<in> (\<lambda>(due, parm). tp_timeout_type parm) ` set (timers w)"

lemma succ_timer_frame [simp]:
  "succ_timer (w\<lparr>heap := h\<rparr>) = succ_timer w" "succ_timer (w\<lparr>cid_array := x\<rparr>) = succ_timer w"
  "succ_timer (w\<lparr>sent := p\<rparr>) = succ_timer w" "succ_timer (w\<lparr>events := e\<rparr>) = succ_timer w"
  "succ_timer (w\<lparr>processed := m\<rparr>) = succ_timer w" "succ_timer (w\<lparr>type_count := k\<rparr>) = succ_timer w"
  "succ_timer (w\<lparr>wait_ack := q\<rparr>) = succ_timer w"
  "succ_timer (w\<lparr>now := tv, oom := b, map_oom := mo, garbage := g\<rparr>) = succ_timer w"
  "succ_timer (w\<lparr>timers := timers w @ [(due, parm)]\<rparr>) \<longleftrightarrow> succ_timer w \<or> tp_timeout_type parm = Recver_Succ_Timer"
  by (auto simp: succ_timer_def)

definition same_buffer :: "connection \<Rightarrow> connection \<Rightarrow> bool" where
  "same_buffer c c' \<longleftrightarrow> transmit_buf c' = transmit_buf c \<and> transmit_buf_length c' = transmit_buf_length c \<and>
     ack_info_collector c' = ack_info_collector c"

definition buffer_frame :: "nat \<Rightarrow> world \<Rightarrow> world \<Rightarrow> bool" where
  "buffer_frame con w w' \<longleftrightarrow> (\<forall>c'. heap w' con = Some c' \<longrightarrow> (\<exists>c. heap w con = Some c \<and> same_buffer c c')) \<and>
     processed w' = processed w \<and> (succ_timer w' \<longrightarrow> succ_timer w)"

lemma buffer_frame_refl: "buffer_frame con w w"
  by (auto simp: buffer_frame_def same_buffer_def)

lemma buffer_frame_trans: "buffer_frame con w1 w2 \<Longrightarrow> buffer_frame con w2 w3 \<Longrightarrow> buffer_frame con w1 w3"
  unfolding buffer_frame_def same_buffer_def by metis

lemma frame_at:
  "at a f w = Some (r, w') \<Longrightarrow> (\<And>c. same_buffer c (snd (f c))) \<Longrightarrow> buffer_frame con w w'"
  by (auto simp: at_def buffer_frame_def same_buffer_def Let_def case_prod_beta
      split: option.splits if_splits)

lemma frame_upd: "upd a f w = Some w' \<Longrightarrow> (\<And>c. same_buffer c (f c)) \<Longrightarrow> buffer_frame con w w'"
  by (auto simp: upd_def buffer_frame_def same_buffer_def split: option.splits if_splits)

lemma same_buffer_status [simp]: "same_buffer c (snd (status_set n c))" "same_buffer c (snd (status_reset n c))"
  by (simp_all add: same_buffer_def status_set_def status_reset_def case_prod_beta)

lemma frame_timer:
  "add_to_timer_queue a t ty x w = Some w' \<Longrightarrow> ty \<noteq> Recver_Succ_Timer \<Longrightarrow> buffer_frame con w w'"
  by (auto simp: add_to_timer_queue_def bind_eq_Some_conv buffer_frame_def same_buffer_def split: if_splits)

lemma frame_simple:
  "buffer_frame con w (suspend_connection_ID i w)" "buffer_frame con w (release_connection_ID i w)"
  "buffer_frame con w (kernel_send buf n to l w)" "buffer_frame con w (log_event e w)"
  "buffer_frame con w (connection_free_memory a w)" "buffer_frame con w (decrease_connection_type_count k w)"
  "buffer_frame con w (wait_ack_erase i w)" "buffer_frame con w (w\<lparr>now := tv, oom := b', map_oom := mo, garbage := g\<rparr>)"
  by (auto simp: suspend_connection_ID_def release_connection_ID_def kernel_send_def log_event_def
      connection_free_memory_def decrease_connection_type_count_def wait_ack_erase_def buffer_frame_def
      same_buffer_def split: if_splits)

lemma frame_suspend:
  assumes "suspend_once a w = Some w'"
  shows "buffer_frame con w w'"
proof -
  from assms obtain r w1 where a: "at a set_connection_trans_suspend w = Some (r, w1)"
    by (auto simp: suspend_once_def bind_eq_Some_conv)
  have f1: "buffer_frame con w w1" by (rule frame_at [OF a]) (simp add: set_connection_trans_suspend_def)
  show ?thesis
  proof (cases "r = 0")
    case True
    with assms a obtain c :: connection where
      "add_to_timer_queue a HDS_UDP_CONNECTION_MAX_SUSPEND_TIME Connection_Suspend_Timer (Some a)
        (suspend_connection_ID (connection_ID c) w1) = Some w'"
      by (auto simp: suspend_once_def bind_eq_Some_conv)
    from frame_timer [OF this] have "buffer_frame con (suspend_connection_ID (connection_ID c) w1) w'" by simp
    then show ?thesis using f1 frame_simple(1) by (blast intro: buffer_frame_trans)
  next
    case False
    with assms a have "w' = w1" by (simp add: suspend_once_def)
    with f1 show ?thesis by simp
  qed
qed

lemma frame_log: "buffer_frame con w v \<Longrightarrow> buffer_frame con w (log_event e v)"
  using buffer_frame_trans frame_simple(4) by blast

lemma frame_clean:
  assumes "reader_do_connection_sended_handle_and_clean_data a w = Some w'"
  shows "buffer_frame con w w'"
proof -
  from assms obtain c where "heap w a = Some c"
    by (auto simp: reader_do_connection_sended_handle_and_clean_data_def bind_eq_Some_conv)
  with assms show ?thesis
    by (cases "recv_failed_handle c"; cases "recv_buf_type c" rule: option.exhaust)
      (auto simp: reader_do_connection_sended_handle_and_clean_data_def Let_def
        intro!: frame_log buffer_frame_refl split: if_splits Recv_Buf_Type.splits)
qed

lemma frame_free:
  assumes "free_connetcion a w = Some w'"
  shows "buffer_frame con w w'"
proof -
  from assms obtain c where c: "heap w a = Some c" by (auto simp: free_connetcion_def bind_eq_Some_conv)
  obtain w1 where w': "w' = decrease_connection_type_count (kind c) (connection_free_memory a w1)"
    and w1: "w1 = w \<or> (\<exists>i j w2. set_connection_out_recv_wait_ack_queue a i w = Some (j, w2) \<and>
      upd a (\<lambda>c. c\<lparr>connection_ID := j\<rparr>) w2 = Some w1)"
  proof (cases "test_connection_type_reader c")
    case True
    with assms c obtain j w2 w1 where "set_connection_out_recv_wait_ack_queue a (connection_ID c) w = Some (j, w2)"
      "upd a (\<lambda>c. c\<lparr>connection_ID := j\<rparr>) w2 = Some w1"
      "w' = decrease_connection_type_count (kind c) (connection_free_memory a w1)"
      by (auto simp: free_connetcion_def bind_eq_Some_conv)
    then show ?thesis by (intro that [of w1]) blast+
  next
    case False
    with assms c show ?thesis by (intro that [of w]) (simp_all add: free_connetcion_def)
  qed
  have "buffer_frame con w w1" using w1
  proof (elim disjE exE conjE)
    fix i j w2
    assume q: "set_connection_out_recv_wait_ack_queue a i w = Some (j, w2)" and u: "upd a (\<lambda>c. c\<lparr>connection_ID := j\<rparr>) w2 = Some w1"
    from q obtain r w3 where a: "at a reset_reader_connection_status_recv_wait_ack_queue w = Some (r, w3)"
      and w2: "w2 = w3 \<or> (\<exists>i. w2 = wait_ack_erase i w3)"
      by (auto simp: set_connection_out_recv_wait_ack_queue_def bind_eq_Some_conv Let_def split: if_splits)
    have "buffer_frame con w w3" by (rule frame_at [OF a]) (simp add: reset_reader_connection_status_recv_wait_ack_queue_def)
    moreover have "buffer_frame con w3 w2" using w2 frame_simple(7) buffer_frame_refl by auto
    moreover have "buffer_frame con w2 w1" by (rule frame_upd [OF u]) (simp add: same_buffer_def)
    ultimately show ?thesis by (blast intro: buffer_frame_trans)
  qed (simp add: buffer_frame_refl)
  then show ?thesis unfolding w' by (blast intro: buffer_frame_trans frame_simple)
qed

section \<open>Runs of a reader\<close>

text \<open>The reader object at address \<open>con\<close> gets packets of the message \<open>D\<close>, in any order and any number of
  times, and the timers that were set for it; the application may stop it.\<close>

inductive complex_reader_step :: "u8 list \<Rightarrow> nat \<Rightarrow> world \<Rightarrow> world \<Rightarrow> bool" for D :: "u8 list" and con :: nat where
  packet: "complex_reader_step D con w w'"
    if "1452 * k < length D" "complex_reader_do_network_data con t (of_nat (1452 * k)) st
      (chunk D (1452 * k) @ junk) (int (length (chunk D (1452 * k)))) rdata w = Some w'"
| timer: "complex_reader_step D con w w'"
    if "(due, parm) \<in> set (timers w)" "complex_reader_do_time_out con (tp_timeout_type parm) (tp_running_count parm)
      (tp_extend_data parm) w = Some w'"
| stop: "complex_reader_step D con w w'" if "connection_do_connection_stop i w = Some (res, w')"
| env: "complex_reader_step D con w (w\<lparr>now := tv, oom := b, map_oom := mo, garbage := g\<rparr>)"

definition reader_world :: "u8 list \<Rightarrow> nat \<Rightarrow> world \<Rightarrow> bool" where
  "reader_world D con w \<longleftrightarrow> (\<forall>c. heap w con = Some c \<longrightarrow> reader_has D c \<and> (succ_timer w \<longrightarrow> complete D c)) \<and>
     (\<forall>m \<in> set (processed w). rp_data m = D \<and> rp_data_length m = of_nat (length D))"

lemma same_buffer_facts:
  "same_buffer c c' \<Longrightarrow> reader_has D c' = reader_has D c" "same_buffer c c' \<Longrightarrow> complete D c' = complete D c"
  by (simp_all add: same_buffer_def reader_has_def complete_def)

lemma reader_world_frame:
  assumes "buffer_frame con w w'" "reader_world D con w"
  shows "reader_world D con w'"
  unfolding reader_world_def
proof (intro conjI allI impI)
  fix c' assume "heap w' con = Some c'"
  then obtain c where c: "heap w con = Some c" "same_buffer c c'" using assms(1) by (auto simp: buffer_frame_def)
  then show "reader_has D c'" using assms(2) same_buffer_facts [OF c(2)] by (auto simp: reader_world_def)
  assume "succ_timer w'"
  then show "complete D c'" using assms c same_buffer_facts [OF c(2)] by (auto simp: reader_world_def buffer_frame_def)
next
  show "\<forall>m \<in> set (processed w'). rp_data m = D \<and> rp_data_length m = of_nat (length D)"
    using assms by (auto simp: reader_world_def buffer_frame_def)
qed

text \<open>Replacing the object by one that holds at least as much.\<close>

lemma reader_world_put:
  assumes "reader_world D con w" "reader_has D c'" "succ_timer w \<Longrightarrow> complete D c'"
  shows "reader_world D con (w\<lparr>heap := (heap w)(con := Some c')\<rparr>)"
  using assms by (auto simp: reader_world_def)

lemma overwrite_chunk:
  assumes "1452 * k < length D" "length buf = length D"
    and o: "overwrite buf (1452 * k) (chunk D (1452 * k)) = Some buf'" and i: "i < length D"
  shows "buf' ! i = (if i div 1452 = k then D ! i else buf ! i)"
proof -
  have len: "length (chunk D (1452 * k)) = min 1452 (length D - 1452 * k)" by (simp add: chunk_def)
  have m: "i div 1452 = k \<longleftrightarrow> 1452 * k \<le> i \<and> i < 1452 * k + 1452" by (auto simp: div_nat_eqI)
  have "chunk D (1452 * k) ! (i - 1452 * k) = D ! i" if "1452 * k \<le> i" "i < 1452 * k + 1452"
    using that i by (simp add: chunk_def)
  with overwrite_nth [OF o] i assms(2) len m show ?thesis by auto
qed

lemma store_in_buffer:
  assumes r: "reader_has D c" and "complex_size D" and k: "1452 * k < length D"
    and a: "collector_ok a" "received a = (\<lambda>p. received (ack_info_collector c) p \<or> p = k)"
  shows "\<exists>c'. complex_store (of_nat (1452 * k)) (chunk D (1452 * k) @ junk) (int (length (chunk D (1452 * k))))
      (c\<lparr>ack_info_collector := a\<rparr>) = Some c' \<and> reader_has D c' \<and> (complete D c \<longrightarrow> complete D c')"
proof -
  from r obtain buf where b: "transmit_buf c = Some buf" "length buf = length D"
    "\<forall>i < length D. received (ack_info_collector c) (i div 1452) \<longrightarrow> buf ! i = D ! i" by (auto simp: reader_has_def)
  have u: "unat (of_nat (1452 * k) :: u32) = 1452 * k"
    using k assms(2) by (intro unat_of_nat32) (simp add: complex_size_def)
  have "1452 * k + length (chunk D (1452 * k)) \<le> length buf" using k b(2) by (auto simp: chunk_def)
  then obtain buf' where o: "overwrite buf (1452 * k) (chunk D (1452 * k)) = Some buf'" using overwrite_fits by blast
  have "\<forall>i < length D. received a (i div 1452) \<longrightarrow> buf' ! i = D ! i"
    using overwrite_chunk [OF k b(2) o] b(3) by (simp add: a(2))
  moreover have "length buf' = length D" using overwrite_length [OF o] b(2) by simp
  moreover have "complex_store (of_nat (1452 * k)) (chunk D (1452 * k) @ junk) (int (length (chunk D (1452 * k))))
      (c\<lparr>ack_info_collector := a\<rparr>) = Some (c\<lparr>ack_info_collector := a, transmit_buf := Some buf'\<rparr>)"
    unfolding complex_store_def u using b(1) o by simp
  ultimately show ?thesis using r a k by (auto simp: reader_has_def complete_def)
qed

lemma reader_packet:
  assumes "complex_reader_do_network_data con t (of_nat (1452 * k)) st
      (chunk D (1452 * k) @ junk) (int (length (chunk D (1452 * k)))) rdata w = Some w'"
    and w: "reader_world D con w" and D: "complex_size D" and k: "1452 * k < length D"
  shows "reader_world D con w'"
proof -
  let ?seq = "of_nat (1452 * k) :: u32"
  from assms(1) obtain c where c: "heap w con = Some c"
    by (auto simp: complex_reader_do_network_data_def bind_eq_Some_conv)
  then have r: "reader_has D c" "succ_timer w \<Longrightarrow> complete D c" using w by (auto simp: reader_world_def)
  then have ok: "collector_ok (ack_info_collector c)" by (simp add: reader_has_def)
  show ?thesis
  proof (cases "test_connection_force_stop c = 1 \<or> test_connection_trans_succ c = 1")
    case True
    obtain ty s t' a where g: "collector_get_next_ack (ack_info_collector c) = Some (ty, s, t', a)"
      "collector_ok a" "received a = received (ack_info_collector c)"
      using get_next_ack_pos_ok [of "(ack_info_collector c)\<lparr>ack_time := 0\<rparr>"] ok
      by (auto simp: collector_get_next_ack_def Let_def)
    let ?w = "w\<lparr>heap := (heap w)(con := Some (c\<lparr>ack_info_collector := a\<rparr>))\<rparr>"
    from assms(1) True c g obtain buf n to l where "w' = kernel_send buf n to l ?w"
      by (auto simp: complex_reader_do_network_data_def next_ack_def collector_at_def upd_def reply_header_def
          bind_eq_Some_conv)
    moreover have "reader_world D con ?w"
      using r g(2,3) by (intro reader_world_put [OF w]) (auto simp: reader_has_def complete_def)
    ultimately show ?thesis using reader_world_frame [OF frame_simple(3)] by blast
  next
    case False
    have "unat ?seq = 1452 * k" using k D by (intro unat_of_nat32) (simp add: complex_size_def)
    then have q: "unat ?seq div 1452 = k" by simp
    obtain res old a where s: "collector_set ?seq st (ack_info_collector c) = Some (res, old, a)" "collector_ok a"
      and cs: "res = 0 \<and> received a = (\<lambda>p. received (ack_info_collector c) p \<or> p = k) \<and>
          (\<exists>v. old = Some v \<and> (v = 0 \<longleftrightarrow> \<not> received (ack_info_collector c) k)) \<or>
        res = - 1 \<and> received a = received (ack_info_collector c)"
      using collector_set_cases [OF ok q [symmetric], of st] by blast
    let ?c = "c\<lparr>running_count := snd (post_increment (running_count c))\<rparr>"
    have rc: "reader_has D ?c" "complete D ?c = complete D c" using r(1) by (simp_all add: reader_has_def complete_def)
    from cs consider (old) "received a = received (ack_info_collector c)"
        "w' = w\<lparr>heap := (heap w)(con := Some (?c\<lparr>ack_info_collector := a\<rparr>))\<rparr>"
      | (new) c' where "received a = (\<lambda>p. received (ack_info_collector c) p \<or> p = k)"
        "complex_store ?seq (chunk D (1452 * k) @ junk) (int (length (chunk D (1452 * k))))
          (?c\<lparr>ack_info_collector := a\<rparr>) = Some c'" "w' = w\<lparr>heap := (heap w)(con := Some c')\<rparr>"
      using assms(1) False c s(1)
      by (auto simp: complex_reader_do_network_data_def collector_at_def upd_def bind_eq_Some_conv fun_eq_iff
          split: if_splits)
    then show ?thesis
    proof cases
      case old
      show ?thesis unfolding old(2)
        using r old(1) s(2) by (intro reader_world_put [OF w]) (auto simp: reader_has_def complete_def)
    next
      case new
      from store_in_buffer [OF rc(1) D k s(2), of junk] new(1,2) have "reader_has D c'" "complete D c \<longrightarrow> complete D c'"
        using rc(2) by auto
      then show ?thesis unfolding new(3) using r(2) by (intro reader_world_put [OF w]) auto
    qed
  qed
qed

text \<open>The acknowledgement timer: what it sends, and when it starts the timer of success.\<close>

lemma reader_ack_timer:
  assumes "complex_reader_ack_timer con w = Some w'" and w: "reader_world D con w" and D: "complex_size D"
  shows "reader_world D con w'"
proof -
  from assms(1) obtain c where c: "heap w con = Some c"
    by (auto simp: complex_reader_ack_timer_def bind_eq_Some_conv)
  then have r: "reader_has D c" "succ_timer w \<Longrightarrow> complete D c" using w by (auto simp: reader_world_def)
  show ?thesis
  proof (cases "test_connection_force_stop c = 1 \<or> test_connection_trans_succ c = 1")
    case True
    with assms(1) c w show ?thesis by (simp add: complex_reader_ack_timer_def)
  next
    case False
    let ?seq = "of_nat (1452 * (LEAST p. \<not> received (ack_info_collector c) p)) :: u32"
    obtain ty t a where g: "collector_get_next_ack (ack_info_collector c) = Some (ty, ?seq, t, a)"
      "collector_ok a" "received a = received (ack_info_collector c)"
      using get_next_ack_pos_ok [of "(ack_info_collector c)\<lparr>ack_time := 0\<rparr>"] r(1)
      by (auto simp: reader_has_def collector_get_next_ack_def Let_def)
    let ?w = "w\<lparr>heap := (heap w)(con := Some (c\<lparr>ack_info_collector := a\<rparr>))\<rparr>"
    have wa: "reader_world D con ?w"
      using r g(2,3) by (intro reader_world_put [OF w]) (auto simp: reader_has_def complete_def)
    from assms(1) False c g(1) obtain x w1 buf n to l where
      w1: "at con (if ty = SACK then set_reader_connection_sack else reset_reader_connection_sack) ?w = Some (x, w1)"
      and rest: "(if transmit_buf_length c - 1 < ?seq then do {
         w \<leftarrow> upd con (\<lambda>c. c\<lparr>trans_result_code := Some TRANS_SUCCESSFULLY\<rparr>) (kernel_send buf n to l w1);
         (r, w) \<leftarrow> at con set_reader_connection_status_recv_succ_timer w;
         if r = 0 then add_to_timer_queue con HDS_UDP_RECVER_SUCC_TIMER Recver_Succ_Timer None w
         else Some w }
       else add_to_timer_queue con HDS_UDP_RECV_ACK_TIMER Recver_ACK_Timer None (kernel_send buf n to l w1)) = Some w'"
      by (auto simp: complex_reader_ack_timer_def next_ack_def collector_at_def upd_def bind_eq_Some_conv Let_def)
    have "buffer_frame con ?w w1"
      by (rule frame_at [OF w1]) (simp add: set_reader_connection_sack_def reset_reader_connection_sack_def)
    from reader_world_frame [OF this wa] reader_world_frame [OF frame_simple(3)]
    have w2: "reader_world D con (kernel_send buf n to l w1)" by blast
    show ?thesis
    proof (cases "transmit_buf_length c - 1 < ?seq")
      case False
      with rest have "buffer_frame con (kernel_send buf n to l w1) w'" by (auto dest: frame_timer)
      then show ?thesis by (rule reader_world_frame [OF _ w2])
    next
      case True
      then have "complete D c" using ack_beyond_end [OF r(1) D] by blast
      then have cp: "complete D c'" if "heap w1 con = Some c'" for c'
        using that w1 g(3) by (auto simp: at_def complete_def Let_def case_prod_beta status_macro_defs status_set_def
            status_reset_def split: if_splits)
      from True rest obtain w3 y w4 where
        w3: "upd con (\<lambda>c. c\<lparr>trans_result_code := Some TRANS_SUCCESSFULLY\<rparr>) (kernel_send buf n to l w1) = Some w3"
        and w4: "at con set_reader_connection_status_recv_succ_timer w3 = Some (y, w4)"
        and w': "(if y = 0 then add_to_timer_queue con HDS_UDP_RECVER_SUCC_TIMER Recver_Succ_Timer None w4
         else Some w4) = Some w'" by (auto simp: bind_eq_Some_conv)
      have f3: "buffer_frame con (kernel_send buf n to l w1) w3" by (rule frame_upd [OF w3]) (simp add: same_buffer_def)
      have f4: "buffer_frame con w3 w4"
        by (rule frame_at [OF w4]) (simp add: set_reader_connection_status_recv_succ_timer_def)
      note f = buffer_frame_trans [OF f3 f4]
      have i4: "reader_world D con w4" using reader_world_frame [OF f w2] .
      have c4: "complete D c'" if h: "heap w4 con = Some c'" for c'
      proof -
        from f h obtain c0 where "heap w1 con = Some c0" "same_buffer c0 c'" by (auto simp: buffer_frame_def kernel_send_def)
        then show ?thesis using cp same_buffer_facts(2) by blast
      qed
      from w' have "heap w' = heap w4 \<and> processed w' = processed w4"
        by (auto simp: add_to_timer_queue_def bind_eq_Some_conv split: if_splits)
      then show ?thesis using i4 c4 by (auto simp: reader_world_def)
    qed
  qed
qed

lemma reader_timer:
  assumes "complex_reader_do_time_out con ty rc x w = Some w'" and w: "reader_world D con w" and D: "complex_size D"
    and s: "ty = Recver_Succ_Timer \<Longrightarrow> succ_timer w"
  shows "reader_world D con w'"
proof (cases ty)
  case Sender_Keeping_Timer
  with assms(1) w show ?thesis by (simp add: complex_reader_do_time_out_def)
next
  case Recver_Check_Dead_Timer
  from assms(1) obtain c where c: "heap w con = Some c"
    unfolding Recver_Check_Dead_Timer by (auto simp: complex_reader_do_time_out_def bind_eq_Some_conv)
  show ?thesis
  proof (cases "running_count c = rc")
    case True
    with assms(1) c obtain w1 where u: "upd con (\<lambda>c. c\<lparr>trans_result_code := Some TRANS_TIME_OUT\<rparr>) w = Some w1"
      and "suspend_once con w1 = Some w'"
      unfolding Recver_Check_Dead_Timer by (auto simp: complex_reader_do_time_out_def bind_eq_Some_conv)
    moreover have "buffer_frame con w w1" by (rule frame_upd [OF u]) (simp add: same_buffer_def)
    ultimately show ?thesis using frame_suspend buffer_frame_trans reader_world_frame w by blast
  next
    case False
    with assms(1) c have "add_to_timer_queue con HDS_UDP_CONNECTION_RECV_CHECK_DEAD_TIME Recver_Check_Dead_Timer None w = Some w'"
      unfolding Recver_Check_Dead_Timer by (simp add: complex_reader_do_time_out_def)
    from reader_world_frame [OF frame_timer [OF this] w] show ?thesis by simp
  qed
next
  case Connection_Suspend_Timer
  from assms(1) obtain r w1 w2 c where a: "at con set_connection_trans_succ w = Some (r, w1)"
    and w2: "(if r = 0 then reader_do_connection_sended_handle_and_clean_data con w1 else Some w1) = Some w2"
    and f: "free_connetcion con (release_connection_ID (connection_ID (c :: connection)) w2) = Some w'"
    unfolding Connection_Suspend_Timer by (auto simp: complex_reader_do_time_out_def bind_eq_Some_conv)
  have f1: "buffer_frame con w w1" by (rule frame_at [OF a]) (simp add: set_connection_trans_succ_def)
  have f2: "buffer_frame con w1 w2" using w2 frame_clean buffer_frame_refl by (auto split: if_splits)
  note more = buffer_frame_trans
  show ?thesis
    by (rule reader_world_frame [OF more [OF f1 more [OF f2 more [OF frame_simple(2) frame_free [OF f]]]] w])
next
  case Force_Reset_Timer
  from assms(1) obtain r w1 where a: "at con set_connection_trans_succ w = Some (r, w1)"
    and w1: "(if r = 0 then reader_do_connection_sended_handle_and_clean_data con w1 else Some w1) = Some w'"
    unfolding Force_Reset_Timer by (auto simp: complex_reader_do_time_out_def bind_eq_Some_conv)
  have "buffer_frame con w w1" by (rule frame_at [OF a]) (simp add: set_connection_trans_succ_def)
  moreover have "buffer_frame con w1 w'" using w1 frame_clean buffer_frame_refl by (auto split: if_splits)
  ultimately show ?thesis using buffer_frame_trans reader_world_frame w by blast
next
  case Recver_ACK_Timer
  with assms(1) show ?thesis using reader_ack_timer [OF _ w D] by (simp add: complex_reader_do_time_out_def)
next
  case Recver_Succ_Timer
  from assms(1) obtain r w1 where a: "at con set_connection_trans_succ w = Some (r, w1)"
    unfolding Recver_Succ_Timer by (auto simp: complex_reader_do_time_out_def bind_eq_Some_conv)
  have f: "buffer_frame con w w1" by (rule frame_at [OF a]) (simp add: set_connection_trans_succ_def)
  have i: "reader_world D con w1" using reader_world_frame [OF f w] .
  have st: "succ_timer w1" using s Recver_Succ_Timer a by (auto simp: at_def Let_def case_prod_beta split: option.splits)
  obtain c where c: "heap w1 con = Some c" using a by (auto simp: at_def Let_def case_prod_beta split: option.splits)
  have h: "reader_has D c" "complete D c" using i st c by (auto simp: reader_world_def)
  show ?thesis
  proof (cases "r = 0")
    case True
    with assms(1) a c have "w' = push_msg \<lparr>rp_remote_addr = remote_addr c, rp_remote_addr_length = remote_addr_length c,
           rp_data_length = transmit_buf_length c, rp_buf_type = recv_buf_type c, rp_data = D\<rparr> w1"
      unfolding Recver_Succ_Timer using complete_buffer [OF h] by (simp add: complex_reader_do_time_out_def)
    then show ?thesis using i h(1) by (auto simp: push_msg_def reader_world_def reader_has_def)
  next
    case False
    with assms(1) a have "w' = w1" unfolding Recver_Succ_Timer by (simp add: complex_reader_do_time_out_def)
    with i show ?thesis by simp
  qed
qed

lemma frame_force_end:
  assumes "force_end a code w = Some w'"
  shows "buffer_frame con w w'"
proof -
  from assms obtain w1 where u: "upd a (\<lambda>c. c\<lparr>trans_result_code := Some code\<rparr>) w = Some w1"
    and w1: "suspend_once a w1 = Some w' \<or> add_to_timer_queue a HDS_UDP_RESET_REACTION_TIME Force_Reset_Timer None w1 = Some w'"
    by (auto simp: force_end_def bind_eq_Some_conv split: if_splits)
  have "buffer_frame con w w1" by (rule frame_upd [OF u]) (simp add: same_buffer_def)
  moreover have "buffer_frame con w1 w'" using w1 frame_suspend frame_timer by fastforce
  ultimately show ?thesis by (rule buffer_frame_trans)
qed

lemma frame_stop:
  assumes "connection_do_connection_stop i w = Some (res, w')"
  shows "buffer_frame con w w'"
proof (cases "cid_array w (get_connection_offset i)")
  case (CID_CON a)
  with assms obtain r w1 where at: "at a set_connection_force_stop w = Some (r, w1)"
    by (auto simp: connection_do_connection_stop_def bind_eq_Some_conv)
  have f1: "buffer_frame con w w1" by (rule frame_at [OF at]) (simp add: set_connection_force_stop_def)
  show ?thesis
  proof (cases "r = 0")
    case True
    with assms CID_CON at obtain w2 buf n to l where e: "force_end a TRANS_FORCE_STOP w1 = Some w2"
      and w': "w' = kernel_send buf n to l w2" by (auto simp: connection_do_connection_stop_def bind_eq_Some_conv)
    show ?thesis unfolding w'
      by (rule buffer_frame_trans [OF f1 buffer_frame_trans [OF frame_force_end [OF e] frame_simple(3)]])
  next
    case False
    with assms CID_CON at f1 show ?thesis by (simp add: connection_do_connection_stop_def)
  qed
qed (use assms buffer_frame_refl in \<open>auto simp: connection_do_connection_stop_def\<close>)

lemma reader_step_inv:
  assumes "complex_reader_step D con w w'" "reader_world D con w" "complex_size D"
  shows "reader_world D con w'"
  using assms(1)
proof cases
  case (packet k t st junk rdata)
  show ?thesis by (rule reader_packet [OF packet(2) assms(2,3) packet(1)])
next
  case (timer due parm)
  show ?thesis
    by (rule reader_timer [OF timer(2) assms(2,3)]) (use timer(1) in \<open>force simp: succ_timer_def\<close>)
next
  case (stop i res)
  show ?thesis by (rule reader_world_frame [OF frame_stop [OF stop] assms(2)])
next
  case (env tv b g)
  show ?thesis unfolding env by (rule reader_world_frame [OF frame_simple(8) assms(2)])
qed

text \<open>A reader that \<open>start_recver\<close> has just set up: an empty collector and a buffer of the announced length.\<close>

definition fresh_complex_reader :: "u8 list \<Rightarrow> nat \<Rightarrow> world \<Rightarrow> bool" where
  "fresh_complex_reader D con w \<longleftrightarrow> processed w = [] \<and> \<not> succ_timer w \<and>
     (\<exists>c buf. heap w con = Some c \<and> transmit_buf c = Some buf \<and> length buf = length D \<and>
       transmit_buf_length c = of_nat (length D) \<and> ack_info_collector c = Ack_Collector_new)"

lemma fresh_reader_world: "fresh_complex_reader D con w \<Longrightarrow> reader_world D con w"
  by (auto simp: fresh_complex_reader_def reader_world_def reader_has_def collector_new)

section \<open>Completion\<close>

text \<open>Feeding packets to a reader that is neither stopped nor finished.\<close>

fun feed :: "u8 list \<Rightarrow> nat \<Rightarrow> (nat \<times> u32) list \<Rightarrow> Kernel_Recv_Data \<Rightarrow> world \<Rightarrow> world option" where
  "feed D con [] rdata w = Some w"
| "feed D con ((k, st) # ks) rdata w = do {
     w \<leftarrow> complex_reader_do_network_data con HDS_UDP_TRANS_COMPLEX_FILE_DATA (of_nat (1452 * k)) st
       (chunk D (1452 * k)) (int (length (chunk D (1452 * k)))) rdata w;
     feed D con ks rdata w }"

definition running_reader :: "u8 list \<Rightarrow> nat \<Rightarrow> world \<Rightarrow> connection \<Rightarrow> bool" where
  "running_reader D con w c \<longleftrightarrow> heap w con = Some c \<and> reader_has D c \<and> \<not> bit (status c) 0 \<and> \<not> bit (status c) 2 \<and>
     \<not> bit (status c) 5 \<and> \<not> oom w"

lemma status_tests:
  "test_connection_trans_succ c = (if bit (status c) 0 then 1 else 0)"
  "test_connection_force_stop c = (if bit (status c) 2 then 1 else 0)"
  by (simp_all add: status_macro_defs status_test_def BitTest_eq)

lemma feed_one:
  assumes run: "running_reader D con w c" and D: "complex_size D" and k: "1452 * k < length D" and small: "length D \<le> 1452 * MAX_BIT_NUM"
  shows "\<exists>w' c'. complex_reader_do_network_data con t (of_nat (1452 * k)) st (chunk D (1452 * k))
      (int (length (chunk D (1452 * k)))) rdata w = Some w' \<and> running_reader D con w' c' \<and>
      (\<forall>p. received (ack_info_collector c) p \<or> p = k \<longrightarrow> received (ack_info_collector c') p) \<and>
      processed w' = processed w \<and> timers w' = timers w"
proof -
  let ?seq = "of_nat (1452 * k) :: u32"
  have c: "heap w con = Some c" and r: "reader_has D c" using run by (simp_all add: running_reader_def)
  have ok: "collector_ok (ack_info_collector c)" using r by (simp add: reader_has_def)
  have "unat ?seq = 1452 * k" using k D by (intro unat_of_nat32) (simp add: complex_size_def)
  then have q: "unat ?seq div 1452 = k" by simp
  have "k < MAX_BIT_NUM" using k small by simp
  then obtain res old a where s: "collector_set ?seq st (ack_info_collector c) = Some (res, old, a)" "collector_ok a"
      and cs: "res = 0 \<and> received a = (\<lambda>p. received (ack_info_collector c) p \<or> p = k) \<and>
          (\<exists>v. old = Some v \<and> (v = 0 \<longleftrightarrow> \<not> received (ack_info_collector c) k)) \<or>
        res = - 1 \<and> received a = received (ack_info_collector c) \<and> received (ack_info_collector c) k"
    using collector_set_cases [OF ok q [symmetric], of st] by fastforce
  let ?c = "c\<lparr>running_count := snd (post_increment (running_count c))\<rparr>"
  have rc: "reader_has D ?c" "status ?c = status c" "ack_info_collector ?c = ack_info_collector c"
    using r by (simp_all add: reader_has_def)
  have go: "\<not> (test_connection_force_stop c = 1 \<or> test_connection_trans_succ c = 1)"
    using run by (simp add: running_reader_def status_tests)
  have all: "received a p" if "received (ack_info_collector c) p \<or> p = k" for p using cs that by auto
  have keep: "reader_has D (?c\<lparr>ack_info_collector := a\<rparr>)" if "res = - 1 \<or> old = Some 1"
    using cs that s(2) r by (fastforce simp: reader_has_def fun_eq_iff)
  show ?thesis
  proof (cases "res = - 1 \<or> old = Some 1")
    case True
    let ?w = "w\<lparr>heap := (heap w)(con := Some (?c\<lparr>ack_info_collector := a\<rparr>))\<rparr>"
    have "complex_reader_do_network_data con t ?seq st (chunk D (1452 * k))
      (int (length (chunk D (1452 * k)))) rdata w = Some ?w"
      using True c go s(1) by (auto simp: complex_reader_do_network_data_def collector_at_def upd_def)
    moreover have "running_reader D con ?w (?c\<lparr>ack_info_collector := a\<rparr>)"
      using keep [OF True] run by (simp add: running_reader_def)
    ultimately show ?thesis using all by fastforce
  next
    case False
    then have "received a = (\<lambda>p. received (ack_info_collector ?c) p \<or> p = k)" using cs by auto
    from store_in_buffer [OF rc(1) D k s(2) this, of "[]"] obtain c' where
      c': "complex_store ?seq (chunk D (1452 * k)) (int (length (chunk D (1452 * k)))) (?c\<lparr>ack_info_collector := a\<rparr>) = Some c'"
      "reader_has D c'" by auto
    have st: "status c' = status c" "ack_info_collector c' = a"
      using c'(1) by (auto simp: complex_store_def bind_eq_Some_conv split: if_splits)
    let ?w = "w\<lparr>heap := (heap w)(con := Some c')\<rparr>"
    have "complex_reader_do_network_data con t ?seq st (chunk D (1452 * k))
      (int (length (chunk D (1452 * k)))) rdata w = Some ?w"
      using False c go s(1) c'(1) by (auto simp: complex_reader_do_network_data_def collector_at_def upd_def)
    moreover have "running_reader D con ?w c'" using c'(2) run st by (simp add: running_reader_def)
    ultimately show ?thesis using all st by fastforce
  qed
qed

lemma feed_all:
  assumes "running_reader D con w c" "complex_size D" "length D \<le> 1452 * MAX_BIT_NUM" "\<forall>(k, st) \<in> set ks. 1452 * k < length D"
  shows "\<exists>w' c'. feed D con ks rdata w = Some w' \<and> running_reader D con w' c' \<and>
    (\<forall>p. received (ack_info_collector c) p \<or> p \<in> fst ` set ks \<longrightarrow> received (ack_info_collector c') p) \<and>
    processed w' = processed w \<and> timers w' = timers w"
  using assms
proof (induction ks arbitrary: w c)
  case (Cons x ks)
  obtain k st where x: "x = (k, st)" by fastforce
  obtain w1 c1 where f: "complex_reader_do_network_data con HDS_UDP_TRANS_COMPLEX_FILE_DATA (of_nat (1452 * k)) st (chunk D (1452 * k))
      (int (length (chunk D (1452 * k)))) rdata w = Some w1" "running_reader D con w1 c1"
      "\<forall>p. received (ack_info_collector c) p \<or> p = k \<longrightarrow> received (ack_info_collector c1) p"
      "processed w1 = processed w" "timers w1 = timers w"
    using feed_one [OF Cons.prems(1,2) _ Cons.prems(3), of k] Cons.prems(4) x by fastforce
  obtain w2 c2 where "feed D con ks rdata w1 = Some w2" "running_reader D con w2 c2"
    "\<forall>p. received (ack_info_collector c1) p \<or> p \<in> fst ` set ks \<longrightarrow> received (ack_info_collector c2) p"
    "processed w2 = processed w1" "timers w2 = timers w1"
    using Cons.IH [OF f(2) Cons.prems(2,3)] Cons.prems(4) by auto
  then show ?case using f x by (intro exI [of _ w2] exI [of _ c2]) auto
qed auto

text \<open>The acknowledgement of the end of a message: its number is the end, rounded up to packets.\<close>

definition end_ack :: "u8 list \<Rightarrow> connection \<Rightarrow> datagram \<Rightarrow> bool" where
  "end_ack D c d \<longleftrightarrow> (\<exists>type t. type \<in> {HDS_UDP_TRANS_COMPLEX_FILE_SACK, HDS_UDP_TRANS_COMPLEX_FILE_ACK} \<and>
     d = \<lparr>d_data = header_bytes type (connection_ID c) t (of_nat (1452 * ((length D + 1451) div 1452))),
       d_addr = take (unat (remote_addr_length c)) (remote_addr c)\<rparr>)"

lemma complete_least:
  assumes "reader_has D c" "complete D c"
  shows "(LEAST p. \<not> received (ack_info_collector c) p) = (length D + 1451) div 1452"
proof -
  have least: "(LEAST p :: nat. \<not> p < n) = n" for n by (rule Least_equality) simp_all
  have "received (ack_info_collector c) p \<longleftrightarrow> 1452 * p < length D" for p
    using assms unfolding reader_has_def complete_def by blast
  moreover have "1452 * p < length D \<longleftrightarrow> p < (length D + 1451) div 1452" for p
    using less_eq_div_iff_mult_less_eq [of 1452 "Suc p" "length D + 1451"] by (auto simp: Suc_le_eq)
  ultimately show ?thesis using least by simp
qed

lemma ack_datagram:
  assumes "CONNECTION_FILL_HEADER type i t q (WriteCDR_new buf) = Some cdr"
  shows "take (WriteCDR_length cdr) (w_data cdr) = header_bytes type i t q"
  using fill_header_Some [OF assms] by (simp add: written_def WriteCDR_new_def WriteCDR_length_def)

lemma ack_timer_completes:
  assumes run: "running_reader D con w c" and D: "complex_size D" and cp: "complete D c"
  shows "\<exists>w' c' due parm a. complex_reader_ack_timer con w = Some w' \<and> heap w' con = Some c' \<and> reader_has D c' \<and> complete D c' \<and>
     \<not> bit (status c') 0 \<and> processed w' = processed w \<and> (due, parm) \<in> set (timers w') \<and> tp_timeout_type parm = Recver_Succ_Timer \<and>
     trans_result_code c' = Some TRANS_SUCCESSFULLY \<and> sent w' = sent w @ [a] \<and> end_ack D c a"
proof -
  let ?seq = "of_nat (1452 * (LEAST p. \<not> received (ack_info_collector c) p)) :: u32"
  have c: "heap w con = Some c" and r: "reader_has D c" using run by (simp_all add: running_reader_def)
  obtain ty t a where g: "collector_get_next_ack (ack_info_collector c) = Some (ty, ?seq, t, a)"
    "collector_ok a" "received a = received (ack_info_collector c)"
    using get_next_ack_pos_ok [of "(ack_info_collector c)\<lparr>ack_time := 0\<rparr>"] r
    by (auto simp: reader_has_def collector_get_next_ack_def Let_def)
  have over: "transmit_buf_length c - 1 < ?seq" using ack_beyond_end [OF r D] cp by blast
  have go: "test_connection_force_stop c \<noteq> 1" "test_connection_trans_succ c \<noteq> 1"
    using run by (simp_all add: running_reader_def status_tests)
  let ?sack = "if ty = SACK then set_reader_connection_sack else reset_reader_connection_sack"
  let ?c1 = "snd (?sack (c\<lparr>ack_info_collector := a\<rparr>))"
  let ?c2 = "?c1\<lparr>trans_result_code := Some TRANS_SUCCESSFULLY\<rparr>"
  let ?c3 = "snd (set_reader_connection_status_recv_succ_timer ?c2)"
  have st: "bit (status ?c1) n \<longleftrightarrow> bit (status c) n" if "n \<noteq> 6" for n
    using that by (auto simp: status_macro_defs status_set_def status_reset_def case_prod_beta)
  have f: "transmit_buf ?c3 = transmit_buf c" "transmit_buf_length ?c3 = transmit_buf_length c" "ack_info_collector ?c3 = a"
    "connection_ID ?c3 = connection_ID c" "trans_result_code ?c3 = Some TRANS_SUCCESSFULLY"
    by (simp_all add: status_macro_defs status_set_def status_reset_def case_prod_beta)
  have "bit (status ?c3) 0 = bit (status c) 0"
    using st [of 0] by (simp add: status_macro_defs status_set_def status_reset_def case_prod_beta)
  then have s0: "\<not> bit (status ?c3) 0" using run by (simp add: running_reader_def)
  have zero: "fst (set_reader_connection_status_recv_succ_timer ?c2) = 0"
    using st [of 5] run by (simp add: set_reader_connection_status_recv_succ_timer_def status_set_def case_prod_beta running_reader_def)
  have "\<exists>cdr. CONNECTION_FILL_HEADER
         (if ty = SACK then HDS_UDP_TRANS_COMPLEX_FILE_SACK else HDS_UDP_TRANS_COMPLEX_FILE_ACK)
         (connection_ID c) t ?seq (WriteCDR_new (replicate HDS_UDP_PACKET_MAX_HEADER_LENGTH (garbage w 0))) = Some cdr"
    by (rule fill_header_total) (simp add: WriteCDR_new_def)
  then obtain cdr where h: "CONNECTION_FILL_HEADER
         (if ty = SACK then HDS_UDP_TRANS_COMPLEX_FILE_SACK else HDS_UDP_TRANS_COMPLEX_FILE_ACK)
         (connection_ID c) t ?seq (WriteCDR_new (replicate HDS_UDP_PACKET_MAX_HEADER_LENGTH (garbage w 0))) = Some cdr" ..
  let ?parm = "\<lparr>tp_running_count = running_count ?c3, tp_timeout_type = Recver_Succ_Timer,
        tp_connection_offset = get_connection_offset (connection_ID ?c3), tp_connection_addr = con, tp_extend_data = None\<rparr>"
  let ?w = "(kernel_send (w_data cdr) (WriteCDR_length cdr) (remote_addr c) (remote_addr_length c)
      (w\<lparr>heap := (heap w)(con := Some ?c1)\<rparr>))\<lparr>heap := (heap w)(con := Some ?c3),
      timers := timers w @ [(HDS_UDP_RECVER_SUCC_TIMER, ?parm)]\<rparr>"
  have "complex_reader_ack_timer con w = Some ?w"
    using c go g(1) over h zero run
    by (simp add: complex_reader_ack_timer_def next_ack_def collector_at_def upd_def at_def case_prod_beta Let_def
        kernel_send_def add_to_timer_queue_def running_reader_def)
  moreover have "reader_has D ?c3" "complete D ?c3" using r g cp f by (simp_all add: reader_has_def complete_def)
  moreover let ?a = "\<lparr>d_data = take (WriteCDR_length cdr) (w_data cdr), d_addr = take (unat (remote_addr_length c)) (remote_addr c)\<rparr>"
  have "end_ack D c ?a" using ack_datagram [OF h] complete_least [OF r cp] by (auto simp: end_ack_def)
  ultimately show ?thesis using s0 f(5)
    by (intro exI [of _ ?w] exI [of _ ?c3] exI [of _ HDS_UDP_RECVER_SUCC_TIMER] exI [of _ ?parm] exI [of _ ?a]) (simp add: kernel_send_def)
qed

text \<open>All packets in, then the two timers.\<close>

lemma reader_completes:
  assumes run: "running_reader D con w c" and D: "complex_size D" and small: "length D \<le> 1452 * MAX_BIT_NUM"
    and ks: "fst ` set ks = {k. 1452 * k < length D}"
  shows "\<exists>w1 w2 w3 c1 c2 a due parm. feed D con ks rdata w = Some w1 \<and> heap w1 con = Some c1 \<and> timers w1 = timers w \<and>
    processed w1 = processed w \<and> complex_reader_ack_timer con w1 = Some w2 \<and> sent w2 = sent w1 @ [a] \<and> end_ack D c1 a \<and>
    heap w2 con = Some c2 \<and> trans_result_code c2 = Some TRANS_SUCCESSFULLY \<and> processed w2 = processed w \<and>
    (due, parm) \<in> set (timers w2) \<and> tp_timeout_type parm = Recver_Succ_Timer \<and>
    complex_reader_do_time_out con Recver_Succ_Timer (tp_running_count parm) (tp_extend_data parm) w2 = Some w3 \<and>
    map rp_data (processed w3) = map rp_data (processed w) @ [D]"
proof -
  have "1452 * fst x < length D" if "x \<in> set ks" for x using that ks by blast
  then have "\<forall>(k, st) \<in> set ks. 1452 * k < length D" by auto
  from feed_all [OF run D small this] obtain w1 c1 where w1: "feed D con ks rdata w = Some w1" "running_reader D con w1 c1"
    "\<forall>p \<in> fst ` set ks. received (ack_info_collector c1) p" "processed w1 = processed w" "timers w1 = timers w" by blast
  then have "complete D c1" using ks by (simp add: complete_def)
  from ack_timer_completes [OF w1(2) D this] obtain w2 c2 due parm a where
    w2: "complex_reader_ack_timer con w1 = Some w2" "heap w2 con = Some c2" "reader_has D c2" "complete D c2" "\<not> bit (status c2) 0"
    "processed w2 = processed w1" "(due, parm) \<in> set (timers w2)" "tp_timeout_type parm = Recver_Succ_Timer"
    "trans_result_code c2 = Some TRANS_SUCCESSFULLY" "sent w2 = sent w1 @ [a]" "end_ack D c1 a" by blast
  have c1: "heap w1 con = Some c1" using w1(2) by (simp add: running_reader_def)
  obtain w3 where w3: "complex_reader_do_time_out con Recver_Succ_Timer (tp_running_count parm) (tp_extend_data parm) w2 = Some w3"
    "map rp_data (processed w3) = map rp_data (processed w2) @ [D]"
    using w2(2,5) complete_buffer [OF w2(3,4)]
    by (simp add: complex_reader_do_time_out_def at_def case_prod_beta Let_def set_connection_trans_succ_def status_set_def push_msg_def)
  show ?thesis
    by (rule exI [of _ w1], rule exI [of _ w2], rule exI [of _ w3], rule exI [of _ c1], rule exI [of _ c2], rule exI [of _ a],
        rule exI [of _ due], rule exI [of _ parm]) (use w1 w2 w3 c1 in simp)
qed

lemma feed_steps: "feed D con ks rdata w = Some w' \<Longrightarrow> fst ` set ks = S \<Longrightarrow> \<forall>k \<in> S. 1452 * k < length D \<Longrightarrow>
   (complex_reader_step D con)\<^sup>*\<^sup>* w w'"
proof (induction ks arbitrary: w S)
  case (Cons x ks)
  obtain k st where x: "x = (k, st)" by fastforce
  with Cons.prems(1) obtain w1 where w1: "complex_reader_do_network_data con HDS_UDP_TRANS_COMPLEX_FILE_DATA (of_nat (1452 * k)) st
      (chunk D (1452 * k) @ []) (int (length (chunk D (1452 * k)))) rdata w = Some w1" "feed D con ks rdata w1 = Some w'"
    by (auto simp: bind_eq_Some_conv)
  have "complex_reader_step D con w w1" using packet [OF _ w1(1)] Cons.prems(2,3) x by auto
  moreover have "(complex_reader_step D con)\<^sup>*\<^sup>* w1 w'" using Cons.IH [OF w1(2) refl] Cons.prems(2,3) by auto
  ultimately show ?case by (rule converse_rtranclp_into_rtranclp)
qed simp

text \<open>A reader of a two-byte message, freshly set up with its acknowledgement timer.\<close>

definition demo_parm :: timer_parm where
  "demo_parm = \<lparr>tp_running_count = 0, tp_timeout_type = Recver_ACK_Timer, tp_connection_offset = 0,
     tp_connection_addr = 0, tp_extend_data = None\<rparr>"

definition demo_reader :: connection where
  "demo_reader = (construct Complex_Reader)\<lparr>transmit_buf := Some [0, 0], transmit_buf_length := 2\<rparr>"

definition demo_world :: world where
  "demo_world = \<lparr>heap = (\<lambda>_. None)(0 := Some demo_reader), next_addr = 1, cid_array = (\<lambda>_. CID_NULL),
     cid_array_offset = 0, verification_actor = 0, complex_file_need_verification = 0, recv_verification_func = None,
     timers = [(HDS_UDP_RECV_ACK_TIMER, demo_parm)], send_queue = [], wait_ack = (\<lambda>_. None), processed = [], sent = [],
     events = [], type_count = (\<lambda>_. 0), time_out_count = 0, complex_time_out_count = 0,
     now = \<lparr>tv_sec = 0, tv_usec = 0\<rparr>, oom = False, map_oom = False, garbage = (\<lambda>_. 0)\<rparr>"

definition demo_rdata :: Kernel_Recv_Data where
  "demo_rdata = \<lparr>k_remote_addr = replicate 16 0, k_remote_addr_length = 16, k_data_length = 22, k_data = replicate 1472 0\<rparr>"

lemma demo_fresh: "fresh_complex_reader [5, 6] 0 demo_world"
  by (simp add: fresh_complex_reader_def demo_world_def demo_reader_def construct_def zeroed_def succ_timer_def demo_parm_def)

lemma demo_running: "running_reader [5, 6] 0 demo_world demo_reader"
proof -
  have "reader_has [5, 6] demo_reader"
    using fresh_reader_world [OF demo_fresh] by (auto simp: reader_world_def demo_world_def)
  then show ?thesis by (simp add: running_reader_def demo_world_def demo_reader_def construct_def zeroed_def)
qed

lemma demo_packets: "fst ` set [(0, 9 :: u32)] = {k. 1452 * k < length [5, 6 :: u8]}"
  by auto

section \<open>Properties\<close>

text \<open>C4. A complex transfer delivers exactly the message: from a freshly set up reader, whatever packets of
  the message arrive in whatever order and multiplicity, whichever of its timers fire and whenever it is
  stopped, every buffer handed to the method processor is the whole message.\<close>

theorem complex_reader_integrity:
  assumes "(complex_reader_step D con)\<^sup>*\<^sup>* w w'" "fresh_complex_reader D con w" "complex_size D" "m \<in> set (processed w')"
  shows "rp_data m = D \<and> rp_data_length m = of_nat (length D)"
proof -
  have "reader_world D con w'" using assms(1)
    by (induction rule: rtranclp_induct) (use fresh_reader_world [OF assms(2)] reader_step_inv assms(3) in auto)
  with assms(4) show ?thesis by (auto simp: reader_world_def)
qed

theorem complex_reader_integrity_witness:
  "\<exists>w m. (complex_reader_step [5, 6] 0)\<^sup>*\<^sup>* demo_world w \<and> m \<in> set (processed w) \<and> rp_data m = [5, 6]"
proof -
  let ?D = "[5, 6] :: u8 list"
  have D: "complex_size ?D" by (simp add: complex_size_def)
  obtain w1 w2 w3 due parm where r: "feed ?D 0 [(0, 9)] demo_rdata demo_world = Some w1" "timers w1 = timers demo_world"
    "complex_reader_ack_timer 0 w1 = Some w2" "(due, parm) \<in> set (timers w2)" "tp_timeout_type parm = Recver_Succ_Timer"
    "complex_reader_do_time_out 0 Recver_Succ_Timer (tp_running_count parm) (tp_extend_data parm) w2 = Some w3"
    "map rp_data (processed w3) = map rp_data (processed demo_world) @ [?D]"
    using reader_completes [OF demo_running D _ demo_packets, of demo_rdata] D by (simp del: feed.simps) blast
  have "(complex_reader_step ?D 0)\<^sup>*\<^sup>* demo_world w1" by (rule feed_steps [OF r(1) demo_packets]) simp
  moreover have "complex_reader_step ?D 0 w1 w2"
    using timer [of HDS_UDP_RECV_ACK_TIMER demo_parm w1 0 w2] r(2,3)
    by (simp add: demo_world_def demo_parm_def complex_reader_do_time_out_def)
  moreover have "complex_reader_step ?D 0 w2 w3" using timer [OF r(4)] r(5,6) by simp
  ultimately have run: "(complex_reader_step ?D 0)\<^sup>*\<^sup>* demo_world w3" by (meson rtranclp.rtrancl_into_rtrancl)
  have "processed w3 \<noteq> []" using r(7) by auto
  then obtain m where m: "m \<in> set (processed w3)" using last_in_set by blast
  show ?thesis using complex_reader_integrity [OF run demo_fresh D m] run m by blast
qed

text \<open>C5. A complex transfer completes.  Once every packet of a message of at most 3072 packets has reached a
  running reader, in any order and with repetitions, the acknowledgement timer sends the acknowledgement of the end of the
  message to the sender, marks the transfer successful and starts the timer of success; only that timer hands over the
  message, whole and once.\<close>

theorem complex_reader_completes:
  assumes "running_reader D con w c" "complex_size D" "length D \<le> 1452 * 3072" "fst ` set ks = {k. 1452 * k < length D}"
  shows "\<exists>w1 w2 w3 c1 c2 a due parm. feed D con ks rdata w = Some w1 \<and> heap w1 con = Some c1 \<and>
    complex_reader_ack_timer con w1 = Some w2 \<and> sent w2 = sent w1 @ [a] \<and> end_ack D c1 a \<and>
    heap w2 con = Some c2 \<and> trans_result_code c2 = Some TRANS_SUCCESSFULLY \<and> processed w2 = processed w \<and>
    (due, parm) \<in> set (timers w2) \<and> tp_timeout_type parm = Recver_Succ_Timer \<and>
    complex_reader_do_time_out con Recver_Succ_Timer (tp_running_count parm) (tp_extend_data parm) w2 = Some w3 \<and>
    map rp_data (processed w3) = map rp_data (processed w) @ [D]"
proof -
  have "length D \<le> 1452 * MAX_BIT_NUM" using assms(3) by simp
  from reader_completes [OF assms(1,2) this assms(4), of rdata] show ?thesis
    by (elim exE conjE) (intro exI conjI, assumption+)
qed

theorem complex_reader_completes_witness:
  "\<exists>w1 w2 w3 c2 rc x. feed [5, 6] 0 [(0, 9)] demo_rdata demo_world = Some w1 \<and> complex_reader_ack_timer 0 w1 = Some w2 \<and>
    heap w2 0 = Some c2 \<and> trans_result_code c2 = Some TRANS_SUCCESSFULLY \<and>
    complex_reader_do_time_out 0 Recver_Succ_Timer rc x w2 = Some w3 \<and> map rp_data (processed w3) = [[5, 6]]"
proof -
  have D: "complex_size [5, 6 :: u8]" by (simp add: complex_size_def)
  have "map rp_data (processed demo_world) = []" by (simp add: demo_world_def)
  then show ?thesis using complex_reader_completes [OF demo_running D _ demo_packets, of demo_rdata] by fastforce
qed

end
