(* ===== verification/Complex_Writer.thy ===== *)
theory Complex_Writer
  imports Complex_Reader
begin

unbundle bit_operations_syntax

text \<open>
  The sending side of a complex transfer: the bursts the writer puts on the wire, and the window that
  governs them.
\<close>

section \<open>Bursts\<close>

text \<open>A packet of the message \<open>D\<close> from the writer with identifier \<open>i\<close>, inside the window that ends at \<open>r\<close>.\<close>

definition burst_packet :: "u8 list \<Rightarrow> Connection_ID \<Rightarrow> u64 \<Rightarrow> datagram \<Rightarrow> bool" where
  "burst_packet D i r p \<longleftrightarrow> (\<exists>t s seq. d_data p = header_bytes t i s (if seq = 0 then of_nat (length D) else seq) @ chunk D (unat seq) \<and>
     unat seq < length D \<and> unat seq < unat r \<and>
     (if seq = 0 then t = HDS_UDP_TRANS_COMPLEX_FILE_REQUIRE \<or> t = HDS_UDP_TRANS_COMPLEX_FILE_REQUIRE_DUPLICATE
      else t = HDS_UDP_TRANS_COMPLEX_FILE_DATA))"

definition sending_writer :: "u8 list \<Rightarrow> Connection_ID \<Rightarrow> u64 \<Rightarrow> connection \<Rightarrow> bool" where
  "sending_writer D i r c \<longleftrightarrow> writer_wf c \<and> writer_data c = D \<and> transmit_buf_length c = of_nat (length D) \<and>
     connection_ID c = i \<and> right_window_cursor c = r"

text \<open>No request to move the cursor is pending.\<close>

definition cursor_settled :: "connection \<Rightarrow> bool" where
  "cursor_settled c \<longleftrightarrow> \<not> bit (status c) 8 \<and> \<not> bit (status c) 9 \<and> \<not> bit (status c) 12"

lemma sending_writer_status [simp]:
  "sending_writer D i r (c\<lparr>status := s\<rparr>) = sending_writer D i r c"
  "sending_writer D i r (c\<lparr>current_window_cursor := x\<rparr>) = sending_writer D i r c"
  "sending_writer D i r (c\<lparr>running_count := n\<rparr>) = sending_writer D i r c"
  by (simp_all add: sending_writer_def writer_wf_def writer_data_def cong: option.case_cong)

lemmas bit_op_defs = status_macro_defs status_set_def status_reset_def case_prod_beta

lemma reset_result_one: "n < 63 \<Longrightarrow> fst (AtomicBitTestAndReset v n) = 1 \<longleftrightarrow> bit v n"
  by (simp add: test_and_reset_result)

lemma reset_clear: "n < 64 \<Longrightarrow> \<not> bit v n \<Longrightarrow> snd (AtomicBitTestAndReset v n) = v"
  by (rule bit_word_eqI) auto

lemma process_settles: "cursor_settled (process_sender_msg_bit c)"
  by (simp add: process_sender_msg_bit_def bit_op_defs cursor_settled_def Let_def)

lemma process_settled: "cursor_settled c \<Longrightarrow> process_sender_msg_bit c = c"
  by (simp add: process_sender_msg_bit_def bit_op_defs cursor_settled_def Let_def reset_result_one reset_clear)

lemma process_sending: "sending_writer D i r (process_sender_msg_bit c) = sending_writer D i r c"
  by (simp add: process_sender_msg_bit_def bit_op_defs Let_def)

lemma put_back: "heap w con = Some c \<Longrightarrow> w\<lparr>heap := (heap w)(con \<mapsto> c)\<rparr> = w"
  by (cases w) (simp add: fun_upd_idem)

lemma send_packet_ok:
  assumes c: "heap w con = Some c" and s: "sending_writer D i r c" "cursor_settled c"
    and D: "length D < 2 ^ 32" and buf: "length buf = MAX_UDP_PACKET_SIZE"
    and cur: "ucast (current_window_cursor c) < r" "current_window_cursor c < transmit_buf_length c"
  shows "\<exists>buf' w' c' p. complex_send_packet con buf w = Some (buf', w') \<and> heap w' con = Some c' \<and> sending_writer D i r c' \<and>
    cursor_settled c' \<and> length buf' = MAX_UDP_PACKET_SIZE \<and> sent w' = sent w @ [p] \<and> burst_packet D i r p"
proof -
  let ?cur = "current_window_cursor c"
  have wf: "writer_wf c" "writer_data c = D" "transmit_buf_length c = of_nat (length D)" "connection_ID c = i"
    using s by (simp_all add: sending_writer_def)
  have len: "unat (transmit_buf_length c) = length D" using D wf(3) by (simp add: unat_of_nat)
  have lt: "unat ?cur < length D" using cur(2) len by (simp add: word_less_nat_alt)
  have lr: "unat ?cur < unat r" using cur(1) by (simp add: word_less_nat_alt unat_ucast_32_64)
  obtain t c1 where t: "(if ?cur = 0 then do {
          (r, w) \<leftarrow> at con set_connection_status_has_send_require w;
          Some (if r = 0 then HDS_UDP_TRANS_COMPLEX_FILE_REQUIRE
                else HDS_UDP_TRANS_COMPLEX_FILE_REQUIRE_DUPLICATE, w) }
        else Some (HDS_UDP_TRANS_COMPLEX_FILE_DATA, w)) = Some (t, w\<lparr>heap := (heap w)(con := Some c1)\<rparr>)"
    and tt: "if ?cur = 0 then t = HDS_UDP_TRANS_COMPLEX_FILE_REQUIRE \<or> t = HDS_UDP_TRANS_COMPLEX_FILE_REQUIRE_DUPLICATE
      else t = HDS_UDP_TRANS_COMPLEX_FILE_DATA"
    and c1: "sending_writer D i r c1" "cursor_settled c1"
  proof (cases "?cur = 0")
    case True
    let ?c1 = "snd (set_connection_status_has_send_require c)"
    show ?thesis
      by (rule that [of "if fst (set_connection_status_has_send_require c) = 0 then HDS_UDP_TRANS_COMPLEX_FILE_REQUIRE
                else HDS_UDP_TRANS_COMPLEX_FILE_REQUIRE_DUPLICATE" ?c1])
        (use True c s in \<open>simp_all add: at_def case_prod_beta Let_def bit_op_defs cursor_settled_def\<close>)
  next
    case False
    then have "(if ?cur = 0 then X else Some (HDS_UDP_TRANS_COMPLEX_FILE_DATA, w)) =
      Some (HDS_UDP_TRANS_COMPLEX_FILE_DATA, w\<lparr>heap := (heap w)(con \<mapsto> c)\<rparr>)" for X by (simp only: put_back [OF c] if_False)
    then show ?thesis using False s by (intro that [of HDS_UDP_TRANS_COMPLEX_FILE_DATA c]) simp_all
  qed
  let ?w1 = "w\<lparr>heap := (heap w)(con := Some c1)\<rparr>"
  let ?dt = "if ?cur = 0 then transmit_buf_length c else ?cur"
  let ?clock = "connection_clock (now w)"
  have "\<exists>cdr. CONNECTION_FILL_HEADER t (connection_ID c) ?clock ?dt (WriteCDR_new buf) = Some cdr"
    by (rule fill_header_total) (simp add: WriteCDR_new_def buf)
  then obtain cdr where h: "CONNECTION_FILL_HEADER t (connection_ID c) ?clock ?dt (WriteCDR_new buf) = Some cdr" ..
  note hd = fill_header_Some [OF h]
  have room: "w_pos cdr + 1452 \<le> length (w_data cdr)" using hd buf by (simp add: WriteCDR_new_def)
  obtain cdr' where f: "CONNECTION_FILL_DATA cdr ?cur c = Some cdr'" "written cdr' = written cdr @ chunk D (unat ?cur)"
    "length (w_data cdr') = length (w_data cdr)"
    using fill_data_spec [OF wf(1) _ room, of ?cur] lt len wf(2) by auto
  let ?p = "\<lparr>d_data = take (WriteCDR_length cdr') (w_data cdr'), d_addr = take (unat (remote_addr_length c)) (remote_addr c)\<rparr>"
  have "d_data ?p = header_bytes t i ?clock ?dt @ chunk D (unat ?cur)"
    using f(2) hd(1) wf(4) by (simp add: written_def WriteCDR_length_def WriteCDR_new_def)
  then have bp: "burst_packet D i r ?p" unfolding burst_packet_def
    using lt lr tt wf(3) by (intro exI [of _ t] exI [of _ ?clock] exI [of _ ?cur]) (simp cong: if_cong)
  let ?c2 = "c1\<lparr>running_count := snd (post_increment (running_count c1)),
       current_window_cursor := current_window_cursor c1 + HDS_UDP_PACKET_MAX_DATA_LENGTH\<rparr>"
  let ?w2 = "(kernel_send (w_data cdr') (WriteCDR_length cdr') (remote_addr c) (remote_addr_length c) ?w1)\<lparr>heap := (heap w)(con := Some ?c2)\<rparr>"
  have "complex_send_packet con buf w = Some (w_data cdr', ?w2)"
    using c t h f(1) by (simp add: complex_send_packet_def Let_def upd_def kernel_send_def cong: if_cong)
  moreover have "sending_writer D i r ?c2" "cursor_settled ?c2" using c1 by (simp_all add: cursor_settled_def)
  moreover have "length (w_data cdr') = 1472" using f(3) hd buf by (simp add: WriteCDR_new_def)
  ultimately show ?thesis using bp
    by (intro exI [of _ "w_data cdr'"] exI [of _ ?w2] exI [of _ ?c2] exI [of _ ?p]) (simp add: kernel_send_def)
qed

lemma send_loop_ok:
  assumes "heap w con = Some c" "sending_writer D i r c" "cursor_settled c" "length D < 2 ^ 32" "length buf = MAX_UDP_PACKET_SIZE"
  shows "\<exists>w' ps. complex_send_loop n con buf w = Some w' \<and> sent w' = sent w @ ps \<and> length ps \<le> n \<and> (\<forall>p \<in> set ps. burst_packet D i r p)"
  using assms
proof (induction n arbitrary: buf w c)
  case 0
  then show ?case
    by (simp add: upd_def at_def process_settled case_prod_beta Let_def add_to_timer_queue_def)
next
  case (Suc n)
  have r: "right_window_cursor c = r" using Suc.prems(2) by (simp add: sending_writer_def)
  show ?case
  proof (cases "ucast (current_window_cursor c) < r \<and> current_window_cursor c < transmit_buf_length c")
    case False
    then show ?thesis using Suc.prems(1) r by (auto simp: add_to_timer_queue_def)
  next
    case True
    have u: "upd con process_sender_msg_bit w = Some w"
      using Suc.prems(1,3) put_back [OF Suc.prems(1)] by (simp add: upd_def process_settled)
    obtain buf' w1 c1 p where s: "complex_send_packet con buf w = Some (buf', w1)" "heap w1 con = Some c1"
      "sending_writer D i r c1" "cursor_settled c1" "length buf' = MAX_UDP_PACKET_SIZE" "sent w1 = sent w @ [p]" "burst_packet D i r p"
      using send_packet_ok [OF Suc.prems] True by blast
    obtain w2 ps where "complex_send_loop n con buf' w1 = Some w2" "sent w2 = sent w1 @ ps" "length ps \<le> n"
      "\<forall>p \<in> set ps. burst_packet D i r p"
      using Suc.IH [OF s(2,3,4) Suc.prems(4) s(5)] by blast
    then show ?thesis using True r u s Suc.prems(1) by (intro exI [of _ w2] exI [of _ "p # ps"]) simp
  qed
qed

text \<open>Operations on the object itself always succeed.\<close>

lemma at_here: "heap w con = Some c \<Longrightarrow> at con f w = Some (fst (f c), w\<lparr>heap := (heap w)(con \<mapsto> snd (f c))\<rparr>)"
  by (simp add: at_def case_prod_beta)

lemma upd_here: "heap w con = Some c \<Longrightarrow> upd con f w = Some (w\<lparr>heap := (heap w)(con \<mapsto> f c)\<rparr>)"
  by (simp add: upd_def)

section \<open>The window\<close>

text \<open>The fields of the window, which most operations leave alone.\<close>

definition window_fields :: "connection \<Rightarrow> u64 \<times> u64 \<times> single \<times> u64 \<times> u64" where
  "window_fields c = (window_ssthresh c, window_site c, ack_seq_window_increase_factor c, default_window_size c, left_window_cursor c)"

text \<open>Thresholds and windows stay between one packet and \<open>X\<close>, the growth factor never exceeds one.  A window below its
  threshold may double: then twice the threshold is within the bound as well.\<close>

definition window_inv :: "nat \<Rightarrow> connection \<Rightarrow> bool" where
  "window_inv X c \<longleftrightarrow> HDS_UDP_PACKET_MAX_DATA_LENGTH \<le> unat (window_ssthresh c) \<and> HDS_UDP_PACKET_MAX_DATA_LENGTH \<le> unat (window_site c) \<and>
     ack_seq_window_increase_factor c \<le> single_1 \<and> unat (window_site c) \<le> X \<and> unat (window_ssthresh c) \<le> X \<and>
     (window_site c < window_ssthresh c \<longrightarrow> 2 * unat (window_ssthresh c) \<le> X) \<and> unat (default_window_size c) \<le> X \<and>
     unat (left_window_cursor c) < 2 ^ 32"

lemma window_inv_fields: "window_fields c' = window_fields c \<Longrightarrow> window_inv X c' = window_inv X c"
  by (simp add: window_inv_def window_fields_def)

lemma same_window:
  "window_fields (set_connection_RTO tv t c) = window_fields c" "window_fields (set_connection_RTO_Double c) = window_fields c"
  "window_fields (snd (complex_count_ack q c)) = window_fields c" "window_fields (process_sender_msg_bit c) = window_fields c"
  "window_fields (snd (set_connection_trans_succ c)) = window_fields c" "window_fields (snd (set_connection_trans_suspend c)) = window_fields c"
  "window_fields (snd (lock_connection_status_ack_mutex c)) = window_fields c"
  "window_fields (snd (unlock_connection_status_ack_mutex c)) = window_fields c"
  "window_fields (snd (set_connection_status_has_time_out c)) = window_fields c"
  "window_fields (snd (set_connection_status_has_sack c)) = window_fields c"
  "window_fields (snd (set_connection_status_has_send_require c)) = window_fields c"
  "window_fields (snd (set_connection_in_sender c)) = window_fields c" "window_fields (snd (set_connection_reback_sender c)) = window_fields c"
  by (simp_all add: window_fields_def set_connection_RTO_def set_connection_RTO_Double_def complex_count_ack_def process_sender_msg_bit_def
      bit_op_defs Let_def)

lemmas window_same [simp] = same_window [THEN window_inv_fields]

lemma congestion_inv:
  assumes "window_inv X c" "2904 \<le> X"
  shows "window_inv X (writer_congestion c)"
proof -
  have "unat (drop_bit 1 (window_ssthresh c)) = unat (window_ssthresh c) div 2" by (simp add: drop_bit_eq_div unat_div)
  then show ?thesis using assms single_half_le [of "ack_seq_window_increase_factor c"]
    by (auto simp: window_inv_def writer_congestion_def Let_def word_less_nat_alt)
qed

lemma window_increase_inv:
  assumes inv: "window_inv X c" and X: "X < 2 ^ 63" and d: "unat d \<le> 2 ^ 32"
  shows "\<exists>c'. complex_window_increase ns d c = Some c' \<and> window_inv X c'"
proof -
  define f where "f = next_increase_factor (ack_seq_window_increase_factor c)"
  have f: "f \<le> single_1" unfolding f_def next_increase_factor_def Let_def by auto
  obtain e where e: "single_times_ulong f d = Some e" using single_times_ulong_total [OF f d] by blast
  consider "ns \<noteq> 0" | "ns = 0" "window_ssthresh c \<le> window_site c" | "ns = 0" "window_site c < window_ssthresh c" by fastforce
  then show ?thesis
  proof cases
    case 1
    then show ?thesis using inv f by (simp add: complex_window_increase_def bit_op_defs Let_def window_inv_def flip: f_def)
  next
    case 2
    let ?c = "c\<lparr>ack_seq_window_increase_factor := f\<rparr>"
    have "window_site c \<le> next_window_size e ?c" unfolding next_window_size_def Let_def by auto
    moreover have "next_window_size e ?c \<le> window_site c \<or> next_window_size e ?c \<le> default_window_size c"
      unfolding next_window_size_def Let_def by auto
    ultimately show ?thesis using 2 e inv f
      by (auto simp: complex_window_increase_def bit_op_defs Let_def window_inv_def word_le_nat_alt simp flip: f_def)
  next
    case 3
    have "unat (window_site c) < 2 ^ 63" using inv X by (simp add: window_inv_def)
    then have "unat (push_bit 1 (window_site c)) = 2 * unat (window_site c)"
      by (simp add: push_bit_eq_mult unat_word_ariths)
    moreover have "\<not> window_ssthresh c \<le> window_site c" "unat (window_site c) < unat (window_ssthresh c)"
      using 3(2) by (simp_all add: word_less_nat_alt word_le_nat_alt)
    ultimately show ?thesis using 3 inv f
      by (auto simp: complex_window_increase_def bit_op_defs Let_def window_inv_def simp flip: f_def)
  qed
qed

lemma ack_inv:
  assumes inv: "window_inv X c" and X: "2904 \<le> X" "X < 2 ^ 63" and d: "unat d \<le> 2 ^ 32"
  shows "\<exists>c'. complex_writer_ack tv seq t d c = Some c' \<and> window_inv X c'"
proof -
  let ?c = "snd (complex_count_ack seq (set_connection_RTO tv t c))"
  have c: "window_inv X ?c" using inv by simp
  show ?thesis
  proof (cases "3 \<le> sack_same_count ?c")
    case True
    then show ?thesis using congestion_inv [OF c X(1)] by (simp add: complex_writer_ack_def case_prod_beta Let_def)
  next
    case False
    obtain c' where "complex_window_increase (fst (complex_count_ack seq (set_connection_RTO tv t c))) d ?c = Some c'" "window_inv X c'"
      using window_increase_inv [OF c X(2) d] by blast
    then show ?thesis using False by (simp add: complex_writer_ack_def case_prod_beta Let_def)
  qed
qed

text \<open>The bytes newly acknowledged are less than \<open>2\<^sup>32\<close>.\<close>

lemma interval_bound: "cell \<le> ucast (seq :: u32) \<Longrightarrow> unat (ucast seq - cell :: u64) \<le> 2 ^ 32"
  using unsigned_less [of seq, where 'a = nat] by (simp add: unat_sub unat_ucast_32_64 word_le_nat_alt)

section \<open>The window over the handlers\<close>

definition window_at :: "nat \<Rightarrow> nat \<Rightarrow> world \<Rightarrow> bool" where
  "window_at X con w \<longleftrightarrow> (\<forall>c. heap w con = Some c \<longrightarrow> window_inv X c)"

lemma window_at_heap: "heap w' con = heap w con \<Longrightarrow> window_at X con w' = window_at X con w"
  by (simp add: window_at_def)

lemma window_at_at:
  assumes "at con f w = Some (r, w')" "window_at X con w" "\<And>c. window_inv X (snd (f c)) = window_inv X c"
  shows "window_at X con w'"
proof -
  obtain c where "heap w con = Some c" "heap w' con = Some (snd (f c))"
    using assms(1) by (auto simp: at_def case_prod_beta Let_def split: option.splits)
  then show ?thesis using assms(2,3) by (simp add: window_at_def)
qed

lemma window_at_upd: "upd con f w = Some w' \<Longrightarrow> window_at X con w \<Longrightarrow> (\<And>c. window_inv X c \<Longrightarrow> window_inv X (f c)) \<Longrightarrow> window_at X con w'"
  by (auto simp: window_at_def upd_def split: option.splits)

lemma window_at_timer: "add_to_timer_queue con d ty x w = Some w' \<Longrightarrow> window_at X con w' = window_at X con w"
  by (auto simp: window_at_def add_to_timer_queue_def bind_eq_Some_conv split: if_splits)

lemma window_at_queue:
  assumes "add_to_sender_queue con w = Some w'" "window_at X con w"
  shows "window_at X con w'"
proof -
  obtain r w1 where w1: "at con set_connection_in_sender w = Some (r, w1)" using assms(1) by (auto simp: add_to_sender_queue_def bind_eq_Some_conv)
  have "window_at X con w1" by (rule window_at_at [OF w1 assms(2)]) simp
  then show ?thesis using assms(1) w1 window_at_at [of con set_connection_reback_sender w1 _ w' X]
    by (auto simp: add_to_sender_queue_def bind_eq_Some_conv split: if_splits) (simp add: window_at_def)
qed

lemma window_at_suspend:
  assumes "suspend_once con w = Some w'" "window_at X con w"
  shows "window_at X con w'"
proof -
  obtain r w1 where w1: "at con set_connection_trans_suspend w = Some (r, w1)" using assms(1) by (auto simp: suspend_once_def bind_eq_Some_conv)
  have "window_at X con w1" by (rule window_at_at [OF w1 assms(2)]) simp
  then have "window_at X con (suspend_connection_ID i w1)" for i by (simp add: suspend_connection_ID_def window_at_def)
  then show ?thesis using assms(1) w1 \<open>window_at X con w1\<close> by (auto simp: suspend_once_def bind_eq_Some_conv window_at_timer split: if_splits)
qed

lemma window_at_free: "free_connetcion con w = Some w' \<Longrightarrow> window_at X con w'"
  by (auto simp: free_connetcion_def bind_eq_Some_conv window_at_def decrease_connection_type_count_def connection_free_memory_def)

lemma window_at_time_out:
  assumes "complex_writer_do_time_out con ty rc x w = Some w'" "window_at X con w" "2904 \<le> X"
  shows "window_at X con w'"
proof (cases ty)
  case Connection_Suspend_Timer
  then obtain r w1 where w1: "at con set_connection_trans_succ w = Some (r, w1)" "r \<noteq> 0 \<longrightarrow> w' = w1"
    "r = 0 \<longrightarrow> (\<exists>v. free_connetcion con v = Some w')"
    using assms(1) by (auto simp: complex_writer_do_time_out_def bind_eq_Some_conv split: if_splits)
  have "window_at X con w1" by (rule window_at_at [OF w1(1) assms(2)]) simp
  then show ?thesis using w1(2,3) window_at_free by (cases "r = 0") auto
next
  case Sender_Keeping_Timer
  obtain c where c: "heap w con = Some c" using assms(1) Sender_Keeping_Timer by (auto simp: complex_writer_do_time_out_def bind_eq_Some_conv)
  show ?thesis
  proof (cases "running_count c = rc")
    case True
    let ?w = "w\<lparr>complex_time_out_count := snd (post_increment (complex_time_out_count w))\<rparr>"
    let ?again = "\<lambda>c. let (r, v) = pre_increment (try_time c) in (r, c\<lparr>try_time := v\<rparr>)"
    have 0: "window_at X con ?w" using assms(2) by (simp add: window_at_def)
    obtain t w1 where w1: "at con ?again ?w = Some (t, w1)" using c by (simp add: at_here)
    have 1: "window_at X con w1" by (rule window_at_at [OF w1 0]) (simp add: case_prod_beta Let_def window_inv_def)
    show ?thesis
    proof (cases "t = HDS_UDP_CONNECTION_SEND_TRY_TIME")
      case True
      then obtain w2 where w2: "upd con (\<lambda>c. c\<lparr>trans_result_code := Some TRANS_TIME_OUT\<rparr>) w1 = Some w2" "suspend_once con w2 = Some w'"
        using assms(1) Sender_Keeping_Timer c \<open>running_count c = rc\<close> w1 by (auto simp: complex_writer_do_time_out_def bind_eq_Some_conv)
      have "window_at X con w2" by (rule window_at_upd [OF w2(1) 1]) (simp add: window_inv_def)
      then show ?thesis by (rule window_at_suspend [OF w2(2)])
    next
      case False
      then obtain w2 r w3 w4 r' w5 where w2: "upd con set_connection_RTO_Double w1 = Some w2"
        "at con lock_connection_status_ack_mutex w2 = Some (r, w3)"
        "(if r = 0 then upd con (\<lambda>c. snd (unlock_connection_status_ack_mutex (writer_congestion c))) w3 else Some w3) = Some w4"
        "at con set_connection_status_has_time_out w4 = Some (r', w5)" "add_to_sender_queue con w5 = Some w'"
        using assms(1) Sender_Keeping_Timer c \<open>running_count c = rc\<close> w1 by (auto simp: complex_writer_do_time_out_def bind_eq_Some_conv)
      have 2: "window_at X con w2" by (rule window_at_upd [OF w2(1) 1]) simp
      have 3: "window_at X con w3" by (rule window_at_at [OF w2(2) 2]) simp
      have 4: "window_at X con w4"
        using w2(3) 3 window_at_upd [of con "\<lambda>c. snd (unlock_connection_status_ack_mutex (writer_congestion c))" w3 w4 X] assms(3)
        by (auto simp: congestion_inv split: if_splits)
      have "window_at X con w5" by (rule window_at_at [OF w2(4) 4]) simp
      then show ?thesis by (rule window_at_queue [OF w2(5)])
    qed
  qed (use assms Sender_Keeping_Timer c in \<open>simp add: complex_writer_do_time_out_def\<close>)
qed (use assms in \<open>simp_all add: complex_writer_do_time_out_def\<close>)

lemma signed_less_small:
  assumes "unat (a :: u64) < 2 ^ 63" "unat (b :: u64) < 2 ^ 63"
  shows "a <s b \<longleftrightarrow> a < b"
proof -
  have "sint w = int (unat w)" if "unat w < 2 ^ 63" for w :: u64
  proof -
    have "int (unat w) < int (2 ^ 63)" using that by (simp only: of_nat_less_iff)
    then have w: "uint w < 2 ^ 63" by simp
    have "- (2 ^ 63) \<le> uint w" by (rule order_trans [OF _ unsigned_greater_eq]) simp
    then have "signed_take_bit 63 (uint w) = uint w" using w by (rule signed_take_bit_int_eq_self)
    then show ?thesis by (simp add: sint_uint)
  qed
  then show ?thesis using assms by (simp add: word_sless_alt word_less_def)
qed

lemma window_at_data:
  assumes "complex_writer_do_network_data con mt seq st data len rdata w = Some w'" "window_at X con w" "2904 \<le> X" "X < 2 ^ 63"
  shows "window_at X con w'"
proof -
  let ?lwc = "\<lambda>c. set_connection_left_window_cursor c seq"
  obtain w1 c1 res w2 where w1: "upd con (\<lambda>c. c\<lparr>try_time := 0\<rparr>) w = Some w1" "heap w1 con = Some c1" "at con ?lwc w1 = Some (res, w2)"
    using assms(1) by (auto simp: complex_writer_do_network_data_def bind_eq_Some_conv Let_def)
  have 1: "window_at X con w1" by (rule window_at_upd [OF w1(1) assms(2)]) (simp add: window_inv_def)
  then have inv1: "window_inv X c1" using w1(2) by (simp add: window_at_def)
  have c2: "heap w2 con = Some (snd (?lwc c1))" "res = fst (?lwc c1)" using w1(2,3) by (auto simp: at_here)
  have inv2: "window_inv X (snd (?lwc c1))"
    using inv1 unsigned_less [of seq, where 'a = nat] by (auto simp: set_lwc_eq window_inv_def unat_ucast_32_64)
  then have 2: "window_at X con w2" using c2 by (simp add: window_at_def)
  show ?thesis
  proof (cases "res = - 1")
    case True
    then show ?thesis using assms(1) w1 2 by (simp add: complex_writer_do_network_data_def)
  next
    case False
    have ns: "\<not> ucast seq <s left_window_cursor c1" using False c2(2) by (auto simp: set_lwc_eq split: if_splits)
    have "unat (ucast seq :: u64) < 2 ^ 32" using unsigned_less [of seq, where 'a = nat] by (simp add: unat_ucast_32_64)
    then have le: "left_window_cursor c1 \<le> ucast seq" using ns inv1 signed_less_small [of "ucast seq" "left_window_cursor c1"]
      by (simp add: window_inv_def)
    obtain w3 c3 where w3: "upd con (\<lambda>c. c\<lparr>running_count := snd (post_increment (running_count c))\<rparr>) w2 = Some w3" "heap w3 con = Some c3"
      using c2(1) by (simp add: upd_here)
    have 3: "window_at X con w3" by (rule window_at_upd [OF w3(1) 2]) (simp add: window_inv_def)
    note rest = assms(1) [unfolded complex_writer_do_network_data_def, simplified w1 w3 False bind.simps Let_def, simplified]
    show ?thesis
    proof (cases "transmit_buf_length c3 - 1 < seq")
      case True
      then obtain w4 where w4: "upd con (\<lambda>c. c\<lparr>trans_result_code := Some TRANS_SUCCESSFULLY\<rparr>) w3 = Some w4" "suspend_once con w4 = Some w'"
        using rest w1 w3 False by (auto simp: bind_eq_Some_conv)
      have "window_at X con w4" by (rule window_at_upd [OF w4(1) 3]) (simp add: window_inv_def)
      then show ?thesis by (rule window_at_suspend [OF w4(2)])
    next
      case more: False
      obtain r w4 where w4: "at con lock_connection_status_ack_mutex w3 = Some (r, w4)" using w3(2) by (simp add: at_here)
      have 4: "window_at X con w4" by (rule window_at_at [OF w4 3]) simp
      show ?thesis
      proof (cases "r = 1")
        case True
        then show ?thesis using rest w1 w3 False more w4 4 by (simp add: bind_eq_Some_conv)
      next
        case go: False
        then obtain c4 c5 w5 where w5: "heap w4 con = Some c4"
          "complex_writer_ack (now w4) seq st (ucast seq - left_window_cursor c1) c4 = Some c5" "upd con (\<lambda>_. c5) w4 = Some w5"
          "add_to_sender_queue con w5 = Some w'"
          using rest w1 w3 False more w4 by (auto simp: bind_eq_Some_conv)
        have "window_inv X c4" using 4 w5(1) by (simp add: window_at_def)
        from ack_inv [OF this assms(3,4) interval_bound [OF le]] have "window_inv X c5" using w5(2) by (metis option.inject)
        then have "window_at X con w5" using window_at_upd [OF w5(3) 4] by blast
        then show ?thesis by (rule window_at_queue [OF w5(4)])
      qed
    qed
  qed
qed

lemma window_at_packet:
  assumes "complex_send_packet con buf w = Some (buf', w')" "window_at X con w"
  shows "window_at X con w'"
proof -
  let ?step = "\<lambda>c. c\<lparr>running_count := snd (post_increment (running_count c)),
       current_window_cursor := current_window_cursor c + HDS_UDP_PACKET_MAX_DATA_LENGTH\<rparr>"
  obtain v b n a l where v: "v = w \<or> (\<exists>r. at con set_connection_status_has_send_require w = Some (r, v))"
    "upd con ?step (kernel_send b n a l v) = Some w'"
    using assms(1) by (fastforce simp: complex_send_packet_def bind_eq_Some_conv Let_def split: if_splits)
  have "window_at X con v" using v(1) assms(2) window_at_at [OF _ assms(2), of set_connection_status_has_send_require] by auto
  then have "window_at X con (kernel_send b n a l v)" by (simp add: window_at_def kernel_send_def)
  then show ?thesis by (rule window_at_upd [OF v(2)]) (simp add: window_inv_def)
qed

lemma window_at_loop: "complex_send_loop n con buf w = Some w' \<Longrightarrow> window_at X con w \<Longrightarrow> window_at X con w'"
proof (induction n arbitrary: buf w)
  case 0
  show ?case
  proof (cases "\<exists>c. heap w con = Some c \<and> ucast (current_window_cursor c) < right_window_cursor c \<and> current_window_cursor c < transmit_buf_length c")
    case True
    then obtain w1 r w2 due where w1: "upd con process_sender_msg_bit w = Some w1" "at con set_connection_reback_sender w1 = Some (r, w2)"
      "add_to_timer_queue con due Sender_Keeping_Timer None w2 = Some w'"
      using 0(1) by (auto simp: bind_eq_Some_conv)
    have "window_at X con w1" by (rule window_at_upd [OF w1(1) 0(2)]) simp
    then have "window_at X con w2" by (rule window_at_at [OF w1(2)]) simp
    then show ?thesis using window_at_timer [OF w1(3)] by simp
  next
    case False
    then show ?thesis using 0 window_at_timer by (auto simp: bind_eq_Some_conv split: if_splits)
  qed
next
  case (Suc n)
  show ?case
  proof (cases "\<exists>c. heap w con = Some c \<and> ucast (current_window_cursor c) < right_window_cursor c \<and> current_window_cursor c < transmit_buf_length c")
    case True
    then obtain w1 buf1 w2 where w1: "upd con process_sender_msg_bit w = Some w1" "complex_send_packet con buf w1 = Some (buf1, w2)"
      "complex_send_loop n con buf1 w2 = Some w'"
      using Suc.prems(1) by (auto simp: bind_eq_Some_conv)
    have "window_at X con w1" by (rule window_at_upd [OF w1(1) Suc.prems(2)]) simp
    then show ?thesis using Suc.IH [OF w1(3)] window_at_packet [OF w1(2)] by blast
  next
    case False
    then show ?thesis using Suc.prems window_at_timer by (auto simp: bind_eq_Some_conv split: if_splits)
  qed
qed

lemma window_at_send:
  assumes "complex_writer_do_send con buf w = Some w'" "window_at X con w"
  shows "window_at X con w'"
proof -
  consider "suspend_once con w = Some w'" | w1 where "upd con process_sender_msg_bit w = Some w1" "complex_send_loop 16 con buf w1 = Some w'"
    using assms(1) by (auto simp: complex_writer_do_send_def bind_eq_Some_conv split: if_splits simp del: complex_send_loop.simps)
  then show ?thesis
  proof cases
    case 2
    have "window_at X con w1" by (rule window_at_upd [OF 2(1) assms(2)]) simp
    then show ?thesis by (rule window_at_loop [OF 2(2)])
  qed (use assms(2) window_at_suspend in blast)
qed

text \<open>A writer is handled by its three functions, in any order.\<close>

inductive writer_step :: "nat \<Rightarrow> world \<Rightarrow> world \<Rightarrow> bool" for con where
  acked: "complex_writer_do_network_data con mt seq st data len rdata w = Some w' \<Longrightarrow> writer_step con w w'"
| fired: "complex_writer_do_time_out con ty rc x w = Some w' \<Longrightarrow> writer_step con w w'"
| turn: "complex_writer_do_send con buf w = Some w' \<Longrightarrow> writer_step con w w'"

lemma writer_run_window:
  assumes "(writer_step con)\<^sup>*\<^sup>* w w'" "window_at X con w" "2904 \<le> X" "X < 2 ^ 63"
  shows "window_at X con w'"
  using assms(1)
proof (induction rule: rtranclp_induct)
  case (step y z)
  from step(2) show ?case
  proof (cases rule: writer_step.cases)
    case acked
    then show ?thesis using window_at_data [OF _ step(3) assms(3,4)] by simp
  next
    case fired
    then show ?thesis using window_at_time_out [OF _ step(3) assms(3)] by simp
  next
    case turn
    then show ?thesis using window_at_send [OF _ step(3)] by simp
  qed
qed (rule assms(2))

section \<open>Giving up\<close>

text \<open>The keeping timer fires \<open>n\<close> times in a row with nothing sent or acknowledged in between.\<close>

primrec time_outs :: "nat \<Rightarrow> nat \<Rightarrow> world \<Rightarrow> world option" where
  "time_outs 0 con w = Some w"
| "time_outs (Suc n) con w = do {
     c \<leftarrow> heap w con;
     w \<leftarrow> complex_writer_do_time_out con Sender_Keeping_Timer (running_count c) None w;
     time_outs n con w }"

definition retrying :: "nat \<Rightarrow> Connection_ID \<Rightarrow> connection \<Rightarrow> bool" where
  "retrying k i c \<longleftrightarrow> try_time c = of_nat k \<and> connection_ID c = i \<and> \<not> bit (status c) 1"

lemma retrying_upd:
  "retrying k i (set_connection_RTO_Double c) = retrying k i c"
  "retrying k i (snd (lock_connection_status_ack_mutex c)) = retrying k i c"
  "retrying k i (snd (unlock_connection_status_ack_mutex (writer_congestion c))) = retrying k i c"
  "retrying k i (snd (set_connection_status_has_time_out c)) = retrying k i c"
  "retrying k i (snd (set_connection_in_sender c)) = retrying k i c"
  "retrying k i (snd (set_connection_reback_sender c)) = retrying k i c"
  by (simp_all add: retrying_def set_connection_RTO_Double_def writer_congestion_def bit_op_defs Let_def)

lemma time_out_step:
  assumes c: "heap w con = Some c" and k: "retrying k i c" "k < 6"
  shows "\<exists>w' c'. complex_writer_do_time_out con Sender_Keeping_Timer (running_count c) x w = Some w' \<and>
    heap w' con = Some c' \<and> retrying (Suc k) i c'"
proof -
  let ?c1 = "c\<lparr>try_time := try_time c + 1\<rparr>"
  have n: "try_time c + 1 = of_nat (Suc k)" using k by (simp add: retrying_def)
  have "k \<in> {0, 1, 2, 3, 4, 5}" using k(2) by auto
  then have ne: "(ucast (try_time c + 1) :: u32) \<noteq> 7" unfolding n by (elim insertE) simp_all
  have r1: "retrying (Suc k) i ?c1" using k n by (simp add: retrying_def)
  show ?thesis using c ne r1
    by (simp add: complex_writer_do_time_out_def at_here upd_here pre_increment_def case_prod_beta Let_def retrying_upd
        add_to_sender_queue_def)
qed

lemma time_outs_retry:
  "heap w con = Some c \<Longrightarrow> retrying k i c \<Longrightarrow> k + n \<le> 6 \<Longrightarrow>
   \<exists>w' c'. time_outs n con w = Some w' \<and> heap w' con = Some c' \<and> retrying (k + n) i c'"
proof (induction n arbitrary: w c k)
  case (Suc n)
  obtain w1 c1 where s: "complex_writer_do_time_out con Sender_Keeping_Timer (running_count c) None w = Some w1"
    "heap w1 con = Some c1" "retrying (Suc k) i c1"
    using time_out_step [OF Suc.prems(1,2), of None] Suc.prems(3) by auto
  then show ?case using Suc.IH [OF s(2,3)] Suc.prems(1,3) by simp
qed auto

lemma last_time_out:
  assumes c: "heap w con = Some c" and k: "retrying 6 i c"
  shows "\<exists>w' c'. complex_writer_do_time_out con Sender_Keeping_Timer (running_count c) x w = Some w' \<and> heap w' con = Some c' \<and>
    trans_result_code c' = Some TRANS_TIME_OUT \<and> cid_array w' (get_connection_offset i) = CONNECTION_SUSPEND"
  using assms
  by (simp add: complex_writer_do_time_out_def at_here upd_here pre_increment_def case_prod_beta Let_def retrying_def
      suspend_once_def add_to_timer_queue_def suspend_connection_ID_def bit_op_defs)

lemma time_outs_add: "time_outs (m + n) con w = do { w \<leftarrow> time_outs m con w; time_outs n con w }"
  by (induction m arbitrary: w) (simp_all add: Option.bind_assoc split: Option.bind_split)

lemma burst_ok:
  assumes "heap w con = Some c" "sending_writer D i r c" "test_connection_force_stop c \<noteq> 1" "length D < 2 ^ 32"
    "length buf = MAX_UDP_PACKET_SIZE"
  shows "\<exists>w' ps. complex_writer_do_send con buf w = Some w' \<and> sent w' = sent w @ ps \<and> length ps \<le> 16 \<and>
    (\<forall>p \<in> set ps. burst_packet D i r p)"
proof -
  let ?w = "w\<lparr>heap := (heap w)(con \<mapsto> process_sender_msg_bit c)\<rparr>"
  have "\<exists>w' ps. complex_send_loop 16 con buf ?w = Some w' \<and> sent w' = sent ?w @ ps \<and> length ps \<le> 16 \<and>
    (\<forall>p \<in> set ps. burst_packet D i r p)"
    by (rule send_loop_ok [of _ _ "process_sender_msg_bit c"]) (use assms process_sending process_settles in simp_all)
  then show ?thesis using assms(1,3) by (simp add: complex_writer_do_send_def upd_def)
qed

lemma send_keeps_heap:
  assumes "complex_writer_do_send con buf w = Some w'"
  shows "\<exists>c. heap w' con = Some c"
proof -
  have at_some: "\<exists>c. heap v' con = Some c" if "at con f v = Some (r, v')" for f v r v'
    using that by (auto simp: at_def case_prod_beta Let_def split: option.splits)
  have timer: "\<exists>c. heap v' con = Some c" if "add_to_timer_queue con d ty x v = Some v'" for d ty x v v'
    using that by (auto simp: add_to_timer_queue_def bind_eq_Some_conv split: if_splits)
  have loop: "complex_send_loop n con b v = Some v' \<Longrightarrow> \<exists>c. heap v' con = Some c" for n b v v'
    by (induction n arbitrary: b v) (auto simp: bind_eq_Some_conv dest: timer split: if_splits)
  show ?thesis using assms
    by (auto simp: complex_writer_do_send_def suspend_once_def bind_eq_Some_conv dest: at_some timer loop
        split: if_splits simp del: complex_send_loop.simps)
qed

section \<open>Properties\<close>

text \<open>C8. A complex writer does not try for ever: after seven timeouts without an acknowledgement the
  transfer ends with \<open>TRANS_TIME_OUT\<close> and its slot is suspended.\<close>

theorem complex_writer_gives_up:
  assumes "heap w con = Some c" "try_time c = 0" "\<not> bit (status c) 1"
  shows "\<exists>w' c'. time_outs 7 con w = Some w' \<and> heap w' con = Some c' \<and> trans_result_code c' = Some TRANS_TIME_OUT \<and>
    cid_array w' (get_connection_offset (connection_ID c)) = CONNECTION_SUSPEND"
proof -
  have "retrying 0 (connection_ID c) c" using assms by (simp add: retrying_def)
  from time_outs_retry [OF assms(1) this, of 6] obtain w1 c1 where w1: "time_outs 6 con w = Some w1" "heap w1 con = Some c1"
    "retrying 6 (connection_ID c) c1" by auto
  from last_time_out [OF w1(2,3), of None] show ?thesis
    using time_outs_add [of 6 1 con w] w1 by simp
qed

text \<open>C7. A call of the complex writer's send handler always returns, and what it puts on the wire is at most
  sixteen packets, each the chunk of the message that its sequence number names, inside the message and
  inside the window.\<close>

theorem complex_writer_burst:
  assumes "heap w con = Some c" "sending_writer D i r c" "test_connection_force_stop c \<noteq> 1" "length D < 2 ^ 32"
    "length buf = MAX_UDP_PACKET_SIZE"
  shows "\<exists>w' ps. complex_writer_do_send con buf w = Some w' \<and> sent w' = sent w @ ps \<and> length ps \<le> 16 \<and>
    (\<forall>p \<in> set ps. burst_packet D i r p)"
  by (rule burst_ok [OF assms])

text \<open>C6. The congestion window of the complex writer.  Over any sequence of its three handlers, on acknowledgements, timeouts and
  sending turns, the window and the threshold stay between one packet and the greatest of two packets, twice the threshold and the
  maximal window the writer was started with, and the growth factor stays at one or less; and in every
  state the handling of an acknowledgement is defined, the conversion from \<open>float\<close> never overflowing.  The writer was started
  with a threshold of one packet or more, and the bound is below \<open>2\<^sup>63\<close>.\<close>

theorem complex_window_bounds:
  assumes "(writer_step con)\<^sup>*\<^sup>* w w'" "heap w con = Some c0" "heap w' con = Some c"
    "window_site c0 = HDS_UDP_PACKET_MAX_DATA_LENGTH" "ack_seq_window_increase_factor c0 = single_1" "left_window_cursor c0 = 0"
    "HDS_UDP_PACKET_MAX_DATA_LENGTH \<le> unat (window_ssthresh c0)"
    "X = Max {2 * HDS_UDP_PACKET_MAX_DATA_LENGTH, 2 * unat (window_ssthresh c0), unat (default_window_size c0)}" "X < 2 ^ 63"
  shows "HDS_UDP_PACKET_MAX_DATA_LENGTH \<le> unat (window_site c) \<and> unat (window_site c) \<le> X \<and>
    HDS_UDP_PACKET_MAX_DATA_LENGTH \<le> unat (window_ssthresh c) \<and> unat (window_ssthresh c) \<le> X \<and>
    ack_seq_window_increase_factor c \<le> single_1 \<and>
    (\<forall>tv seq t. left_window_cursor c \<le> ucast seq \<longrightarrow>
      (\<exists>c'. complex_writer_ack tv seq t (ucast seq - left_window_cursor c) c = Some c'))"
proof -
  have X: "2904 \<le> X" using assms(8) by simp
  have "window_inv X c0" using assms(4-8) by (auto simp: window_inv_def)
  then have "window_at X con w" using assms(2) by (simp add: window_at_def)
  from writer_run_window [OF assms(1) this X assms(9)] have inv: "window_inv X c" using assms(3) by (simp add: window_at_def)
  have "\<forall>tv seq t. left_window_cursor c \<le> ucast seq \<longrightarrow> (\<exists>c'. complex_writer_ack tv seq t (ucast seq - left_window_cursor c) c = Some c')"
    using ack_inv [OF inv X assms(9) interval_bound] by blast
  with inv show ?thesis by (simp add: window_inv_def)
qed

section \<open>Examples\<close>

definition demo_writer :: connection where
  "demo_writer = (construct Complex_Writer)\<lparr>transmit_buf := Some [5, 6], transmit_buf_length := 2\<rparr>"

definition writer_world :: world where
  "writer_world = demo_world\<lparr>heap := [0 \<mapsto> demo_writer]\<rparr>"

lemma writer_world_heap: "heap writer_world 0 = Some demo_writer"
  by (simp add: writer_world_def)

lemma demo_writer_facts: "try_time demo_writer = 0" "status demo_writer = 0"
  "sending_writer [5, 6] CID_zero 1452 demo_writer"
  by (simp_all add: demo_writer_def construct_def zeroed_def sending_writer_def writer_wf_def writer_data_def)

theorem complex_writer_gives_up_witness:
  "\<exists>w' c'. time_outs 7 0 writer_world = Some w' \<and> heap w' 0 = Some c' \<and> trans_result_code c' = Some TRANS_TIME_OUT"
  using complex_writer_gives_up [OF writer_world_heap demo_writer_facts(1)] demo_writer_facts(2) by auto

theorem complex_writer_burst_witness:
  "\<exists>w' ps. complex_writer_do_send 0 (replicate 1472 0) writer_world = Some w' \<and> sent w' = sent writer_world @ ps \<and>
    length ps \<le> 16 \<and> (\<forall>p \<in> set ps. burst_packet [5, 6] CID_zero 1452 p)"
  by (rule complex_writer_burst [OF writer_world_heap demo_writer_facts(3)])
    (simp_all add: demo_writer_facts status_macro_defs status_test_def BitTest_eq)

theorem complex_window_bounds_witness:
  "\<exists>w' c'. complex_writer_do_send 0 (replicate 1472 0) writer_world = Some w' \<and> heap w' 0 = Some c' \<and> unat (window_site c') \<le> 185856"
proof -
  have "\<exists>w' ps. complex_writer_do_send 0 (replicate 1472 0) writer_world = Some w' \<and> sent w' = sent writer_world @ ps \<and> length ps \<le> 16 \<and>
    (\<forall>p \<in> set ps. burst_packet [5, 6] CID_zero 1452 p)"
    by (rule burst_ok [OF writer_world_heap demo_writer_facts(3)])
      (simp_all add: demo_writer_facts status_macro_defs status_test_def BitTest_eq)
  then obtain w' where s: "complex_writer_do_send 0 (replicate 1472 0) writer_world = Some w'" by blast
  obtain c' where c': "heap w' 0 = Some c'" using send_keeps_heap [OF s] by blast
  have run: "(writer_step 0)\<^sup>*\<^sup>* writer_world w'" using writer_step.turn [OF s] by (rule r_into_rtranclp)
  have "unat (window_site c') \<le> 185856"
    using complex_window_bounds [OF run writer_world_heap c', of 185856] demo_writer_facts
    by (simp add: demo_writer_def construct_def zeroed_def)
  with s c' show ?thesis by blast
qed

end
