(* ===== verification/Buffer_Pool.thy ===== *)
theory Buffer_Pool
  imports HDS_Prelude "HOL-Library.Monad_Syntax"
begin

text \<open>
  The buffer pool (\<open>buffer/HDS_Buffer_Pool.cpp\<close>): objects of one size are cut from blocks of 512 and kept
  in a free list whose links are stored in the free objects themselves.  An address is a number, \<open>0\<close> the
  null pointer; \<open>cells\<close> is the pointer stored at an address.  What \<open>malloc\<close> answers is an argument
  (\<open>None\<close> for failure); writing through a null pointer is \<open>None\<close>.  The operations run under the mutex of
  the pool.
\<close>

section \<open>One pool\<close>

type_synonym addr = nat
type_synonym cells = "addr \<Rightarrow> addr"

abbreviation (input) HDS_UDP_POOL_DEFAULT_ALLOC_OBJECT_SIZE :: nat where
  "HDS_UDP_POOL_DEFAULT_ALLOC_OBJECT_SIZE \<equiv> 512"
abbreviation (input) HDS_UDP_POOL_DEFAULT_ALLOC_BLOCK_ARRAY_SIZE :: nat where
  "HDS_UDP_POOL_DEFAULT_ALLOC_BLOCK_ARRAY_SIZE \<equiv> 128"
abbreviation (input) HDS_UDP_BUFFER_POOL_ARRAY_SIZE :: nat where
  "HDS_UDP_BUFFER_POOL_ARRAY_SIZE \<equiv> 64"
abbreviation (input) HDS_UDP_BUFFER_POOL_CTRL_UNIT :: nat where
  "HDS_UDP_BUFFER_POOL_CTRL_UNIT \<equiv> 8"

record mutex_pool_base =
  malloc_size :: nat
  pool_head :: addr
  buf_list :: "addr list option"
  buf_list_offset :: nat
  buf_list_size :: nat

text \<open>The loop that chains the objects of a block from the \<open>i\<close>th on.\<close>

primrec link_objects :: "nat \<Rightarrow> nat \<Rightarrow> addr \<Rightarrow> nat \<Rightarrow> cells \<Rightarrow> cells" where
  "link_objects 0 i base sz m = m"
| "link_objects (Suc n) i base sz m = link_objects n (i + 1) base sz (m(base + i * sz := base + (i + 1) * sz))"

definition pool_init :: "nat \<Rightarrow> bool \<Rightarrow> addr option \<Rightarrow> cells \<Rightarrow> (mutex_pool_base \<times> cells) option" where
  "pool_init object_size list_memory block m =
     (if \<not> list_memory then None
      else do {
        b \<leftarrow> block;
        let n = HDS_UDP_POOL_DEFAULT_ALLOC_OBJECT_SIZE;
        let cap = HDS_UDP_POOL_DEFAULT_ALLOC_BLOCK_ARRAY_SIZE;
        let m = link_objects (n - 1) 0 b object_size m;
        Some (\<lparr>malloc_size = object_size, pool_head = b, buf_list = Some ((replicate cap 0)[0 := b]),
            buf_list_offset = 1, buf_list_size = cap\<rparr>, m(b + (n - 1) * object_size := 0)) })"

definition grow_buf_list :: "bool \<Rightarrow> mutex_pool_base \<Rightarrow> mutex_pool_base option" where
  "grow_buf_list list_memory p =
     (if buf_list_offset p = buf_list_size p then
        if \<not> list_memory then None
        else Some (p\<lparr>buf_list := map_option (\<lambda>l. l @ replicate (buf_list_size p) 0) (buf_list p),
               buf_list_size := 2 * buf_list_size p\<rparr>)
      else Some p)"

text \<open>\<open>get_object\<close>: the first free object, or the first of a new block; \<open>0\<close> when memory runs out.\<close>

definition get_object :: "bool \<Rightarrow> addr option \<Rightarrow> mutex_pool_base \<times> cells \<Rightarrow> addr \<times> mutex_pool_base \<times> cells" where
  "get_object list_memory block = (\<lambda>(p, m).
     if pool_head p \<noteq> 0 then (pool_head p, p\<lparr>pool_head := m (pool_head p)\<rparr>, m)
     else case grow_buf_list list_memory p of
       None \<Rightarrow> (0, p, m)
     | Some p \<Rightarrow> (case block of
         None \<Rightarrow> (0, p, m)
       | Some nnode \<Rightarrow>
           let n = HDS_UDP_POOL_DEFAULT_ALLOC_OBJECT_SIZE; sz = malloc_size p;
               p = p\<lparr>buf_list := map_option (\<lambda>l. l[buf_list_offset p := nnode]) (buf_list p),
                     buf_list_offset := buf_list_offset p + 1\<rparr>;
               m = link_objects (n - 2) 1 nnode sz m;
               m = m(nnode + (n - 1) * sz := pool_head p)
           in (nnode, p\<lparr>pool_head := nnode + sz\<rparr>, m)))"

definition release_object :: "addr \<Rightarrow> mutex_pool_base \<times> cells \<Rightarrow> mutex_pool_base \<times> cells" where
  "release_object buf = (\<lambda>(p, m). (p\<lparr>pool_head := buf\<rparr>, m(buf := pool_head p)))"

text \<open>\<open>destroy\<close>: the blocks handed back to \<open>free\<close>.\<close>

definition pool_destroy :: "mutex_pool_base \<Rightarrow> addr list" where
  "pool_destroy p = takeWhile (\<lambda>b. b \<noteq> 0) (take (buf_list_offset p) (case buf_list p of None \<Rightarrow> [] | Some l \<Rightarrow> l))"

section \<open>The array of pools\<close>

record Buffer_Pool_state =
  pool_base_array :: "nat \<Rightarrow> mutex_pool_base"
  pool_cells :: cells

definition empty_pool :: mutex_pool_base where
  "empty_pool = \<lparr>malloc_size = 0, pool_head = 0, buf_list = None, buf_list_offset = 0, buf_list_size = 0\<rparr>"

text \<open>\<open>(size-1)/HDS_UDP_BUFFER_POOL_CTRL_UNIT\<close>, truncated towards zero.\<close>

definition pool_offset :: "int \<Rightarrow> int" where
  "pool_offset len = (if len < 1 then - ((1 - len) div 8) else (len - 1) div 8)"

text \<open>The static array is zero; \<open>init\<close> clears as many bytes as 64 of the smaller \<open>_pool_base_\<close> have, that
  is 2048 of 4608 bytes and 28 pools whole.\<close>

definition Buffer_Pool_init :: "Buffer_Pool_state \<Rightarrow> int \<times> Buffer_Pool_state" where
  "Buffer_Pool_init s = (0, s\<lparr>pool_base_array := (\<lambda>i. if i < 28 then empty_pool
      else if i = 28 then (pool_base_array s i)\<lparr>malloc_size := 0, pool_head := 0, buf_list := None\<rparr>
      else pool_base_array s i)\<rparr>)"

text \<open>A buffer behind the last pool comes from \<open>malloc\<close> (\<open>Inr\<close>).\<close>

definition Buffer_Pool_get_buffer ::
  "int \<Rightarrow> bool \<Rightarrow> addr option \<Rightarrow> addr option \<Rightarrow> Buffer_Pool_state \<Rightarrow> (addr \<times> Buffer_Pool_state) option" where
  "Buffer_Pool_get_buffer len list_memory block block2 s =
     (let offset = pool_offset len in
      if offset < int HDS_UDP_BUFFER_POOL_ARRAY_SIZE then
        if offset < 0 then None
        else do {
          let i = nat offset;
          (p, m) \<leftarrow> (if buf_list (pool_base_array s i) = None
                    then pool_init ((i + 1) * HDS_UDP_BUFFER_POOL_CTRL_UNIT) list_memory block (pool_cells s)
                    else Some (pool_base_array s i, pool_cells s));
          let (rebuf, p, m) = get_object list_memory block2 (p, m);
          Some (rebuf, s\<lparr>pool_base_array := (pool_base_array s)(i := p), pool_cells := m\<rparr>) }
      else Some (case block of None \<Rightarrow> 0 | Some b \<Rightarrow> b, s))"

definition Buffer_Pool_release_buffer :: "addr \<Rightarrow> int \<Rightarrow> Buffer_Pool_state \<Rightarrow> Buffer_Pool_state option" where
  "Buffer_Pool_release_buffer ptr len s =
     (let offset = pool_offset len in
      if offset < int HDS_UDP_BUFFER_POOL_ARRAY_SIZE then
        if offset < 0 \<or> ptr = 0 then None
        else
          let i = nat offset; (p, m) = release_object ptr (pool_base_array s i, pool_cells s)
          in Some (s\<lparr>pool_base_array := (pool_base_array s)(i := p), pool_cells := m\<rparr>)
      else Some s)"

definition Buffer_Pool_fini :: "Buffer_Pool_state \<Rightarrow> int \<times> addr list" where
  "Buffer_Pool_fini s = (0, concat (map (\<lambda>i. pool_destroy (pool_base_array s i)) [0..<HDS_UDP_BUFFER_POOL_ARRAY_SIZE]))"

section \<open>The free list\<close>

fun free_chain :: "cells \<Rightarrow> addr \<Rightarrow> addr list \<Rightarrow> bool" where
  "free_chain m h [] \<longleftrightarrow> h = 0"
| "free_chain m h (x # xs) \<longleftrightarrow> h = x \<and> x \<noteq> 0 \<and> free_chain m (m x) xs"

lemma free_chain_cong: "free_chain m h xs \<Longrightarrow> (\<And>x. x \<in> set xs \<Longrightarrow> m' x = m x) \<Longrightarrow> free_chain m' h xs"
  by (induction m h xs rule: free_chain.induct) auto

lemma link_objects_other: "a \<notin> {base + j * sz | j. i \<le> j \<and> j < i + n} \<Longrightarrow> link_objects n i base sz m a = m a"
proof (induction n arbitrary: i m)
  case (Suc n)
  have "a \<noteq> base + i * sz" using Suc.prems by auto
  moreover have "a \<notin> {base + j * sz | j. i + 1 \<le> j \<and> j < i + 1 + n}" using Suc.prems by auto
  ultimately show ?case using Suc.IH [of "i + 1"] by simp
qed simp

lemma link_objects_at: "0 < sz \<Longrightarrow> i \<le> j \<Longrightarrow> j < i + n \<Longrightarrow> link_objects n i base sz m (base + j * sz) = base + (j + 1) * sz"
proof (induction n arbitrary: i m)
  case (Suc n)
  show ?case
  proof (cases "j = i")
    case True
    have "base + j * sz \<notin> {base + k * sz | k. i + 1 \<le> k \<and> k < i + 1 + n}" using True Suc.prems(1) by auto
    then show ?thesis using True link_objects_other [of "base + j * sz" base sz "i + 1" n] by simp
  next
    case False
    then show ?thesis using Suc.IH [of "i + 1"] Suc.prems by simp
  qed
qed simp

text \<open>The objects of a block, and the chain that the loop builds.\<close>

definition block_objects :: "nat \<Rightarrow> addr \<Rightarrow> addr list" where
  "block_objects sz b = map (\<lambda>i. b + i * sz) [0..<512]"

lemma linked_chain:
  assumes "0 < b" "0 < sz" "\<forall>j. i \<le> j \<and> j < k \<longrightarrow> m (b + j * sz) = (if j + 1 = k then h else b + (j + 1) * sz)"
    "free_chain m h rest" "i < k"
  shows "free_chain m (b + i * sz) (map (\<lambda>j. b + j * sz) [i..<k] @ rest)"
  using assms(3,5)
proof (induction "k - i" arbitrary: i)
  case (Suc n)
  have up: "[i..<k] = i # [Suc i..<k]" using Suc.prems(2) by (rule upt_conv_Cons)
  show ?case
  proof (cases "i + 1 = k")
    case True
    then have e: "[Suc i..<k] = []" and "m (b + i * sz) = h" using Suc.prems by auto
    then show ?thesis unfolding up e using assms(1,4) by simp
  next
    case False
    then have "free_chain m (b + Suc i * sz) (map (\<lambda>j. b + j * sz) [Suc i..<k] @ rest)"
      using Suc.hyps(1) [of "Suc i"] Suc.hyps(2) Suc.prems by simp
    moreover have "m (b + i * sz) = b + Suc i * sz" using Suc.prems False by simp
    ultimately show ?thesis unfolding up using assms(1) by simp
  qed
qed simp

lemma free_chain_head: "free_chain m h xs \<Longrightarrow> h \<noteq> 0 \<Longrightarrow> \<exists>ys. xs = h # ys"
  by (cases xs) auto

lemma free_chain_null: "free_chain m 0 xs \<Longrightarrow> xs = []"
  by (cases xs) auto

section \<open>Pools and their clients\<close>

definition objects :: "nat \<Rightarrow> addr list \<Rightarrow> addr set" where
  "objects sz bs = (\<Union>b \<in> set bs. set (block_objects sz b))"

definition apart :: "nat \<Rightarrow> addr \<Rightarrow> addr \<Rightarrow> bool" where
  "apart n x y \<longleftrightarrow> x + n \<le> y \<or> y + n \<le> x"

definition blocks_apart :: "nat \<Rightarrow> addr list \<Rightarrow> bool" where
  "blocks_apart sz bs \<longleftrightarrow> 0 < sz \<and> (\<forall>b \<in> set bs. 0 < b) \<and> distinct bs \<and>
     (\<forall>b \<in> set bs. \<forall>b' \<in> set bs. b \<noteq> b' \<longrightarrow> apart (512 * sz) b b')"

lemma objects_iff: "x \<in> objects sz bs \<longleftrightarrow> (\<exists>b \<in> set bs. \<exists>i < 512. x = b + i * sz)"
proof -
  have "set (block_objects sz b) = {x. \<exists>i < 512. x = b + i * sz}" for b by (auto simp: block_objects_def)
  then show ?thesis by (simp add: objects_def)
qed

lemma objects_apart:
  assumes "blocks_apart sz bs" "x \<in> objects sz bs" "y \<in> objects sz bs" "x \<noteq> y"
  shows "apart sz x y"
proof -
  obtain b i b' j where x: "b \<in> set bs" "x = b + i * sz" "i < 512" and y: "b' \<in> set bs" "y = b' + j * sz" "j < 512"
    using assms(2,3) unfolding objects_iff by blast
  have end_of: "k * sz + sz \<le> 512 * sz" if "k < 512" for k using that mult_le_mono1 [of "Suc k" 512 sz] by simp
  show ?thesis
  proof (cases "b = b'")
    case True
    then have "i < j \<or> j < i" using assms(4) x y by (metis linorder_neqE_nat)
    then have "i * sz + sz \<le> j * sz \<or> j * sz + sz \<le> i * sz"
      using mult_le_mono1 [of "Suc i" j sz] mult_le_mono1 [of "Suc j" i sz] by auto
    then show ?thesis using x y True by (auto simp: apart_def)
  next
    case False
    then have "apart (512 * sz) b b'" using assms(1) x y by (auto simp: blocks_apart_def)
    then show ?thesis unfolding apart_def x(2) y(2) using end_of [OF x(3)] end_of [OF y(3)] by linarith
  qed
qed

definition pool_inv :: "nat \<Rightarrow> addr list \<Rightarrow> addr set \<Rightarrow> mutex_pool_base \<times> cells \<Rightarrow> bool" where
  "pool_inv sz bs used s \<longleftrightarrow> malloc_size (fst s) = sz \<and> blocks_apart sz bs \<and>
     (\<exists>fl. free_chain (snd s) (pool_head (fst s)) fl \<and> distinct fl \<and> set fl \<inter> used = {} \<and> set fl \<union> used = objects sz bs)"

lemma block_distinct: "0 < sz \<Longrightarrow> distinct (map (\<lambda>i. b + i * sz) [i..<n])"
  by (auto simp: distinct_map inj_on_def)

lemma pool_init_inv:
  assumes "pool_init sz lm (Some b) m = Some s" "blocks_apart sz [b]"
  shows "pool_inv sz [b] {} s"
proof -
  have sz: "0 < sz" "0 < b" using assms(2) by (auto simp: blocks_apart_def)
  let ?m = "(link_objects 511 0 b sz m)(b + 511 * sz := 0)"
  have s: "malloc_size (fst s) = sz" "pool_head (fst s) = b" "snd s = ?m"
    using assms(1) by (auto simp: pool_init_def split: if_splits)
  have "\<forall>j. 0 \<le> j \<and> j < 512 \<longrightarrow> ?m (b + j * sz) = (if j + 1 = 512 then 0 else b + (j + 1) * sz)"
    using link_objects_at [OF sz(1), of 0 _ 511 b m] sz(1) by auto
  from linked_chain [where m = ?m and h = 0 and rest = "[]", OF sz(2,1) this]
  have "free_chain ?m b (block_objects sz b)" by (simp add: block_objects_def del: fun_upd_apply)
  moreover have "distinct (block_objects sz b)" using block_distinct [OF sz(1)] by (simp add: block_objects_def)
  ultimately show ?thesis using s assms(2)
    by (auto simp: pool_inv_def objects_def intro!: exI [of _ "block_objects sz b"])
qed

text \<open>The clients of a pool: they take and give back objects, and write into those they hold.  A new block
  that \<open>malloc\<close> returns does not overlap the earlier ones.\<close>

inductive pool_step ::
    "nat \<Rightarrow> addr list \<times> addr set \<times> mutex_pool_base \<times> cells \<Rightarrow> addr list \<times> addr set \<times> mutex_pool_base \<times> cells \<Rightarrow> bool"
  for sz :: nat where
  get: "pool_step sz (bs, used, p, m) (if pool_head p = 0 then b # bs else bs, insert x used, p', m')"
    if "get_object lm (Some b) (p, m) = (x, p', m')" "x \<noteq> 0" "blocks_apart sz (b # bs)"
| get_failed: "pool_step sz (bs, used, p, m) (bs, used, p', m')" if "get_object lm block (p, m) = (0, p', m')" "block \<noteq> Some 0"
| release: "pool_step sz (bs, used, s) (bs, used - {x}, release_object x s)" if "x \<in> used"
| client_write: "pool_step sz (bs, used, p, m) (bs, used, p, m')"
    if "\<forall>a. (\<forall>x \<in> used. a \<notin> {x..<x + sz}) \<longrightarrow> m' a = m a"

lemma get_free:
  assumes "pool_inv sz bs used (p, m)" "pool_head p \<noteq> 0"
  shows "pool_inv sz bs (insert (pool_head p) used) (p\<lparr>pool_head := m (pool_head p)\<rparr>, m) \<and>
    pool_head p \<in> objects sz bs - used"
proof -
  from assms(1) obtain fl where fl: "free_chain m (pool_head p) fl" "distinct fl" "set fl \<inter> used = {}"
    "set fl \<union> used = objects sz bs" "malloc_size p = sz" "blocks_apart sz bs" by (auto simp: pool_inv_def)
  obtain xs where "fl = pool_head p # xs" using free_chain_head [OF fl(1) assms(2)] by blast
  with fl show ?thesis by (auto simp: pool_inv_def intro!: exI [of _ xs])
qed

lemma grow_fields: "grow_buf_list lm p = Some p' \<Longrightarrow> malloc_size p' = malloc_size p \<and> pool_head p' = pool_head p"
  by (auto simp: grow_buf_list_def split: if_splits)

lemma get_new_block:
  assumes inv: "pool_inv sz bs used (p, m)" and "pool_head p = 0" "get_object lm (Some b) (p, m) = (x, p', m')" "x \<noteq> 0"
    and fresh: "blocks_apart sz (b # bs)"
  shows "pool_inv sz (b # bs) (insert x used) (p', m') \<and> x = b"
proof -
  have sz: "0 < sz" "0 < b" using fresh by (auto simp: blocks_apart_def)
  let ?m = "(link_objects 510 1 b sz m)(b + 511 * sz := 0)"
  have ms: "malloc_size p = sz" using inv by (simp add: pool_inv_def)
  have r: "x = b" "malloc_size p' = sz" "pool_head p' = b + sz" "m' = ?m"
    using assms(2,3,4) ms by (auto simp: get_object_def Let_def split: option.splits dest!: grow_fields)
  from inv obtain fl where fl: "free_chain m (pool_head p) fl" "set fl \<union> used = objects sz bs" by (auto simp: pool_inv_def)
  then have used: "used = objects sz bs" using free_chain_null [of m fl] assms(2) by simp
  have "\<forall>j. 1 \<le> j \<and> j < 512 \<longrightarrow> ?m (b + j * sz) = (if j + 1 = 512 then 0 else b + (j + 1) * sz)"
    using link_objects_at [OF sz(1), of 1 _ 510 b m] sz(1) by auto
  from linked_chain [where m = ?m and h = 0 and rest = "[]", OF sz(2,1) this]
  have ch: "free_chain ?m (b + sz) (map (\<lambda>j. b + j * sz) [1..<512])" by (simp del: fun_upd_apply)
  have objs: "block_objects sz b = b # map (\<lambda>j. b + j * sz) [1..<512]"
    by (simp add: block_objects_def upt_conv_Cons [of 0 512])
  have disj: "set (block_objects sz b) \<inter> objects sz bs = {}"
  proof (rule ccontr)
    assume "set (block_objects sz b) \<inter> objects sz bs \<noteq> {}"
    then obtain i b' j where y: "b + i * sz = b' + j * sz" "i < 512" "j < 512" "b' \<in> set bs"
      by (auto simp: objects_def block_objects_def)
    moreover have "apart (512 * sz) b b'" "b \<noteq> b'" using fresh y(4) by (auto simp: blocks_apart_def)
    moreover have "i * sz < 512 * sz" "j * sz < 512 * sz" using y sz(1) by simp_all
    ultimately show False by (auto simp: apart_def)
  qed
  have dist: "distinct (block_objects sz b)" using block_distinct [OF sz(1)] by (simp add: block_objects_def)
  have "objects sz (b # bs) = set (block_objects sz b) \<union> objects sz bs" by (simp add: objects_def)
  with disj dist ch r used fresh show ?thesis
    unfolding objs pool_inv_def by (auto intro!: exI [of _ "map (\<lambda>j. b + j * sz) [1..<512]"])
qed

lemma pool_step_inv:
  assumes "pool_step sz (bs, used, s) (bs', used', s')" "pool_inv sz bs used s"
  shows "pool_inv sz bs' used' s'"
  using assms(1)
proof cases
  case (get lm b p m x p' m')
  show ?thesis
  proof (cases "pool_head p = 0")
    case True
    have "pool_inv sz bs used (p, m)" using assms(2) get by simp
    from get_new_block [OF this True get(5,6,7)] show ?thesis using get True by auto
  next
    case False
    then have "x = pool_head p" "p' = p\<lparr>pool_head := m (pool_head p)\<rparr>" "m' = m"
      using get(5) by (auto simp: get_object_def)
    then show ?thesis using get_free [of sz bs used p m] assms(2) get False by simp
  qed
next
  case (get_failed lm block p m p' m')
  have "pool_head p' = pool_head p" "malloc_size p' = malloc_size p" "m' = m"
    using get_failed(5,6) assms(2) get_failed(1)
    by (auto simp: get_object_def Let_def split: if_splits option.splits dest: grow_fields)
  then show ?thesis using assms(2) get_failed by (simp add: pool_inv_def)
next
  case (release x)
  obtain p m where s: "s = (p, m)" by fastforce
  from assms(2) obtain fl where fl: "free_chain m (pool_head p) fl" "distinct fl" "set fl \<inter> used = {}"
    "set fl \<union> used = objects sz bs" "malloc_size p = sz" "blocks_apart sz bs" by (auto simp: pool_inv_def s)
  have x: "x \<notin> set fl" using release fl(3) by auto
  have "x \<in> objects sz bs" using release fl(4) by auto
  then have "0 < x" using fl(6) unfolding objects_iff blocks_apart_def by auto
  moreover have "free_chain (m(x := pool_head p)) (pool_head p) fl" by (rule free_chain_cong [OF fl(1)]) (use x in auto)
  ultimately show ?thesis using release fl x
    by (auto simp: s pool_inv_def release_object_def intro!: exI [of _ "x # fl"])
next
  case (client_write m' m p)
  from assms(2) obtain fl where fl: "free_chain m (pool_head p) fl" "distinct fl" "set fl \<inter> used = {}"
    "set fl \<union> used = objects sz bs" "malloc_size p = sz" "blocks_apart sz bs" by (auto simp: pool_inv_def client_write)
  have "m' a = m a" if a: "a \<in> set fl" for a
  proof -
    have "a \<notin> {x..<x + sz}" if x: "x \<in> used" for x
    proof -
      have "apart sz a x" using objects_apart [OF fl(6), of a x] fl(3,4) a x by auto
      then show ?thesis using fl(6) by (auto simp: apart_def blocks_apart_def)
    qed
    then show ?thesis using client_write by blast
  qed
  then have "free_chain m' (pool_head p) fl" using free_chain_cong [OF fl(1)] by blast
  then show ?thesis using fl client_write by (auto simp: pool_inv_def)
qed

lemma pool_reachable_inv:
  assumes "(pool_step sz)\<^sup>*\<^sup>* x y" "pool_inv sz (fst x) (fst (snd x)) (snd (snd x))"
  shows "pool_inv sz (fst y) (fst (snd y)) (snd (snd y))"
  using assms
proof (induction rule: rtranclp_induct)
  case (step y z)
  then show ?case using pool_step_inv [of sz "fst y" "fst (snd y)" "snd (snd y)" "fst z" "fst (snd z)" "snd (snd z)"] by simp
qed

section \<open>Properties\<close>

text \<open>C28. A pool never hands out memory twice: after any sequence of takes, returns and writes by the clients
  into what they hold, the objects handed out lie in the pool's blocks and do not overlap, and the next
  object taken overlaps none of them.\<close>

theorem pool_no_overlap:
  assumes "pool_init sz lm (Some b) m = Some s" "blocks_apart sz [b]" "(pool_step sz)\<^sup>*\<^sup>* ([b], {}, s) (bs, used, p', m')"
  shows "used \<subseteq> objects sz bs \<and> (\<forall>x \<in> used. \<forall>y \<in> used. x \<noteq> y \<longrightarrow> apart sz x y) \<and>
    (\<forall>y \<in> used. pool_head p' \<noteq> 0 \<longrightarrow> fst (get_object lm' blk (p', m')) \<noteq> y \<and> apart sz (fst (get_object lm' blk (p', m'))) y)"
proof -
  have i: "pool_inv sz bs used (p', m')" using pool_reachable_inv [OF assms(3)] pool_init_inv [OF assms(1,2)] by simp
  then have u: "used \<subseteq> objects sz bs" and a: "blocks_apart sz bs" by (auto simp: pool_inv_def)
  have "fst (get_object lm' blk (p', m')) \<in> objects sz bs - used" if "pool_head p' \<noteq> 0"
    using get_free [OF i that] that by (simp add: get_object_def)
  then show ?thesis using u objects_apart [OF a] by blast
qed

theorem pool_no_overlap_witness:
  "\<exists>s. pool_init 8 True (Some 1000) (\<lambda>_. 0) = Some s \<and> blocks_apart 8 [1000] \<and>
    (\<exists>p' m'. (pool_step 8)\<^sup>*\<^sup>* ([1000], {}, s) ([1000], {1000}, p', m') \<and> {1000} \<subseteq> objects 8 [1000])"
proof -
  obtain p m where s: "pool_init 8 True (Some 1000) (\<lambda>_. 0) = Some (p, m)" and h: "pool_head p = 1000"
    by (simp add: pool_init_def)
  have a: "blocks_apart 8 [1000]" by (simp add: blocks_apart_def)
  have "get_object True (Some 10000) (p, m) = (1000, p\<lparr>pool_head := m 1000\<rparr>, m)" using h by (simp add: get_object_def)
  from get [OF this] have st: "pool_step 8 ([1000], {}, p, m) ([1000], {1000}, p\<lparr>pool_head := m 1000\<rparr>, m)"
    using h by (simp add: blocks_apart_def apart_def)
  show ?thesis using s a r_into_rtranclp [of "pool_step 8", OF st] pool_no_overlap [OF s a r_into_rtranclp [of "pool_step 8", OF st]] by blast
qed

lemma pool_offset_range:
  "1 \<le> n \<Longrightarrow> n \<le> 512 \<Longrightarrow> 0 \<le> pool_offset n \<and> pool_offset n < 64 \<and> n \<le> 8 * (pool_offset n + 1) \<and> 8 * (pool_offset n + 1) < n + 8"
  by (auto simp: pool_offset_def)

lemma get_object_size: "get_object lm blk (p, m) = (x, p', m') \<Longrightarrow> malloc_size p' = malloc_size p"
  by (auto simp: get_object_def Let_def split: if_splits option.splits dest: grow_fields)

text \<open>The size classes: a request of 1 to 512 bytes is served by one of the 64 pools and leaves the others
  alone; the objects of that pool are large enough for the request and at most seven bytes larger.\<close>

theorem buffer_size_class:
  assumes "1 \<le> n" "n \<le> 512" "i = nat (pool_offset n)"
    "buf_list (pool_base_array s i) = None \<or> malloc_size (pool_base_array s i) = 8 * (i + 1)"
    "Buffer_Pool_get_buffer n lm blk blk2 s = Some (r, s')"
  shows "i < 64 \<and> n \<le> int (malloc_size (pool_base_array s' i)) \<and> int (malloc_size (pool_base_array s' i)) < n + 8 \<and>
    (\<forall>j. j \<noteq> i \<longrightarrow> pool_base_array s' j = pool_base_array s j)"
proof -
  note c = pool_offset_range [OF assms(1,2)]
  obtain p m where p: "(if buf_list (pool_base_array s i) = None then pool_init ((i + 1) * 8) lm blk (pool_cells s)
         else Some (pool_base_array s i, pool_cells s)) = Some (p, m)"
    using assms(5) c by (auto simp: Buffer_Pool_get_buffer_def Let_def bind_eq_Some_conv simp flip: assms(3))
  obtain x p' m' where g: "get_object lm blk2 (p, m) = (x, p', m')" by (metis prod.exhaust)
  have s': "s' = s\<lparr>pool_base_array := (pool_base_array s)(i := p'), pool_cells := m'\<rparr>"
    using assms(5) c p g by (auto simp: Buffer_Pool_get_buffer_def Let_def simp flip: assms(3))
  have "malloc_size p = 8 * (i + 1)" using p assms(4) by (auto simp: pool_init_def bind_eq_Some_conv split: if_splits)
  then have "malloc_size (pool_base_array s' i) = 8 * (i + 1)" using get_object_size [OF g] s' by simp
  moreover have "int i = pool_offset n" using c assms(3) by simp
  ultimately show ?thesis using c s' by auto
qed

theorem buffer_size_class_witness:
  "\<exists>r s'. Buffer_Pool_get_buffer 20 True (Some 1000) None \<lparr>pool_base_array = (\<lambda>_. empty_pool), pool_cells = (\<lambda>_. 0)\<rparr> = Some (r, s') \<and>
     malloc_size (pool_base_array s' 2) = 24"
proof -
  let ?s = "\<lparr>pool_base_array = (\<lambda>_. empty_pool), pool_cells = (\<lambda>_. 0)\<rparr>"
  have c: "2 = nat (pool_offset 20)" by (simp add: pool_offset_def)
  obtain r s' where g: "Buffer_Pool_get_buffer 20 True (Some 1000) None ?s = Some (r, s')"
    by (simp add: Buffer_Pool_get_buffer_def pool_offset_def Let_def pool_init_def empty_pool_def case_prod_beta)
  have "malloc_size (pool_base_array s' 2) = 24"
    using g by (simp add: Buffer_Pool_get_buffer_def pool_offset_def Let_def pool_init_def empty_pool_def get_object_def
        split: prod.splits) auto
  then show ?thesis using buffer_size_class [OF _ _ c _ g] g by (simp add: empty_pool_def)
qed

text \<open>Taking a buffer from a pool that has a free one and giving it back with the same size leaves every
  pool and every link as it was.\<close>

theorem buffer_get_release:
  assumes "1 \<le> n" "n \<le> 512" "i = nat (pool_offset n)" "buf_list (pool_base_array s i) \<noteq> None" "pool_head (pool_base_array s i) \<noteq> 0"
  shows "\<exists>r s'. Buffer_Pool_get_buffer n lm blk blk2 s = Some (r, s') \<and> r = pool_head (pool_base_array s i) \<and>
    Buffer_Pool_release_buffer r n s' = Some s"
proof -
  note c = pool_offset_range [OF assms(1,2)]
  let ?p = "pool_base_array s i" and ?m = "pool_cells s"
  let ?s = "s\<lparr>pool_base_array := (pool_base_array s)(i := ?p\<lparr>pool_head := ?m (pool_head ?p)\<rparr>), pool_cells := ?m\<rparr>"
  have "Buffer_Pool_get_buffer n lm blk blk2 s = Some (pool_head ?p, ?s)"
    using c assms(4,5) by (auto simp: Buffer_Pool_get_buffer_def Let_def get_object_def simp flip: assms(3))
  moreover have "s\<lparr>pool_base_array := (pool_base_array s)(i := ?p), pool_cells := ?m\<rparr> = s" by simp
  then have "Buffer_Pool_release_buffer (pool_head ?p) n ?s = Some s"
    using c assms(5) by (simp add: Buffer_Pool_release_buffer_def Let_def release_object_def flip: assms(3))
  ultimately show ?thesis by blast
qed

definition pool_demo :: Buffer_Pool_state where
  "pool_demo = \<lparr>pool_base_array = (\<lambda>_. empty_pool\<lparr>malloc_size := 24, pool_head := 1000, buf_list := Some [1000]\<rparr>), pool_cells = (\<lambda>_. 0)\<rparr>"

theorem buffer_get_release_witness:
  "\<exists>r s'. Buffer_Pool_get_buffer 20 True None None pool_demo = Some (r, s') \<and> Buffer_Pool_release_buffer r 20 s' = Some pool_demo"
proof -
  have c: "2 = nat (pool_offset 20)" by (simp add: pool_offset_def)
  have "buf_list (pool_base_array pool_demo 2) \<noteq> None" "pool_head (pool_base_array pool_demo 2) \<noteq> 0"
    by (simp_all add: pool_demo_def empty_pool_def)
  from buffer_get_release [OF _ _ c this, of True None None] show ?thesis by auto
qed

end
