(* ===== verification/Method_Processor.thy ===== *)
theory Method_Processor
  imports Connection_Core HP_Map
begin

text \<open>
  The method processor (\<open>method_processor/HDS_UDP_Method_Processor.cpp\<close>): worker threads take the
  delivered messages, look up the processor registered for the message type in an \<open>HP_map\<close>, call it and
  then dispose of the buffer according to its type.  A processor is application code: it is an argument,
  a function from the message it is given to the message as it leaves it.
\<close>

section \<open>Operations\<close>

type_synonym processors = "nat \<Rightarrow> Result_Process_Data \<Rightarrow> Result_Process_Data"
type_synonym method_tree = "(MsgType, nat) rb_root"

definition query_separate_recv_buf :: "Result_Process_Data \<Rightarrow> int \<times> Result_Process_Data" where
  "query_separate_recv_buf pd = (case rp_buf_type pd of
     Some POOL_SPACE \<Rightarrow> (- 1, pd)
   | Some USER_SPACE_DEL \<Rightarrow> (0, pd\<lparr>rp_buf_type := Some USER_SPACE_NO_DEL\<rparr>)
   | Some MALLOC_SPACE_DEL \<Rightarrow> (0, pd\<lparr>rp_buf_type := Some MALLOC_SPACE_NO_DEL\<rparr>)
   | _ \<Rightarrow> (0, pd))"

definition registe_method :: "bool \<Rightarrow> MsgType \<Rightarrow> nat \<Rightarrow> method_tree \<Rightarrow> (int \<times> method_tree) option" where
  "registe_method memory msgType proc tree = HP_map_insert memory msgType proc tree"

datatype disposal = Kept | To_Pool "u8 list" | To_Free "u8 list"

definition dispose :: "Result_Process_Data \<Rightarrow> disposal" where
  "dispose pd = (case rp_buf_type pd of
     Some POOL_SPACE \<Rightarrow> To_Pool (rp_data pd)
   | Some MALLOC_SPACE_DEL \<Rightarrow> To_Free (rp_data pd)
   | Some USER_SPACE_DEL \<Rightarrow> To_Free (rp_data pd)
   | _ \<Rightarrow> Kept)"

text \<open>A round of \<open>_method_processor\<close> with a message from the queue: the processor called, if any, and what
  happens to the buffer.\<close>

definition method_processor_round ::
  "processors \<Rightarrow> method_tree \<Rightarrow> Result_Process_Data \<Rightarrow> (nat option \<times> disposal) option" where
  "method_processor_round procs tree process_data = do {
     (msgtype, _) \<leftarrow> read_long (ReaderCDR_new (rp_data process_data));
     Some (case HP_map_find msgtype tree of
       (r, Some p) \<Rightarrow> if r = 0 then (Some p, dispose (procs p process_data)) else (None, dispose process_data)
     | (r, None) \<Rightarrow> (None, dispose process_data)) }"

fun method_processor :: "processors \<Rightarrow> method_tree \<Rightarrow> Result_Process_Data list \<Rightarrow> (nat option \<times> disposal) list option" where
  "method_processor procs tree [] = Some []"
| "method_processor procs tree (m # ms) = do {
     r \<leftarrow> method_processor_round procs tree m;
     rs \<leftarrow> method_processor procs tree ms;
     Some (r # rs) }"

text \<open>Starting the workers: \<open>create i\<close> tells whether the \<open>i\<close>th thread could be made.\<close>

definition init_processor :: "nat \<Rightarrow> (nat \<Rightarrow> bool) \<Rightarrow> nat \<Rightarrow> int \<times> nat" where
  "init_processor cpu_cores create threads_count =
     (let n = (if threads_count = 0 then cpu_cores else threads_count)
      in (if list_all create [0..<n] then 0 else - 1, n))"

section \<open>Properties\<close>

definition message_of_type :: "MsgType \<Rightarrow> u8 list \<Rightarrow> Result_Process_Data \<Rightarrow> bool" where
  "message_of_type t body m \<longleftrightarrow> rp_data m = le_bytes32 t @ body"

lemma no_methods: "rb_ok (HP_map_new :: method_tree)" "HP_map_contents (HP_map_new :: method_tree) = Map.empty"
  by (rule hp_map.wf_empty)+

lemma round_read:
  assumes "message_of_type t body m"
  shows "\<exists>c. read_long (ReaderCDR_new (rp_data m)) = Some (t, c)"
  using cdr_long.rd_written [of "ReaderCDR_new (rp_data m)" t body] assms
  by (auto simp: message_of_type_def unread_def ReaderCDR_new_def)

lemma round_eq:
  assumes "rb_ok tree" "message_of_type t body m"
  shows "method_processor_round procs tree m = Some (case HP_map_contents tree t of
      None \<Rightarrow> (None, dispose m) | Some p \<Rightarrow> (Some p, dispose (procs p m)))"
  using round_read [OF assms(2)] hp_map.find_eq [OF assms(1), of t]
  by (auto simp: method_processor_round_def split: option.splits)

text \<open>Dispatch: after a processor is registered for a fresh message type, every message of that type goes
  to it and messages of other types go where they went before; a second registration of a type is
  refused.\<close>

theorem method_dispatch:
  assumes "rb_ok tree" "HP_map_contents tree t = None"
  shows "\<exists>tree'. registe_method True t p tree = Some (0, tree') \<and> rb_ok tree' \<and> registe_method True t p' tree' = Some (- 1, tree') \<and>
    (\<forall>procs m body t'. message_of_type t' body m \<longrightarrow>
      method_processor_round procs tree' m =
        (if t' = t then Some (Some p, dispose (procs p m)) else method_processor_round procs tree m))"
proof -
  obtain tree' where t: "HP_map_insert True t p tree = Some (0, tree')" "rb_ok tree'" "HP_map_contents tree' = (HP_map_contents tree)(t \<mapsto> p)"
    using hp_map.ins_new [OF assms, of p] by blast
  then have "HP_map_insert True t p' tree' = Some (- 1, tree')" using hp_map.ins_old [OF t(2)] by simp
  then show ?thesis using t assms(1) by (auto simp: registe_method_def round_eq)
qed

theorem method_dispatch_witness:
  "\<exists>tree'. registe_method True 300 7 HP_map_new = Some (0, tree') \<and>
     method_processor_round (\<lambda>_ m. m) tree' \<lparr>rp_remote_addr = [], rp_remote_addr_length = 0, rp_data_length = 4,
       rp_buf_type = Some POOL_SPACE, rp_data = le_bytes32 300\<rparr> = Some (Some 7, To_Pool (le_bytes32 300))"
proof -
  have "rb_ok (HP_map_new :: method_tree)" "HP_map_contents (HP_map_new :: method_tree) 300 = None"
    using no_methods by auto
  from method_dispatch [OF this, of 7 7] obtain tree' where r: "registe_method True 300 7 HP_map_new = Some (0, tree')"
    and d: "\<And>procs m body. message_of_type 300 body m \<Longrightarrow> method_processor_round procs tree' m = Some (Some 7, dispose (procs 7 m))"
    by auto
  let ?m = "\<lparr>rp_remote_addr = [], rp_remote_addr_length = 0, rp_data_length = 4,
       rp_buf_type = Some POOL_SPACE, rp_data = le_bytes32 300\<rparr>"
  have "message_of_type 300 [] ?m" by (simp add: message_of_type_def)
  from d [OF this, of "\<lambda>_ m. m"] r show ?thesis by (auto simp: dispose_def)
qed

text \<open>Who frees the buffer: if the processor asks to keep it and is told yes, the library leaves it alone;
  if it is told no, or does not ask, the library disposes of it, to the pool exactly when it came from
  there.\<close>

theorem buffer_disposed_once:
  assumes "rb_ok tree" "HP_map_contents tree t = Some p" "message_of_type t body m"
  shows "method_processor_round (procs(p := snd \<circ> query_separate_recv_buf)) tree m =
      Some (Some p, if fst (query_separate_recv_buf m) = 0 then Kept else To_Pool (rp_data m)) \<and>
    method_processor_round (procs(p := id)) tree m = Some (Some p, dispose m)"
  using round_eq [OF assms(1,3)] assms(2)
  by (auto simp: query_separate_recv_buf_def dispose_def split: option.splits Recv_Buf_Type.splits)

definition demo_message :: Result_Process_Data where
  "demo_message = \<lparr>rp_remote_addr = [], rp_remote_addr_length = 0, rp_data_length = 4,
     rp_buf_type = Some MALLOC_SPACE_DEL, rp_data = le_bytes32 300\<rparr>"

theorem buffer_disposed_once_witness:
  "\<exists>tree. method_processor_round ((\<lambda>_ m. m)(7 := snd \<circ> query_separate_recv_buf)) tree demo_message = Some (Some 7, Kept)"
proof -
  obtain tree :: method_tree where "rb_ok tree" "HP_map_contents tree 300 = Some 7"
    using hp_map.ins_new [OF no_methods(1), of 300 7] no_methods(2) by auto
  moreover have "message_of_type 300 [] demo_message" by (simp add: message_of_type_def demo_message_def)
  moreover have "fst (query_separate_recv_buf demo_message) = 0" by (simp add: query_separate_recv_buf_def demo_message_def)
  ultimately show ?thesis using buffer_disposed_once [of tree 300 7 "[]" demo_message "\<lambda>_ m. m"] by auto
qed

text \<open>The type is read without looking at the length: a delivered message of fewer than four bytes makes
  the worker read outside its buffer.\<close>

theorem short_message_overread:
  assumes "length (rp_data m) < 4"
  shows "method_processor_round procs tree m = None"
  using assms by (simp add: method_processor_round_def read_long_def read_char_array_def ReaderCDR_new_def)

theorem short_message_overread_witness:
  "method_processor_round (\<lambda>_ m. m) HP_map_new (demo_message\<lparr>rp_data := [1]\<rparr>) = None"
  by (rule short_message_overread) simp

end
