(* ===== verification/HDS_UDP_API.thy ===== *)
theory HDS_UDP_API
  imports Simple_Transfer Complex_Connection Method_Processor
begin

unbundle bit_operations_syntax

text \<open>
  The interface of the library (\<open>include/HDS_UDP.cpp\<close>): starting and stopping it, sending, asking about
  connections.  A function that returns \<open>-1\<close> on failure returns the pair of that code and what else it
  changes.  The start functions of the layers below are an argument: their result codes in the order of
  the calls.
\<close>

section \<open>Starting and stopping\<close>

record layer_codes =
  buffer_pool_code :: int
  wait_ack_queue_code :: int
  connection_code :: int
  kernel_code :: int
  processor_code :: int
  timer_code :: int
  sender_code :: int

datatype layer = Layer_Buffer_Pool | Layer_Wait_Ack_Queue | Layer_Connection | Layer_Kernel | Layer_Processor
  | Layer_Timer | Layer_Sender

text \<open>The layers started, in order, and the code.\<close>

definition init_HDS_UDP :: "layer_codes \<Rightarrow> int \<times> layer list" where
  "init_HDS_UDP r =
     (if buffer_pool_code r = - 1 then (- 1, [])
      else if wait_ack_queue_code r = - 1 then (- 1, [Layer_Buffer_Pool])
      else if connection_code r = - 1 then (- 1, [Layer_Buffer_Pool, Layer_Wait_Ack_Queue])
      else if kernel_code r = - 1 then (- 1, [Layer_Buffer_Pool, Layer_Wait_Ack_Queue, Layer_Connection])
      else if processor_code r = - 1 then (- 1, [Layer_Buffer_Pool, Layer_Wait_Ack_Queue, Layer_Connection, Layer_Kernel])
      else if timer_code r = - 1
        then (- 1, [Layer_Buffer_Pool, Layer_Wait_Ack_Queue, Layer_Connection, Layer_Kernel, Layer_Processor])
      else if sender_code r = - 1
        then (- 1, [Layer_Buffer_Pool, Layer_Wait_Ack_Queue, Layer_Connection, Layer_Kernel, Layer_Processor, Layer_Timer])
      else (0, [Layer_Buffer_Pool, Layer_Wait_Ack_Queue, Layer_Connection, Layer_Kernel, Layer_Processor, Layer_Timer, Layer_Sender]))"

definition fini_HDS_UDP :: "layer_codes \<Rightarrow> int \<times> layer list" where
  "fini_HDS_UDP r =
     (if processor_code r = - 1 then (- 1, [])
      else if sender_code r = - 1 then (- 1, [Layer_Processor])
      else if timer_code r = - 1 then (- 1, [Layer_Processor, Layer_Sender])
      else if kernel_code r = - 1 then (- 1, [Layer_Processor, Layer_Sender, Layer_Timer])
      else if connection_code r \<noteq> 0 then (- 1, [Layer_Processor, Layer_Sender, Layer_Timer, Layer_Kernel])
      else if wait_ack_queue_code r = - 1
        then (- 1, [Layer_Processor, Layer_Sender, Layer_Timer, Layer_Kernel, Layer_Connection])
      else if buffer_pool_code r = - 1
        then (- 1, [Layer_Processor, Layer_Sender, Layer_Timer, Layer_Kernel, Layer_Connection, Layer_Wait_Ack_Queue])
      else (0, [Layer_Processor, Layer_Sender, Layer_Timer, Layer_Kernel, Layer_Connection, Layer_Wait_Ack_Queue, Layer_Buffer_Pool]))"

section \<open>Sending\<close>

text \<open>\<open>send\<close> passes the address of its own pointer argument, so the datagram goes to whatever the stack holds
  there (\<open>stack\<close>), not to \<open>addr\<close>.\<close>

definition HDS_UDP_send :: "u8 list \<Rightarrow> u8 list \<Rightarrow> nat \<Rightarrow> sockaddr \<Rightarrow> u32 \<Rightarrow> world \<Rightarrow> world" where
  "HDS_UDP_send stack block len addr addr_length w = kernel_send block len stack addr_length w"

abbreviation (input) sizeof_sockaddr_in :: u32 where
  "sizeof_sockaddr_in \<equiv> 16"

definition Post_Send :: "u8 list \<Rightarrow> nat \<Rightarrow> sockaddr \<Rightarrow> world \<Rightarrow> world" where
  "Post_Send block len addr w = kernel_send block len addr sizeof_sockaddr_in w"

definition started :: "Connection_ID option \<times> world \<Rightarrow> int \<times> Connection_ID option \<times> world" where
  "started r = (case r of (None, w) \<Rightarrow> (- 1, None, w) | (Some i, w) \<Rightarrow> (0, Some i, w))"

definition C_RSendLink ::
  "message_node list \<Rightarrow> sockaddr \<Rightarrow> u64 \<Rightarrow> u64 \<Rightarrow> world \<Rightarrow> (int \<times> Connection_ID option \<times> world) option" where
  "C_RSendLink node addr defaultSSTHRESH maxWindowSize w =
     map_option started (start_link_send node addr sizeof_sockaddr_in defaultSSTHRESH maxWindowSize w)"

definition Send_Link ::
  "message_node list \<Rightarrow> sockaddr \<Rightarrow> u32 \<Rightarrow> u64 \<Rightarrow> u64 \<Rightarrow> world \<Rightarrow> (int \<times> Connection_ID option \<times> world) option" where
  "Send_Link node addr addr_length defaultSSTHRESH maxWindowSize w =
     map_option started (start_link_send node addr addr_length defaultSSTHRESH maxWindowSize w)"

definition CSend ::
  "u8 list \<Rightarrow> u32 \<Rightarrow> sockaddr \<Rightarrow> SENDED_DEL_TYPE \<Rightarrow> nat option \<Rightarrow> world \<Rightarrow> (int \<times> Connection_ID option \<times> world) option" where
  "CSend block len addr dtype handler w =
     map_option started (start_sender [] (Some block) len addr sizeof_sockaddr_in dtype handler
       HDS_UDP_DEFAULT_SSTHRESH_SIZE (- 1) w)"

definition C_RSend ::
  "u8 list \<Rightarrow> u32 \<Rightarrow> sockaddr \<Rightarrow> SENDED_DEL_TYPE \<Rightarrow> nat option \<Rightarrow> u64 \<Rightarrow> u64 \<Rightarrow> world \<Rightarrow>
   (int \<times> Connection_ID option \<times> world) option" where
  "C_RSend block len addr dtype handler defaultSSTHRESH maxWindowSize w =
     map_option started (start_sender [] (Some block) len addr sizeof_sockaddr_in dtype handler
       defaultSSTHRESH maxWindowSize w)"

section \<open>Asking and telling\<close>

definition regeditProcessor :: "bool \<Rightarrow> MsgType \<Rightarrow> nat \<Rightarrow> method_tree \<Rightarrow> method_tree option" where
  "regeditProcessor memory type pProcessor tree = map_option snd (registe_method memory type pProcessor tree)"

definition stop_connection :: "Connection_ID \<Rightarrow> world \<Rightarrow> (int \<times> world) option" where
  "stop_connection con_ID w = connection_do_connection_stop con_ID w"

definition get_recv_small_con_num :: "world \<Rightarrow> u32" where
  "get_recv_small_con_num w = ucast (type_count w Simple_Reader)"

definition get_recv_big_con_num :: "world \<Rightarrow> u32" where
  "get_recv_big_con_num w = ucast (type_count w Complex_Reader)"

definition get_send_small_con_num :: "world \<Rightarrow> u32" where
  "get_send_small_con_num w = ucast (type_count w Simple_Writer)"

definition get_send_big_con_num :: "world \<Rightarrow> u32" where
  "get_send_big_con_num w = ucast (type_count w Complex_Writer)"

definition set_big_file_reader_must_crrecv :: "world \<Rightarrow> world" where
  "set_big_file_reader_must_crrecv w = set_complex_file_need_verification w"

definition reset_big_file_reader_must_crrecv :: "world \<Rightarrow> world" where
  "reset_big_file_reader_must_crrecv w = reset_complex_file_need_verification w"

definition get_timeout_count :: "world \<Rightarrow> u64" where
  "get_timeout_count w = complex_time_out_count w + time_out_count w"

end
