(* ===== verification/Connection_Sender.thy ===== *)
theory Connection_Sender
  imports Blocking_Queue
begin

text \<open>
  The sender threads (\<open>connection/HDS_UDP_Connection_Sender.cpp\<close>): each takes connection offsets from the blocking
  queue, without a time limit, and hands them to \<open>connection_do_sender\<close>, until \<open>_hexit\<close> is set.  The steps inside
  \<open>dequeue\<close> are those of a reader of \<open>Blocking_Queue\<close>; the queue's history \<open>taken\<close> lists the offsets handed over.
\<close>

section \<open>State and steps\<close>

datatype routine_pc = Loop_Top | In_Dequeue | Returned

datatype fini_pc = Running | Flag_Set | Joining

record sender_system =
  send_queue :: "int bq_system"
  routine :: "nat \<Rightarrow> routine_pc"
  thread_count :: nat
  hexit :: bool
  fini_at :: fini_pc

text \<open>\<open>thread_num\<close> zero asks for one thread per core.\<close>

definition init_sender :: "nat \<Rightarrow> nat \<Rightarrow> sender_system" where
  "init_sender cores thread_num = \<lparr>send_queue = bq_start, routine = (\<lambda>_. Loop_Top),
     thread_count = (if thread_num = 0 then cores else thread_num), hexit = False, fini_at = Running\<rparr>"

definition add_to_send_queue :: "nat \<Rightarrow> int \<Rightarrow> sender_system \<Rightarrow> sender_system option" where
  "add_to_send_queue a offset s = map_option
     (\<lambda>(b, q). s\<lparr>send_queue := (send_queue s)\<lparr>bq := q, pc := wake b (pc (send_queue s)), stored := stored (send_queue s) @ [offset]\<rparr>\<rparr>)
     (enqueue (Some a) offset (bq (send_queue s)))"

text \<open>\<open>fini_sender\<close> sets the flag, then broadcasts without a lock, then joins the threads.\<close>

definition fini_flag :: "sender_system \<Rightarrow> sender_system" where
  "fini_flag s = s\<lparr>hexit := True, fini_at := Flag_Set\<rparr>"

definition fini_wait_up :: "sender_system \<Rightarrow> sender_system" where
  "fini_wait_up s = s\<lparr>send_queue := (send_queue s)\<lparr>pc := wake True (pc (send_queue s))\<rparr>, fini_at := Joining\<rparr>"

text \<open>A step of \<open>_sender_routine\<close> in thread \<open>t\<close>: the loop condition, or a step inside \<open>dequeue\<close>.\<close>

inductive sender_routine :: "nat \<Rightarrow> sender_system \<Rightarrow> sender_system \<Rightarrow> bool" for t :: nat where
  loop_check: "routine s t = Loop_Top \<Longrightarrow>
    sender_routine t s (s\<lparr>routine := (routine s)(t := if hexit s then Returned else In_Dequeue)\<rparr>)"
| dequeue_turn: "routine s t = In_Dequeue \<Longrightarrow> reader_turn t (send_queue s) q \<Longrightarrow>
    sender_routine t s (s\<lparr>send_queue := q, routine := (routine s)(t := if pc q t = Outside then Loop_Top else In_Dequeue)\<rparr>)"

inductive sender_step :: "sender_system \<Rightarrow> sender_system \<Rightarrow> bool" where
  thread: "t < thread_count s \<Longrightarrow> sender_routine t s s' \<Longrightarrow> sender_step s s'"
| add: "s_list_usable a (queue (bq (send_queue s)) (write_queue_cursor (bq (send_queue s)))) \<Longrightarrow>
    add_to_send_queue a offset s = Some s' \<Longrightarrow> sender_step s s'"
| spurious: "pc (send_queue s) t = Waiting \<Longrightarrow>
    sender_step s (s\<lparr>send_queue := (send_queue s)\<lparr>pc := (pc (send_queue s))(t := Woken)\<rparr>\<rparr>)"
| flag: "fini_at s = Running \<Longrightarrow> sender_step s (fini_flag s)"
| wait_up: "fini_at s = Flag_Set \<Longrightarrow> sender_step s (fini_wait_up s)"

inductive_cases sender_routineE: "sender_routine t s s'"
inductive_cases waiting_turnE: "reader_turn t s s'"

section \<open>The queue's invariant carries over\<close>

lemma wake_inv: "bq_inv q \<Longrightarrow> bq_inv (q\<lparr>pc := wake b (pc q)\<rparr>)"
  by (auto simp: bq_inv_def wake_def)

definition sender_inv :: "sender_system \<Rightarrow> bool" where
  "sender_inv s \<longleftrightarrow> bq_inv (send_queue s) \<and> (hexit s \<longleftrightarrow> fini_at s \<noteq> Running) \<and>
     (\<forall>t. routine s t \<noteq> In_Dequeue \<longrightarrow> pc (send_queue s) t = Outside) \<and> (\<forall>t. routine s t = Returned \<longrightarrow> hexit s)"

lemma reader_turn_others: "reader_turn t q q' \<Longrightarrow> u \<noteq> t \<Longrightarrow> pc q' u = pc q u"
  by (induction rule: reader_turn.induct) auto

lemma sender_routine_inv: "sender_routine t s s' \<Longrightarrow> sender_inv s \<Longrightarrow> sender_inv s'"
proof (induction rule: sender_routine.induct)
  case (dequeue_turn s q)
  then show ?case using reader_turn_inv [of t "send_queue s" q] reader_turn_others [of t "send_queue s" q]
    by (auto simp: sender_inv_def)
qed (auto simp: sender_inv_def)

lemma sender_step_inv: "sender_step s s' \<Longrightarrow> sender_inv s \<Longrightarrow> sender_inv s'"
proof (induction rule: sender_step.induct)
  case (add a s offset s')
  then obtain b q where q: "enqueue (Some a) offset (bq (send_queue s)) = Some (b, q)"
    "s' = s\<lparr>send_queue := (send_queue s)\<lparr>bq := q, pc := wake b (pc (send_queue s)), stored := stored (send_queue s) @ [offset]\<rparr>\<rparr>"
    by (auto simp: add_to_send_queue_def)
  then show ?case using add bq_step_inv [OF bq_step.bq_enqueue [OF add(1) q(1)]] by (auto simp: sender_inv_def wake_def)
next
  case (spurious s t)
  then show ?case using bq_step_inv [OF bq_step.bq_spurious [of "send_queue s" t]] by (auto simp: sender_inv_def)
next
  case (thread t s s')
  show ?case by (rule sender_routine_inv [OF thread(2,3)])
next
  case (flag s)
  then show ?case by (auto simp: sender_inv_def fini_flag_def)
next
  case (wait_up s)
  then show ?case using wake_inv [of "send_queue s" True] by (auto simp: sender_inv_def fini_wait_up_def wake_def)
qed

lemma sender_reachable:
  assumes "sender_step\<^sup>*\<^sup>* (init_sender cores n) s"
  shows "sender_inv s"
proof -
  have start: "sender_inv (init_sender cores n)" by (simp add: sender_inv_def init_sender_def bq_start_inv) (simp add: bq_start_def)
  show ?thesis using assms by (induction rule: rtranclp_induct) (auto intro: sender_step_inv start)
qed

section \<open>Properties\<close>

text \<open>The sender threads hand every queued connection over exactly once and in order: over every interleaving of any
  number of threads, of \<open>add_to_send_queue\<close> and of the shutdown, what has been handed to \<open>connection_do_sender\<close>
  followed by what is still queued is what was added; and no thread leaves its loop before the shutdown has
  begun, nor inside the queue.\<close>

theorem senders_hand_over:
  assumes "sender_step\<^sup>*\<^sup>* (init_sender cores n) s"
  shows "taken (send_queue s) @ bq_contents (bq (send_queue s)) = stored (send_queue s) \<and>
    (routine s t = Returned \<longrightarrow> hexit s \<and> pc (send_queue s) t = Outside)"
  using sender_reachable [OF assms] by (auto simp: sender_inv_def bq_inv_def)

text \<open>A run of one thread in which the broadcast comes before the wait.\<close>

lemma hang_run:
  "\<exists>s. sender_step\<^sup>*\<^sup>* (init_sender cores 1) s \<and> fini_at s = Joining \<and> routine s 0 = In_Dequeue \<and> pc (send_queue s) 0 = Waiting"
proof -
  let ?q = "(Blocking_Queue_new :: int HDS_Blocking_Queue)" and ?b = "(bq_start :: int bq_system)"
  let ?q1 = "?b\<lparr>bq := ?q, pc := (pc ?b)(0 := At_Lock), read_lock := Some 0\<rparr>"
  let ?q2 = "?q1\<lparr>bq := ?q\<lparr>reader_blocked := 1\<rparr>, pc := (pc ?q1)(0 := Before_Wait)\<rparr>"
  let ?q3 = "?q2\<lparr>pc := (pc ?q2)(0 := Waiting), read_lock := None\<rparr>"
  have t1: "reader_turn 0 ?b ?q1"
    by (rule reader_turn.bq_look) (simp_all add: bq_start_def dequeue_begin_def Blocking_Queue_new_def s_list_size_def s_list_new_def)
  have t2: "reader_turn 0 ?q1 ?q2"
    by (rule reader_turn.bq_block) (simp_all add: dequeue_locked_def Blocking_Queue_new_def s_list_size_def s_list_new_def)
  have t3: "reader_turn 0 ?q2 ?q3" by (rule reader_turn.bq_wait) simp
  let ?s0 = "init_sender cores 1"
  let ?s1 = "?s0\<lparr>routine := (routine ?s0)(0 := In_Dequeue)\<rparr>"
  let ?s3 = "fini_wait_up (fini_flag ?s1)"
  let ?at = "\<lambda>q s. s\<lparr>send_queue := q, routine := (routine s)(0 := In_Dequeue)\<rparr>"
  have no_waiter: "send_queue ?s3 = ?b" by (auto simp: fini_wait_up_def fini_flag_def init_sender_def wake_def bq_start_def fun_eq_iff)
  have turn: "sender_step s (?at q s)" if "routine s 0 = In_Dequeue" "reader_turn 0 (send_queue s) q" "pc q 0 \<noteq> Outside" "thread_count s = 1" for s q
    using sender_step.thread [OF _ sender_routine.dequeue_turn [OF that(1,2)]] that(3,4) by simp
  have "sender_step ?s0 ?s1"
    using sender_step.thread [OF _ sender_routine.loop_check [of ?s0 0]] by (simp add: init_sender_def)
  moreover have "sender_step ?s1 (fini_flag ?s1)" by (rule sender_step.flag) (simp add: init_sender_def)
  moreover have "sender_step (fini_flag ?s1) ?s3" by (rule sender_step.wait_up) (simp add: fini_flag_def)
  moreover have "sender_step ?s3 (?at ?q1 ?s3)"
    by (rule turn, simp add: fini_wait_up_def fini_flag_def, simp only: no_waiter, rule t1)
      (simp_all add: fini_wait_up_def fini_flag_def init_sender_def)
  moreover have "sender_step (?at ?q1 ?s3) (?at ?q2 (?at ?q1 ?s3))"
    by (rule turn) (use t2 in simp_all, simp_all add: fini_wait_up_def fini_flag_def init_sender_def)
  moreover have "sender_step (?at ?q2 (?at ?q1 ?s3)) (?at ?q3 (?at ?q2 (?at ?q1 ?s3)))"
    by (rule turn) (use t3 in simp_all, simp_all add: fini_wait_up_def fini_flag_def init_sender_def)
  ultimately have "sender_step\<^sup>*\<^sup>* ?s0 (?at ?q3 (?at ?q2 (?at ?q1 ?s3)))"
    by (meson converse_rtranclp_into_rtranclp rtranclp.rtrancl_refl)
  then show ?thesis by (intro exI conjI, assumption) (simp_all add: fini_wait_up_def)
qed

text \<open>C34. The shutdown can hang.  A thread has found \<open>_hexit\<close> clear and is on its way into the wait; \<open>fini_sender\<close> sets
  the flag and broadcasts to nobody; the thread waits without a time limit, can make no step any more, and
  \<open>fini_sender\<close> is left joining it.\<close>

theorem fini_sender_hangs:
  "\<exists>s. sender_step\<^sup>*\<^sup>* (init_sender cores 1) s \<and> fini_at s = Joining \<and> routine s 0 \<noteq> Returned \<and> (\<nexists>s'. sender_routine 0 s s')"
proof -
  obtain s where s: "sender_step\<^sup>*\<^sup>* (init_sender cores 1) s" "fini_at s = Joining" "routine s 0 = In_Dequeue" "pc (send_queue s) 0 = Waiting"
    using hang_run by blast
  then have "\<nexists>s'. sender_routine 0 s s'" by (auto elim!: sender_routineE waiting_turnE)
  with s show ?thesis by auto
qed

theorem senders_hand_over_witness:
  "\<exists>s. sender_step\<^sup>*\<^sup>* (init_sender 4 1) s \<and> fini_at s = Joining \<and>
     taken (send_queue s) @ bq_contents (bq (send_queue s)) = stored (send_queue s)"
proof -
  obtain s where s: "sender_step\<^sup>*\<^sup>* (init_sender 4 1) s" "fini_at s = Joining" using hang_run by blast
  with senders_hand_over [OF s(1), of 0] show ?thesis by blast
qed

end
