(* ===== verification/Tunnel_Control.thy ===== *)
theory Tunnel_Control
  imports TCP_Server Ini_Reader
begin

text \<open>
  Control of the tunnel: the options a client packs from its configuration and the server applies
  (\<open>tysocks/common/sockopt.hpp\<close>), and the life of the server object from \<open>run\<close> to its end
  (\<open>tysocks/server/S5Server.cpp\<close>).
\<close>

section \<open>Options\<close>

text \<open>The integers are \<open>long\<close> in the configuration and cut to 32 bits in the packet.\<close>

definition pack_sock_opt :: "string \<Rightarrow> ini_values \<Rightarrow> u8 list" where
  "pack_sock_opt type reader =
     (let winsize = of_int (GetInteger reader type ''windowSize'' 500);
          rsnddelay = of_int (GetInteger reader type ''resendDelay'' 250);
          speedlimit = of_int (GetInteger reader type ''maxPPS'' 50000);
          ackdelay = of_int (GetInteger reader type ''ACKDelay'' 100);
          sackdelay = of_int (GetInteger reader type ''SACKDelay'' 100);
          sackthreshold = of_int (GetInteger reader type ''SACKThreshold'' 10);
          resendTimeout = of_int (GetInteger reader type ''resendTimeout'' 1000)
      in [67, 70, 71, 0xFF] @ le_bytes32 winsize @ le_bytes32 rsnddelay @ le_bytes32 speedlimit @ le_bytes32 ackdelay @
         le_bytes32 sackdelay @ le_bytes32 sackthreshold @ le_bytes32 resendTimeout)"

text \<open>The names of the options in the configuration, and the parameters of the server's queues they are for.\<close>

definition option_names :: "string list" where
  "option_names = [''windowSize'', ''resendDelay'', ''maxPPS'', ''ACKDelay'', ''SACKDelay'', ''SACKThreshold'', ''resendTimeout'']"

definition option_fields :: "(sock_opts \<Rightarrow> u32) list" where
  "option_fields = [window_size, resend_delay, speed_limit, ack_send_delay, sack_send_delay, sack_threshold, max_resend_timeout]"

section \<open>The life of the server\<close>

datatype run_pc = Loop_Test | Going_To_Wait | In_Wait | Left

record s5_run =
  stop_loop :: bool
  run_at :: run_pc
  hb_active :: bool

definition run_start :: s5_run where
  "run_start = \<lparr>stop_loop = False, run_at = Loop_Test, hb_active = True\<rparr>"

text \<open>\<open>on_event\<close>: the first report of a lost remote sets the flag, stops the heartbeat and notifies; every other call
  does nothing but log.\<close>

definition on_event :: "int \<Rightarrow> s5_run \<Rightarrow> s5_run" where
  "on_event code s =
     (if code = - 2002 then
        if stop_loop s then s
        else s\<lparr>stop_loop := True, hb_active := False, run_at := (if run_at s = In_Wait then Loop_Test else run_at s)\<rparr>
      else s)"

text \<open>The loop of \<open>run\<close>; between the test and the wait other threads can act.  A wait can end by itself.\<close>

inductive run_step :: "s5_run \<Rightarrow> s5_run \<Rightarrow> bool" where
  test: "run_at s = Loop_Test \<Longrightarrow> run_step s (s\<lparr>run_at := if stop_loop s then Left else Going_To_Wait\<rparr>)"
| wait: "run_at s = Going_To_Wait \<Longrightarrow> run_step s (s\<lparr>run_at := In_Wait\<rparr>)"
| spurious: "run_at s = In_Wait \<Longrightarrow> run_step s (s\<lparr>run_at := Loop_Test\<rparr>)"
| event: "run_step s (on_event code s)"

text \<open>What \<open>run\<close> does after its loop: every handler of the list is shut down.\<close>

definition run_cleanup :: "s5_server \<Rightarrow> s5_server" where
  "run_cleanup s = fold shutdown [0..<max_conn s] s"

section \<open>Lemmas\<close>

lemma sless_control: "(le_word32 [67, 70, 71, 0xFF] :: u32) <s 0"
  by code_simp

lemma control_read:
  "read_bytes (pack_sock_opt type m) 0 4 = Some [67, 70, 71, 0xFF]" "length (pack_sock_opt type m) = 32"
  "take 4 (pack_sock_opt type m) = [67, 70, 71, 0xFF]"
  by (simp_all add: pack_sock_opt_def read_bytes_def Let_def)

lemma take_word: "le_word32 (le_bytes32 x @ rest) = x"
proof -
  have "le_word32 (le_bytes32 x @ rest) = le_word32 (le_bytes32 x)" by (simp add: le_word32_def nth_append)
  then show ?thesis by simp
qed

lemma options_applied:
  "on_data env r (pack_sock_opt type m) s = Some (s\<lparr>sock_opt := \<lparr>
     window_size = of_int (GetInteger m type ''windowSize'' 500), resend_delay = of_int (GetInteger m type ''resendDelay'' 250),
     speed_limit = of_int (GetInteger m type ''maxPPS'' 50000), max_resend_timeout = of_int (GetInteger m type ''resendTimeout'' 1000),
     ack_send_delay = of_int (GetInteger m type ''ACKDelay'' 100), sack_send_delay = of_int (GetInteger m type ''SACKDelay'' 100),
     sack_threshold = of_int (GetInteger m type ''SACKThreshold'' 10)\<rparr>\<rparr>)"
  (is "_ = Some ?s'")
proof -
  have "apply_sock_opt (pack_sock_opt type m) s = Some ?s'"
    using take_word take_word [of _ "[]"]
    by (simp add: apply_sock_opt_def control_read(2)) (simp add: pack_sock_opt_def Let_def)
  moreover have "process_control_packet (pack_sock_opt type m) s = apply_sock_opt (pack_sock_opt type m) s"
    by (simp add: process_control_packet_def control_read(2)) (simp add: pack_sock_opt_def Let_def)
  ultimately show ?thesis using sless_control control_read(1) [of type m] by (simp add: on_data_def)
qed

lemma option_field:
  assumes "k < 7"
  shows "\<exists>d. \<forall>env r type m s s'. on_data env r (pack_sock_opt type m) s = Some s' \<longrightarrow>
    (option_fields ! k) (sock_opt s') = of_int (GetInteger m type (option_names ! k) d)"
proof -
  have "k \<in> {0, 1, 2, 3, 4, 5, 6}" using assms by auto
  then show ?thesis by (auto simp: options_applied option_fields_def option_names_def)
qed

lemma GetInteger_read: "m (MakeKey s n) = Some v \<Longrightarrow> strtol v = Some k \<Longrightarrow> GetInteger m s n d = k"
  by (simp add: GetInteger_def INIReader_Get_def)

fun closings :: "tcp_handler option \<Rightarrow> u8 list list" where
  "closings None = []"
| "closings (Some h) = [closing_packet (conn_id h)]"

lemma shutdown_list: "conn_list (shutdown i s) = (conn_list s)(i := None)"
  "tunnel (shutdown i s) = tunnel s @ closings (conn_list s i)"
  by (auto simp: shutdown_def fun_eq_iff split: option.splits)

lemma fold_shutdown:
  "distinct is \<Longrightarrow> conn_list (fold shutdown is s) = (\<lambda>i. if i \<in> set is then None else conn_list s i) \<and>
     tunnel (fold shutdown is s) = tunnel s @ concat (map (\<lambda>i. closings (conn_list s i)) is)"
proof (induction "is" arbitrary: s)
  case (Cons j js)
  have "map (\<lambda>i. closings (conn_list (shutdown j s) i)) js = map (\<lambda>i. closings (conn_list s i)) js"
    using Cons.prems by (auto simp: shutdown_list)
  then have "tunnel (fold shutdown js (shutdown j s)) = tunnel (shutdown j s) @ concat (map (\<lambda>i. closings (conn_list s i)) js)"
    using Cons.IH [of "shutdown j s"] Cons.prems by (simp del: map_eq_conv)
  moreover have "conn_list (fold shutdown js (shutdown j s)) = (\<lambda>i. if i \<in> set js then None else conn_list (shutdown j s) i)"
    using Cons.IH [of "shutdown j s"] Cons.prems by simp
  ultimately show ?case by (auto simp: shutdown_list fun_eq_iff)
qed auto

section \<open>Properties\<close>

text \<open>C33. From the configuration file to the other end of the tunnel.  Whatever number a client's configuration file
  gives for one of the seven tunnel options, the packet the client packs from the parsed file is taken by
  the server as a control packet: it sets the parameter of that option to the number, as a 32-bit integer, and changes nothing
  but the parameters.\<close>

theorem options_reach_server:
  assumes "config_ok cfg" "distinct (map (\<lambda>(s, n, _). MakeKey s n) (config_entries cfg))"
    "(type, option_names ! k, v) \<in> set (config_entries cfg)" "k < 7" "strtol v = Some x"
  shows "\<exists>m opts. INIReader_new (Some (concat (config_lines cfg))) = (0, m) \<and>
    on_data env r (pack_sock_opt type m) s = Some (s\<lparr>sock_opt := opts\<rparr>) \<and> (option_fields ! k) opts = of_int x"
proof -
  obtain m where m: "INIReader_new (Some (concat (config_lines cfg))) = (0, m)" "m (MakeKey type (option_names ! k)) = Some v"
    using config_value_read [OF assms(1-3)] by blast
  obtain opts where o: "on_data env r (pack_sock_opt type m) s = Some (s\<lparr>sock_opt := opts\<rparr>)" using options_applied by blast
  obtain d where "(option_fields ! k) (sock_opt (s\<lparr>sock_opt := opts\<rparr>)) = of_int (GetInteger m type (option_names ! k) d)"
    using option_field [OF assms(4)] o by blast
  with m o GetInteger_read [of m type "option_names ! k" v x d, OF m(2) assms(5)] show ?thesis by auto
qed

definition options_config :: ini_config where
  "options_config = [(''RemoteSockOpt'', [(''windowSize'', ''700''), (''maxPPS'', ''0x10'')])]"

theorem options_reach_server_witness:
  "\<exists>m opts. INIReader_new (Some (concat (config_lines options_config))) = (0, m) \<and>
    on_data connected_env Would_Block (pack_sock_opt ''RemoteSockOpt'' m) (S5Server_new (\<lambda>_. None) some_opts 8) =
      Some ((S5Server_new (\<lambda>_. None) some_opts 8)\<lparr>sock_opt := opts\<rparr>) \<and> speed_limit opts = 16"
proof -
  have "config_ok options_config"
    by (simp add: options_config_def config_ok_def section_name_ok_def ini_name_def clean_def lskip_def rstrip_def isspace_def)
  moreover have "distinct (map (\<lambda>(s, n, _). MakeKey s n) (config_entries options_config))" by code_simp
  moreover have "(''RemoteSockOpt'', option_names ! 2, ''0x10'') \<in> set (config_entries options_config)"
    by (simp add: config_entries_def options_config_def option_names_def)
  moreover have "strtol ''0x10'' = Some 16" by code_simp
  ultimately show ?thesis
    using options_reach_server [of options_config "''RemoteSockOpt''" 2 "''0x10''" 16 connected_env Would_Block "S5Server_new (\<lambda>_. None) some_opts 8"]
    by (simp add: option_fields_def)
qed

text \<open>At its end the server takes every handler out of its list and sends one closing packet for each, in order.\<close>

theorem cleanup_closes_all:
  "conn_list (run_cleanup s) = (\<lambda>i. if i < max_conn s then None else conn_list s i) \<and>
    tunnel (run_cleanup s) = tunnel s @ concat (map (\<lambda>i. closings (conn_list s i)) [0..<max_conn s])"
  using fold_shutdown [of "[0..<max_conn s]" s] by (simp add: run_cleanup_def)

text \<open>The stop of the server can be lost: the remote is reported lost between the test of \<open>stop_loop\<close> and the wait,
  the server then waits, and no later report wakes it, because only the first one notifies.\<close>

theorem stop_report_lost:
  "\<exists>s. run_step\<^sup>*\<^sup>* run_start s \<and> stop_loop s \<and> run_at s = In_Wait \<and> (\<forall>code. on_event code s = s)"
proof -
  let ?s = "\<lparr>stop_loop = True, run_at = In_Wait, hb_active = False\<rparr>"
  have "run_step run_start (run_start\<lparr>run_at := Going_To_Wait\<rparr>)"
    using run_step.test [of run_start] by (simp add: run_start_def)
  moreover have "run_step (run_start\<lparr>run_at := Going_To_Wait\<rparr>) \<lparr>stop_loop = True, run_at = Going_To_Wait, hb_active = False\<rparr>"
    using run_step.event [of "run_start\<lparr>run_at := Going_To_Wait\<rparr>" "- 2002"] by (simp add: run_start_def on_event_def)
  moreover have "run_step \<lparr>stop_loop = True, run_at = Going_To_Wait, hb_active = False\<rparr> ?s"
    using run_step.wait [of "\<lparr>stop_loop = True, run_at = Going_To_Wait, hb_active = False\<rparr>"] by simp
  ultimately have "run_step\<^sup>*\<^sup>* run_start ?s" by (meson converse_rtranclp_into_rtranclp rtranclp.rtrancl_refl)
  then show ?thesis by (intro exI [of _ ?s]) (simp add: on_event_def)
qed

end
