(* ===== verification/DNS_Labels.thy ===== *)
theory DNS_Labels
  imports HDS_Prelude
begin

unbundle bit_operations_syntax

text \<open>
  Names in DNS packets (\<open>tysocks/3rd/librdns/src/parse.c\<close>, \<open>compression.c\<close>, \<open>packet.c\<close>), which the SOCKS5 server's resolver
  reads and writes.  \<open>buf\<close> is the receive buffer, positions are indices into it, of which the datagram may fill only
  a part; an access outside the buffer and a write behind the end of an allocation are faults.
\<close>

section \<open>Parsing\<close>

datatype fault = Over_Read | Heap_Overflow

datatype 'a run = Diverges | Fault fault | Ret 'a

abbreviation (input) DNS_COMPRESSION_BITS :: u8 where "DNS_COMPRESSION_BITS \<equiv> 0xC0"
abbreviation (input) DNS_D_MAXLABEL :: nat where "DNS_D_MAXLABEL \<equiv> 63"
abbreviation (input) MAX_RECURSION_LEVEL :: nat where "MAX_RECURSION_LEVEL \<equiv> 10"
abbreviation (input) UDP_PACKET_SIZE :: nat where "UDP_PACKET_SIZE \<equiv> 4096"

definition UNCOMPRESS_DNS_OFFSET :: "u8 list \<Rightarrow> nat \<Rightarrow> nat" where
  "UNCOMPRESS_DNS_OFFSET buf p = unat ((buf ! p) XOR DNS_COMPRESSION_BITS) * 256 + unat (buf ! (p + 1))"

text \<open>\<open>None\<close> is a read outside the buffer, \<open>Some None\<close> the null pointer.  The limit is passed as a 16-bit integer.\<close>

definition rdns_decompress_label :: "u8 list \<Rightarrow> nat \<Rightarrow> nat \<Rightarrow> nat option option" where
  "rdns_decompress_label buf offset limit =
     (if limit mod 65536 < offset then Some None else if length buf \<le> offset then None else Some (Some offset))"

record label_scan =
  scan_p :: nat
  scan_begin :: nat
  scan_length :: nat
  ptrs :: nat
  namelen :: u16
  labels :: nat
  got_compression :: bool
  new_pos :: nat
  new_remain :: int

text \<open>The state after a pointer to the label at \<open>l\<close>, and after a plain label.\<close>

definition scan_pointer :: "u8 list \<Rightarrow> nat \<Rightarrow> nat \<Rightarrow> label_scan \<Rightarrow> label_scan" where
  "scan_pointer buf fin l s = s\<lparr>ptrs := ptrs s + 1,
     new_remain := (if got_compression s then new_remain s else new_remain s - 2),
     new_pos := (if got_compression s then new_pos s else new_pos s + 2), got_compression := True,
     scan_begin := l, scan_length := fin - l, scan_p := l + unat (buf ! l) + 1,
     namelen := namelen s + ucast (buf ! l), labels := labels s + 1\<rparr>"

definition scan_plain :: "u8 \<Rightarrow> label_scan \<Rightarrow> label_scan" where
  "scan_plain llen s = s\<lparr>namelen := namelen s + ucast llen, scan_p := scan_p s + unat llen + 1, labels := labels s + 1,
     new_remain := (if got_compression s then new_remain s else new_remain s - int (unat llen) - 1),
     new_pos := (if got_compression s then new_pos s else new_pos s + unat llen + 1)\<rparr>"

lemma scan_updates [simp]:
  "ptrs (scan_pointer buf fin l s) = ptrs s + 1" "scan_begin (scan_pointer buf fin l s) = l" "scan_length (scan_pointer buf fin l s) = fin - l"
  "scan_p (scan_pointer buf fin l s) = l + unat (buf ! l) + 1" "labels (scan_pointer buf fin l s) = labels s + 1"
  "namelen (scan_pointer buf fin l s) = namelen s + ucast (buf ! l)"
  "ptrs (scan_plain n s) = ptrs s" "scan_begin (scan_plain n s) = scan_begin s" "scan_length (scan_plain n s) = scan_length s"
  "scan_p (scan_plain n s) = scan_p s + unat n + 1" "labels (scan_plain n s) = labels s + 1" "namelen (scan_plain n s) = namelen s + ucast n"
  by (simp_all add: scan_pointer_def scan_plain_def)

text \<open>The first loop of \<open>rdns_parse_labels\<close>; \<open>fin\<close> is \<open>end - in\<close>.  \<open>None\<close> is a fault, \<open>Some None\<close> the return of
  \<open>false\<close>.\<close>

function scan_labels :: "u8 list \<Rightarrow> nat \<Rightarrow> label_scan \<Rightarrow> label_scan option option" where
  "scan_labels buf fin s =
     (if \<not> scan_p s < scan_begin s + scan_length s then Some (Some s)
      else if MAX_RECURSION_LEVEL < ptrs s then Some None
      else if length buf \<le> scan_p s then None
      else let llen = buf ! scan_p s in
        if llen = 0 then
          Some (Some (if got_compression s then s else s\<lparr>new_remain := new_remain s - 1, new_pos := new_pos s + 1\<rparr>))
        else if llen AND DNS_COMPRESSION_BITS \<noteq> 0 then
          if fin \<le> scan_p s + 1 then Some None
          else if length buf \<le> scan_p s + 1 then None
          else (case rdns_decompress_label buf (UNCOMPRESS_DNS_OFFSET buf (scan_p s)) fin of
            None \<Rightarrow> None
          | Some None \<Rightarrow> Some None
          | Some (Some l) \<Rightarrow>
              if scan_begin s + scan_length s < l then Some None
              else scan_labels buf fin (scan_pointer buf fin l s))
        else scan_labels buf fin (scan_plain llen s))"
  by auto
termination
  by (relation "measures [\<lambda>(buf, fin, s). 11 - ptrs s, \<lambda>(buf, fin, s). scan_begin s + scan_length s - scan_p s]") auto

declare scan_labels.simps [simp del]

definition read_at :: "u8 list \<Rightarrow> nat \<Rightarrow> nat \<Rightarrow> u8 list option" where
  "read_at buf p n = (if length buf < p + n then None else Some (take n (drop p buf)))"

text \<open>The second loop, which has no limit of its own: \<open>None\<close> is a loop that never ends, \<open>Some None\<close> a read outside
  the buffer.  \<open>t\<close> is what has been written to the name.\<close>

partial_function (option) copy_labels :: "u8 list \<Rightarrow> nat \<Rightarrow> nat \<Rightarrow> nat \<Rightarrow> nat \<Rightarrow> u8 list \<Rightarrow> u8 list option option" where
  "copy_labels buf fin bgn len p t =
     (if \<not> p < bgn + len then Some (Some t)
      else if length buf \<le> p then Some None
      else if buf ! p = 0 then Some (Some t)
      else if (buf ! p) AND DNS_COMPRESSION_BITS \<noteq> 0 then
        if length buf \<le> p + 1 then Some None
        else (case rdns_decompress_label buf (UNCOMPRESS_DNS_OFFSET buf p) fin of
          Some (Some l) \<Rightarrow>
            (case read_at buf (l + 1) (unat (buf ! l)) of
              None \<Rightarrow> Some None
            | Some d \<Rightarrow> copy_labels buf fin l (fin - l) (l + unat (buf ! l) + 1) (t @ d @ [46]))
        | _ \<Rightarrow> Some None)
      else
        (case read_at buf (p + 1) (unat (buf ! p)) of
          None \<Rightarrow> Some None
        | Some d \<Rightarrow> copy_labels buf fin bgn len (p + unat (buf ! p) + 1) (t @ d @ [46])))"

text \<open>The whole function: the name if one was asked for, the new position and the bytes remaining; \<open>None\<close> for
  \<open>false\<close>.  The name is allocated with \<open>namelen + labels + 3\<close> bytes; the last dot becomes the terminator.\<close>

definition rdns_parse_labels :: "u8 list \<Rightarrow> nat \<Rightarrow> nat \<Rightarrow> bool \<Rightarrow> (u8 list option \<times> nat \<times> int) option run" where
  "rdns_parse_labels buf pos remain make_name =
     (case scan_labels buf (pos + remain) \<lparr>scan_p = pos, scan_begin = pos, scan_length = remain, ptrs = 0, namelen = 0,
         labels = 0, got_compression = False, new_pos = pos, new_remain = int remain\<rparr> of
       None \<Rightarrow> Fault Over_Read
     | Some None \<Rightarrow> Ret None
     | Some (Some s) \<Rightarrow>
         if \<not> make_name then Ret (Some (None, new_pos s, new_remain s))
         else (case copy_labels buf (pos + remain) pos remain pos [] of
           None \<Rightarrow> Diverges
         | Some None \<Rightarrow> Fault Over_Read
         | Some (Some t) \<Rightarrow>
             if unat (namelen s) + labels s + 3 < length t then Fault Heap_Overflow
             else Ret (Some (Some (butlast t), new_pos s, new_remain s))))"

section \<open>The two loops agree\<close>

definition scan_size :: "label_scan \<Rightarrow> nat" where
  "scan_size s = unat (namelen s) + labels s"

text \<open>What the first loop can still add to the length.\<close>

definition scan_room :: "nat \<Rightarrow> label_scan \<Rightarrow> nat" where
  "scan_room fin s = (11 - ptrs s) * (fin + 512) + (fin + 256 - scan_p s)"

definition scan_ok :: "nat \<Rightarrow> label_scan \<Rightarrow> bool" where
  "scan_ok fin s \<longleftrightarrow> scan_begin s + scan_length s = fin \<and> scan_p s \<le> fin + 256 \<and> ptrs s \<le> 11 \<and> scan_size s + scan_room fin s \<le> 65535"

lemma unat_u8: "unat (b :: u8) \<le> 255"
proof -
  have "unat b < 2 ^ LENGTH(8)" by (rule unsigned_less)
  then show ?thesis by simp
qed

lemma namelen_add:
  assumes "unat (x :: u16) + unat (b :: u8) \<le> 65535"
  shows "unat (x + ucast b) = unat x + unat b"
proof -
  have "unat (ucast b :: u16) = unat b" using unat_u8 [of b] by (simp add: unsigned_ucast_eq take_bit_nat_eq_self)
  then show ?thesis using assms by (simp add: unat_word_ariths)
qed

lemma scan_pointer_ok:
  assumes "scan_ok fin s" "ptrs s \<le> 10" "l \<le> fin"
  shows "scan_ok fin (scan_pointer buf fin l s) \<and> scan_size (scan_pointer buf fin l s) = scan_size s + unat (buf ! l) + 1"
proof -
  obtain m where m: "11 - ptrs s = Suc m" "10 - ptrs s = m" using assms(2) that [of "10 - ptrs s"] by simp
  have bound: "scan_size s + (fin + 512) + m * (fin + 512) \<le> 65535" using assms(1) m by (simp add: scan_ok_def scan_room_def)
  then have "unat (namelen s) + unat (buf ! l) \<le> 65535" using unat_u8 [of "buf ! l"] by (simp add: scan_size_def)
  then have n: "unat (namelen s + ucast (buf ! l)) = unat (namelen s) + unat (buf ! l)" by (rule namelen_add)
  have room: "scan_room fin (scan_pointer buf fin l s) \<le> m * (fin + 512) + fin + 256 - (unat (buf ! l) + 1)"
  proof -
    have e: "11 - (ptrs s + 1) = m" using m(2) by simp
    show ?thesis using unat_u8 [of "buf ! l"] unfolding scan_room_def scan_updates e by linarith
  qed
  have "scan_size (scan_pointer buf fin l s) = scan_size s + unat (buf ! l) + 1" using n by (simp add: scan_size_def)
  then show ?thesis using assms room bound unat_u8 [of "buf ! l"] by (simp add: scan_ok_def)
qed

lemma scan_plain_ok:
  assumes "scan_ok fin s" "scan_p s < fin"
  shows "scan_ok fin (scan_plain b s) \<and> scan_size (scan_plain b s) = scan_size s + unat b + 1"
proof -
  obtain r where r: "fin + 256 = scan_p s + unat b + 1 + r" using assms(2) unat_u8 [of b] that [of "fin + 256 - (scan_p s + unat b + 1)"] by simp
  have sz: "scan_size s + (11 - ptrs s) * (fin + 512) + unat b + 1 + r \<le> 65535" using assms(1) r by (simp add: scan_ok_def scan_room_def)
  then have "unat (namelen s) + unat b \<le> 65535" by (simp add: scan_size_def)
  then have "unat (namelen s + ucast b) = unat (namelen s) + unat b" by (rule namelen_add)
  then show ?thesis using assms(1) r sz by (simp add: scan_ok_def scan_size_def scan_room_def)
qed

text \<open>Where the first loop succeeds, the second walks the same way and writes exactly as many bytes as were counted, or
  reads outside the buffer, which it does only when less than 256 bytes follow the datagram.\<close>

lemma decompress_within: "rdns_decompress_label buf off fin = Some (Some l) \<Longrightarrow> l \<le> fin \<and> l < length buf"
  using mod_less_eq_dividend [of fin 65536] by (auto simp: rdns_decompress_label_def split: if_splits)

definition copy_agrees :: "u8 list \<Rightarrow> nat \<Rightarrow> nat \<Rightarrow> u8 list option option \<Rightarrow> nat \<Rightarrow> bool" where
  "copy_agrees buf fin old r n \<longleftrightarrow> (r = Some None \<and> length buf < fin + 256) \<or> (\<exists>t. r = Some (Some t) \<and> length t = old + n)"

lemma copy_agrees_step:
  assumes "\<And>t. copy_agrees buf fin (length t) (copy_labels buf fin bgn len p t) n" "l \<le> fin" "p = l + unat b + 1"
  shows "copy_agrees buf fin (length t) (case read_at buf (l + 1) (unat (b :: u8)) of None \<Rightarrow> Some None
    | Some d \<Rightarrow> copy_labels buf fin bgn len p (t @ d @ [46])) (n + unat b + 1)"
proof (cases "length buf < l + 1 + unat b")
  case True
  then show ?thesis using assms(2) unat_u8 [of b] by (simp add: read_at_def copy_agrees_def)
next
  case False
  then have "length (take (unat b) (drop (l + 1) buf)) = unat b" by simp
  then show ?thesis using False assms(1) [of "t @ take (unat b) (drop (l + 1) buf) @ [46]"]
    by (simp add: read_at_def copy_agrees_def ac_simps del: length_take length_drop)
qed

lemma copy_follows_scan:
  assumes "scan_labels buf fin s = Some (Some s')" "scan_ok fin s"
  shows "scan_size s \<le> scan_size s' \<and>
    copy_agrees buf fin (length t) (copy_labels buf fin (scan_begin s) (scan_length s) (scan_p s) t) (scan_size s' - scan_size s)"
  using assms
proof (induction buf fin s arbitrary: t rule: scan_labels.induct)
  case (1 buf fin s)
  note eqs = "1.prems"(1) [unfolded scan_labels.simps [of buf fin s]]
  have fin: "scan_begin s + scan_length s = fin" using "1.prems"(2) by (simp add: scan_ok_def)
  note step = copy_labels.simps [of buf fin "scan_begin s" "scan_length s" "scan_p s" t]
  consider (stop) "\<not> scan_p s < fin" | (zero) "scan_p s < fin" "buf ! scan_p s = 0"
    | (ptr) "scan_p s < fin" "buf ! scan_p s \<noteq> 0" "(buf ! scan_p s) AND DNS_COMPRESSION_BITS \<noteq> 0"
    | (plain) "scan_p s < fin" "buf ! scan_p s \<noteq> 0" "(buf ! scan_p s) AND DNS_COMPRESSION_BITS = 0" by blast
  then show ?case
  proof cases
    case stop
    then show ?thesis using eqs fin unfolding step by (simp add: copy_agrees_def)
  next
    case zero
    then show ?thesis using eqs fin unfolding step
      by (auto simp: copy_agrees_def scan_size_def split: if_splits)
  next
    case ptr
    let ?off = "UNCOMPRESS_DNS_OFFSET buf (scan_p s)"
    obtain l where l: "rdns_decompress_label buf ?off fin = Some (Some l)" "ptrs s \<le> 10" "\<not> length buf \<le> scan_p s" "\<not> length buf \<le> scan_p s + 1"
      "\<not> fin \<le> scan_p s + 1" "\<not> scan_begin s + scan_length s < l" "scan_labels buf fin (scan_pointer buf fin l s) = Some (Some s')"
      using eqs ptr fin by (auto simp: Let_def split: if_splits option.splits)
    note lb = decompress_within [OF l(1)]
    note ok = scan_pointer_ok [OF "1.prems"(2) l(2) conjunct1 [OF lb], of buf]
    have IH: "scan_size (scan_pointer buf fin l s) \<le> scan_size s' \<and> copy_agrees buf fin (length t)
        (copy_labels buf fin l (fin - l) (l + unat (buf ! l) + 1) t) (scan_size s' - scan_size (scan_pointer buf fin l s))" for t
      using "1.IH"(1) [OF _ _ _ refl _ _ _ _ l(1) refl _ l(7)] ptr l lb ok fin by simp
    have n: "scan_size s' - scan_size (scan_pointer buf fin l s) + unat (buf ! l) + 1 = scan_size s' - scan_size s"
      using conjunct1 [OF IH] ok by linarith
    have "copy_agrees buf fin (length t) (case read_at buf (l + 1) (unat (buf ! l)) of None \<Rightarrow> Some None
        | Some d \<Rightarrow> copy_labels buf fin l (fin - l) (l + unat (buf ! l) + 1) (t @ d @ [46])) (scan_size s' - scan_size s)"
      using copy_agrees_step [OF conjunct2 [OF IH] _ refl, of t] lb unfolding n by blast
    moreover have "scan_size s \<le> scan_size s'" using conjunct1 [OF IH] ok by linarith
    ultimately show ?thesis using ptr l fin unfolding step by simp
  next
    case plain
    have p: "ptrs s \<le> 10" "\<not> length buf \<le> scan_p s" "scan_labels buf fin (scan_plain (buf ! scan_p s) s) = Some (Some s')"
      using eqs plain fin by (auto simp: Let_def split: if_splits)
    note ok = scan_plain_ok [OF "1.prems"(2) plain(1), of "buf ! scan_p s"]
    have IH: "scan_size (scan_plain (buf ! scan_p s) s) \<le> scan_size s' \<and> copy_agrees buf fin (length t)
        (copy_labels buf fin (scan_begin s) (scan_length s) (scan_p s + unat (buf ! scan_p s) + 1) t)
        (scan_size s' - scan_size (scan_plain (buf ! scan_p s) s))" for t
      using "1.IH"(2) [OF _ _ _ refl _ _ p(3)] plain p ok fin by simp
    have n: "scan_size s' - scan_size (scan_plain (buf ! scan_p s) s) + unat (buf ! scan_p s) + 1 = scan_size s' - scan_size s"
      using conjunct1 [OF IH] ok by linarith
    have "copy_agrees buf fin (length t) (case read_at buf (scan_p s + 1) (unat (buf ! scan_p s)) of None \<Rightarrow> Some None
        | Some d \<Rightarrow> copy_labels buf fin (scan_begin s) (scan_length s) (scan_p s + unat (buf ! scan_p s) + 1) (t @ d @ [46]))
        (scan_size s' - scan_size s)"
      using copy_agrees_step [OF conjunct2 [OF IH] _ refl, of t] plain(1) unfolding n by simp
    moreover have "scan_size s \<le> scan_size s'" using conjunct1 [OF IH] ok by linarith
    ultimately show ?thesis using plain p fin unfolding step by simp
  qed
qed

lemma scan_in_buffer:
  assumes "fin < length buf" "scan_begin s + scan_length s = fin"
  shows "scan_labels buf fin s \<noteq> None"
  using assms
proof (induction buf fin s rule: scan_labels.induct)
  case (1 buf fin s)
  have dec: "\<exists>r. rdns_decompress_label buf off fin = Some r" for off
    using "1.prems"(1) mod_less_eq_dividend [of fin 65536] by (auto simp: rdns_decompress_label_def)
  show ?case
  proof (cases "scan_p s < fin \<and> ptrs s \<le> 10 \<and> buf ! scan_p s \<noteq> 0")
    case True
    then show ?thesis
    proof (cases "(buf ! scan_p s) AND DNS_COMPRESSION_BITS = 0")
      case False
      let ?d = "rdns_decompress_label buf (UNCOMPRESS_DNS_OFFSET buf (scan_p s)) fin"
      show ?thesis
      proof (cases "fin \<le> scan_p s + 1 \<or> ?d = Some None")
        case False
        then obtain l where l: "?d = Some (Some l)" using dec by (metis not_None_eq)
        then have "l \<le> fin" using decompress_within by blast
        then show ?thesis using "1.IH"(1) [OF _ _ _ refl _ _ _ _ l refl] True \<open>\<not> (fin \<le> scan_p s + 1 \<or> ?d = Some None)\<close>
            \<open>(buf ! scan_p s) AND DNS_COMPRESSION_BITS \<noteq> 0\<close> "1.prems" l
          by (simp add: scan_labels.simps [of buf fin s] Let_def)
      qed (use True \<open>(buf ! scan_p s) AND DNS_COMPRESSION_BITS \<noteq> 0\<close> "1.prems" in \<open>auto simp: scan_labels.simps [of buf fin s] Let_def\<close>)
    qed (use "1.IH"(2) "1.prems" in \<open>simp add: scan_labels.simps [of buf fin s] Let_def\<close>)
  qed (use "1.prems" in \<open>auto simp: scan_labels.simps [of buf fin s] Let_def\<close>)
qed

text \<open>The new position and the bytes remaining move together, and the position stays near the end of the datagram.\<close>

lemma scan_cursor:
  assumes "scan_labels buf fin s = Some (Some s')" "scan_begin s + scan_length s = fin" "\<not> got_compression s \<longrightarrow> new_pos s = scan_p s"
  shows "int (new_pos s') + new_remain s' = int (new_pos s) + new_remain s \<and> new_pos s' \<le> max (new_pos s) (fin + 256)"
  using assms
proof (induction buf fin s rule: scan_labels.induct)
  case (1 buf fin s)
  note eqs = "1.prems"(1) [unfolded scan_labels.simps [of buf fin s]]
  consider (stop) "s' = s" | (zero) "scan_p s < fin" "s' = (if got_compression s then s else s\<lparr>new_remain := new_remain s - 1, new_pos := new_pos s + 1\<rparr>)"
    | (ptr) l where "scan_p s + 1 < fin" "ptrs s \<le> 10" "\<not> length buf \<le> scan_p s" "buf ! scan_p s \<noteq> 0" "(buf ! scan_p s) AND DNS_COMPRESSION_BITS \<noteq> 0"
        "\<not> length buf \<le> scan_p s + 1" "rdns_decompress_label buf (UNCOMPRESS_DNS_OFFSET buf (scan_p s)) fin = Some (Some l)" "l \<le> fin"
        "scan_labels buf fin (scan_pointer buf fin l s) = Some (Some s')"
    | (plain) "scan_p s < fin" "ptrs s \<le> 10" "\<not> length buf \<le> scan_p s" "buf ! scan_p s \<noteq> 0" "(buf ! scan_p s) AND DNS_COMPRESSION_BITS = 0"
        "scan_labels buf fin (scan_plain (buf ! scan_p s) s) = Some (Some s')"
    using eqs "1.prems"(2) by (fastforce simp: Let_def split: if_splits option.splits)
  then show ?case
  proof cases
    case ptr
    then have "int (new_pos s') + new_remain s' = int (new_pos (scan_pointer buf fin l s)) + new_remain (scan_pointer buf fin l s) \<and>
        new_pos s' \<le> max (new_pos (scan_pointer buf fin l s)) (fin + 256)"
      using "1.IH"(1) [OF _ _ _ refl _ _ _ _ ptr(7) refl] "1.prems"(2) by (simp add: scan_pointer_def)
    then show ?thesis using ptr(1) "1.prems"(3) by (auto simp: scan_pointer_def split: if_splits)
  next
    case plain
    then have "int (new_pos s') + new_remain s' = int (new_pos (scan_plain (buf ! scan_p s) s)) + new_remain (scan_plain (buf ! scan_p s) s) \<and>
        new_pos s' \<le> max (new_pos (scan_plain (buf ! scan_p s) s)) (fin + 256)"
      using "1.IH"(2) [OF _ _ _ refl] "1.prems"(2,3) by (simp add: scan_plain_def)
    then show ?thesis using plain(1) "1.prems"(3) unat_u8 [of "buf ! scan_p s"] by (auto simp: scan_plain_def split: if_splits)
  qed (use "1.prems" in auto)
qed

section \<open>Writing\<close>

text \<open>A request: the allocated packet, whose bytes are what \<open>malloc\<close> left, and the position behind what is written.\<close>

record rdns_request =
  packet :: "u8 list"
  req_pos :: nat

definition put_bytes :: "u8 list \<Rightarrow> nat \<Rightarrow> u8 list \<Rightarrow> u8 list option" where
  "put_bytes pk p bs = (if length pk < p + length bs then None else Some (take p pk @ bs @ drop (p + length bs) pk))"

definition rdns_calculate_label_len :: "u8 list \<Rightarrow> nat" where
  "rdns_calculate_label_len name = length (takeWhile (\<lambda>c. c \<noteq> 46) name)"

type_synonym compression = "(u8 list \<rightharpoonup> nat) option"

datatype write_end = Finished nat | Pointer_Written | Bad_Name

text \<open>The loop of \<open>rdns_write_name_compressed\<close> over the rest of the name; \<open>cm\<close> maps the suffixes written so far to
  their positions, \<open>target\<close> is the position in the packet.  \<open>remain\<close> is not counted down.\<close>

function write_labels ::
  "nat \<Rightarrow> u8 list \<Rightarrow> compression \<Rightarrow> nat \<Rightarrow> u8 list \<Rightarrow> (write_end \<times> u8 list \<times> compression) option" where
  "write_labels remain name cm target pk =
     (if name = [] \<or> remain = 0 then Some (Finished target, pk, cm)
      else case Option.bind cm (\<lambda>m. m name) of
        Some offset \<Rightarrow>
          if remain < 2 then Some (Bad_Name, pk, cm)
          else map_option (\<lambda>pk. (Pointer_Written, pk, cm))
            (put_bytes pk target [ucast (drop_bit 8 (of_nat offset :: u16)) OR DNS_COMPRESSION_BITS, of_nat offset])
      | None \<Rightarrow>
          let label_len = rdns_calculate_label_len name in
          if label_len = 0 then (if length name = 1 then Some (Finished target, pk, cm) else Some (Bad_Name, pk, cm))
          else if DNS_D_MAXLABEL < label_len then Some (Bad_Name, pk, cm)
          else
            let label_len = (if remain < label_len + 1 then remain - 1 else label_len);
                cm = map_option (\<lambda>m. m(name \<mapsto> target)) cm
            in (case put_bytes pk target (of_nat label_len # take label_len name) of
                 None \<Rightarrow> None
               | Some pk \<Rightarrow> write_labels remain (drop (label_len + 1) name) cm (target + label_len + 1) pk))"
  by auto
termination
  by (relation "measure (\<lambda>(remain, name, cm, target, pk). length name)") auto

declare write_labels.simps [simp del]

text \<open>A pointer moves the position by two even when labels were written before it.  The room left is computed with
  unsigned 32-bit integers.\<close>

definition rdns_write_name_compressed :: "u8 list \<Rightarrow> compression \<Rightarrow> rdns_request \<Rightarrow> (bool \<times> rdns_request \<times> compression) option" where
  "rdns_write_name_compressed name cm req =
     (let remain = unat (of_nat (length (packet req)) - of_nat (req_pos req) - 5 :: u32)
      in case write_labels remain name cm (req_pos req) (packet req) of
        None \<Rightarrow> None
      | Some (Bad_Name, pk, cm) \<Rightarrow> Some (False, req\<lparr>packet := pk\<rparr>, cm)
      | Some (Pointer_Written, pk, cm) \<Rightarrow> Some (True, req\<lparr>packet := pk, req_pos := req_pos req + 2\<rparr>, cm)
      | Some (Finished target, pk, cm) \<Rightarrow>
          map_option (\<lambda>pk. (True, req\<lparr>packet := pk, req_pos := target + 1\<rparr>, cm)) (put_bytes pk target [0]))"

definition rdns_allocate_packet :: "(nat \<Rightarrow> u8 list) \<Rightarrow> nat \<Rightarrow> rdns_request" where
  "rdns_allocate_packet malloc n = \<lparr>packet = malloc (n + 96 + 2 + 4 + 11), req_pos = 0\<rparr>"

text \<open>Type and class, in network order.\<close>

definition rdns_add_rr :: "u8 list \<Rightarrow> u16 \<Rightarrow> compression \<Rightarrow> rdns_request \<Rightarrow> (bool \<times> rdns_request \<times> compression) option" where
  "rdns_add_rr name type cm req =
     (case rdns_write_name_compressed name cm req of
       None \<Rightarrow> None
     | Some (False, req, cm) \<Rightarrow> Some (False, req, cm)
     | Some (True, req, cm) \<Rightarrow>
         map_option (\<lambda>pk. (True, req\<lparr>packet := pk, req_pos := req_pos req + 4\<rparr>, cm))
           (put_bytes (packet req) (req_pos req) [ucast (drop_bit 8 type), ucast type, 0, 1]))"

definition rdns_add_edns0 :: "rdns_request \<Rightarrow> rdns_request option" where
  "rdns_add_edns0 req = map_option (\<lambda>pk. req\<lparr>packet := pk, req_pos := req_pos req + 11\<rparr>)
     (put_bytes (packet req) (req_pos req) [0, 0, 41, 16, 0, 0, 0, 0, 0, 0, 0])"

section \<open>A name as bytes\<close>

fun join_labels :: "u8 list list \<Rightarrow> u8 list" where
  "join_labels [] = []"
| "join_labels [l] = l"
| "join_labels (l # ls) = l @ 46 # join_labels ls"

definition wire_labels :: "u8 list list \<Rightarrow> u8 list" where
  "wire_labels ls = concat (map (\<lambda>l. of_nat (length l) # l) ls)"

definition label_ok :: "u8 list \<Rightarrow> bool" where
  "label_ok l \<longleftrightarrow> l \<noteq> [] \<and> length l \<le> DNS_D_MAXLABEL \<and> 46 \<notin> set l"

lemma label_len_byte:
  assumes "label_ok l"
  shows "unat (of_nat (length l) :: u8) = length l" "(of_nat (length l) :: u8) \<noteq> 0" "(of_nat (length l) :: u8) AND DNS_COMPRESSION_BITS = 0"
proof -
  have small: "length l < 64" "0 < length l" using assms by (auto simp: label_ok_def)
  then show u: "unat (of_nat (length l) :: u8) = length l" by (simp add: unat_of_nat)
  then show "(of_nat (length l) :: u8) \<noteq> 0" using small by auto
  have "\<forall>x \<in> set [0..<64]. (of_nat x :: u8) AND 0xC0 = 0" by code_simp
  then show "(of_nat (length l) :: u8) AND DNS_COMPRESSION_BITS = 0" using small by auto
qed

lemma put_bytes_fits: "p + length bs \<le> length pk \<Longrightarrow> put_bytes pk p bs = Some (take p pk @ bs @ drop (p + length bs) pk)"
  by (simp add: put_bytes_def)

lemma calculate_label_len_join:
  assumes "label_ok l"
  shows "rdns_calculate_label_len (join_labels (l # ls)) = length l"
proof -
  have "\<forall>c \<in> set l. c \<noteq> 46" using assms by (auto simp: label_ok_def)
  then have tw: "takeWhile (\<lambda>c. c \<noteq> 46) l = l" "takeWhile (\<lambda>c. c \<noteq> 46) (l @ 46 # r) = l" for r
    by (simp_all add: takeWhile_eq_all_conv takeWhile_append2)
  show ?thesis by (cases ls) (simp_all add: rdns_calculate_label_len_def tw)
qed

lemma join_parts: "label_ok l \<Longrightarrow> join_labels (l # ls) \<noteq> [] \<and> take (length l) (join_labels (l # ls)) = l \<and> drop (length l + 1) (join_labels (l # ls)) = join_labels ls"
  by (cases ls) (auto simp: label_ok_def)

lemma write_labels_wire:
  assumes "\<forall>l \<in> set ls. label_ok l" "64 \<le> remain" "target + length (wire_labels ls) \<le> length pk"
  shows "write_labels remain (join_labels ls) None target pk = Some (Finished (target + length (wire_labels ls)),
    take target pk @ wire_labels ls @ drop (target + length (wire_labels ls)) pk, None)"
  using assms
proof (induction ls arbitrary: target pk)
  case Nil
  then show ?case by (simp add: write_labels.simps wire_labels_def)
next
  case (Cons l ls)
  have l: "label_ok l" using Cons.prems by simp
  then have len: "length l \<le> 63" "length l \<noteq> 0" by (auto simp: label_ok_def)
  let ?w = "of_nat (length l) # l"
  have w: "wire_labels (l # ls) = ?w @ wire_labels ls" by (simp add: wire_labels_def)
  let ?pk = "take target pk @ ?w @ drop (target + length ?w) pk"
  have fits: "put_bytes pk target ?w = Some ?pk" using Cons.prems(3) w by (intro put_bytes_fits) simp
  have rest: "target + length ?w + length (wire_labels ls) \<le> length ?pk" using Cons.prems(3) w by simp
  have IH: "write_labels remain (join_labels ls) None (target + length ?w) ?pk = Some (Finished (target + length ?w + length (wire_labels ls)),
      take (target + length ?w) ?pk @ wire_labels ls @ drop (target + length ?w + length (wire_labels ls)) ?pk, None)"
    using Cons.IH [OF _ Cons.prems(2) rest] Cons.prems(1) by simp
  have "take (target + length ?w) ?pk = take target pk @ ?w" "drop (target + length ?w + length (wire_labels ls)) ?pk = drop (target + length (wire_labels (l # ls))) pk"
    using Cons.prems(3) w by (simp_all add: drop_append ac_simps)
  note rest_eq = this
  have "write_labels remain (join_labels (l # ls)) None target pk = write_labels remain (join_labels ls) None (target + length ?w) ?pk"
    using fits len Cons.prems(2) join_parts [OF l, of ls] calculate_label_len_join [OF l, of ls]
    unfolding write_labels.simps [of remain "join_labels (l # ls)" None target pk] by (simp add: Let_def)
  then show ?case using IH rest_eq w by simp
qed

lemma wire_at:
  assumes "buf = pre @ wire_labels (l # ls) @ 0 # post" "label_ok l"
  shows "buf ! length pre = of_nat (length l)" "length pre < length buf" "read_at buf (length pre + 1) (length l) = Some l"
    "buf = (pre @ of_nat (length l) # l) @ wire_labels ls @ 0 # post"
  using assms by (simp_all add: wire_labels_def read_at_def nth_append)

lemma scan_wire:
  assumes "buf = pre @ wire_labels ls @ 0 # post" "\<forall>l \<in> set ls. label_ok l" "scan_p s = length pre" "ptrs s = 0" "\<not> got_compression s"
    "scan_begin s + scan_length s = fin" "length pre + length (wire_labels ls) < fin"
  shows "\<exists>s'. scan_labels buf fin s = Some (Some s') \<and> new_pos s' = new_pos s + length (wire_labels ls) + 1 \<and>
    new_remain s' = new_remain s - int (length (wire_labels ls)) - 1"
  using assms
proof (induction ls arbitrary: pre s)
  case Nil
  then show ?case by (subst scan_labels.simps) (simp add: wire_labels_def nth_append)
next
  case (Cons l ls)
  have l: "label_ok l" using Cons.prems(2) by simp
  note at = wire_at [OF Cons.prems(1) l] and b = label_len_byte [OF l]
  have len: "length (wire_labels (l # ls)) = length l + 1 + length (wire_labels ls)" by (simp add: wire_labels_def)
  let ?s = "scan_plain (of_nat (length l)) s"
  have "scan_labels buf fin s = scan_labels buf fin ?s"
    using Cons.prems(3-7) at(1,2) b len by (subst scan_labels.simps) (simp add: Let_def)
  moreover have "\<exists>s'. scan_labels buf fin ?s = Some (Some s') \<and> new_pos s' = new_pos ?s + length (wire_labels ls) + 1 \<and>
      new_remain s' = new_remain ?s - int (length (wire_labels ls)) - 1"
    by (rule Cons.IH [OF at(4)]) (use Cons.prems b len in \<open>simp_all add: scan_plain_def\<close>)
  ultimately show ?case using b len Cons.prems(5) by (auto simp: scan_plain_def)
qed

lemma copy_wire:
  assumes "buf = pre @ wire_labels ls @ 0 # post" "\<forall>l \<in> set ls. label_ok l" "length pre + length (wire_labels ls) < bgn + len"
  shows "copy_labels buf fin bgn len (length pre) t = Some (Some (t @ concat (map (\<lambda>l. l @ [46]) ls)))"
  using assms
proof (induction ls arbitrary: pre t)
  case Nil
  then show ?case by (subst copy_labels.simps) (simp add: wire_labels_def nth_append)
next
  case (Cons l ls)
  have l: "label_ok l" using Cons.prems(2) by simp
  note at = wire_at [OF Cons.prems(1) l] and b = label_len_byte [OF l]
  have wl: "length (wire_labels (l # ls)) = length l + 1 + length (wire_labels ls)" by (simp add: wire_labels_def)
  have "copy_labels buf fin bgn len (length pre) t = copy_labels buf fin bgn len (length pre + length l + 1) (t @ l @ [46])"
    using Cons.prems(3) at(1-3) b wl by (subst copy_labels.simps) simp
  moreover have "copy_labels buf fin bgn len (length (pre @ of_nat (length l) # l)) (t @ l @ [46]) =
      Some (Some ((t @ l @ [46]) @ concat (map (\<lambda>l. l @ [46]) ls)))"
    by (rule Cons.IH [OF at(4)]) (use Cons.prems wl in simp_all)
  ultimately show ?case by simp
qed

lemma butlast_labels: "butlast (concat (map (\<lambda>l. l @ [46]) ls)) = join_labels ls"
  by (induction ls rule: join_labels.induct) (simp_all add: butlast_append)

lemma parse_labels_total:
  assumes "pos + remain \<le> 4096"
  shows "rdns_parse_labels buf pos remain make_name \<noteq> Diverges \<and>
    rdns_parse_labels buf pos remain make_name \<noteq> Fault Heap_Overflow \<and>
    (pos + remain + 256 \<le> length buf \<longrightarrow> (\<exists>r. rdns_parse_labels buf pos remain make_name = Ret r))"
proof -
  let ?fin = "pos + remain"
  let ?s = "\<lparr>scan_p = pos, scan_begin = pos, scan_length = remain, ptrs = 0, namelen = 0,
         labels = 0, got_compression = False, new_pos = pos, new_remain = int remain\<rparr>"
  have ok: "scan_ok ?fin ?s" "scan_size ?s = 0" using assms by (simp_all add: scan_ok_def scan_size_def scan_room_def)
  have none: "scan_labels buf ?fin ?s \<noteq> None" if "?fin + 256 \<le> length buf" using scan_in_buffer [of ?fin buf ?s] that by simp
  have agrees: "copy_agrees buf ?fin 0 (copy_labels buf ?fin pos remain pos []) (scan_size s')" if "scan_labels buf ?fin ?s = Some (Some s')" for s'
    using copy_follows_scan [OF that ok(1), of "[]"] ok(2) by simp
  show ?thesis
  proof (cases "scan_labels buf ?fin ?s")
    case None
    then show ?thesis using none by (auto simp: rdns_parse_labels_def)
  next
    case (Some r)
    show ?thesis
    proof (cases r)
      case None
      then show ?thesis using Some by (simp add: rdns_parse_labels_def)
    next
      case (Some s')
      with \<open>scan_labels buf ?fin ?s = Some r\<close> have "scan_labels buf ?fin ?s = Some (Some s')" by simp
      with agrees [OF this] show ?thesis by (auto simp: rdns_parse_labels_def copy_agrees_def scan_size_def)
    qed
  qed
qed

lemma parse_labels_cursor:
  assumes "rdns_parse_labels buf pos remain mk = Ret (Some (n, p, r))"
  shows "int p + r = int pos + int remain \<and> p \<le> max pos (pos + remain + 256)"
  using assms scan_cursor [of buf "pos + remain" "\<lparr>scan_p = pos, scan_begin = pos, scan_length = remain, ptrs = 0, namelen = 0,
         labels = 0, got_compression = False, new_pos = pos, new_remain = int remain\<rparr>"]
  by (auto simp: rdns_parse_labels_def split: option.splits if_splits)

lemma name_written:
  assumes "\<forall>l \<in> set ls. label_ok l" "req_pos req + length (wire_labels ls) + 69 \<le> length (packet req)" "length (packet req) \<le> 4096"
  shows "rdns_write_name_compressed (join_labels ls) None req = Some (True, req\<lparr>packet := take (req_pos req) (packet req) @ wire_labels ls @
      0 # drop (req_pos req + length (wire_labels ls) + 1) (packet req), req_pos := req_pos req + length (wire_labels ls) + 1\<rparr>, None)"
proof -
  let ?p = "req_pos req" and ?pk = "packet req" and ?w = "wire_labels ls"
  let ?pre = "take ?p ?pk" and ?post = "drop (?p + length ?w + 1) ?pk" and ?fin = "length (packet req)"
  have rem: "unat (of_nat ?fin - of_nat ?p - 5 :: u32) = ?fin - ?p - 5"
  proof -
    have "(of_nat ?fin - of_nat ?p - 5 :: u32) = of_nat (?fin - ?p - 5)" using assms(2) by (simp add: of_nat_diff)
    then show ?thesis using assms(3) by (simp add: unat_of_nat)
  qed
  have "write_labels (?fin - ?p - 5) (join_labels ls) None ?p ?pk = Some (Finished (?p + length ?w), ?pre @ ?w @ drop (?p + length ?w) ?pk, None)"
    by (rule write_labels_wire) (use assms in auto)
  moreover have "put_bytes (?pre @ ?w @ drop (?p + length ?w) ?pk) (?p + length ?w) [0] = Some (?pre @ ?w @ 0 # ?post)"
    using assms(2) by (subst put_bytes_fits) (auto simp: drop_append)
  ultimately show ?thesis unfolding rdns_write_name_compressed_def rem Let_def by simp
qed

section \<open>Properties\<close>

text \<open>C30. Parsing a name of a received packet always ends, and never writes behind the name it allocates, although the
  second loop has no limit of its own and the length is counted in 16 bits: for packets of at most 4096
  bytes, the largest that are read, the first loop's limit of nested pointers bounds both.  It reads outside
  the receive buffer only when fewer than 256 bytes of the buffer follow the packet.\<close>

theorem parse_labels_safe:
  assumes "pos + remain \<le> 4096"
  shows "rdns_parse_labels buf pos remain make_name \<noteq> Diverges \<and>
    rdns_parse_labels buf pos remain make_name \<noteq> Fault Heap_Overflow \<and>
    (pos + remain + 256 \<le> length buf \<longrightarrow> (\<exists>r. rdns_parse_labels buf pos remain make_name = Ret r))"
  by (rule parse_labels_total [OF assms])

theorem parse_labels_safe_witness:
  "\<exists>r. rdns_parse_labels ([1, 97, 0] @ replicate 300 0) 0 3 True = Ret r"
  using parse_labels_safe [of 0 3 "[1, 97, 0] @ replicate 300 0" True] by simp

text \<open>A name comes back as it was written: for every list of labels of 1 to 63 bytes without dots, writing the dotted
  name into a packet with enough room succeeds, and parsing the packet at that place gives the same name, the
  position behind it and the number of bytes that remain.\<close>

theorem dns_name_roundtrip:
  assumes "\<forall>l \<in> set ls. label_ok l" "req_pos req + length (wire_labels ls) + 69 \<le> length (packet req)" "length (packet req) \<le> 4096"
  shows "\<exists>req'. rdns_write_name_compressed (join_labels ls) None req = Some (True, req', None) \<and>
    rdns_parse_labels (packet req') (req_pos req) (length (packet req) - req_pos req) True =
      Ret (Some (Some (join_labels ls), req_pos req', int (length (packet req)) - int (req_pos req')))"
proof -
  let ?p = "req_pos req" and ?pk = "packet req" and ?w = "wire_labels ls"
  let ?pre = "take ?p ?pk" and ?post = "drop (?p + length ?w + 1) ?pk"
  let ?buf = "?pre @ ?w @ 0 # ?post" and ?fin = "length ?pk"
  let ?req = "req\<lparr>packet := ?buf, req_pos := ?p + length ?w + 1\<rparr>"
  have pre: "length ?pre = ?p" using assms(2) by simp
  note written = name_written [OF assms]
  let ?s = "\<lparr>scan_p = ?p, scan_begin = ?p, scan_length = ?fin - ?p, ptrs = 0, namelen = 0,
         labels = 0, got_compression = False, new_pos = ?p, new_remain = int (?fin - ?p)\<rparr>"
  have fin: "?p + (?fin - ?p) = ?fin" using assms(2) by simp
  obtain s' where s': "scan_labels ?buf ?fin ?s = Some (Some s')" "new_pos s' = ?p + length ?w + 1"
    "new_remain s' = int (?fin - ?p) - int (length ?w) - 1"
    using scan_wire [of ?buf ?pre ls ?post ?s ?fin] assms pre by auto
  have copy: "copy_labels ?buf ?fin ?p (?fin - ?p) ?p [] = Some (Some (concat (map (\<lambda>l. l @ [46]) ls)))"
    using copy_wire [of ?buf ?pre ls ?post ?p "?fin - ?p" ?fin "[]"] assms pre by simp
  have "scan_ok ?fin ?s" "scan_size ?s = 0" using assms by (simp_all add: scan_ok_def scan_size_def scan_room_def)
  then have "copy_agrees ?buf ?fin 0 (copy_labels ?buf ?fin ?p (?fin - ?p) ?p []) (scan_size s')"
    using copy_follows_scan [OF s'(1), of "[]"] by simp
  then have "length (concat (map (\<lambda>l. l @ [46]) ls)) = scan_size s'" unfolding copy by (simp add: copy_agrees_def)
  then have "rdns_parse_labels ?buf ?p (?fin - ?p) True = Ret (Some (Some (join_labels ls), ?p + length ?w + 1, int ?fin - int (?p + length ?w + 1)))"
    unfolding rdns_parse_labels_def fin s'(1) copy using s'(2,3) assms(2) butlast_labels [of ls] by (simp add: scan_size_def of_nat_diff)
  with written show ?thesis by (intro exI [of _ ?req]) simp
qed

theorem dns_name_roundtrip_witness:
  "\<exists>req'. rdns_write_name_compressed [97, 98, 46, 99] None \<lparr>packet = replicate 100 7, req_pos = 12\<rparr> = Some (True, req', None) \<and>
    rdns_parse_labels (packet req') 12 88 True = Ret (Some (Some [97, 98, 46, 99], req_pos req', 100 - int (req_pos req')))"
  using dns_name_roundtrip [of "[[97, 98], [99]]" "\<lparr>packet = replicate 100 7, req_pos = 12\<rparr>"] by (simp add: label_ok_def wire_labels_def)

text \<open>A label that claims more bytes than the buffer has is copied all the same.\<close>

theorem truncated_label_overread: "rdns_parse_labels [5, 97] 0 2 True = Fault Over_Read"
  by (simp add: rdns_parse_labels_def scan_labels.simps scan_plain_def copy_labels.simps read_at_def)

text \<open>A name that ends in a pointer after a label leaves the position two bytes behind its start: type and class then
  overwrite the pointer.  The packet holds the two questions \<open>a.b\<close> and \<open>c.b\<close>.\<close>

definition second_question :: "(nat \<times> u8 list) option" where
  "second_question = (case rdns_add_rr [97, 46, 98] 1 (Some (\<lambda>_. None)) \<lparr>packet = replicate 64 0, req_pos = 0\<rparr> of
     Some (True, req, cm) \<Rightarrow>
       map_option (\<lambda>(_, req', _). (req_pos req' - req_pos req, take 6 (drop (req_pos req) (packet req')))) (rdns_add_rr [99, 46, 98] 1 cm req)
   | _ \<Rightarrow> None)"

theorem pointer_overwritten: "second_question = Some (6, [1, 99, 0, 1, 0, 1])"
  by code_simp

end
