(* ===== verification/DNS_Records.thy ===== *)
theory DNS_Records
  imports DNS_Labels
begin

unbundle bit_operations_syntax

text \<open>
  Resource records of a DNS answer (\<open>tysocks/3rd/librdns/src/parse.c\<close>, \<open>resolver.c\<close>).  A cursor is the position in the
  buffer and the number of bytes that remain of the datagram, which can become negative.  Every operation has
  the results of \<open>run\<close>: it faults, or returns an error (\<open>Ret None\<close>) or a value.
\<close>

section \<open>Cursor operations\<close>

type_synonym cursor = "nat \<times> int"

definition run_bind :: "'a option run \<Rightarrow> ('a \<Rightarrow> 'b option run) \<Rightarrow> 'b option run" where
  "run_bind m f = (case m of Diverges \<Rightarrow> Diverges | Fault e \<Rightarrow> Fault e | Ret None \<Rightarrow> Ret None | Ret (Some x) \<Rightarrow> f x)"

text \<open>\<open>GET8\<close>, \<open>GET16\<close>, \<open>GET32\<close>, \<open>SKIP\<close> and the copies take a number of bytes and move the cursor.\<close>

definition get_at :: "u8 list \<Rightarrow> nat \<Rightarrow> cursor \<Rightarrow> (u8 list \<times> cursor) option run" where
  "get_at buf n c = (case read_at buf (fst c) n of None \<Rightarrow> Fault Over_Read
     | Some bs \<Rightarrow> Ret (Some (bs, fst c + n, snd c - int n)))"

definition be16 :: "u8 list \<Rightarrow> u16" where
  "be16 bs = push_bit 8 (ucast (bs ! 0)) + ucast (bs ! 1)"

definition be32 :: "u8 list \<Rightarrow> u32" where
  "be32 bs = push_bit 24 (ucast (bs ! 0)) + push_bit 16 (ucast (bs ! 1)) + push_bit 8 (ucast (bs ! 2)) + ucast (bs ! 3)"

text \<open>\<open>rdns_parse_labels\<close> at a cursor: with nothing remaining its loops are not entered.\<close>

definition labels_at :: "u8 list \<Rightarrow> bool \<Rightarrow> cursor \<Rightarrow> (u8 list \<times> cursor) option run" where
  "labels_at buf make_name c =
     (if snd c < 0 then Ret (Some ([], c))
      else run_bind (rdns_parse_labels buf (fst c) (nat (snd c)) make_name)
        (\<lambda>(name, p, r). Ret (Some (case name of None \<Rightarrow> [] | Some n \<Rightarrow> n, p, r))))"

section \<open>Records\<close>

datatype rr_content =
    RR_A "u8 list"
  | RR_AAAA "u8 list"
  | RR_PTR "u8 list"
  | RR_NS "u8 list"
  | RR_SOA "u8 list" "u8 list" "u32 list"
  | RR_MX u16 "u8 list"
  | RR_TXT "u8 list"
  | RR_SRV u16 u16 u16 "u8 list"
  | RR_TLSA u8 u8 u8 "u8 list"

record reply_entry =
  rr_type :: u16
  rr_ttl :: u32
  rr_content :: rr_content

text \<open>The loop over the strings of a text record.  \<open>copied\<close> has 16 bits, \<open>parts\<close> 8; only the length of the record bounds
  it.\<close>

function txt_parts :: "u8 list \<Rightarrow> u16 \<Rightarrow> u16 \<Rightarrow> u8 \<Rightarrow> u8 list \<Rightarrow> cursor \<Rightarrow> (u8 list \<times> cursor) option run" where
  "txt_parts buf datalen copied parts out c =
     (if unat copied + unat parts < unat datalen then
        if length buf \<le> fst c then Fault Over_Read
        else let txtlen = buf ! fst c in
          if unat txtlen + unat copied + unat parts \<le> unat datalen then
            (case read_at buf (fst c + 1) (unat txtlen) of
              None \<Rightarrow> Fault Over_Read
            | Some bs \<Rightarrow> txt_parts buf datalen (copied + ucast txtlen) (parts + 1) (out @ bs)
                (fst c + unat txtlen + 1, snd c - int (unat txtlen) - 1))
          else Ret (Some (out, c))
      else Ret (Some (out, c)))"
  by auto
termination
  by (relation "measure (\<lambda>(buf, datalen, copied, parts, out, c). length buf - fst c)") auto

declare txt_parts.simps [simp del]

text \<open>The numbers of a \<open>SOA\<close> record.\<close>

fun get32s :: "u8 list \<Rightarrow> nat \<Rightarrow> cursor \<Rightarrow> (u32 list \<times> cursor) option run" where
  "get32s buf 0 c = Ret (Some ([], c))"
| "get32s buf (Suc n) c = run_bind (get_at buf 4 c) (\<lambda>(x, c). run_bind (get32s buf n c) (\<lambda>(xs, c). Ret (Some (be32 x # xs, c))))"

text \<open>The record data by type: \<open>None\<close> in the pair for a record that is skipped.  \<open>start\<close> is where the record begins.\<close>

definition rr_data :: "u8 list \<Rightarrow> nat \<Rightarrow> u16 \<Rightarrow> u16 \<Rightarrow> cursor \<Rightarrow> (rr_content option \<times> cursor) option run" where
  "rr_data buf start type datalen c =
     (let skip = (\<lambda>x. Ret (Some (x, fst c + unat datalen, snd c - int (unat datalen)))) in
      if type = 1 then
        if datalen AND 3 = 0 \<and> int (unat datalen) \<le> snd c
        then run_bind (get_at buf 4 c) (\<lambda>(a, _). skip (Some (RR_A a)))
        else Ret None
      else if type = 28 then
        if datalen = 16 \<and> int (unat datalen) \<le> snd c
        then run_bind (get_at buf 16 c) (\<lambda>(a, _). skip (Some (RR_AAAA a)))
        else Ret None
      else if type = 12 then run_bind (labels_at buf True c) (\<lambda>(n, c). Ret (Some (Some (RR_PTR n), c)))
      else if type = 2 then run_bind (labels_at buf True c) (\<lambda>(n, c). Ret (Some (Some (RR_NS n), c)))
      else if type = 6 then
        run_bind (labels_at buf True c) (\<lambda>(m, c).
        run_bind (labels_at buf True c) (\<lambda>(a, c).
        run_bind (get32s buf 5 c) (\<lambda>(xs, c). Ret (Some (Some (RR_SOA m a xs), c)))))
      else if type = 15 then
        run_bind (get_at buf 2 c) (\<lambda>(x, c).
        run_bind (labels_at buf True c) (\<lambda>(n, c). Ret (Some (Some (RR_MX (be16 x) n), c))))
      else if type = 16 \<or> type = 99 then
        run_bind (txt_parts buf datalen 0 0 [] c) (\<lambda>(t, c). Ret (Some (Some (RR_TXT t), c)))
      else if type = 33 then
        if snd c - 6 < int (fst c) - int start then Ret None
        else
          run_bind (get_at buf 2 c) (\<lambda>(x, c).
          run_bind (get_at buf 2 c) (\<lambda>(y, c).
          run_bind (get_at buf 2 c) (\<lambda>(z, c).
          run_bind (labels_at buf True c) (\<lambda>(n, c). Ret (Some (Some (RR_SRV (be16 x) (be16 y) (be16 z) n), c))))))
      else if type = 52 then
        if snd c - 3 < int (fst c) - int start \<or> datalen \<le> 3 then Ret None
        else
          run_bind (get_at buf 1 c) (\<lambda>(x, c).
          run_bind (get_at buf 1 c) (\<lambda>(y, c).
          run_bind (get_at buf 1 c) (\<lambda>(z, c).
          run_bind (get_at buf (unat (datalen - 3)) c) (\<lambda>(d, c).
            Ret (Some (Some (RR_TLSA (x ! 0) (y ! 0) (z ! 0) d), c))))))
      else skip None)"

text \<open>Name, type, class, time to live and length of a record.\<close>

definition rr_head :: "u8 list \<Rightarrow> cursor \<Rightarrow> ((u16 \<times> u32 \<times> u16) \<times> cursor) option run" where
  "rr_head buf c =
     run_bind (labels_at buf False c) (\<lambda>(_, c).
     if snd c < 12 then Ret None
     else
       run_bind (get_at buf 2 c) (\<lambda>(type, c).
       run_bind (get_at buf 2 c) (\<lambda>(_, c).
       run_bind (get_at buf 4 c) (\<lambda>(ttl, c).
       run_bind (get_at buf 2 c) (\<lambda>(datalen, c). Ret (Some ((be16 type, be32 ttl, be16 datalen), c)))))))"

text \<open>\<open>Ret None\<close> is the result -1, no entry the result 0.  A text record gets the type of \<open>TXT\<close>.\<close>

definition rdns_parse_rr :: "u8 list \<Rightarrow> cursor \<Rightarrow> (reply_entry option \<times> cursor) option run" where
  "rdns_parse_rr buf c0 =
     run_bind (rr_head buf c0) (\<lambda>((type, ttl, datalen), c).
     run_bind (rr_data buf (fst c0) type datalen c) (\<lambda>(x, c).
       Ret (Some (map_option (\<lambda>x. \<lparr>rr_type = (if type = 99 then 16 else type), rr_ttl = ttl, rr_content = x\<rparr>) x, c))))"

text \<open>The loop of \<open>rdns_parse_reply\<close> over the answer section: an error ends it and keeps the entries before it.\<close>

fun parse_answers :: "u8 list \<Rightarrow> nat \<Rightarrow> cursor \<Rightarrow> reply_entry list \<Rightarrow> reply_entry list run" where
  "parse_answers buf 0 c es = Ret es"
| "parse_answers buf (Suc n) c es = (case rdns_parse_rr buf c of
     Diverges \<Rightarrow> Diverges
   | Fault e \<Rightarrow> Fault e
   | Ret None \<Rightarrow> Ret es
   | Ret (Some (None, c)) \<Rightarrow> parse_answers buf n c es
   | Ret (Some (Some e, c)) \<Rightarrow> parse_answers buf n c (es @ [e]))"

section \<open>What is read stays near the datagram\<close>

text \<open>A result that does not fault and whose cursor, if there is one, satisfies \<open>P\<close>.\<close>

definition yields :: "(cursor \<Rightarrow> bool) \<Rightarrow> ('a \<times> cursor) option run \<Rightarrow> bool" where
  "yields P m \<longleftrightarrow> (\<exists>r. m = Ret r \<and> (\<forall>x c. r = Some (x, c) \<longrightarrow> P c))"

lemma yields_simps [simp]: "yields P (Ret None)" "yields P (Ret (Some (x, c))) = P c"
  by (simp add: yields_def) (cases c, simp add: yields_def)

lemma run_bind_Ret [simp]: "run_bind (Ret None) f = Ret None" "run_bind (Ret (Some x)) f = f x"
  by (simp_all add: run_bind_def)

lemma yields_bind: "yields P m \<Longrightarrow> (\<And>x c. P c \<Longrightarrow> yields Q (f x c)) \<Longrightarrow> yields Q (run_bind m (\<lambda>(x, c). f x c))"
  unfolding yields_def [of P] by (auto simp: run_bind_def split: option.splits)

lemma yields_if: "(b \<Longrightarrow> yields P x) \<Longrightarrow> (\<not> b \<Longrightarrow> yields P y) \<Longrightarrow> yields P (if b then x else y)"
  by simp

lemma yields_mono: "yields P m \<Longrightarrow> (\<And>c. P c \<Longrightarrow> Q c) \<Longrightarrow> yields Q m"
  by (auto simp: yields_def)

text \<open>The cursor of a datagram that ends at \<open>fin\<close>, at most \<open>k\<close> bytes behind the end, or with at least \<open>m\<close> bytes left.\<close>

definition cursor_sum :: "nat \<Rightarrow> cursor \<Rightarrow> bool" where
  "cursor_sum fin c \<longleftrightarrow> int (fst c) + snd c = int fin"

definition cursor_at :: "nat \<Rightarrow> nat \<Rightarrow> cursor \<Rightarrow> bool" where
  "cursor_at fin k c \<longleftrightarrow> cursor_sum fin c \<and> fst c \<le> fin + k"

definition cursor_left :: "nat \<Rightarrow> nat \<Rightarrow> cursor \<Rightarrow> bool" where
  "cursor_left fin m c \<longleftrightarrow> cursor_sum fin c \<and> int m \<le> snd c"

text \<open>A receive buffer with room behind the datagram.\<close>

definition roomy :: "u8 list \<Rightarrow> nat \<Rightarrow> bool" where
  "roomy buf fin \<longleftrightarrow> fin \<le> UDP_PACKET_SIZE \<and> fin + 512 \<le> length buf"

lemmas cursor_defs = cursor_at_def cursor_left_def cursor_sum_def

lemma left_at: "cursor_left fin m c \<Longrightarrow> cursor_at fin k c"
  by (simp add: cursor_defs)

lemma get_yields: "roomy buf fin \<Longrightarrow> cursor_at fin k c \<Longrightarrow> k + n \<le> 512 \<Longrightarrow> yields (cursor_at fin (k + n)) (get_at buf n c)"
  by (simp add: roomy_def cursor_defs get_at_def read_at_def)

lemma get_left: "roomy buf fin \<Longrightarrow> cursor_left fin (n + m) c \<Longrightarrow> yields (cursor_left fin m) (get_at buf n c)"
  by (simp add: roomy_def cursor_defs get_at_def read_at_def)

lemma labels_yield:
  assumes "roomy buf fin" "cursor_at fin k c" "256 \<le> k"
  shows "yields (cursor_at fin k) (labels_at buf mk c)"
proof (cases "snd c < 0")
  case True
  obtain p q where "c = (p, q)" by (cases c)
  with True show ?thesis using assms by (simp add: labels_at_def)
next
  case False
  have fin: "fst c + nat (snd c) = fin" using False assms(2) unfolding cursor_defs by linarith
  then obtain r where r: "rdns_parse_labels buf (fst c) (nat (snd c)) mk = Ret r"
    using parse_labels_total [of "fst c" "nat (snd c)" buf mk] assms(1) by (auto simp: roomy_def)
  have "cursor_at fin k (p, q)" if "r = Some (n, p, q)" for n p q
    using parse_labels_cursor [of buf "fst c" "nat (snd c)" mk n p q] r that fin assms(3) False by (simp add: cursor_defs)
  then show ?thesis using False r by (cases r) (auto simp: labels_at_def run_bind_def)
qed

lemma get32s_yields: "roomy buf fin \<Longrightarrow> cursor_at fin k c \<Longrightarrow> k + 4 * n \<le> 512 \<Longrightarrow> yields (cursor_at fin (k + 4 * n)) (get32s buf n c)"
proof (induction n arbitrary: k c)
  case (Suc n)
  have IH: "yields (cursor_at fin (k + 4 * Suc n)) (get32s buf n c')" if "cursor_at fin (k + 4) c'" for c'
    using Suc.IH [OF Suc.prems(1) that] Suc.prems(3) by (simp add: ac_simps)
  show ?case unfolding get32s.simps
    by (rule yields_bind [OF get_yields [OF Suc.prems(1,2)]], use Suc.prems(3) in simp, rule yields_bind [OF IH]) simp_all
next
  case 0
  then show ?case by (cases c) simp
qed

lemma head_yields:
  assumes "roomy buf fin" "cursor_sum fin c"
  shows "yields (cursor_left fin 2) (rr_head buf c)"
proof (cases "snd c < 0")
  case True
  then show ?thesis by (cases c) (simp add: rr_head_def labels_at_def run_bind_def)
next
  case False
  then have "cursor_at fin 256 c" using assms(2) by (simp add: cursor_defs)
  note lab = labels_yield [OF assms(1) this order_refl, of False]
  have fields: "yields (cursor_left fin 2) (run_bind (get_at buf 2 c) (\<lambda>(type, c). run_bind (get_at buf 2 c) (\<lambda>(_, c). run_bind (get_at buf 4 c) (\<lambda>(ttl, c).
       run_bind (get_at buf 2 c) (\<lambda>(datalen, c). Ret (Some ((be16 type, be32 ttl, be16 datalen), c)))))))"
    if "cursor_left fin 12 c" for c
    by (rule yields_bind [OF get_left [OF assms(1), of 2 10]], use that in simp,
        rule yields_bind [OF get_left [OF assms(1), of 2 8]], simp,
        rule yields_bind [OF get_left [OF assms(1), of 4 4]], simp,
        rule yields_bind [OF get_left [OF assms(1), of 2 2]]) simp_all
  show ?thesis unfolding rr_head_def
    by (rule yields_bind [OF lab]) (use fields in \<open>simp add: cursor_defs\<close>)
qed

lemma at_sum: "cursor_at fin k c \<Longrightarrow> cursor_sum fin c"
  by (simp add: cursor_defs)

text \<open>Text records and \<open>TLSA\<close> records trust their own length.\<close>

definition trusts_length :: "u16 \<Rightarrow> bool" where
  "trusts_length type \<longleftrightarrow> type = 16 \<or> type = 99 \<or> type = 52"

lemma data_yields:
  assumes "roomy buf fin" "cursor_left fin 2 c" "\<not> trusts_length type"
  shows "yields (cursor_sum fin) (rr_data buf start type datalen c)"
proof -
  have at: "cursor_at fin k c" for k using assms(2) by (rule left_at)
  note get = get_yields [OF assms(1)] and lab = labels_yield [OF assms(1)]
  have sum: "cursor_sum fin (fst c + n, snd c - int n)" for n using assms(2) by (simp add: cursor_defs)
  have name: "yields (cursor_sum fin) (run_bind (labels_at buf True c') (\<lambda>(n, c). Ret (Some (f n, c))))" if "cursor_at fin 256 c'"
    for c' and f :: "u8 list \<Rightarrow> rr_content option"
    by (rule yields_bind [OF lab [OF that order_refl]]) (simp add: at_sum)
  have addr: "yields (cursor_sum fin) (run_bind (get_at buf n c) (\<lambda>(a, _). Ret (Some (f a, fst c + unat datalen, snd c - int (unat datalen)))))"
    if "n \<le> 16" for n and f :: "u8 list \<Rightarrow> rr_content option"
    by (rule yields_bind [OF get [OF at, of 0]]) (use that sum [of "unat datalen"] in simp_all)
  have soa: "yields (cursor_sum fin) (run_bind (labels_at buf True c) (\<lambda>(m, c). run_bind (labels_at buf True c) (\<lambda>(a, c).
      run_bind (get32s buf 5 c) (\<lambda>(xs, c). Ret (Some (Some (RR_SOA m a xs), c))))))"
    by (rule yields_bind [OF lab [OF at order_refl]], rule yields_bind [OF lab [OF _ order_refl]], assumption,
        rule yields_bind [OF get32s_yields [OF assms(1)]], assumption) (simp_all add: at_sum)
  have near: "cursor_at fin k c \<Longrightarrow> k \<le> 256 \<Longrightarrow> cursor_at fin 256 c" for c k by (simp add: cursor_defs)
  have mx: "yields (cursor_sum fin) (run_bind (get_at buf 2 c) (\<lambda>(x, c). run_bind (labels_at buf True c) (\<lambda>(n, c). Ret (Some (Some (RR_MX (be16 x) n), c)))))"
    by (rule yields_bind [OF get [OF at, of 0]], simp, rule name, erule near) simp
  have srv: "yields (cursor_sum fin) (run_bind (get_at buf 2 c) (\<lambda>(x, c). run_bind (get_at buf 2 c) (\<lambda>(y, c). run_bind (get_at buf 2 c) (\<lambda>(z, c).
      run_bind (labels_at buf True c) (\<lambda>(n, c). Ret (Some (Some (RR_SRV (be16 x) (be16 y) (be16 z) n), c)))))))"
    by (rule yields_bind [OF get [OF at, of 0]], simp, rule yields_bind [OF get], assumption, simp,
        rule yields_bind [OF get], assumption, simp, rule name, erule near) simp
  show ?thesis unfolding rr_data_def Let_def
    by (intro yields_if yields_simps(1) soa mx srv name [OF at] addr)
      (use assms(3) sum [of "unat datalen"] in \<open>auto simp: trusts_length_def\<close>)
qed

text \<open>Whether the loop over the answers comes to such a record.\<close>

fun comes_to_trusting :: "u8 list \<Rightarrow> nat \<Rightarrow> cursor \<Rightarrow> bool" where
  "comes_to_trusting buf 0 c = False"
| "comes_to_trusting buf (Suc n) c =
     ((case rr_head buf c of Ret (Some ((type, _), _)) \<Rightarrow> trusts_length type | _ \<Rightarrow> False) \<or>
      (case rdns_parse_rr buf c of Ret (Some (_, c')) \<Rightarrow> comes_to_trusting buf n c' | _ \<Rightarrow> False))"

lemma rr_yields:
  assumes "roomy buf fin" "cursor_sum fin c" "\<And>type y c'. rr_head buf c = Ret (Some ((type, y), c')) \<Longrightarrow> \<not> trusts_length type"
  shows "yields (cursor_sum fin) (rdns_parse_rr buf c)"
proof -
  obtain r where r: "rr_head buf c = Ret r" "\<And>x c'. r = Some (x, c') \<Longrightarrow> cursor_left fin 2 c'"
    using head_yields [OF assms(1,2)] by (auto simp: yields_def)
  show ?thesis
  proof (cases r)
    case None
    then show ?thesis using r(1) by (simp add: rdns_parse_rr_def run_bind_def)
  next
    case (Some h)
    obtain type ttl datalen c1 where h: "h = ((type, ttl, datalen), c1)" by (metis prod.exhaust)
    have "yields (cursor_sum fin) (rr_data buf (fst c) type datalen c1)"
      using data_yields [OF assms(1) r(2)] assms(3) r(1) Some h by simp
    then have "yields (cursor_sum fin) (run_bind (rr_data buf (fst c) type datalen c1) (\<lambda>(x, c). Ret (Some (map_option F x, c))))" for F
      by (rule yields_bind) simp
    then show ?thesis using r(1) Some h by (simp add: rdns_parse_rr_def split del: if_split)
  qed
qed

section \<open>Properties\<close>

text \<open>C31. The loop over the answers of a reply always ends with a list of entries, never more than the reply announces,
  and reads only near the datagram, whatever the reply holds, as long as no text or \<open>TLSA\<close> record comes
  up: for a datagram of at most 4096 bytes in a buffer with 512 bytes of room behind it.\<close>

theorem parse_answers_safe:
  assumes "fin \<le> UDP_PACKET_SIZE" "fin + 512 \<le> length buf" "pos \<le> fin" "\<not> comes_to_trusting buf ancount (pos, int fin - int pos)"
  shows "\<exists>es. parse_answers buf ancount (pos, int fin - int pos) [] = Ret es \<and> length es \<le> ancount"
proof -
  have gen: "\<exists>es'. parse_answers buf n c es = Ret es' \<and> length es' \<le> length es + n"
    if "cursor_sum fin c" "\<not> comes_to_trusting buf n c" for n c es
    using that
  proof (induction n arbitrary: c es)
    case (Suc n)
    have "yields (cursor_sum fin) (rdns_parse_rr buf c)"
      by (rule rr_yields) (use assms(1,2) Suc.prems in \<open>auto simp: roomy_def\<close>)
    then obtain r where r: "rdns_parse_rr buf c = Ret r" "\<And>x c'. r = Some (x, c') \<Longrightarrow> cursor_sum fin c'" by (auto simp: yields_def)
    show ?case
    proof (cases r)
      case (Some xc)
      obtain x c' where xc: "xc = (x, c')" by (cases xc)
      have "cursor_sum fin c'" "\<not> comes_to_trusting buf n c'" using r Some xc Suc.prems(2) by auto
      from Suc.IH [OF this, of es] Suc.IH [OF this, of "es @ [the x]"] show ?thesis using r(1) Some xc by (cases x) auto
    qed (use r in auto)
  qed simp
  show ?thesis using gen [of "(pos, int fin - int pos)" ancount "[]"] assms(3,4) by (simp add: cursor_sum_def)
qed

definition answer_demo :: "u8 list" where
  "answer_demo = [0, 0, 1, 0, 1, 0, 0, 0, 60, 0, 4, 10, 0, 0, 1] @ replicate 520 0"

theorem parse_answers_safe_witness: "\<exists>es. parse_answers answer_demo 1 (0, 15) [] = Ret es \<and> length es \<le> 1"
proof -
  have "\<not> comes_to_trusting answer_demo 1 (0, int 15 - int 0)" by code_simp
  moreover have "(15 :: nat) + 512 \<le> length answer_demo" by (simp add: answer_demo_def)
  ultimately show ?thesis using parse_answers_safe [of 15 answer_demo 0 1] by simp
qed

text \<open>The record of the example is understood.\<close>

lemma answer_demo_result:
  "parse_answers answer_demo 1 (0, 15) [] = Ret [\<lparr>rr_type = 1, rr_ttl = 60, rr_content = RR_A [10, 0, 0, 1]\<rparr>]"
  by code_simp

text \<open>A text record can run away: its strings are counted in 8 bits, so with an announced length of 256 or more and
  empty strings the count comes back to zero and the loop goes on to the end of the buffer and beyond,
  whatever was received of the record.\<close>

lemma empty_strings_run:
  assumes "256 \<le> unat datalen" "\<forall>i. p \<le> i \<and> i < length buf \<longrightarrow> buf ! i = 0"
  shows "txt_parts buf datalen 0 parts out (p, r) = Fault Over_Read"
  using assms(2)
proof (induction "length buf - p" arbitrary: p parts r out)
  case 0
  then show ?case using assms(1) unat_u8 [of parts] by (subst txt_parts.simps) simp
next
  case (Suc n)
  then have p: "p < length buf" "buf ! p = 0" by auto
  have "txt_parts buf datalen 0 parts out (p, r) = txt_parts buf datalen 0 (parts + 1) out (p + 1, r - 1)"
    using p assms(1) unat_u8 [of parts] by (subst txt_parts.simps) (simp add: read_at_def)
  also have "\<dots> = Fault Over_Read" using Suc by (intro Suc.hyps(1)) auto
  finally show ?case .
qed

theorem text_record_runs_away:
  assumes "256 \<le> unat datalen" "\<forall>i. fst c \<le> i \<and> i < length buf \<longrightarrow> buf ! i = 0" "type = 16 \<or> type = 99"
  shows "rr_data buf start type datalen c = Fault Over_Read"
  using empty_strings_run [OF assms(1), of "fst c" buf 0 "[]" "snd c"] assms(2,3) by (auto simp: rr_data_def run_bind_def)

theorem text_record_runs_away_witness: "rr_data (replicate 20 0) 0 16 256 (12, 8) = Fault Over_Read"
  using text_record_runs_away [of 256 "(12, 8)" "replicate 20 0" 16 0] by simp

end
