(* ===== verification/DNS_Query.thy ===== *)
theory DNS_Query
  imports DNS_Labels
begin

unbundle bit_operations_syntax

text \<open>
  Building a query (\<open>tysocks/3rd/librdns/src/packet.c\<close>, \<open>resolver.c\<close>): the packet is allocated for the length of the
  name as it was given, filled with a header, the question and an additional record.  The name written is the
  formatted one, which is longer when it had to be encoded.
\<close>

section \<open>Operations\<close>

text \<open>The header of a query on a little-endian host: identifier, recursion desired, counts in network order.\<close>

definition rdns_make_dns_header :: "u16 \<Rightarrow> u16 \<Rightarrow> rdns_request \<Rightarrow> rdns_request option" where
  "rdns_make_dns_header qid qcount req = map_option (\<lambda>pk. req\<lparr>packet := pk, req_pos := req_pos req + 12\<rparr>)
     (put_bytes (packet req) 0 [ucast qid, ucast (drop_bit 8 qid), 1, 0, ucast (drop_bit 8 qcount), ucast qcount, 0, 0, 0, 0, 0, 1])"

text \<open>The query for one name: \<open>given\<close> is its length before formatting, \<open>name\<close> the formatted name.  \<open>None\<close> is a write
  outside the packet, \<open>Some None\<close> the return of no request.\<close>

definition make_query :: "(nat \<Rightarrow> u8 list) \<Rightarrow> u16 \<Rightarrow> nat \<Rightarrow> u8 list \<Rightarrow> u16 \<Rightarrow> rdns_request option option" where
  "make_query malloc qid given name type =
     (case rdns_make_dns_header qid 1 (rdns_allocate_packet malloc given) of
       None \<Rightarrow> None
     | Some req \<Rightarrow>
         (case rdns_add_rr name type None req of
           None \<Rightarrow> None
         | Some (False, _, _) \<Rightarrow> Some None
         | Some (True, req, _) \<Rightarrow> map_option Some (rdns_add_edns0 req)))"

section \<open>Lemmas\<close>

lemma put_bytes_length: "put_bytes pk p bs = Some pk' \<Longrightarrow> length pk' = length pk"
  by (auto simp: put_bytes_def split: if_splits)

lemma put_bytes_some: "p + length bs \<le> length pk \<Longrightarrow> \<exists>pk'. put_bytes pk p bs = Some pk' \<and> length pk' = length pk"
  by (simp add: put_bytes_def)

lemma label_len_le: "rdns_calculate_label_len name \<le> length name"
  by (simp add: rdns_calculate_label_len_def length_takeWhile_le)

lemma write_labels_fits:
  assumes "target + length name + 1 \<le> length pk"
  shows "\<exists>e pk'. write_labels remain name None target pk = Some (e, pk', None) \<and> length pk' = length pk \<and>
    (\<forall>t. e = Finished t \<longrightarrow> t \<le> target + length name + 1) \<and> e \<noteq> Pointer_Written"
  using assms
proof (induction "length name" arbitrary: name target pk rule: less_induct)
  case less
  note step = write_labels.simps [of remain name None target pk]
  let ?l = "rdns_calculate_label_len name"
  show ?case
  proof (cases "name = [] \<or> remain = 0 \<or> ?l = 0 \<or> 63 < ?l")
    case True
    then show ?thesis unfolding step by (auto simp: Let_def)
  next
    case False
    define n where "n = (if remain < ?l + 1 then remain - 1 else ?l)"
    have n: "n \<le> ?l" "n \<le> length name" using label_len_le [of name] by (auto simp: n_def)
    have "target + length (of_nat n # take n name :: u8 list) \<le> length pk" using n less.prems by simp
    then obtain pk1 where pk1: "put_bytes pk target (of_nat n # take n name) = Some pk1" "length pk1 = length pk"
      using put_bytes_some by blast
    have eq: "write_labels remain name None target pk = write_labels remain (drop (n + 1) name) None (target + n + 1) pk1"
      using False pk1(1) unfolding step by (simp add: Let_def n_def)
    show ?thesis
    proof (cases "length name = n")
      case True
      then have "drop (n + 1) name = []" by simp
      then show ?thesis using eq pk1(2) True by (simp add: write_labels.simps [of remain "[]"])
    next
      case False
      then have len: "length (drop (n + 1) name) = length name - (n + 1)" "n + 1 \<le> length name" using n(2) by simp_all
      have "target + n + 1 + length (drop (n + 1) name) + 1 \<le> length pk1" using less.prems len pk1(2) by simp
      moreover have "length (drop (n + 1) name) < length name" using len by simp
      ultimately obtain e pk' where "write_labels remain (drop (n + 1) name) None (target + n + 1) pk1 = Some (e, pk', None)" "length pk' = length pk1"
        "\<forall>t. e = Finished t \<longrightarrow> t \<le> target + n + 1 + length (drop (n + 1) name) + 1" "e \<noteq> Pointer_Written"
        using less.hyps by blast
      then show ?thesis using eq pk1(2) len by (intro exI [of _ e] exI [of _ pk']) auto
    qed
  qed
qed

text \<open>A formatted name has a dot behind every label.\<close>

definition dotted :: "u8 list list \<Rightarrow> u8 list" where
  "dotted ls = concat (map (\<lambda>l. l @ [46]) ls)"

lemma dotted_parts:
  assumes "label_ok l"
  shows "dotted (l # ls) \<noteq> []" "take (length l) (dotted (l # ls)) = l" "drop (length l + 1) (dotted (l # ls)) = dotted ls"
    "rdns_calculate_label_len (dotted (l # ls)) = length l"
proof -
  have "\<forall>c \<in> set l. c \<noteq> 46" using assms by (auto simp: label_ok_def)
  then show "rdns_calculate_label_len (dotted (l # ls)) = length l"
    by (simp add: rdns_calculate_label_len_def dotted_def takeWhile_append2)
qed (simp_all add: dotted_def)

lemma write_labels_overflow:
  assumes "\<forall>l \<in> set ls. label_ok l" "64 \<le> remain" "length pk < target + length (dotted ls)" "target \<le> length pk"
  shows "write_labels remain (dotted ls) None target pk = None"
  using assms
proof (induction ls arbitrary: target pk)
  case Nil
  then show ?case by (simp add: dotted_def)
next
  case (Cons l ls)
  have l: "label_ok l" using Cons.prems by simp
  then have len: "length l \<le> 63" "length l \<noteq> 0" by (auto simp: label_ok_def)
  let ?w = "of_nat (length l) # l"
  have w: "length (dotted (l # ls)) = length ?w + length (dotted ls)" by (simp add: dotted_def)
  have eq: "write_labels remain (dotted (l # ls)) None target pk =
      (case put_bytes pk target ?w of None \<Rightarrow> None | Some pk \<Rightarrow> write_labels remain (dotted ls) None (target + length ?w) pk)"
    using len Cons.prems(2) dotted_parts [OF l, of ls]
    unfolding write_labels.simps [of remain "dotted (l # ls)" None target pk] by (simp add: Let_def split: option.splits)
  show ?case
  proof (cases "put_bytes pk target ?w")
    case (Some pk1)
    then have "target + length ?w \<le> length pk" by (auto simp: put_bytes_def split: if_splits)
    then have "write_labels remain (dotted ls) None (target + length ?w) pk1 = None"
      using Cons.IH [of pk1 "target + length ?w"] Cons.prems w put_bytes_length [OF Some] by simp
    then show ?thesis using eq Some by simp
  qed (use eq in simp)
qed

section \<open>Properties\<close>

lemma header_made:
  assumes "\<And>k. length (malloc k) = k"
  shows "\<exists>req. rdns_make_dns_header qid q (rdns_allocate_packet malloc n) = Some req \<and> req_pos req = 12 \<and> length (packet req) = n + 113"
  using put_bytes_some [of 0 "[ucast qid, ucast (drop_bit 8 qid), 1, 0, ucast (drop_bit 8 q), ucast q, 0, 0, 0, 0, 0, 1]" "malloc (n + 113)"] assms [of "n + 113"]
  by (auto simp: rdns_make_dns_header_def rdns_allocate_packet_def add.commute)

lemma query_overflows:
  assumes "\<And>k. length (malloc k) = k" "\<forall>l \<in> set ls. label_ok l" "given + 101 < length (dotted ls)" "given < 4096"
  shows "make_query malloc qid given (dotted ls) type = None"
proof -
  obtain req where req: "rdns_make_dns_header qid 1 (rdns_allocate_packet malloc given) = Some req" "req_pos req = 12"
    "length (packet req) = given + 113" using header_made [OF assms(1)] by blast
  let ?r = "unat (of_nat (length (packet req)) - of_nat (req_pos req) - 5 :: u32)"
  have "(of_nat (length (packet req)) - of_nat (req_pos req) - 5 :: u32) = of_nat (given + 96)" using req by simp
  then have "?r = given + 96" using assms(4) by (simp add: unat_of_nat del: of_nat_add)
  then have "write_labels ?r (dotted ls) None 12 (packet req) = None"
    by (intro write_labels_overflow) (use assms(2,3) req in auto)
  then show ?thesis using req(1,2) by (simp add: make_query_def rdns_add_rr_def rdns_write_name_compressed_def)
qed

text \<open>Queries fit their packet: as long as formatting makes the name at most 84 bytes longer, building the query
  never writes outside the packet, for any name whatsoever, valid or not.\<close>

lemma query_fits:
  assumes "\<And>k. length (malloc k) = k" "length name \<le> given + 84"
  shows "make_query malloc qid given name type \<noteq> None"
proof -
  obtain req where req: "rdns_make_dns_header qid 1 (rdns_allocate_packet malloc given) = Some req" "req_pos req = 12"
    "length (packet req) = given + 113" using header_made [OF assms(1)] by blast
  let ?r = "unat (of_nat (length (packet req)) - of_nat (req_pos req) - 5 :: u32)"
  obtain e pk where e: "write_labels ?r name None 12 (packet req) = Some (e, pk, None)" "length pk = given + 113"
    "\<forall>t. e = Finished t \<longrightarrow> t \<le> 13 + length name" "e \<noteq> Pointer_Written"
    using write_labels_fits [of 12 name "packet req" ?r] req assms(2) by auto
  show ?thesis
  proof (cases e)
    case (Finished t)
    then have t: "t \<le> length name + 13" using e(3) by simp
    obtain pk1 where p1: "put_bytes pk t [0] = Some pk1" "length pk1 = given + 113" using put_bytes_some [of t "[0]" pk] t e(2) assms(2) by auto
    obtain pk2 where p2: "put_bytes pk1 (t + 1) [ucast (drop_bit 8 type), ucast type, 0, 1] = Some pk2" "length pk2 = given + 113"
      using put_bytes_some [of "t + 1" "[ucast (drop_bit 8 type), ucast type, 0, 1]" pk1] t p1 assms(2) by auto
    obtain pk3 where p3: "put_bytes pk2 (t + 5) [0, 0, 41, 16, 0, 0, 0, 0, 0, 0, 0] = Some pk3"
      using put_bytes_some [of "t + 5" "[0, 0, 41, 16, 0, 0, 0, 0, 0, 0, 0]" pk2] t p2 assms(2) by auto
    have "rdns_write_name_compressed name None req = Some (True, req\<lparr>packet := pk1, req_pos := t + 1\<rparr>, None)"
      using e(1) Finished p1 req(2) by (simp add: rdns_write_name_compressed_def)
    then show ?thesis using req(1) p2 p3 by (simp add: make_query_def rdns_add_rr_def rdns_add_edns0_def add.commute)
  qed (use e req in \<open>simp_all add: make_query_def rdns_add_rr_def rdns_write_name_compressed_def\<close>)
qed

end
