(* ===== verification/DNS_Reply.thy ===== *)
theory DNS_Reply
  imports DNS_Records DNS_Query
begin

unbundle bit_operations_syntax

text \<open>
  Taking a reply (\<open>rdns_request_reply_cmp\<close> of \<open>tysocks/3rd/librdns/src/parse.c\<close>, \<open>rdns_parse_reply\<close> of \<open>resolver.c\<close>): the header
  is checked, the questions of the reply are compared with those of the request, and the answers are read.
  The position of the request, which is also the length of what is sent again, moves during the comparison.
\<close>

section \<open>Comparing the questions\<close>

text \<open>The label at \<open>p\<close>: its length, where its bytes start, the position behind it and whether it is a pointer.  Offsets
  count from \<open>base\<close>.\<close>

definition cmp_label :: "u8 list \<Rightarrow> nat \<Rightarrow> nat \<Rightarrow> nat \<Rightarrow> (nat \<times> nat \<times> nat \<times> bool) option run" where
  "cmp_label buf base limit p =
     (if length buf \<le> p then Fault Over_Read
      else if (buf ! p) AND DNS_COMPRESSION_BITS \<noteq> 0 then
        if length buf \<le> p + 1 then Fault Over_Read
        else (case rdns_decompress_label (drop base buf) (UNCOMPRESS_DNS_OFFSET buf p) limit of
          None \<Rightarrow> Fault Over_Read
        | Some None \<Rightarrow> Ret None
        | Some (Some l) \<Rightarrow> Ret (Some (unat (buf ! (base + l)), base + l + 1, p + 2, True)))
      else Ret (Some (unat (buf ! p), p + 1, p + 1 + unat (buf ! p), False)))"

text \<open>The loop: \<open>p\<close> is the position in the reply, whose question starts at \<open>q\<close>, \<open>c\<close> the one in the request \<open>pk\<close>.  In the request
  offsets count from the current position.\<close>

function cmp_labels :: "u8 list \<Rightarrow> nat \<Rightarrow> int \<Rightarrow> u8 list \<Rightarrow> nat \<Rightarrow> nat \<Rightarrow> nat \<Rightarrow> (nat \<times> nat \<times> nat) option run" where
  "cmp_labels buf q len pk p c decompressed =
     (if length buf \<le> p \<or> length pk \<le> c then Fault Over_Read
      else if len < int p - int q then Ret None
      else case cmp_label buf q (nat len) p of
        Diverges \<Rightarrow> Diverges
      | Fault e \<Rightarrow> Fault e
      | Ret None \<Rightarrow> Ret None
      | Ret (Some (len1, l1, p', z1)) \<Rightarrow>
          (case cmp_label pk c (nat len) c of
            Diverges \<Rightarrow> Diverges
          | Fault e \<Rightarrow> Fault e
          | Ret None \<Rightarrow> Ret None
          | Ret (Some (len2, l2, c', z2)) \<Rightarrow>
              let d = decompressed + of_bool z1 + of_bool z2 in
              if len1 \<noteq> len2 then Ret None
              else if len1 = 0 then Ret (Some (p', c', d))
              else (case (read_at buf l1 len1, read_at pk l2 len2) of
                (Some b1, Some b2) \<Rightarrow>
                  if b1 \<noteq> b2 then Ret None
                  else if d = 2 then Ret (Some (p', c', d))
                  else cmp_labels buf q len pk p' c' d
              | _ \<Rightarrow> Fault Over_Read)))"
  by auto
termination
  by (relation "measure (\<lambda>(buf, q, len, pk, p, c, d). length buf - p)")
    (auto simp: cmp_label_def split: if_splits option.splits)

declare cmp_labels.simps [simp del]

text \<open>The position behind the question in the reply and the one in the request; \<open>Ret None\<close> is the null pointer.\<close>

definition rdns_request_reply_cmp :: "u8 list \<Rightarrow> nat \<Rightarrow> int \<Rightarrow> rdns_request \<Rightarrow> (nat \<times> nat) option run" where
  "rdns_request_reply_cmp buf q len req =
     (case cmp_labels buf q len (packet req) q (req_pos req) 0 of
       Diverges \<Rightarrow> Diverges
     | Fault e \<Rightarrow> Fault e
     | Ret None \<Rightarrow> Ret None
     | Ret (Some (p, c, _)) \<Rightarrow>
         (case (read_at buf p 4, read_at (packet req) c 4) of
           (Some b1, Some b2) \<Rightarrow> if b1 = b2 then Ret (Some (p + 4, c + 4)) else Ret None
         | _ \<Rightarrow> Fault Over_Read))"

text \<open>One call for each question.\<close>

fun cmp_questions :: "nat \<Rightarrow> u8 list \<Rightarrow> nat \<Rightarrow> int \<Rightarrow> rdns_request \<Rightarrow> (nat option \<times> rdns_request) run" where
  "cmp_questions 0 buf pos t req = Ret (Some pos, req)"
| "cmp_questions (Suc n) buf pos t req = (case rdns_request_reply_cmp buf pos t req of
     Diverges \<Rightarrow> Diverges
   | Fault e \<Rightarrow> Fault e
   | Ret None \<Rightarrow> Ret (None, req)
   | Ret (Some (npos, c)) \<Rightarrow> cmp_questions n buf npos (t - (int npos - int pos)) (req\<lparr>req_pos := c\<rparr>))"

section \<open>The reply\<close>

abbreviation (input) RDNS_RC_NOERROR :: u8 where "RDNS_RC_NOERROR \<equiv> 0"
abbreviation (input) RDNS_RC_NOREC :: u8 where "RDNS_RC_NOREC \<equiv> 13"
abbreviation (input) RDNS_REQUEST_ANY :: u16 where "RDNS_REQUEST_ANY \<equiv> 255"

record rdns_reply =
  rep_code :: u8
  rep_entries :: "reply_entry list"

text \<open>The fields of the header that are looked at, on a little-endian host.\<close>

definition dns_header_qr :: "u8 list \<Rightarrow> bool" where
  "dns_header_qr buf \<longleftrightarrow> (buf ! 2) AND 0x80 \<noteq> 0"

definition dns_header_rcode :: "u8 list \<Rightarrow> u8" where
  "dns_header_rcode buf = (buf ! 3) AND 0x0F"

definition dns_header_count :: "u8 list \<Rightarrow> nat \<Rightarrow> u16" where
  "dns_header_count buf p = be16 [buf ! p, buf ! (p + 1)]"

text \<open>A reply of \<open>r\<close> bytes for a request of \<open>qcount\<close> questions, the first of type \<open>type\<close>.  The request comes back with its
  new position whether or not the reply is taken.\<close>

definition rdns_parse_reply :: "u8 list \<Rightarrow> int \<Rightarrow> nat \<Rightarrow> u16 \<Rightarrow> rdns_request \<Rightarrow> (rdns_reply option \<times> rdns_request) run" where
  "rdns_parse_reply buf r qcount type req =
     (if \<not> dns_header_qr buf then Ret (None, req)
      else if unat (dns_header_count buf 4) \<noteq> qcount then Ret (None, req)
      else case cmp_questions qcount buf 12 (r - 12) (req\<lparr>req_pos := 12\<rparr>) of
        Diverges \<Rightarrow> Diverges
      | Fault e \<Rightarrow> Fault e
      | Ret (None, req) \<Rightarrow> Ret (None, req)
      | Ret (Some pos, req) \<Rightarrow>
          let code = dns_header_rcode buf in
          (case (if code = RDNS_RC_NOERROR then parse_answers buf (unat (dns_header_count buf 6)) (pos, r - int pos) [] else Ret []) of
            Diverges \<Rightarrow> Diverges
          | Fault e \<Rightarrow> Fault e
          | Ret es \<Rightarrow>
              let found = (\<exists>e \<in> set es. rr_type e = type);
                  code = (if \<not> found \<and> type \<noteq> RDNS_REQUEST_ANY then RDNS_RC_NOREC else code)
              in Ret (Some \<lparr>rep_code = code, rep_entries = es\<rparr>, req)))"

text \<open>What \<open>rdns_send_request\<close> puts on the wire, the first time and again.\<close>

definition request_bytes :: "rdns_request \<Rightarrow> u8 list" where
  "request_bytes req = take (req_pos req) (packet req)"

section \<open>Plain questions\<close>

text \<open>A label on the wire: 1 to 63 arbitrary bytes, dots included.\<close>

definition wire_ok :: "u8 list \<Rightarrow> bool" where
  "wire_ok l \<longleftrightarrow> l \<noteq> [] \<and> length l \<le> DNS_D_MAXLABEL"

lemma label_wire_ok: "label_ok l \<Longrightarrow> wire_ok l"
  by (simp add: label_ok_def wire_ok_def)

lemma plain_label:
  assumes "buf = pre @ wire_labels ls @ 0 # post" "\<forall>l \<in> set ls. wire_ok l"
  shows "cmp_label buf base limit (length pre) = Ret (Some (case ls of [] \<Rightarrow> (0, length pre + 1, length pre + 1, False)
    | l # _ \<Rightarrow> (length l, length pre + 1, length pre + 1 + length l, False)))"
proof (cases ls)
  case (Cons l ls')
  have "label_ok (replicate (length l) 0)" using assms(2) Cons by (simp add: label_ok_def wire_ok_def)
  note b = label_len_byte [OF this]
  have "buf ! length pre = of_nat (length l)" "length pre < length buf" using assms(1) Cons by (simp_all add: wire_labels_def nth_append)
  then show ?thesis using b Cons by (simp add: cmp_label_def)
qed (use assms in \<open>simp add: cmp_label_def wire_labels_def nth_append\<close>)

lemma wire_next:
  assumes "buf = pre @ wire_labels (l # ls) @ 0 # post"
  shows "read_at buf (length pre + 1) (length l) = Some l" "buf = (pre @ of_nat (length l) # l) @ wire_labels ls @ 0 # post" "length pre < length buf"
  using assms by (simp_all add: wire_labels_def read_at_def)

lemma wire_Cons: "length (wire_labels (l # ls)) = length l + 1 + length (wire_labels ls)"
  by (simp add: wire_labels_def)

text \<open>The loop compares plain questions label by label, without a fault.\<close>

lemma cmp_plain:
  assumes "buf = pre @ wire_labels ls @ 0 # post" "pk = pre' @ wire_labels ls' @ 0 # post'"
    "\<forall>l \<in> set ls. wire_ok l" "\<forall>l \<in> set ls'. wire_ok l" "int (length pre + length (wire_labels ls)) - int q \<le> len"
  shows "cmp_labels buf q len pk (length pre) (length pre') 0 =
    (if ls = ls' then Ret (Some (length pre + length (wire_labels ls) + 1, length pre' + length (wire_labels ls') + 1, 0)) else Ret None)"
  using assms
proof (induction ls arbitrary: ls' pre pre')
  case Nil
  have "length pre < length buf" "length pre' < length pk" using Nil.prems(1,2) by simp_all
  then show ?case using plain_label [OF Nil.prems(1,3), of q "nat len"] plain_label [OF Nil.prems(2,4), of "length pre'" "nat len"] Nil.prems(4,5)
    by (subst cmp_labels.simps) (cases ls'; auto simp: Let_def wire_labels_def wire_ok_def)
next
  case (Cons l ls)
  note lab = plain_label [OF Cons.prems(1,3), of q "nat len"] plain_label [OF Cons.prems(2,4), of "length pre'" "nat len"]
  note at = wire_next [OF Cons.prems(1)]
  have at': "length pre' < length pk" using Cons.prems(2) by simp
  have len: "\<not> len < int (length pre) - int q" "length l \<noteq> 0" using Cons.prems(3,5) by (auto simp: wire_Cons wire_ok_def)
  note step = cmp_labels.simps [of buf q len pk "length pre" "length pre'" 0]
  show ?case
  proof (cases ls')
    case Nil
    then show ?thesis using lab at(3) at' len unfolding step by (simp add: Let_def)
  next
    case (Cons l' rs)
    note pk = wire_next [OF Cons.prems(2) [unfolded Cons]]
    show ?thesis
    proof (cases "l = l'")
      case False
      then show ?thesis using lab at(1,3) at' len pk(1) Cons unfolding step
        by (cases "length l = length l'") (simp_all add: Let_def)
    next
      case True
      have "cmp_labels buf q len pk (length pre) (length pre') 0 =
          cmp_labels buf q len pk (length (pre @ of_nat (length l) # l)) (length (pre' @ of_nat (length l') # l')) 0"
        using lab at(1,3) at' len pk(1) Cons True unfolding step by (simp add: Let_def)
      also have "\<dots> = (if ls = rs then Ret (Some (length (pre @ of_nat (length l) # l) + length (wire_labels ls) + 1,
          length (pre' @ of_nat (length l') # l') + length (wire_labels rs) + 1, 0)) else Ret None)"
        by (rule Cons.IH [OF at(2) pk(2)]) (use Cons.prems Cons in \<open>auto simp: wire_Cons\<close>)
      finally show ?thesis using Cons True by (simp add: wire_Cons)
    qed
  qed
qed

section \<open>The question of a query\<close>

lemma wire_join: "ls \<noteq> [] \<Longrightarrow> length (wire_labels ls) = length (join_labels ls) + 1"
  by (induction ls rule: join_labels.induct) (simp_all add: wire_labels_def)

definition question_tail :: "u16 \<Rightarrow> u8 list" where
  "question_tail type = [ucast (drop_bit 8 type), ucast type, 0, 1]"

text \<open>A query for a name of valid labels: twelve bytes of header, the name, type and class, and eleven bytes more.\<close>

lemma query_layout:
  assumes "\<And>k. length (malloc k) = k" "\<forall>l \<in> set ls. label_ok l" "ls \<noteq> []" "length (join_labels ls) \<le> 255"
  obtains req hdr rest where "make_query malloc qid (length (join_labels ls)) (join_labels ls) type = Some (Some req)"
    "length hdr = 12" "packet req = hdr @ wire_labels ls @ 0 # question_tail type @ rest" "req_pos req = length (wire_labels ls) + 28"
    "11 \<le> length rest"
proof -
  let ?n = "length (join_labels ls)" and ?w = "wire_labels ls"
  obtain r0 where r0: "rdns_make_dns_header qid 1 (rdns_allocate_packet malloc ?n) = Some r0" "req_pos r0 = 12" "length (packet r0) = ?n + 113"
    using header_made [OF assms(1)] by blast
  note w = wire_join [OF assms(3)]
  let ?hdr = "take 12 (packet r0)" and ?post = "drop (12 + length ?w + 1) (packet r0)"
  let ?r1 = "r0\<lparr>packet := ?hdr @ ?w @ 0 # ?post, req_pos := 12 + length ?w + 1\<rparr>"
  have r1: "rdns_write_name_compressed (join_labels ls) None r0 = Some (True, ?r1, None)"
    using name_written [OF assms(2), of r0] r0 w assms(4) by simp
  let ?pk2 = "?hdr @ ?w @ 0 # question_tail type @ drop 4 ?post"
  have "put_bytes (packet ?r1) (req_pos ?r1) (question_tail type) = Some ?pk2"
    using r0(3) w by (subst put_bytes_fits) (simp_all add: question_tail_def)
  then have r2: "rdns_add_rr (join_labels ls) type None r0 = Some (True, r0\<lparr>packet := ?pk2, req_pos := 12 + length ?w + 5\<rparr>, None)"
    using r1 by (simp add: rdns_add_rr_def question_tail_def)
  let ?e = "[0, 0, 41, 16, 0, 0, 0, 0, 0, 0, 0]"
  let ?rest = "?e @ drop 15 ?post"
  have "put_bytes ?pk2 (12 + length ?w + 5) ?e = Some (?hdr @ ?w @ 0 # question_tail type @ ?rest)"
    using r0(3) w by (subst put_bytes_fits) (simp_all add: question_tail_def)
  then have q: "make_query malloc qid ?n (join_labels ls) type =
      Some (Some (r0\<lparr>packet := ?hdr @ ?w @ 0 # question_tail type @ ?rest, req_pos := length ?w + 28\<rparr>))"
    using r0(1) r2 by (simp add: make_query_def rdns_add_edns0_def)
  have "11 \<le> length ?rest" unfolding length_append by simp
  with that [OF q, of ?hdr ?rest] r0(3) show ?thesis by simp
qed

lemma plain_question:
  assumes "\<forall>l \<in> set ls. label_ok l" "\<forall>l \<in> set ls'. wire_ok l" "length hdr = 12" "length hdr' = 12" "length tail = 4"
    "packet req = hdr @ wire_labels ls @ 0 # question_tail type @ rest"
    "buf = hdr' @ wire_labels ls' @ 0 # tail @ answers" "int (length (wire_labels ls')) \<le> r - 12"
  shows "cmp_questions 1 buf 12 (r - 12) (req\<lparr>req_pos := 12\<rparr>) =
    Ret (if ls' = ls \<and> tail = question_tail type then (Some (length (wire_labels ls) + 17), req\<lparr>req_pos := length (wire_labels ls) + 17\<rparr>)
         else (None, req\<lparr>req_pos := 12\<rparr>))"
proof -
  have "cmp_labels buf 12 (r - 12) (packet req) (length hdr') (length hdr) 0 = (if ls' = ls then
      Ret (Some (length hdr' + length (wire_labels ls') + 1, length hdr + length (wire_labels ls) + 1, 0)) else Ret None)"
    by (rule cmp_plain [OF assms(7,6)]) (use assms(1-4,8) label_wire_ok in auto)
  moreover have "read_at buf (length (wire_labels ls') + 13) 4 = Some tail"
    "read_at (packet req) (length (wire_labels ls) + 13) 4 = Some (question_tail type)"
    using assms(3-7) by (simp_all add: read_at_def question_tail_def)
  ultimately show ?thesis using assms(3,4) by (cases "ls' = ls") (simp_all add: rdns_request_reply_cmp_def add.commute)
qed

section \<open>Properties\<close>

text \<open>C36. A reply is taken only for the question that was asked.  For a query of any valid name and a reply with one
  plain question, whatever bytes its labels hold: if the reply is taken, its labels, type and class are those of
  the query; and if they are and its answers can be read, it is taken with exactly these answers.\<close>

theorem reply_for_question:
  assumes "\<And>k. length (malloc k) = k" "\<forall>l \<in> set ls. label_ok l" "ls \<noteq> []" "length (join_labels ls) \<le> 255"
    "\<forall>l \<in> set ls'. wire_ok l" "length hdr = 12" "length tail = 4" "buf = hdr @ wire_labels ls' @ 0 # tail @ answers"
    "int (length (wire_labels ls')) \<le> r - 12" "dns_header_qr buf" "dns_header_count buf 4 = 1"
  shows "\<exists>req. make_query malloc qid (length (join_labels ls)) (join_labels ls) type = Some (Some req) \<and>
    (\<forall>rep req'. rdns_parse_reply buf r 1 type req = Ret (Some rep, req') \<longrightarrow> ls' = ls \<and> tail = question_tail type) \<and>
    (\<forall>es. ls' = ls \<and> tail = question_tail type \<and> dns_header_rcode buf = 0 \<and>
       parse_answers buf (unat (dns_header_count buf 6)) (length (wire_labels ls) + 17, r - int (length (wire_labels ls) + 17)) [] = Ret es \<longrightarrow>
       (\<exists>rep req'. rdns_parse_reply buf r 1 type req = Ret (Some rep, req') \<and> rep_entries rep = es))"
proof -
  obtain req hdr0 rest where req: "make_query malloc qid (length (join_labels ls)) (join_labels ls) type = Some (Some req)"
    "length hdr0 = 12" "packet req = hdr0 @ wire_labels ls @ 0 # question_tail type @ rest"
    using query_layout [OF assms(1-4)] by metis
  note q = plain_question [OF assms(2,5) req(2) assms(6,7) req(3) assms(8,9)]
  show ?thesis using req(1) assms(10,11) q
    by (intro exI [of _ req]) (simp add: rdns_parse_reply_def Let_def del: cmp_questions.simps)
qed

text \<open>C37. A reply that is refused spoils the request: a reply to the right identifier with another question, which
  anyone can send, leaves the position of the request behind its header, so that what is sent again are
  twelve bytes without a question instead of the query.\<close>

theorem refused_reply_truncates:
  assumes "\<And>k. length (malloc k) = k" "\<forall>l \<in> set ls. label_ok l" "ls \<noteq> []" "length (join_labels ls) \<le> 255"
    "\<forall>l \<in> set ls'. wire_ok l" "length hdr = 12" "length tail = 4" "buf = hdr @ wire_labels ls' @ 0 # tail @ answers"
    "int (length (wire_labels ls')) \<le> r - 12" "dns_header_qr buf" "dns_header_count buf 4 = 1"
    "ls' \<noteq> ls \<or> tail \<noteq> question_tail type"
  shows "\<exists>req req'. make_query malloc qid (length (join_labels ls)) (join_labels ls) type = Some (Some req) \<and>
    length (request_bytes req) = length (join_labels ls) + 29 \<and>
    rdns_parse_reply buf r 1 type req = Ret (None, req') \<and> length (request_bytes req') = 12"
proof -
  obtain req hdr0 rest where req: "make_query malloc qid (length (join_labels ls)) (join_labels ls) type = Some (Some req)"
    "length hdr0 = 12" "packet req = hdr0 @ wire_labels ls @ 0 # question_tail type @ rest" "req_pos req = length (wire_labels ls) + 28"
    "11 \<le> length rest" using query_layout [OF assms(1-4)] by metis
  note q = plain_question [OF assms(2,5) req(2) assms(6,7) req(3) assms(8,9)]
  have "length (packet req) = 12 + length (wire_labels ls) + 5 + length rest" using req(2,3) by (simp add: question_tail_def)
  then have "length (request_bytes req) = length (join_labels ls) + 29" "length (request_bytes (req\<lparr>req_pos := 12\<rparr>)) = 12"
    using req(4,5) wire_join [OF assms(3)] by (simp_all add: request_bytes_def)
  moreover have "rdns_parse_reply buf r 1 type req = Ret (None, req\<lparr>req_pos := 12\<rparr>)"
    using assms(10,11,12) q by (auto simp add: rdns_parse_reply_def simp del: cmp_questions.simps)
  ultimately show ?thesis using req(1) by blast
qed

text \<open>The code of a reply says whether it answers: for every type but the wildcard, a reply that is taken has code 0
  exactly if one of its entries is of the type asked for, and code 13 otherwise, whatever code the server
  had sent.\<close>

theorem reply_code:
  assumes "rdns_parse_reply buf r qcount type req = Ret (Some rep, req')" "type \<noteq> RDNS_REQUEST_ANY"
  shows "rep_code rep = (if \<exists>e \<in> set (rep_entries rep). rr_type e = type then RDNS_RC_NOERROR else RDNS_RC_NOREC)"
  using assms by (auto simp: rdns_parse_reply_def Let_def split: run.splits if_splits option.splits prod.splits)

text \<open>A query for the name \<open>a\<close>, a reply with an empty answer section, one for the name \<open>b\<close>.\<close>

definition reply_header :: "u8 list" where
  "reply_header = [7, 0, 0x81, 0x80, 0, 1, 0, 0, 0, 0, 0, 0]"

theorem reply_for_question_witness:
  "\<exists>req rep req'. make_query (\<lambda>k. replicate k 0) 7 1 [97] 1 = Some (Some req) \<and>
     rdns_parse_reply (reply_header @ [1, 97, 0, 0, 1, 0, 1]) 19 1 1 req = Ret (Some rep, req') \<and> rep_entries rep = []"
  using reply_for_question [of "\<lambda>k. replicate k 0" "[[97]]" "[[97]]" reply_header "[0, 1, 0, 1]" "reply_header @ [1, 97, 0, 0, 1, 0, 1]" "[]" 19 7 1]
  by (simp add: reply_header_def label_ok_def wire_ok_def wire_labels_def dns_header_qr_def dns_header_count_def dns_header_rcode_def be16_def question_tail_def)

theorem refused_reply_truncates_witness:
  "\<exists>req req'. make_query (\<lambda>k. replicate k 0) 7 1 [97] 1 = Some (Some req) \<and> length (request_bytes req) = 30 \<and>
     rdns_parse_reply (reply_header @ [1, 98, 0, 0, 1, 0, 1]) 19 1 1 req = Ret (None, req') \<and> length (request_bytes req') = 12"
  using refused_reply_truncates [of "\<lambda>k. replicate k 0" "[[97]]" "[[98]]" reply_header "[0, 1, 0, 1]" "reply_header @ [1, 98, 0, 0, 1, 0, 1]" "[]" 19 1 7]
  by (simp add: reply_header_def label_ok_def wire_ok_def wire_labels_def dns_header_qr_def dns_header_count_def be16_def)

lemma reply_demo:
  obtains rep req' where "rdns_parse_reply (reply_header @ [1, 97, 0, 0, 1, 0, 1]) 19 1 1
      \<lparr>packet = replicate 12 0 @ [1, 97, 0, 0, 1, 0, 1], req_pos = 0\<rparr> = Ret (Some rep, req')" "rep_entries rep = []"
proof -
  have "case rdns_parse_reply (reply_header @ [1, 97, 0, 0, 1, 0, 1]) 19 1 1
      \<lparr>packet = replicate 12 0 @ [1, 97, 0, 0, 1, 0, 1], req_pos = 0\<rparr> of Ret (Some rep, _) \<Rightarrow> rep_entries rep = [] | _ \<Rightarrow> False"
    by code_simp
  then show ?thesis by (auto split: run.splits option.splits prod.splits intro: that)
qed

theorem reply_code_witness:
  "\<exists>rep req'. rdns_parse_reply (reply_header @ [1, 97, 0, 0, 1, 0, 1]) 19 1 1 \<lparr>packet = replicate 12 0 @ [1, 97, 0, 0, 1, 0, 1], req_pos = 0\<rparr> =
     Ret (Some rep, req') \<and> rep_code rep = 13"
proof (rule reply_demo)
  fix rep req'
  assume r: "rdns_parse_reply (reply_header @ [1, 97, 0, 0, 1, 0, 1]) 19 1 1
      \<lparr>packet = replicate 12 0 @ [1, 97, 0, 0, 1, 0, 1], req_pos = 0\<rparr> = Ret (Some rep, req')" "rep_entries rep = []"
  from reply_code [OF r(1)] r show ?thesis by auto
qed

end
