(* ===== verification/DNS_Punycode.thy ===== *)
theory DNS_Punycode
  imports DNS_Query
begin

unbundle bit_operations_syntax

text \<open>
  Names with letters beyond ASCII (\<open>tysocks/3rd/librdns/src/punycode.c\<close>, \<open>packet.c\<close>): UTF-8 to code points, code
  points to a punycode label, and the formatting of a whole name before a query is built.  Code points and
  the encoder's integers are integers; \<open>delta\<close>, the one that can overflow, is kept below 2^32.
\<close>

section \<open>UTF-8\<close>

definition continuation :: "u8 \<Rightarrow> bool" where
  "continuation c \<longleftrightarrow> c AND 0xC0 = 0x80"

text \<open>One character: its code point and the bytes behind it; \<open>None\<close> for the result -1.\<close>

fun utf8toutf32 :: "u8 list \<Rightarrow> (int \<times> u8 list) option" where
  "utf8toutf32 [] = None"
| "utf8toutf32 (c # p) =
     (if c AND 0x80 \<noteq> 0 then
        if c AND 0xE0 = 0xC0 \<and> 1 \<le> length p then
          if continuation (p ! 0) then Some (uint (c AND 0x1F) * 2 ^ 6 + uint (p ! 0 AND 0x3F), drop 1 p) else None
        else if c AND 0xF0 = 0xE0 \<and> 2 \<le> length p then
          if continuation (p ! 0) \<and> continuation (p ! 1)
          then Some (uint (c AND 0x0F) * 2 ^ 12 + uint (p ! 0 AND 0x3F) * 2 ^ 6 + uint (p ! 1 AND 0x3F), drop 2 p) else None
        else if c AND 0xF8 = 0xF0 \<and> 3 \<le> length p then
          if continuation (p ! 0) \<and> continuation (p ! 1) \<and> continuation (p ! 2)
          then Some (uint (c AND 0x07) * 2 ^ 18 + uint (p ! 0 AND 0x3F) * 2 ^ 12 + uint (p ! 1 AND 0x3F) * 2 ^ 6 + uint (p ! 2 AND 0x3F), drop 3 p)
          else None
        else None
      else Some (uint c, p))"

lemma utf8toutf32_shorter: "utf8toutf32 s = Some (u, r) \<Longrightarrow> length r < length s"
  by (cases s) (auto split: if_splits)

function rdns_utf8_to_ucs4 :: "u8 list \<Rightarrow> int list option" where
  "rdns_utf8_to_ucs4 s = (if s = [] then Some []
     else case utf8toutf32 s of None \<Rightarrow> None | Some (u, r) \<Rightarrow> map_option (Cons u) (rdns_utf8_to_ucs4 r))"
  by auto
termination
  by (relation "measure length") (auto dest: utf8toutf32_shorter)

declare rdns_utf8_to_ucs4.simps [simp del]

section \<open>Punycode\<close>

text \<open>The digits; behind the last one stands the end of the string.\<close>

definition digit :: "int \<Rightarrow> u8" where
  "digit n = (if n < 26 then of_int (97 + n) else if n < 36 then of_int (48 + n - 26) else 0)"

function adapt_loop :: "int \<Rightarrow> int \<Rightarrow> int \<times> int" where
  "adapt_loop delta k = (if delta > (36 - 1) * 26 div 2 then adapt_loop (delta div (36 - 1)) (k + 36) else (delta, k))"
  by auto
termination
  by (relation "measure (\<lambda>(delta, k). nat delta)") auto

declare adapt_loop.simps [simp del]

definition adapt :: "int \<Rightarrow> int \<Rightarrow> bool \<Rightarrow> int" where
  "adapt delta numpoints first =
     (let delta = (if first then delta div 700 else delta div 2);
          (delta, k) = adapt_loop (delta + delta div numpoints) 0
      in k + ((36 - 1 + 1) * delta) div (delta + 38))"

definition threshold :: "int \<Rightarrow> int \<Rightarrow> int" where
  "threshold k bias = (if k \<le> bias then 1 else if bias + 26 \<le> k then 26 else k - bias)"

lemma threshold_range: "1 \<le> threshold k bias \<and> threshold k bias \<le> 26"
  by (auto simp: threshold_def)

text \<open>The digits of one number.\<close>

function put_number :: "int \<Rightarrow> int \<Rightarrow> int \<Rightarrow> u8 list" where
  "put_number q k bias =
     (let t = threshold k bias
      in if q < t then [digit q] else digit (t + (q - t) mod (36 - t)) # put_number ((q - t) div (36 - t)) (k + 36) bias)"
  by auto
termination
proof (relation "measure (\<lambda>(q, k, bias). nat q)")
  fix q k bias t :: int assume t: "t = threshold k bias" "\<not> q < t"
  then have r: "1 \<le> t" "t \<le> 26" "t \<le> q" using threshold_range [of k bias] by auto
  have "(q - t) div (36 - t) \<le> q - t" using r zdiv_mono2 [of "q - t" 1 "36 - t"] by simp
  then show "(((q - t) div (36 - t), k + 36, bias), q, k, bias) \<in> measure (\<lambda>(q, k, bias). nat q)" using r by simp
qed simp

declare put_number.simps [simp del]

record puny =
  p_delta :: int
  p_bias :: int
  p_h :: nat
  p_out :: "u8 list"

text \<open>The second inner loop: every character below \<open>n\<close> counts, every one equal to \<open>n\<close> is written.\<close>

definition puny_char :: "nat \<Rightarrow> int \<Rightarrow> int \<Rightarrow> puny \<Rightarrow> puny" where
  "puny_char b n c s =
     (if c < n then s\<lparr>p_delta := (p_delta s + 1) mod 2 ^ 32\<rparr>
      else if c = n then s\<lparr>p_out := p_out s @ put_number (p_delta s) 36 (p_bias s),
        p_bias := adapt (p_delta s) (int (p_h s) + 1) (p_h s = b), p_delta := 0, p_h := p_h s + 1\<rparr>
      else s)"

text \<open>The first inner loop: the least character from \<open>n\<close> on.\<close>

definition least_from :: "int list \<Rightarrow> int \<Rightarrow> int" where
  "least_from ins n = fold (\<lambda>c m. if c < m \<and> n \<le> c then c else m) ins (2 ^ 32 - 1)"

text \<open>The outer loop, with a bound on its rounds; \<open>None\<close> when the bound is used up.\<close>

fun puny_rounds :: "nat \<Rightarrow> int list \<Rightarrow> nat \<Rightarrow> int \<Rightarrow> puny \<Rightarrow> puny option" where
  "puny_rounds fuel ins b n s =
     (if p_h s < length ins then
        case fuel of 0 \<Rightarrow> None
        | Suc fuel \<Rightarrow>
            let m = least_from ins n;
                s = s\<lparr>p_delta := (p_delta s + (m - n) * (int (p_h s) + 1)) mod 2 ^ 32\<rparr>;
                s = fold (puny_char b m) ins s
            in puny_rounds fuel ins b (m + 1) (s\<lparr>p_delta := (p_delta s + 1) mod 2 ^ 32\<rparr>)
      else Some s)"

declare puny_rounds.simps [simp del]

text \<open>The basic characters and a hyphen behind them.\<close>

definition puny_basic :: "int list \<Rightarrow> u8 list" where
  "puny_basic ins = (let basic = filter (\<lambda>c. c < 128) ins in map of_int basic @ (if basic = [] then [] else [0x2D]))"

definition puny_start :: "int list \<Rightarrow> puny" where
  "puny_start ins =
     (let h = length (filter (\<lambda>c. c < 128) ins)
      in \<lparr>p_delta = 0, p_bias = 72, p_h = h, p_out = (if h < length ins then [120, 110, 45, 45] else []) @ puny_basic ins\<rparr>)"

text \<open>The label the caller copies.  The encoder writes nothing behind the 63 bytes it is given: when it runs out of
  them it returns early and leaves the length at 63, and its result is not looked at, so the label is what
  it had written, filled up with what the bytes held before (\<open>stack\<close>).\<close>

definition rdns_punycode_label_toascii :: "u8 list \<Rightarrow> int list \<Rightarrow> u8 list option" where
  "rdns_punycode_label_toascii stack ins =
     (let basic = puny_basic ins; s = puny_start ins
      in if DNS_D_MAXLABEL < length basic \<or> p_h s < length ins \<and> DNS_D_MAXLABEL \<le> length basic + 4
         then Some (take DNS_D_MAXLABEL (basic @ drop (length basic) stack))
         else map_option (\<lambda>s. take DNS_D_MAXLABEL (p_out s)) (puny_rounds (length ins) ins (p_h s) 128 s))"

section \<open>Formatting a name\<close>

text \<open>The loop of \<open>rdns_format_dns_name\<close> over the rest \<open>p\<close> of the name, a string without its terminating zero; \<open>out\<close> is
  what has been written and \<open>stack\<close> what the bytes for one label hold.  \<open>Some None\<close> is the error return, \<open>None\<close> an
  encoder that does not return.\<close>

function format_labels :: "u8 list \<Rightarrow> u8 list \<Rightarrow> u8 list \<Rightarrow> nat \<Rightarrow> u8 list option option" where
  "format_labels stack p out remain =
     (if p = [] then Some (Some out)
      else
        let label = takeWhile (\<lambda>c. c \<noteq> 46) p; dot = (length label < length p); rest = drop (length label + 1) p in
        if \<exists>c \<in> set label. c AND 0x80 \<noteq> 0 then
          (case rdns_utf8_to_ucs4 label of
            None \<Rightarrow> Some (Some out)
          | Some uclabel \<Rightarrow>
              (case rdns_punycode_label_toascii stack uclabel of
                None \<Rightarrow> None
              | Some tmp_label \<Rightarrow>
                  if length tmp_label + 1 \<le> remain then
                    if \<not> dot then Some (Some (out @ tmp_label @ [46]))
                    else if remain - (length tmp_label + 1) = 0 then Some None
                    else format_labels (tmp_label @ drop (length tmp_label) stack) rest (out @ tmp_label @ [46]) (remain - (length tmp_label + 1))
                  else Some None))
        else
          let label_len = (if DNS_D_MAXLABEL < length label then DNS_D_MAXLABEL else length label) in
          if dot then
            if remain < label_len + 1 then Some None
            else if label_len = 0 then format_labels stack rest out remain
            else if remain - (label_len + 1) = 0 then Some None
            else format_labels stack rest (out @ take label_len label @ [46]) (remain - (label_len + 1))
          else if remain < label_len + 1 then Some None
          else Some (Some (out @ take label_len label @ [46])))"
  by auto
termination
  by (relation "measure (\<lambda>(stack, p, out, remain). length p)") auto

declare format_labels.simps [simp del]

definition rdns_format_dns_name :: "u8 list \<Rightarrow> u8 list \<Rightarrow> u8 list option option" where
  "rdns_format_dns_name stack name =
     (if \<forall>c \<in> set name. c < 0x80 then Some (Some name)
      else format_labels stack name [] (length name * 4 + 1 + 5 * length (filter (\<lambda>c. c = 46) name)))"

text \<open>The part of \<open>rdns_make_request_full\<close> for one name that makes the packet.  It faults when the packet is overrun.\<close>

definition make_request :: "(nat \<Rightarrow> u8 list) \<Rightarrow> u8 list \<Rightarrow> u16 \<Rightarrow> u8 list \<Rightarrow> u16 \<Rightarrow> rdns_request option run" where
  "make_request malloc stack qid name type =
     (if name = [] then Ret None
      else case rdns_format_dns_name stack name of
        None \<Rightarrow> Diverges
      | Some None \<Rightarrow> Ret None
      | Some (Some formatted) \<Rightarrow>
          (case make_query malloc qid (length name) formatted type of
            None \<Rightarrow> Fault Heap_Overflow
          | Some req \<Rightarrow> Ret req))"

section \<open>The encoder ends\<close>

lemma least_from_fold:
  "let r = fold (\<lambda>c m. if c < m \<and> n \<le> c then c else m) ins m0 in
     r \<le> m0 \<and> (r = m0 \<or> r \<in> set ins \<and> n \<le> r) \<and> (\<forall>c \<in> set ins. n \<le> (c :: int) \<longrightarrow> r \<le> c)"
proof (induction ins arbitrary: m0)
  case (Cons c ins)
  show ?case using Cons.IH [of "if c < m0 \<and> n \<le> c then c else m0"] by (auto simp: Let_def split: if_splits)
qed simp

lemma least_from_ok:
  assumes "c \<in> set ins" "n \<le> c" "\<forall>c \<in> set ins. c < 2 ^ 32 - 1"
  shows "least_from ins n \<in> set ins" "n \<le> least_from ins n" "\<forall>c \<in> set ins. n \<le> c \<longrightarrow> least_from ins n \<le> c"
proof -
  note f = least_from_fold [of n ins "2 ^ 32 - 1", folded least_from_def, unfolded Let_def]
  then show "\<forall>c \<in> set ins. n \<le> c \<longrightarrow> least_from ins n \<le> c" by blast
  then have "least_from ins n \<noteq> 2 ^ 32 - 1" using assms by fastforce
  then show "least_from ins n \<in> set ins" "n \<le> least_from ins n" using f by blast+
qed

lemma puny_char_fold: "p_h (fold (puny_char b m) ins s) = p_h s + length (filter (\<lambda>c. c = m) ins)"
  by (induction ins arbitrary: s) (auto simp: puny_char_def)

lemma filter_next:
  assumes "n \<le> (m :: int)" "\<forall>c \<in> set ins. n \<le> c \<longrightarrow> m \<le> c"
  shows "length (filter (\<lambda>c. c < m + 1) ins) = length (filter (\<lambda>c. c < n) ins) + length (filter (\<lambda>c. c = m) ins)"
  using assms(2) by (induction ins) (use assms(1) in auto)

lemma puny_rounds_end:
  assumes "\<forall>c \<in> set ins. c < 2 ^ 32 - 1" "p_h s = length (filter (\<lambda>c. c < n) ins)" "length ins - p_h s \<le> fuel"
  shows "\<exists>s'. puny_rounds fuel ins b n s = Some s'"
  using assms(2,3)
proof (induction fuel arbitrary: n s)
  case 0
  then show ?case by (simp add: puny_rounds.simps)
next
  case (Suc fuel)
  show ?case
  proof (cases "p_h s < length ins")
    case True
    then obtain c where c: "c \<in> set ins" "n \<le> c"
      using Suc.prems(1) length_filter_less by (metis filter_True not_le less_irrefl)
    let ?m = "least_from ins n"
    note m = least_from_ok [OF c assms(1)]
    let ?s = "fold (puny_char b ?m) ins (s\<lparr>p_delta := (p_delta s + (?m - n) * (int (p_h s) + 1)) mod 2 ^ 32\<rparr>)"
    let ?t = "?s\<lparr>p_delta := (p_delta ?s + 1) mod 2 ^ 32\<rparr>"
    have some: "0 < length (filter (\<lambda>c. c = ?m) ins)" using m(1) by (auto simp: filter_empty_conv)
    have h: "p_h ?t = length (filter (\<lambda>c. c < ?m + 1) ins)" "p_h ?t = p_h s + length (filter (\<lambda>c. c = ?m) ins)"
      using puny_char_fold [of b ?m ins] filter_next [OF m(2,3)] Suc.prems(1) by simp_all
    have "length ins - p_h ?t \<le> fuel" using h(2) some Suc.prems(2) True by linarith
    from Suc.IH [OF h(1) this] show ?thesis using True by (simp add: puny_rounds.simps [of "Suc fuel"] Let_def)
  qed (simp add: puny_rounds.simps)
qed

lemma toascii_returns:
  assumes "\<forall>c \<in> set ins. c < 2 ^ 32 - 1"
  shows "\<exists>out. rdns_punycode_label_toascii stack ins = Some out"
proof -
  have "\<exists>s'. puny_rounds (length ins) ins (p_h (puny_start ins)) 128 (puny_start ins) = Some s'"
    by (rule puny_rounds_end [OF assms]) (simp_all add: puny_start_def Let_def)
  then show ?thesis by (auto simp: rdns_punycode_label_toascii_def Let_def)
qed

lemma uint_and_le: "uint (a AND b :: u8) \<le> uint b"
  by (metis uint_and AND_upper2 uint_ge_0)

lemma utf8_small: "utf8toutf32 s = Some (u, r) \<Longrightarrow> u < 2 ^ 32 - 1"
proof (cases s)
  case (Cons c p)
  assume u: "utf8toutf32 s = Some (u, r)"
  have "uint c < 256" using uint_lt2p [of c] by simp
  then show ?thesis using u Cons uint_and_le [of c "0x1F"] uint_and_le [of c "0x0F"] uint_and_le [of c "0x07"]
      uint_and_le [of "p ! 0" "0x3F"] uint_and_le [of "p ! 1" "0x3F"] uint_and_le [of "p ! 2" "0x3F"]
    by (auto split: if_splits)
qed simp

lemma ucs4_small: "rdns_utf8_to_ucs4 s = Some us \<Longrightarrow> \<forall>u \<in> set us. u < 2 ^ 32 - 1"
proof (induction s arbitrary: us rule: rdns_utf8_to_ucs4.induct)
  case (1 s)
  show ?case
  proof (cases "s = []")
    case True
    then show ?thesis using "1.prems" by (simp add: rdns_utf8_to_ucs4.simps [of "[]"])
  next
    case False
    then obtain u r vs where u: "utf8toutf32 s = Some (u, r)" "rdns_utf8_to_ucs4 r = Some vs" "us = u # vs"
      using "1.prems" unfolding rdns_utf8_to_ucs4.simps [of s] by (auto split: option.splits)
    then show ?thesis using "1.IH" [OF False u(1) refl u(2)] utf8_small [OF u(1)] by simp
  qed
qed

lemma encoder_returns: "rdns_utf8_to_ucs4 l = Some u \<Longrightarrow> \<exists>out. rdns_punycode_label_toascii stack u = Some out"
  using toascii_returns [OF ucs4_small] by blast

lemma format_returns: "\<exists>r. format_labels stack p out remain = Some r"
proof (induction "length p" arbitrary: stack p out remain rule: less_induct)
  case less
  have IH: "\<exists>r. format_labels stk (drop (Suc n) p) ot rem = Some r" if "p \<noteq> []" for stk ot rem n
    using that by (intro less) simp
  show ?case
  proof (cases "rdns_utf8_to_ucs4 (takeWhile (\<lambda>c. c \<noteq> 46) p)")
    case None
    then show ?thesis by (subst format_labels.simps) (simp add: Let_def IH)
  next
    case (Some u)
    obtain l where "rdns_punycode_label_toascii stack u = Some l" using encoder_returns [OF Some] by blast
    then show ?thesis using Some by (subst format_labels.simps) (simp add: Let_def IH)
  qed
qed

section \<open>Names that grow\<close>

text \<open>A label of one accented letter, two bytes of UTF-8, becomes seven bytes.\<close>

definition accent :: "u8 list" where
  "accent = [0xC3, 0xA9]"

definition encoded_accent :: "u8 list" where
  "encoded_accent = [120, 110, 45, 45, 57, 99, 97]"

lemma accent_encoded:
  "rdns_utf8_to_ucs4 accent = Some [233]" "rdns_punycode_label_toascii stack [233] = Some encoded_accent"
proof -
  have "map_option p_out (puny_rounds 1 [233] 0 128 (puny_start [233])) = Some encoded_accent"
    by code_simp
  then show "rdns_punycode_label_toascii stack [233] = Some encoded_accent"
    by (auto simp: rdns_punycode_label_toascii_def puny_basic_def puny_start_def encoded_accent_def)
  show "rdns_utf8_to_ucs4 accent = Some [233]" by code_simp
qed

lemma join_accents: "join_labels (replicate (Suc (Suc n)) l) = l @ 46 # join_labels (replicate (Suc n) l)"
  by simp

lemma accent_scan:
  "takeWhile (\<lambda>c. c \<noteq> 46) accent = accent" "takeWhile (\<lambda>c. c \<noteq> 46) (accent @ 46 # p) = accent"
  "\<exists>c \<in> set accent. c AND 0x80 \<noteq> 0" "accent \<noteq> []" "length accent = 2"
  by (simp_all add: accent_def)

lemma format_accents:
  "8 * Suc n < remain \<Longrightarrow> format_labels stack (join_labels (replicate (Suc n) accent)) out remain =
     Some (Some (out @ dotted (replicate (Suc n) encoded_accent)))"
proof (induction n arbitrary: stack out remain)
  case 0
  then show ?case
    by (subst format_labels.simps) (simp add: Let_def dotted_def accent_scan accent_encoded, simp add: encoded_accent_def)
next
  case (Suc n)
  have len: "length encoded_accent = 7" by (simp add: encoded_accent_def)
  have "format_labels stack (join_labels (replicate (Suc (Suc n)) accent)) out remain =
      format_labels (encoded_accent @ drop 7 stack) (join_labels (replicate (Suc n) accent)) (out @ encoded_accent @ [46]) (remain - 8)"
    unfolding join_accents using Suc.prems len
    by (subst format_labels.simps) (simp add: Let_def accent_scan accent_encoded del: replicate.simps)
  also have "\<dots> = Some (Some (out @ encoded_accent @ [46] @ dotted (replicate (Suc n) encoded_accent)))"
    using Suc by (subst Suc.IH) simp_all
  finally show ?case by (simp add: dotted_def)
qed

lemma accents_length:
  "length (join_labels (replicate (Suc n) accent)) = 3 * n + 2"
  "length (filter (\<lambda>c. c = 46) (join_labels (replicate (Suc n) accent))) = n"
  by (induction n) (simp_all add: accent_def)

section \<open>Properties\<close>

text \<open>Making a request ends: for every name, valid UTF-8 or not, the encoder's unbounded loops return, and for an
  ASCII name, however long and however malformed its labels, the packet that is allocated is large enough for
  everything that is written into it.\<close>

theorem request_returns:
  assumes "\<And>k. length (malloc k) = k"
  shows "make_request malloc stack qid name type \<noteq> Diverges \<and>
    ((\<forall>c \<in> set name. c < 0x80) \<longrightarrow> (\<exists>r. make_request malloc stack qid name type = Ret r))"
proof -
  obtain r where r: "rdns_format_dns_name stack name = Some r"
    using format_returns unfolding rdns_format_dns_name_def by metis
  have "make_query malloc qid (length name) name type \<noteq> None" by (rule query_fits [OF assms]) simp
  then show ?thesis using r
    by (auto simp: make_request_def rdns_format_dns_name_def split: option.splits)
qed

theorem request_returns_witness:
  "make_request (\<lambda>k. replicate k 0) (replicate 63 0) 7 [97, 46, 46, 98] 1 \<noteq> Diverges \<and>
    (\<exists>r. make_request (\<lambda>k. replicate k 0) (replicate 63 0) 7 [97, 46, 46, 98] 1 = Ret r)"
  using request_returns [of "\<lambda>k. replicate k 0" "replicate 63 0" 7 "[97, 46, 46, 98]" 1] by simp

text \<open>C32. A name that is given can overrun the packet: the packet is allocated for the length before encoding, and a name
  of more than twenty labels of one accented letter each, at most 254 bytes, is written behind its end.\<close>

theorem request_overflows:
  assumes "\<And>k. length (malloc k) = k" "20 < n" "n \<le> 85"
  shows "make_request malloc stack qid (join_labels (replicate n accent)) type = Fault Heap_Overflow"
proof -
  obtain m where n: "n = Suc m" using assms(2) by (cases n) auto
  let ?name = "join_labels (replicate n accent)"
  have "0xC3 \<in> set ?name" "\<not> (0xC3 :: u8) < 0x80" unfolding n by (cases m) (simp_all add: accent_def)
  then have "rdns_format_dns_name stack ?name = Some (Some (dotted (replicate n encoded_accent)))"
    using format_accents [of m] unfolding rdns_format_dns_name_def n accents_length by auto
  moreover have "make_query malloc qid (length ?name) (dotted (replicate n encoded_accent)) type = None"
  proof (rule query_overflows [OF assms(1)])
    show "\<forall>l \<in> set (replicate n encoded_accent). label_ok l" by (auto simp: label_ok_def encoded_accent_def)
    have "length (dotted (replicate n encoded_accent)) = 8 * n"
      by (simp add: dotted_def length_concat sum_list_replicate encoded_accent_def)
    then show "length ?name + 101 < length (dotted (replicate n encoded_accent))" "length ?name < 4096"
      using assms(2,3) unfolding n accents_length by simp_all
  qed
  moreover have "?name \<noteq> []" using accents_length(1) [of m] n by (metis list.size(3) add_is_0 zero_neq_numeral)
  ultimately show ?thesis by (simp add: make_request_def)
qed

theorem request_overflows_witness:
  "make_request (\<lambda>k. replicate k 0) (replicate 63 0) 7 (join_labels (replicate 21 [0xC3, 0xA9])) 1 = Fault Heap_Overflow"
  using request_overflows [of "\<lambda>k. replicate k 0" 21 "replicate 63 0" 7 1] by (simp add: accent_def)

end
