(* ===== verification/DNS_Requests.thy ===== *)
theory DNS_Requests
  imports HDS_Prelude "HOL-Library.Monad_Syntax"
begin

text \<open>
  The life of a request in the resolver (\<open>tysocks/3rd/librdns/src/resolver.c\<close>, \<open>rdns_request_free\<close> of \<open>util.c\<close>): it is sent and
  put into the table of its channel, and answered by a reply, by its timer or by an error.  Requests are numbered
  in the order in which they are made; a freed request has no entry in the heap.  Touching a freed request or
  handing the event library an event of the wrong kind, or one that is gone, is undefined: the step has no
  result.  The selection of servers, their error counts and the reference counts of channels are left out.
\<close>

section \<open>State\<close>

datatype rdns_state = RDNS_REQUEST_NEW | RDNS_REQUEST_REGISTERED | RDNS_REQUEST_SENT | RDNS_REQUEST_REPLIED

datatype event = Timer_Event | Write_Event

datatype send_result = Send_Ok | Send_Again | Send_Failed

record request =
  rq_io :: nat
  rq_id :: u16
  rq_state :: rdns_state
  rq_retransmits :: u32
  async_event :: "event option"

text \<open>\<open>rq_table\<close> holds the tables of all channels; \<open>accepted\<close> and \<open>callbacks\<close> are the history: the requests that were given
  to a caller, and the calls of their functions with the code of the reply.\<close>

record resolver =
  rq_heap :: "nat \<rightharpoonup> request"
  rq_table :: "nat \<Rightarrow> u16 \<rightharpoonup> nat"
  io_active :: "nat \<Rightarrow> bool"
  io_uses :: "nat \<Rightarrow> u64"
  rq_next :: nat
  accepted :: "nat list"
  callbacks :: "(nat \<times> u8) list"

abbreviation (input) RDNS_RC_TIMEOUT :: u8 where "RDNS_RC_TIMEOUT \<equiv> 11"
abbreviation (input) RDNS_RC_NETERR :: u8 where "RDNS_RC_NETERR \<equiv> 12"

definition resolver_start :: resolver where
  "resolver_start = \<lparr>rq_heap = (\<lambda>_. None), rq_table = (\<lambda>_ _. None), io_active = (\<lambda>_. True), io_uses = (\<lambda>_. 0),
     rq_next = 0, accepted = [], callbacks = []\<rparr>"

section \<open>Operations\<close>

definition update_request :: "nat \<Rightarrow> (request \<Rightarrow> request) \<Rightarrow> resolver \<Rightarrow> resolver option" where
  "update_request a f s = map_option (\<lambda>q. s\<lparr>rq_heap := (rq_heap s)(a \<mapsto> f q)\<rparr>) (rq_heap s a)"

definition add_event :: "event \<Rightarrow> nat \<Rightarrow> resolver \<Rightarrow> resolver option" where
  "add_event e a = update_request a (\<lambda>q. q\<lparr>async_event := Some e\<rparr>)"

definition del_event :: "event \<Rightarrow> nat \<Rightarrow> resolver \<Rightarrow> resolver option" where
  "del_event e a s = do { q \<leftarrow> rq_heap s a;
     if async_event q = Some e then update_request a (\<lambda>q. q\<lparr>async_event := None\<rparr>) s else None }"

definition hash_add :: "nat \<Rightarrow> resolver \<Rightarrow> resolver option" where
  "hash_add a s = do { q \<leftarrow> rq_heap s a;
     Some (s\<lparr>rq_table := (rq_table s)(rq_io q := (rq_table s (rq_io q))(rq_id q \<mapsto> a))\<rparr>) }"

definition hash_del :: "nat \<Rightarrow> resolver \<Rightarrow> resolver option" where
  "hash_del a s = do { q \<leftarrow> rq_heap s a;
     if rq_table s (rq_io q) (rq_id q) = Some a
     then Some (s\<lparr>rq_table := (rq_table s)(rq_io q := (rq_table s (rq_io q))(rq_id q := None))\<rparr>) else None }"

definition rdns_request_unschedule :: "nat \<Rightarrow> resolver \<Rightarrow> resolver option" where
  "rdns_request_unschedule a s = do { s \<leftarrow> del_event Timer_Event a s; hash_del a s }"

text \<open>The release of the only reference.\<close>

definition rdns_request_free :: "nat \<Rightarrow> resolver \<Rightarrow> resolver option" where
  "rdns_request_free a s = do {
     q \<leftarrow> rq_heap s a;
     s \<leftarrow> (if rq_state q = RDNS_REQUEST_SENT then rdns_request_unschedule a s
           else if rq_state q = RDNS_REQUEST_REGISTERED then del_event Write_Event a s else Some s);
     Some (s\<lparr>rq_heap := (rq_heap s)(a := None)\<rparr>) }"

text \<open>The caller's function is called and the request released; the second form takes it out of the table first.\<close>

definition call_and_release :: "nat \<Rightarrow> u8 \<Rightarrow> resolver \<Rightarrow> resolver option" where
  "call_and_release a code s = rdns_request_free a (s\<lparr>callbacks := callbacks s @ [(a, code)]\<rparr>)"

definition answer_request :: "nat \<Rightarrow> u8 \<Rightarrow> resolver \<Rightarrow> resolver option" where
  "answer_request a code s = do {
     s \<leftarrow> update_request a (\<lambda>q. q\<lparr>rq_state := RDNS_REQUEST_REPLIED\<rparr>) s;
     s \<leftarrow> rdns_request_unschedule a s;
     call_and_release a code s }"

text \<open>At most 32 new identifiers are tried; \<open>ids\<close> are the random ones.\<close>

function fresh_id :: "(u16 \<rightharpoonup> nat) \<Rightarrow> (nat \<Rightarrow> u16) \<Rightarrow> nat \<Rightarrow> u16 \<Rightarrow> bool \<times> u16" where
  "fresh_id t ids r i = (if t i = None then (True, i) else if 32 < r + 1 then (False, ids r) else fresh_id t ids (r + 1) (ids r))"
  by auto
termination
  by (relation "measure (\<lambda>(t, ids, r, i). 33 - r)") auto

declare fresh_id.simps [simp del]

definition rdns_send_request :: "nat \<Rightarrow> bool \<Rightarrow> (nat \<Rightarrow> u16) \<Rightarrow> send_result \<Rightarrow> resolver \<Rightarrow> (int \<times> resolver) option" where
  "rdns_send_request a new_req ids sent s = do {
     q \<leftarrow> rq_heap s a;
     let (free, i) = (if new_req then fresh_id (rq_table s (rq_io q)) ids 0 (rq_id q) else (True, rq_id q));
     s \<leftarrow> update_request a (\<lambda>q. q\<lparr>rq_id := i\<rparr>) s;
     if \<not> free then Some (- 1, s)
     else case sent of
       Send_Failed \<Rightarrow> Some (- 1, s)
     | Send_Again \<Rightarrow>
         if new_req then do { s \<leftarrow> hash_add a s; s \<leftarrow> add_event Write_Event a s; Some (0, s) } else Some (0, s)
     | Send_Ok \<Rightarrow>
         if new_req then do {
           s \<leftarrow> hash_add a s;
           s \<leftarrow> add_event Timer_Event a s;
           s \<leftarrow> update_request a (\<lambda>q. q\<lparr>rq_state := RDNS_REQUEST_SENT\<rparr>) s;
           Some (1, s) }
         else Some (1, s) }"

text \<open>The end of \<open>rdns_make_request_full\<close>, once the packet is made and channel \<open>io\<close> chosen.\<close>

definition submit_request :: "nat \<Rightarrow> u16 \<Rightarrow> u32 \<Rightarrow> (nat \<Rightarrow> u16) \<Rightarrow> send_result \<Rightarrow> resolver \<Rightarrow> (nat option \<times> resolver) option" where
  "submit_request io qid repeats ids sent s = do {
     let a = rq_next s;
     let s = s\<lparr>rq_heap := (rq_heap s)(a \<mapsto> \<lparr>rq_io = io, rq_id = qid, rq_state = RDNS_REQUEST_NEW, rq_retransmits = repeats, async_event = None\<rparr>),
       rq_next := a + 1, io_uses := (io_uses s)(io := io_uses s io + 1)\<rparr>;
     (r, s) \<leftarrow> rdns_send_request a True ids sent s;
     if r = - 1 then do { s \<leftarrow> rdns_request_free a s; Some (None, s) }
     else Some (Some a, s\<lparr>accepted := accepted s @ [a]\<rparr>) }"

text \<open>A datagram: \<open>header\<close> is its identifier, if it is long enough, and \<open>parsed\<close> the code of the reply, if \<open>rdns_parse_reply\<close>
  takes it.\<close>

definition rdns_process_read :: "nat \<Rightarrow> u16 option \<Rightarrow> u8 option \<Rightarrow> resolver \<Rightarrow> resolver option" where
  "rdns_process_read io header parsed s = (case Option.bind header (rq_table s io) of
     None \<Rightarrow> Some (s\<lparr>io_uses := (io_uses s)(io := io_uses s io + 1)\<rparr>)
   | Some a \<Rightarrow> do {
       _ \<leftarrow> rq_heap s a;
       case parsed of None \<Rightarrow> Some s | Some code \<Rightarrow> answer_request a code s })"

text \<open>The timer of a request.  On an inactive channel the request moves to channel \<open>serv\<close>; when there is no server the
  request is released and the null pointer followed.\<close>

definition rdns_process_timer :: "nat \<Rightarrow> nat option \<Rightarrow> (nat \<Rightarrow> u16) \<Rightarrow> send_result \<Rightarrow> resolver \<Rightarrow> resolver option" where
  "rdns_process_timer a serv ids sent s = do {
     s \<leftarrow> update_request a (\<lambda>q. q\<lparr>rq_retransmits := rq_retransmits q - 1\<rparr>) s;
     q \<leftarrow> rq_heap s a;
     if rq_retransmits q = 0 then answer_request a RDNS_RC_TIMEOUT s
     else do {
       (renew, s) \<leftarrow> (if \<not> io_active s (rq_io q) then do {
           s \<leftarrow> rdns_request_unschedule a s;
           io \<leftarrow> serv;
           s \<leftarrow> update_request a (\<lambda>q. q\<lparr>rq_io := io\<rparr>) s;
           Some (True, s\<lparr>io_uses := (io_uses s)(io := io_uses s io + 1)\<rparr>) }
         else Some (False, s));
       (r, s) \<leftarrow> rdns_send_request a renew ids sent s;
       if r = 0 then do {
         s \<leftarrow> del_event Timer_Event a s;
         s \<leftarrow> add_event Write_Event a s;
         update_request a (\<lambda>q. q\<lparr>rq_state := RDNS_REQUEST_REGISTERED\<rparr>) s }
       else if r = - 1 then answer_request a RDNS_RC_NETERR s
       else do { q \<leftarrow> rq_heap s a; if async_event q = Some Timer_Event then Some s else None } } }"

text \<open>The socket can be written again.  After an error the request stays in the table.\<close>

definition rdns_process_retransmit :: "nat \<Rightarrow> (nat \<Rightarrow> u16) \<Rightarrow> send_result \<Rightarrow> resolver \<Rightarrow> resolver option" where
  "rdns_process_retransmit a ids sent s = do {
     s \<leftarrow> del_event Write_Event a s;
     (r, s) \<leftarrow> rdns_send_request a False ids sent s;
     if r = 0 then do {
       s \<leftarrow> add_event Write_Event a s;
       update_request a (\<lambda>q. q\<lparr>rq_state := RDNS_REQUEST_REGISTERED\<rparr>) s }
     else if r = - 1 then do {
       s \<leftarrow> update_request a (\<lambda>q. q\<lparr>rq_state := RDNS_REQUEST_REPLIED\<rparr>) s;
       call_and_release a RDNS_RC_NETERR s }
     else do {
       s \<leftarrow> add_event Timer_Event a s;
       update_request a (\<lambda>q. q\<lparr>rq_state := RDNS_REQUEST_SENT\<rparr>) s } }"

text \<open>What can happen when sending has only results that \<open>ok\<close> allows.\<close>

inductive dns_step :: "(send_result \<Rightarrow> bool) \<Rightarrow> resolver \<Rightarrow> resolver \<Rightarrow> bool" for ok :: "send_result \<Rightarrow> bool" where
  submit: "ok sent \<Longrightarrow> submit_request io qid repeats ids sent s = Some (r, s') \<Longrightarrow> dns_step ok s s'"
| read: "rdns_process_read io header parsed s = Some s' \<Longrightarrow> dns_step ok s s'"
| timer: "rq_heap s a = Some q \<Longrightarrow> async_event q = Some Timer_Event \<Longrightarrow> ok sent \<Longrightarrow>
    rdns_process_timer a serv ids sent s = Some s' \<Longrightarrow> dns_step ok s s'"
| writable: "rq_heap s a = Some q \<Longrightarrow> async_event q = Some Write_Event \<Longrightarrow> ok sent \<Longrightarrow>
    rdns_process_retransmit a ids sent s = Some s' \<Longrightarrow> dns_step ok s s'"

section \<open>When the socket can always be written\<close>

lemmas request_ops = update_request_def add_event_def del_event_def hash_add_def hash_del_def rdns_request_unschedule_def
  rdns_request_free_def call_and_release_def answer_request_def

text \<open>Every request that is not yet answered is in the table of its channel and has a timer, and the table holds no
  others; nobody is called twice.\<close>

definition pending :: "nat \<Rightarrow> request \<Rightarrow> resolver \<Rightarrow> bool" where
  "pending a q s \<longleftrightarrow> rq_state q = RDNS_REQUEST_SENT \<and> async_event q = Some Timer_Event \<and> rq_table s (rq_io q) (rq_id q) = Some a"

definition resolver_inv :: "resolver \<Rightarrow> bool" where
  "resolver_inv s \<longleftrightarrow> (\<forall>c. io_active s c) \<and> (\<forall>a q. rq_heap s a = Some q \<longrightarrow> pending a q s \<and> a \<in> set (accepted s)) \<and>
     (\<forall>c i a. rq_table s c i = Some a \<longrightarrow> (\<exists>q. rq_heap s a = Some q \<and> rq_io q = c \<and> rq_id q = i)) \<and>
     (\<forall>a \<in> set (accepted s). a < rq_next s) \<and> distinct (map fst (callbacks s)) \<and>
     (\<forall>a. a \<in> fst ` set (callbacks s) \<longleftrightarrow> a \<in> set (accepted s) \<and> rq_heap s a = None)"

text \<open>A request that is answered disappears from heap and table.\<close>

definition without_request :: "nat \<Rightarrow> u8 \<Rightarrow> resolver \<Rightarrow> resolver" where
  "without_request a code s = (case rq_heap s a of None \<Rightarrow> s
   | Some q \<Rightarrow> s\<lparr>rq_heap := (rq_heap s)(a := None), rq_table := (rq_table s)(rq_io q := (rq_table s (rq_io q))(rq_id q := None)),
       callbacks := callbacks s @ [(a, code)]\<rparr>)"

lemma answered:
  assumes "rq_heap s a = Some q" "pending a q s"
  shows "answer_request a code s = Some (without_request a code s)"
  using assms by (simp add: request_ops pending_def without_request_def)

lemma in_table:
  assumes "resolver_inv s" "rq_table s c i = Some a"
  obtains q where "rq_heap s a = Some q" "rq_io q = c" "rq_id q = i" "pending a q s"
  using assms unfolding resolver_inv_def by metis

lemma table_request:
  assumes "resolver_inv s" "rq_heap s a = Some q"
  shows "rq_table s c i = Some a \<longleftrightarrow> c = rq_io q \<and> i = rq_id q"
  using assms unfolding resolver_inv_def pending_def by (metis option.inject)

lemma without_request_inv:
  assumes "resolver_inv s" "rq_heap s a = Some q"
  shows "resolver_inv (without_request a code s)"
proof -
  have p: "pending a q s" "a \<in> set (accepted s)" using assms by (simp_all add: resolver_inv_def)
  have other: "pending b q' (without_request a code s)" if "rq_heap s b = Some q'" "b \<noteq> a" for b q'
  proof -
    have "pending b q' s" using assms(1) that(1) by (simp add: resolver_inv_def)
    then show ?thesis using that p(1) assms(2) by (auto simp: pending_def without_request_def)
  qed
  have "a \<notin> fst ` set (callbacks s)" using assms by (simp add: resolver_inv_def)
  then show ?thesis using assms p other table_request [OF assms] unfolding resolver_inv_def
    by (auto simp: without_request_def pending_def split: if_splits)
qed

text \<open>The number of tries left changes nothing else.\<close>

definition counted_down :: "nat \<Rightarrow> request \<Rightarrow> resolver \<Rightarrow> resolver" where
  "counted_down a q s = s\<lparr>rq_heap := (rq_heap s)(a \<mapsto> q\<lparr>rq_retransmits := rq_retransmits q - 1\<rparr>)\<rparr>"

lemma counted_down_inv:
  assumes "resolver_inv s" "rq_heap s a = Some q"
  shows "resolver_inv (counted_down a q s)"
  using assms table_request [OF assms] unfolding resolver_inv_def by (auto simp: counted_down_def pending_def)

lemma resend: "rq_heap s a = Some q \<Longrightarrow> rdns_send_request a False ids sent s =
    Some (case sent of Send_Failed \<Rightarrow> - 1 | Send_Again \<Rightarrow> 0 | Send_Ok \<Rightarrow> 1, s)"
  by (cases sent) (auto simp: rdns_send_request_def update_request_def fun_upd_idem)

lemma timer_result:
  assumes "resolver_inv s" "rq_heap s a = Some q" "sent \<noteq> Send_Again"
  shows "rdns_process_timer a serv ids sent s = Some (if rq_retransmits q = 1 then without_request a RDNS_RC_TIMEOUT (counted_down a q s)
    else if sent = Send_Failed then without_request a RDNS_RC_NETERR (counted_down a q s) else counted_down a q s)"
proof -
  let ?q = "q\<lparr>rq_retransmits := rq_retransmits q - 1\<rparr>"
  have h: "rq_heap (counted_down a q s) a = Some ?q" by (simp add: counted_down_def)
  have p: "pending a ?q (counted_down a q s)" "io_active (counted_down a q s) c" for c
    using counted_down_inv [OF assms(1,2)] h by (auto simp: resolver_inv_def)
  have u: "update_request a (\<lambda>q. q\<lparr>rq_retransmits := rq_retransmits q - 1\<rparr>) s = Some (counted_down a q s)"
    using assms(2) by (simp add: update_request_def counted_down_def)
  show ?thesis using assms(3) h p answered [OF h p(1)] resend [OF h]
    by (cases sent) (auto simp: rdns_process_timer_def u pending_def)
qed

lemma fresh_id_free: "fresh_id t ids r i = (True, j) \<Longrightarrow> t j = None"
proof (induction t ids r i rule: fresh_id.induct)
  case (1 t ids r i)
  then show ?case by (subst (asm) fresh_id.simps) (auto split: if_splits)
qed

text \<open>A request that could be sent, and what remains of one that could not.\<close>

definition with_request :: "nat \<Rightarrow> u16 \<Rightarrow> u32 \<Rightarrow> resolver \<Rightarrow> resolver" where
  "with_request io i repeats s = s\<lparr>
     rq_heap := (rq_heap s)(rq_next s \<mapsto> \<lparr>rq_io = io, rq_id = i, rq_state = RDNS_REQUEST_SENT, rq_retransmits = repeats, async_event = Some Timer_Event\<rparr>),
     rq_table := (rq_table s)(io := (rq_table s io)(i \<mapsto> rq_next s)), io_uses := (io_uses s)(io := io_uses s io + 1),
     rq_next := rq_next s + 1, accepted := accepted s @ [rq_next s]\<rparr>"

definition attempted :: "nat \<Rightarrow> resolver \<Rightarrow> resolver" where
  "attempted io s = s\<lparr>io_uses := (io_uses s)(io := io_uses s io + 1), rq_next := rq_next s + 1\<rparr>"

lemma next_unused: "resolver_inv s \<Longrightarrow> rq_heap s (rq_next s) = None"
  unfolding resolver_inv_def by (metis less_irrefl not_None_eq)

lemma submit_result:
  assumes "resolver_inv s" "sent \<noteq> Send_Again"
  shows "submit_request io qid repeats ids sent s = Some (None, attempted io s) \<or>
    (\<exists>i. rq_table s io i = None \<and> submit_request io qid repeats ids sent s = Some (Some (rq_next s), with_request io i repeats s))"
proof (cases "fresh_id (rq_table s io) ids 0 qid")
  case (Pair free i)
  have none: "(rq_heap s)(rq_next s := None) = rq_heap s" using next_unused [OF assms(1)] by (simp add: fun_upd_idem)
  have "free \<Longrightarrow> rq_table s io i = None" using Pair fresh_id_free [of "rq_table s io" ids 0 qid i] by simp
  then show ?thesis using assms(2) Pair
    by (cases sent; cases free) (auto simp: submit_request_def rdns_send_request_def request_ops attempted_def with_request_def none Let_def)
qed

lemma attempted_inv: "resolver_inv s \<Longrightarrow> resolver_inv (attempted io s)"
  unfolding resolver_inv_def by (auto simp: attempted_def pending_def)

lemma with_request_inv:
  assumes "resolver_inv s" "rq_table s io i = None"
  shows "resolver_inv (with_request io i repeats s)"
proof -
  have unused: "rq_next s \<notin> set (accepted s)" "rq_next s \<notin> fst ` set (callbacks s)" using assms(1) by (auto simp: resolver_inv_def)
  have old: "pending b q (with_request io i repeats s) \<and> b \<in> set (accepted s) \<and> b \<noteq> rq_next s" if "rq_heap s b = Some q" for b q
    using assms that unused by (auto simp: resolver_inv_def pending_def with_request_def)
  show ?thesis unfolding resolver_inv_def
  proof (intro conjI allI impI)
    fix b q assume "rq_heap (with_request io i repeats s) b = Some q"
    then have "b = rq_next s \<and> pending b q (with_request io i repeats s) \<or> rq_heap s b = Some q"
      by (auto simp: with_request_def pending_def split: if_splits)
    then show "pending b q (with_request io i repeats s)" "b \<in> set (accepted (with_request io i repeats s))"
      using old by (auto simp: with_request_def)
  next
    fix c j a assume t: "rq_table (with_request io i repeats s) c j = Some a"
    show "\<exists>q. rq_heap (with_request io i repeats s) a = Some q \<and> rq_io q = c \<and> rq_id q = j"
    proof (cases "c = io \<and> j = i")
      case False
      then have "rq_table s c j = Some a" using t by (auto simp: with_request_def split: if_splits)
      then obtain q where "rq_heap s a = Some q" "rq_io q = c" "rq_id q = j" by (rule in_table [OF assms(1)])
      then show ?thesis using old [of a q] by (auto simp: with_request_def)
    qed (use t in \<open>simp add: with_request_def\<close>)
  qed (use assms(1) unused in \<open>auto simp: resolver_inv_def with_request_def less_SucI\<close>)
qed

lemma read_result:
  assumes "resolver_inv s"
  shows "\<exists>s'. rdns_process_read io header parsed s = Some s' \<and> resolver_inv s'"
proof (cases "Option.bind header (rq_table s io)")
  case None
  then show ?thesis using assms by (auto simp: rdns_process_read_def resolver_inv_def pending_def)
next
  case (Some a)
  then obtain i where "rq_table s io i = Some a" by (auto simp: bind_eq_Some_conv)
  then obtain q where q: "rq_heap s a = Some q" "pending a q s" by (rule in_table [OF assms])
  have "rdns_process_read io header parsed s = Some (case parsed of None \<Rightarrow> s | Some code \<Rightarrow> without_request a code s)"
    using Some q(1) answered [OF q] by (simp add: rdns_process_read_def split: option.split)
  then show ?thesis using without_request_inv [OF assms q(1)] assms by (simp split: option.split)
qed

abbreviation (input) writable_socket :: "send_result \<Rightarrow> bool" where "writable_socket \<equiv> \<lambda>sent. sent \<noteq> Send_Again"

lemma dns_step_inv: "dns_step writable_socket s s' \<Longrightarrow> resolver_inv s \<Longrightarrow> resolver_inv s'"
proof (induction rule: dns_step.induct)
  case (submit sent io qid repeats ids s r s')
  then show ?case using submit_result [OF submit(3,1), of io qid repeats ids] attempted_inv with_request_inv by fastforce
next
  case (read io header parsed s s')
  then show ?case using read_result [of s io header parsed] by auto
next
  case (timer s a q sent serv ids s')
  have "rq_heap (counted_down a q s) a = Some (q\<lparr>rq_retransmits := rq_retransmits q - 1\<rparr>)" by (simp add: counted_down_def)
  note w = without_request_inv [OF counted_down_inv [OF timer(5,1)] this]
  show ?case using timer timer_result [OF timer(5,1), of sent serv ids] w counted_down_inv [OF timer(5,1)] by (auto split: if_splits)
next
  case (writable s a q sent ids s')
  then show ?case by (auto simp: resolver_inv_def pending_def)
qed

lemma resolver_reachable:
  assumes "(dns_step writable_socket)\<^sup>*\<^sup>* resolver_start s"
  shows "resolver_inv s"
proof -
  have "resolver_inv resolver_start" by (simp add: resolver_inv_def resolver_start_def)
  with assms show ?thesis by (induction rule: rtranclp_induct) (auto intro: dns_step_inv)
qed

section \<open>Properties\<close>

text \<open>C35. As long as the socket can be written at once, or fails for good, and the channels stay active, every request given
  to a caller is at any moment either pending or answered, never both, its function has been called at most once,
  no function is called for anything else, and whatever comes next, a reply or the timer of a pending request,
  is handled without touching a freed request or a wrong event.\<close>

theorem request_answered_once:
  assumes "(dns_step writable_socket)\<^sup>*\<^sup>* resolver_start s"
  shows "distinct (map fst (callbacks s)) \<and> fst ` set (callbacks s) \<subseteq> set (accepted s) \<and>
    (\<forall>a \<in> set (accepted s). a \<in> fst ` set (callbacks s) \<longleftrightarrow> rq_heap s a = None) \<and>
    (\<forall>io header parsed. \<exists>s'. rdns_process_read io header parsed s = Some s') \<and>
    (\<forall>a q serv ids sent. rq_heap s a = Some q \<and> writable_socket sent \<longrightarrow> (\<exists>s'. rdns_process_timer a serv ids sent s = Some s'))"
proof -
  note inv = resolver_reachable [OF assms]
  have "\<exists>s'. rdns_process_timer a serv ids sent s = Some s'" if "rq_heap s a = Some q" "writable_socket sent" for a q serv ids sent
    using timer_result [OF inv that] by blast
  moreover have "\<exists>s'. rdns_process_read io header parsed s = Some s'" for io header parsed using read_result [OF inv] by blast
  moreover have "distinct (map fst (callbacks s))" "fst ` set (callbacks s) \<subseteq> set (accepted s)"
    "\<forall>a \<in> set (accepted s). a \<in> fst ` set (callbacks s) \<longleftrightarrow> rq_heap s a = None"
    using inv by (simp_all add: resolver_inv_def subset_iff)
  ultimately show ?thesis by (intro conjI) auto
qed

text \<open>The timer of a request, firing again and again without an answer.\<close>

fun timer_fires :: "nat \<Rightarrow> nat \<Rightarrow> (nat \<Rightarrow> u16) \<Rightarrow> resolver \<Rightarrow> resolver option" where
  "timer_fires 0 a ids s = Some s"
| "timer_fires (Suc n) a ids s = do { s \<leftarrow> rdns_process_timer a None ids Send_Ok s; timer_fires n a ids s }"

lemma timer_fires_ends:
  assumes "resolver_inv s" "rq_heap s a = Some q" "unat (rq_retransmits q) = Suc n"
  shows "\<exists>s'. timer_fires (Suc n) a ids s = Some s' \<and> callbacks s' = callbacks s @ [(a, RDNS_RC_TIMEOUT)] \<and> rq_heap s' a = None"
  using assms
proof (induction n arbitrary: s q)
  case 0
  have "rq_retransmits q = 1" using 0(3) by (metis One_nat_def unat_1 word_unat_eq_iff)
  then show ?case using timer_result [OF 0(1,2), of Send_Ok None ids] by (simp add: without_request_def counted_down_def)
next
  case (Suc n)
  let ?q = "q\<lparr>rq_retransmits := rq_retransmits q - 1\<rparr>"
  have many: "rq_retransmits q \<noteq> 1" "rq_retransmits q \<noteq> 0" using Suc.prems(3) by auto
  then have "unat (rq_retransmits ?q) = Suc n" using Suc.prems(3) by (simp add: unat_minus_one)
  moreover have "rq_heap (counted_down a q s) a = Some ?q" "callbacks (counted_down a q s) = callbacks s" by (simp_all add: counted_down_def)
  moreover have "rdns_process_timer a None ids Send_Ok s = Some (counted_down a q s)"
    using timer_result [OF Suc.prems(1,2), of Send_Ok None ids] many by simp
  ultimately show ?case using Suc.IH [OF counted_down_inv [OF Suc.prems(1,2)]] by simp
qed

text \<open>A server that never answers does not keep a caller waiting: when the timer of a pending request has fired as often
  as the request has tries left, its function has been called with the timeout code and the request is gone.\<close>

theorem request_times_out:
  assumes "(dns_step writable_socket)\<^sup>*\<^sup>* resolver_start s" "rq_heap s a = Some q" "rq_retransmits q \<noteq> 0"
  shows "\<exists>s'. timer_fires (unat (rq_retransmits q)) a ids s = Some s' \<and> callbacks s' = callbacks s @ [(a, RDNS_RC_TIMEOUT)] \<and> rq_heap s' a = None"
proof (cases "unat (rq_retransmits q)")
  case 0
  then show ?thesis using assms(3) by (simp add: unat_eq_zero)
next
  case (Suc n)
  then show ?thesis using timer_fires_ends [OF resolver_reachable [OF assms(1)] assms(2) Suc, of ids] by simp
qed

text \<open>One request of three tries on channel 0.\<close>

lemma one_request: "submit_request 0 7 3 ids Send_Ok resolver_start = Some (Some 0, with_request 0 7 3 resolver_start)"
  by (simp add: submit_request_def rdns_send_request_def request_ops with_request_def resolver_start_def fresh_id.simps Let_def)

theorem request_answered_once_witness:
  "\<exists>s. (dns_step writable_socket)\<^sup>*\<^sup>* resolver_start s \<and> accepted s = [0] \<and> 0 \<notin> fst ` set (callbacks s) \<and>
     (\<exists>s'. rdns_process_read 0 (Some 7) (Some 0) s = Some s')"
proof -
  let ?s = "with_request 0 7 3 resolver_start"
  have r: "(dns_step writable_socket)\<^sup>*\<^sup>* resolver_start ?s"
    by (rule r_into_rtranclp, rule dns_step.submit [OF _ one_request [of "\<lambda>_. 0"]]) simp
  have "accepted ?s = [0]" "rq_heap ?s 0 \<noteq> None" by (simp_all add: with_request_def resolver_start_def)
  with request_answered_once [OF r] r show ?thesis by (intro exI [of _ ?s]) auto
qed

theorem request_times_out_witness:
  "\<exists>s s'. (dns_step writable_socket)\<^sup>*\<^sup>* resolver_start s \<and> timer_fires 3 0 (\<lambda>_. 0) s = Some s' \<and> callbacks s' = [(0, 11)]"
proof -
  let ?s = "with_request 0 7 3 resolver_start"
  have r: "(dns_step writable_socket)\<^sup>*\<^sup>* resolver_start ?s"
    by (rule r_into_rtranclp, rule dns_step.submit [OF _ one_request [of "\<lambda>_. 0"]]) simp
  have "rq_heap ?s 0 = Some \<lparr>rq_io = 0, rq_id = 7, rq_state = RDNS_REQUEST_SENT, rq_retransmits = 3, async_event = Some Timer_Event\<rparr>"
    "callbacks ?s = []" by (simp_all add: with_request_def resolver_start_def)
  with request_times_out [OF r this(1), of "\<lambda>_. 0"] r show ?thesis by auto
qed

text \<open>A socket that is full for a moment is enough to go wrong.  A request waiting to be sent again has a write event
  where its timer was; a late reply to the first try is then handled by deleting that event as a timer.\<close>

theorem late_reply_wrong_event:
  "\<exists>s q. (dns_step (\<lambda>_. True))\<^sup>*\<^sup>* resolver_start s \<and> rq_table s 0 7 = Some 0 \<and> rq_heap s 0 = Some q \<and>
     async_event q = Some Write_Event \<and> rdns_process_read 0 (Some 7) (Some 0) s = None"
proof -
  let ?s = "with_request 0 7 3 resolver_start"
  let ?q = "\<lparr>rq_io = 0, rq_id = 7, rq_state = RDNS_REQUEST_SENT, rq_retransmits = 3, async_event = Some Timer_Event\<rparr>"
  let ?q2 = "?q\<lparr>rq_state := RDNS_REQUEST_REGISTERED, rq_retransmits := 2, async_event := Some Write_Event\<rparr>"
  let ?t = "?s\<lparr>rq_heap := (rq_heap ?s)(0 \<mapsto> ?q2)\<rparr>"
  have q: "rq_heap ?s 0 = Some ?q" by (simp add: with_request_def resolver_start_def)
  have "rdns_process_timer 0 None (\<lambda>_. 0) Send_Again ?s = Some ?t"
    by (simp add: rdns_process_timer_def rdns_send_request_def request_ops with_request_def resolver_start_def)
  from dns_step.timer [OF q _ _ this] have "dns_step (\<lambda>_. True) ?s ?t" by simp
  moreover have "dns_step (\<lambda>_. True) resolver_start ?s" by (rule dns_step.submit [OF _ one_request [of "\<lambda>_. 0"]]) simp
  ultimately have "(dns_step (\<lambda>_. True))\<^sup>*\<^sup>* resolver_start ?t" by (meson converse_rtranclp_into_rtranclp rtranclp.rtrancl_refl)
  moreover have "rdns_process_read 0 (Some 7) (Some 0) ?t = None" "rq_table ?t 0 7 = Some 0" "rq_heap ?t 0 = Some ?q2"
    by (simp_all add: rdns_process_read_def request_ops with_request_def resolver_start_def)
  ultimately show ?thesis by (intro exI [of _ ?t] exI [of _ ?q2]) simp
qed

text \<open>And a request that fails when the socket can be written again is freed but stays in the table: the next datagram
  with its identifier, which the sender chooses, is compared with a freed request.\<close>

theorem failed_retransmit_dangles:
  "\<exists>s. (dns_step (\<lambda>_. True))\<^sup>*\<^sup>* resolver_start s \<and> rq_table s 0 7 = Some 0 \<and> rq_heap s 0 = None \<and>
     callbacks s = [(0, RDNS_RC_NETERR)] \<and> (\<forall>parsed. rdns_process_read 0 (Some 7) parsed s = None)"
proof -
  let ?q = "\<lparr>rq_io = 0, rq_id = 7, rq_state = RDNS_REQUEST_NEW, rq_retransmits = 3, async_event = Some Write_Event\<rparr>"
  let ?s = "(with_request 0 7 3 resolver_start)\<lparr>rq_heap := [0 \<mapsto> ?q]\<rparr>"
  let ?t = "?s\<lparr>rq_heap := (\<lambda>_. None), callbacks := [(0, RDNS_RC_NETERR)]\<rparr>"
  have "submit_request 0 7 3 (\<lambda>_. 0) Send_Again resolver_start = Some (Some 0, ?s)"
    by (simp add: submit_request_def rdns_send_request_def request_ops with_request_def resolver_start_def fresh_id.simps Let_def)
  from dns_step.submit [OF _ this] have "dns_step (\<lambda>_. True) resolver_start ?s" by simp
  moreover have "rdns_process_retransmit 0 (\<lambda>_. 0) Send_Failed ?s = Some ?t"
    by (simp add: rdns_process_retransmit_def rdns_send_request_def request_ops with_request_def resolver_start_def)
  then have "dns_step (\<lambda>_. True) ?s ?t" using dns_step.writable [of ?s 0 ?q "\<lambda>_. True" Send_Failed "\<lambda>_. 0" ?t] by simp
  ultimately have "(dns_step (\<lambda>_. True))\<^sup>*\<^sup>* resolver_start ?t" by (meson converse_rtranclp_into_rtranclp rtranclp.rtrancl_refl)
  moreover have "rdns_process_read 0 (Some 7) parsed ?t = None" "rq_table ?t 0 7 = Some 0" for parsed
    by (simp_all add: rdns_process_read_def with_request_def resolver_start_def)
  ultimately show ?thesis by (intro exI [of _ ?t]) simp
qed

end
