(* ===== verification/DNS_Upstream.thy ===== *)
theory DNS_Upstream
  imports HDS_Prelude
begin

text \<open>
  The servers of a resolver (\<open>tysocks/3rd/librdns/src/upstream.h\<close>): a list of entries
  with error counts and weights, and a count of those alive.  A server is taken by its position in the list.
  Following the null pointer is the result \<open>None\<close>.
\<close>

section \<open>State\<close>

record upstream =
  up_errors :: u16
  up_dead :: bool
  up_priority :: u16
  up_weight :: u16
  up_time :: int

record upstreams =
  up_list :: "upstream list"
  up_allocated :: u32
  up_nelts :: u32
  up_alive :: u32

abbreviation (input) UPSTREAM_REVIVE_TIME :: int where "UPSTREAM_REVIVE_TIME \<equiv> 30"
abbreviation (input) UPSTREAM_ERROR_TIME :: int where "UPSTREAM_ERROR_TIME \<equiv> 10"
abbreviation (input) UPSTREAM_MAX_ERRORS :: u16 where "UPSTREAM_MAX_ERRORS \<equiv> 10"

definition no_upstreams :: upstreams where
  "no_upstreams = \<lparr>up_list = [], up_allocated = 0, up_nelts = 0, up_alive = 0\<rparr>"

section \<open>Operations\<close>

text \<open>An entry after a failure, and whether it was marked dead by it.\<close>

definition fail_entry :: "int \<Rightarrow> upstream \<Rightarrow> upstream \<times> bool" where
  "fail_entry now u =
     (if up_time u \<noteq> 0 then
        if UPSTREAM_ERROR_TIME \<le> now - up_time u then
          if UPSTREAM_MAX_ERRORS \<le> up_errors u then (u\<lparr>up_dead := True, up_time := now\<rparr>, True)
          else (u\<lparr>up_errors := 1, up_time := now\<rparr>, False)
        else (u\<lparr>up_errors := up_errors u + 1\<rparr>, False)
      else (u\<lparr>up_errors := up_errors u + 1, up_time := now\<rparr>, False))"

definition UPSTREAM_FAIL :: "nat \<Rightarrow> int \<Rightarrow> upstreams \<Rightarrow> upstreams" where
  "UPSTREAM_FAIL i now s = (let (u, died) = fail_entry now (up_list s ! i)
     in s\<lparr>up_list := (up_list s)[i := u], up_alive := (if died then up_alive s - 1 else up_alive s)\<rparr>)"

definition UPSTREAM_OK :: "nat \<Rightarrow> upstreams \<Rightarrow> upstreams" where
  "UPSTREAM_OK i s = s\<lparr>up_list := (up_list s)[i := (up_list s ! i)\<lparr>up_errors := 0, up_time := 0\<rparr>]\<rparr>"

text \<open>A new server goes to the front; the array of pointers doubles when it is full.\<close>

definition UPSTREAM_ADD :: "int \<Rightarrow> upstreams \<Rightarrow> upstreams" where
  "UPSTREAM_ADD priority s =
     (let w = (if 0 < priority then of_int priority else 65535);
          u = \<lparr>up_errors = 0, up_dead = False, up_priority = w, up_weight = w, up_time = 0\<rparr>
      in if up_list s = [] then \<lparr>up_list = [u], up_allocated = 8, up_nelts = 1, up_alive = 1\<rparr>
         else s\<lparr>up_list := u # up_list s,
           up_allocated := (if up_nelts s = up_allocated s then up_allocated s * 2 else up_allocated s),
           up_nelts := up_nelts s + 1, up_alive := up_alive s + 1\<rparr>)"

text \<open>The removal of the server at position \<open>i\<close>: the list goes on behind it, and one is taken off the counts.  With the
  last server the common record is freed.\<close>

definition UPSTREAM_DEL :: "nat \<Rightarrow> upstreams \<Rightarrow> upstreams" where
  "UPSTREAM_DEL i s =
     (if up_list s = [] then s
      else if i + 1 < length (up_list s) then s\<lparr>up_list := drop (i + 1) (up_list s), up_nelts := up_nelts s - 1, up_alive := up_alive s - 1\<rparr>
      else no_upstreams)"

definition UPSTREAM_REVIVE_ALL :: "upstreams \<Rightarrow> upstreams" where
  "UPSTREAM_REVIVE_ALL s = s\<lparr>up_list := map (\<lambda>u. u\<lparr>up_dead := False, up_errors := 0, up_time := 0\<rparr>) (up_list s), up_alive := up_nelts s\<rparr>"

text \<open>One entry of the periodic check and its effect on the count.\<close>

definition rescan_entry :: "int \<Rightarrow> upstream \<Rightarrow> upstream \<times> u32" where
  "rescan_entry now u =
     (if up_dead u then
        if UPSTREAM_REVIVE_TIME \<le> now - up_time u then (u\<lparr>up_dead := False, up_errors := 0, up_weight := up_priority u\<rparr>, 1) else (u, 0)
      else if UPSTREAM_ERROR_TIME \<le> now - up_time u \<and> UPSTREAM_MAX_ERRORS \<le> up_errors u
        then (u\<lparr>up_dead := True, up_time := now\<rparr>, - 1) else (u, 0))"

definition UPSTREAM_RESCAN :: "int \<Rightarrow> upstreams \<Rightarrow> upstreams" where
  "UPSTREAM_RESCAN now s =
     (if up_alive s = 0 then UPSTREAM_REVIVE_ALL s
      else s\<lparr>up_list := map (fst \<circ> rescan_entry now) (up_list s),
        up_alive := up_alive s + sum_list (map (snd \<circ> rescan_entry now) (up_list s))\<rparr>)"

text \<open>The first live entry whose value is greater than that of every one before it, from position \<open>i\<close>.\<close>

fun select_best :: "(upstream \<Rightarrow> u16) \<Rightarrow> nat \<Rightarrow> u16 \<Rightarrow> nat option \<Rightarrow> upstream list \<Rightarrow> u16 \<times> nat option" where
  "select_best f i m sel [] = (m, sel)"
| "select_best f i m sel (u # us) =
     (if \<not> up_dead u \<and> m < f u then select_best f (i + 1) (f u) (Some i) us else select_best f (i + 1) m sel us)"

definition UPSTREAM_SELECT_ROUND_ROBIN :: "upstreams \<Rightarrow> (nat \<times> upstreams) option" where
  "UPSTREAM_SELECT_ROUND_ROBIN s =
     (let s = (if up_alive s = 0 then UPSTREAM_REVIVE_ALL s else s);
          (m, sel) = select_best up_weight 0 0 None (up_list s);
          (sel, s) = (if m = 0 then
             (snd (select_best up_priority 0 0 sel (up_list s)), s\<lparr>up_list := map (\<lambda>u. u\<lparr>up_weight := up_priority u\<rparr>) (up_list s)\<rparr>)
           else (sel, s))
      in case sel of
        None \<Rightarrow> None
      | Some i \<Rightarrow> Some (i, s\<lparr>up_list := (up_list s)[i := (up_list s ! i)\<lparr>up_weight := up_weight (up_list s ! i) - 1\<rparr>]\<rparr>))"

section \<open>The count of live servers\<close>

definition live :: "upstream list \<Rightarrow> nat" where
  "live us = length (filter (\<lambda>u. \<not> up_dead u) us)"

definition upstreams_inv :: "upstreams \<Rightarrow> bool" where
  "upstreams_inv s \<longleftrightarrow> up_alive s = of_nat (live (up_list s)) \<and> up_nelts s = of_nat (length (up_list s)) \<and>
     length (up_list s) < 2 ^ 31 \<and> (\<forall>u \<in> set (up_list s). up_priority u \<noteq> 0)"

lemma live_le: "live us \<le> length us"
  by (simp add: live_def)

lemma select_best_max:
  "select_best f i m sel us = (m', sel') \<Longrightarrow> m \<le> m' \<and> (\<forall>u \<in> set us. up_dead u \<or> f u \<le> m')"
proof (induction us arbitrary: i m sel)
  case (Cons u us)
  show ?case
  proof (cases "\<not> up_dead u \<and> m < f u")
    case True
    then show ?thesis using Cons.IH [of "i + 1" "f u" "Some i"] Cons.prems by (auto intro: order.trans [OF less_imp_le])
  next
    case False
    then have "select_best f (i + 1) m sel us = (m', sel')" using Cons.prems by auto
    from Cons.IH [OF this] False show ?thesis by (auto simp: not_less intro: order.trans)
  qed
qed simp

lemma select_best_which:
  "select_best f i m sel us = (m', sel') \<Longrightarrow>
     m' = m \<and> sel' = sel \<or> (\<exists>j < length us. sel' = Some (i + j) \<and> \<not> up_dead (us ! j) \<and> f (us ! j) = m' \<and> m < m')"
proof (induction us arbitrary: i m sel)
  case (Cons u us)
  show ?case
  proof (cases "\<not> up_dead u \<and> m < f u")
    case True
    then consider "m' = f u" "sel' = Some i" | j where "j < length us" "sel' = Some (i + 1 + j)" "\<not> up_dead (us ! j)" "f (us ! j) = m'" "f u < m'"
      using Cons.IH [of "i + 1" "f u" "Some i"] Cons.prems by auto
    then show ?thesis
    proof cases
      case 1
      then show ?thesis using True by (intro disjI2 exI [of _ 0]) simp
    next
      case 2
      then show ?thesis using True by (intro disjI2 exI [of _ "Suc j"]) (auto intro: less_trans)
    qed
  next
    case False
    then consider "m' = m" "sel' = sel" | j where "j < length us" "sel' = Some (i + 1 + j)" "\<not> up_dead (us ! j)" "f (us ! j) = m'" "m < m'"
      using Cons.IH [of "i + 1" m sel] Cons.prems by auto
    then show ?thesis
    proof cases
      case 2
      then show ?thesis by (intro disjI2 exI [of _ "Suc j"]) auto
    qed simp
  qed
qed simp

lemma live_update: "i < length us \<Longrightarrow> live (us[i := u]) + of_bool (\<not> up_dead (us ! i)) = live us + of_bool (\<not> up_dead u)"
proof (induction us arbitrary: i)
  case (Cons v us)
  show ?case
  proof (cases i)
    case (Suc j)
    then have "live (us[j := u]) + of_bool (\<not> up_dead (us ! j)) = live us + of_bool (\<not> up_dead u)" using Cons by simp
    then show ?thesis using Suc by (simp add: live_def)
  qed (simp add: live_def)
qed simp

lemma live_zero: "live us = 0 \<longleftrightarrow> (\<forall>u \<in> set us. up_dead u)"
  by (auto simp: live_def filter_empty_conv)

lemma live_map: "(\<And>u. u \<in> set us \<Longrightarrow> up_dead (f u) = up_dead u) \<Longrightarrow> live (map f us) = live us"
  by (induction us) (auto simp: live_def)

text \<open>The count can be read back from the word that holds it.\<close>

lemma alive_word:
  assumes "upstreams_inv s"
  shows "unat (up_alive s) = live (up_list s)"
proof -
  have "live (up_list s) < 2 ^ 32" using assms live_le [of "up_list s"] by (simp add: upstreams_inv_def)
  then show ?thesis using assms by (simp add: upstreams_inv_def unat_of_nat)
qed

lemma revive_inv: "upstreams_inv s \<Longrightarrow> upstreams_inv (UPSTREAM_REVIVE_ALL s)"
  by (auto simp: upstreams_inv_def UPSTREAM_REVIVE_ALL_def live_def filter_map comp_def)

lemma update_inv:
  assumes "upstreams_inv s" "i < length (up_list s)" "up_dead u = up_dead (up_list s ! i)" "up_priority u = up_priority (up_list s ! i)"
  shows "upstreams_inv (s\<lparr>up_list := (up_list s)[i := u]\<rparr>)"
proof -
  have "live ((up_list s)[i := u]) = live (up_list s)" using live_update [OF assms(2), of u] assms(3) by simp
  moreover have "\<forall>v \<in> set ((up_list s)[i := u]). up_priority v \<noteq> 0"
    using assms by (auto simp: upstreams_inv_def set_conv_nth nth_list_update)
  ultimately show ?thesis using assms(1) by (simp add: upstreams_inv_def)
qed

lemma weights_inv: "upstreams_inv s \<Longrightarrow> upstreams_inv (s\<lparr>up_list := map (\<lambda>u. u\<lparr>up_weight := up_priority u\<rparr>) (up_list s)\<rparr>)"
  by (auto simp: upstreams_inv_def live_map)

text \<open>The choice, for a list with somebody alive.\<close>

definition take_weight :: "nat \<Rightarrow> upstreams \<Rightarrow> upstreams" where
  "take_weight i s = s\<lparr>up_list := (up_list s)[i := (up_list s ! i)\<lparr>up_weight := up_weight (up_list s ! i) - 1\<rparr>]\<rparr>"

lemma select_weighted:
  assumes "up_alive s \<noteq> 0" "u \<in> set (up_list s)" "\<not> up_dead u" "up_weight u \<noteq> 0"
  shows "\<exists>i < length (up_list s). UPSTREAM_SELECT_ROUND_ROBIN s = Some (i, take_weight i s) \<and> \<not> up_dead (up_list s ! i) \<and>
    up_weight (up_list s ! i) \<noteq> 0 \<and> (\<forall>v \<in> set (up_list s). up_dead v \<or> up_weight v \<le> up_weight (up_list s ! i))"
proof (cases "select_best up_weight 0 0 None (up_list s)")
  case (Pair m sel)
  note big = select_best_max [OF Pair]
  have "m \<noteq> 0" using big assms(2-4) by fastforce
  with select_best_which [OF Pair] obtain j where j: "j < length (up_list s)" "sel = Some j" "\<not> up_dead (up_list s ! j)" "up_weight (up_list s ! j) = m"
    by auto
  then show ?thesis using Pair \<open>m \<noteq> 0\<close> assms(1) big
    by (intro exI [of _ j]) (simp add: UPSTREAM_SELECT_ROUND_ROBIN_def take_weight_def)
qed

lemma select_refilled:
  assumes "up_alive s \<noteq> 0" "\<forall>u \<in> set (up_list s). up_dead u \<or> up_weight u = 0" "u \<in> set (up_list s)" "\<not> up_dead u" "up_priority u \<noteq> 0"
  shows "\<exists>i < length (up_list s). UPSTREAM_SELECT_ROUND_ROBIN s =
      Some (i, take_weight i (s\<lparr>up_list := map (\<lambda>u. u\<lparr>up_weight := up_priority u\<rparr>) (up_list s)\<rparr>)) \<and> \<not> up_dead (up_list s ! i)"
proof -
  obtain m sel where p: "select_best up_weight 0 0 None (up_list s) = (m, sel)" by (cases "select_best up_weight 0 0 None (up_list s)")
  have "m = 0 \<and> sel = None" using select_best_which [OF p] assms(2) by (metis nth_mem less_irrefl)
  note p = p [unfolded conjunct1 [OF this] conjunct2 [OF this]]
  obtain m' sel' where p': "select_best up_priority 0 0 None (up_list s) = (m', sel')" by (cases "select_best up_priority 0 0 None (up_list s)")
  have "m' \<noteq> 0" using select_best_max [OF p'] assms(3-5) by fastforce
  with select_best_which [OF p'] obtain j where j: "j < length (up_list s)" "sel' = Some j" "\<not> up_dead (up_list s ! j)" by auto
  then show ?thesis using p p' assms(1) by (intro exI [of _ j]) (simp add: UPSTREAM_SELECT_ROUND_ROBIN_def take_weight_def)
qed

lemma take_weight_inv: "upstreams_inv s \<Longrightarrow> i < length (up_list s) \<Longrightarrow> upstreams_inv (take_weight i s)"
  unfolding take_weight_def by (rule update_inv) simp_all

lemma select_alive:
  assumes "upstreams_inv s" "up_alive s \<noteq> 0"
  shows "\<exists>i s'. UPSTREAM_SELECT_ROUND_ROBIN s = Some (i, s') \<and> i < length (up_list s') \<and> \<not> up_dead (up_list s' ! i) \<and> upstreams_inv s'"
proof -
  have "live (up_list s) \<noteq> 0" using alive_word [OF assms(1)] assms(2) by (metis unat_eq_zero)
  then obtain u where u: "u \<in> set (up_list s)" "\<not> up_dead u" by (auto simp: live_zero)
  show ?thesis
  proof (cases "\<exists>u \<in> set (up_list s). \<not> up_dead u \<and> up_weight u \<noteq> 0")
    case True
    then obtain v where "v \<in> set (up_list s)" "\<not> up_dead v" "up_weight v \<noteq> 0" by blast
    from select_weighted [OF assms(2) this] obtain i where i: "i < length (up_list s)" "UPSTREAM_SELECT_ROUND_ROBIN s = Some (i, take_weight i s)"
      "\<not> up_dead (up_list s ! i)" by blast
    with take_weight_inv [OF assms(1) i(1)] show ?thesis by (intro exI [of _ i] exI [of _ "take_weight i s"]) (simp add: take_weight_def)
  next
    case False
    let ?s = "s\<lparr>up_list := map (\<lambda>u. u\<lparr>up_weight := up_priority u\<rparr>) (up_list s)\<rparr>"
    have "up_priority u \<noteq> 0" using assms(1) u(1) by (simp add: upstreams_inv_def)
    from select_refilled [OF assms(2) _ u this] False obtain i where i: "i < length (up_list s)"
      "UPSTREAM_SELECT_ROUND_ROBIN s = Some (i, take_weight i ?s)" "\<not> up_dead (up_list s ! i)" by blast
    with take_weight_inv [OF weights_inv [OF assms(1)], of i] show ?thesis
      by (intro exI [of _ i] exI [of _ "take_weight i ?s"]) (simp add: take_weight_def)
  qed
qed

lemma select_inv:
  assumes "upstreams_inv s" "up_list s \<noteq> []"
  shows "\<exists>i s'. UPSTREAM_SELECT_ROUND_ROBIN s = Some (i, s') \<and> i < length (up_list s') \<and> \<not> up_dead (up_list s' ! i) \<and> upstreams_inv s'"
proof (cases "up_alive s = 0")
  case True
  let ?s = "UPSTREAM_REVIVE_ALL s"
  have "live (up_list ?s) = length (up_list s)" by (simp add: UPSTREAM_REVIVE_ALL_def live_def filter_map comp_def)
  then have alive: "up_alive ?s \<noteq> 0" using alive_word [OF revive_inv [OF assms(1)]] assms(2) by (metis length_0_conv unat_0)
  have "UPSTREAM_SELECT_ROUND_ROBIN s = UPSTREAM_SELECT_ROUND_ROBIN ?s" using True alive by (simp add: UPSTREAM_SELECT_ROUND_ROBIN_def)
  then show ?thesis using select_alive [OF revive_inv [OF assms(1)] alive] by simp
qed (rule select_alive [OF assms(1)])

lemma rescan_live:
  "of_nat (live (map (fst \<circ> rescan_entry now) us)) = (of_nat (live us) + sum_list (map (snd \<circ> rescan_entry now) us) :: u32)"
  by (induction us) (auto simp: live_def rescan_entry_def)

lemma rescan_inv: "upstreams_inv s \<Longrightarrow> upstreams_inv (UPSTREAM_RESCAN now s)"
  using rescan_live [of now "up_list s"] revive_inv [of s]
  by (auto simp: upstreams_inv_def UPSTREAM_RESCAN_def rescan_entry_def)

lemma add_inv:
  assumes "upstreams_inv s" "priority \<le> 0 \<or> priority mod 65536 \<noteq> 0" "length (up_list s) < 2 ^ 31 - 1"
  shows "upstreams_inv (UPSTREAM_ADD priority s)"
proof -
  have "priority \<le> 0 \<or> (of_int priority :: u16) \<noteq> 0" using assms(2) by (simp add: word_of_int_eq_0_iff mod_eq_0_iff_dvd)
  then show ?thesis using assms by (auto simp: upstreams_inv_def UPSTREAM_ADD_def Let_def live_def)
qed

lemma fail_inv:
  assumes "upstreams_inv s" "i < length (up_list s)" "\<not> up_dead (up_list s ! i)"
  shows "upstreams_inv (UPSTREAM_FAIL i now s)"
proof -
  obtain u died where u: "fail_entry now (up_list s ! i) = (u, died)" by (cases "fail_entry now (up_list s ! i)")
  have e: "up_dead u = died" "up_priority u = up_priority (up_list s ! i)" using u assms(3) by (auto simp: fail_entry_def split: if_splits)
  show ?thesis
  proof (cases died)
    case False
    then show ?thesis using update_inv [OF assms(1,2), of u] e assms(3) u by (simp add: UPSTREAM_FAIL_def)
  next
    case True
    have "live (up_list s) = live ((up_list s)[i := u]) + 1" using live_update [OF assms(2), of u] assms(3) e True by simp
    moreover have "\<forall>v \<in> set ((up_list s)[i := u]). up_priority v \<noteq> 0"
      using assms e by (auto simp: upstreams_inv_def set_conv_nth nth_list_update)
    ultimately show ?thesis using True u assms(1) by (simp add: UPSTREAM_FAIL_def upstreams_inv_def)
  qed
qed

lemma delete_upstream_inv:
  assumes "upstreams_inv s" "up_list s = u # us" "\<not> up_dead u \<or> us = []"
  shows "upstreams_inv (UPSTREAM_DEL 0 s)"
  using assms by (cases "us = []") (auto simp: upstreams_inv_def UPSTREAM_DEL_def no_upstreams_def live_def)

text \<open>The life of the list, in which only servers that are alive fail and servers are taken off the front, as the
  resolver does when it is freed, and alive unless it is the last one.\<close>

inductive upstream_step :: "upstreams \<Rightarrow> upstreams \<Rightarrow> bool" where
  added: "priority \<le> 0 \<or> priority mod 65536 \<noteq> 0 \<Longrightarrow> length (up_list s) < 2 ^ 31 - 1 \<Longrightarrow> upstream_step s (UPSTREAM_ADD priority s)"
| failed: "i < length (up_list s) \<Longrightarrow> \<not> up_dead (up_list s ! i) \<Longrightarrow> upstream_step s (UPSTREAM_FAIL i now s)"
| removed: "up_list s = u # us \<Longrightarrow> \<not> up_dead u \<or> us = [] \<Longrightarrow> upstream_step s (UPSTREAM_DEL 0 s)"
| succeeded: "i < length (up_list s) \<Longrightarrow> upstream_step s (UPSTREAM_OK i s)"
| rescanned: "upstream_step s (UPSTREAM_RESCAN now s)"
| selected: "UPSTREAM_SELECT_ROUND_ROBIN s = Some (i, s') \<Longrightarrow> upstream_step s s'"

lemma select_empty: "up_list s = [] \<Longrightarrow> UPSTREAM_SELECT_ROUND_ROBIN s = None"
  by (simp add: UPSTREAM_SELECT_ROUND_ROBIN_def UPSTREAM_REVIVE_ALL_def)

lemma upstream_step_inv: "upstream_step s s' \<Longrightarrow> upstreams_inv s \<Longrightarrow> upstreams_inv s'"
proof (induction rule: upstream_step.induct)
  case (succeeded i s)
  then show ?case unfolding UPSTREAM_OK_def by (intro update_inv) simp_all
next
  case (selected s i s')
  then show ?case using select_inv [of s] select_empty [of s] by force
qed (auto intro: add_inv fail_inv rescan_inv delete_upstream_inv)

text \<open>The array of pointers: it has room for all servers.\<close>

definition array_ok :: "upstreams \<Rightarrow> bool" where
  "array_ok s \<longleftrightarrow> (up_list s \<noteq> [] \<longrightarrow> length (up_list s) \<le> unat (up_allocated s))"

lemma array_add:
  assumes "upstreams_inv s" "array_ok s" "length (up_list s) < 2 ^ 31 - 1"
  shows "array_ok (UPSTREAM_ADD priority s)"
proof (cases "up_list s = []")
  case False
  have n: "unat (up_nelts s) = length (up_list s)" using assms(1) by (simp add: upstreams_inv_def unat_of_nat)
  have len: "0 < length (up_list s)" "length (up_list s) \<le> unat (up_allocated s)" using assms(2) False by (simp_all add: array_ok_def)
  show ?thesis
  proof (cases "up_nelts s = up_allocated s")
    case True
    then have "unat (up_allocated s * 2) = unat (up_allocated s) * 2" using n assms(3) by (simp add: unat_word_ariths)
    then show ?thesis using False True n len by (simp add: array_ok_def UPSTREAM_ADD_def Let_def Suc_le_eq)
  next
    case diff: False
    then have "length (up_list s) \<noteq> unat (up_allocated s)" using n by (metis word_unat_eq_iff)
    then show ?thesis using False diff len by (simp add: array_ok_def UPSTREAM_ADD_def Let_def)
  qed
qed (simp add: array_ok_def UPSTREAM_ADD_def Let_def)

lemma array_select: "UPSTREAM_SELECT_ROUND_ROBIN s = Some (i, s') \<Longrightarrow> length (up_list s') = length (up_list s) \<and> up_allocated s' = up_allocated s"
  by (auto simp: UPSTREAM_SELECT_ROUND_ROBIN_def UPSTREAM_REVIVE_ALL_def Let_def split: prod.splits option.splits if_splits)

lemma array_step: "upstream_step s s' \<Longrightarrow> upstreams_inv s \<Longrightarrow> array_ok s \<Longrightarrow> array_ok s'"
proof (induction rule: upstream_step.induct)
  case (added priority s)
  then show ?case by (intro array_add) simp_all
next
  case (selected s i s')
  then show ?case using array_select [OF selected(1)] by (metis array_ok_def length_0_conv)
qed (auto simp: array_ok_def UPSTREAM_FAIL_def UPSTREAM_OK_def UPSTREAM_DEL_def no_upstreams_def UPSTREAM_RESCAN_def
    UPSTREAM_REVIVE_ALL_def Let_def split: prod.splits)

section \<open>Fairness\<close>

fun selections :: "nat \<Rightarrow> upstreams \<Rightarrow> nat list option" where
  "selections 0 s = Some []"
| "selections (Suc n) s = (case UPSTREAM_SELECT_ROUND_ROBIN s of
     None \<Rightarrow> None | Some (i, s) \<Rightarrow> map_option (Cons i) (selections n s))"

definition total :: "(upstream \<Rightarrow> u16) \<Rightarrow> upstreams \<Rightarrow> nat" where
  "total f s = sum_list (map (unat \<circ> f) (up_list s))"

lemma sum_list_update_less: "i < length xs \<Longrightarrow> (xs ! i :: nat) = Suc y \<Longrightarrow> sum_list xs = Suc (sum_list (xs[i := y]))"
  by (induction xs arbitrary: i) (auto simp: nth_Cons split: nat.splits)

lemma selections_by_weight:
  assumes "up_alive s \<noteq> 0" "\<forall>u \<in> set (up_list s). \<not> up_dead u" "total up_weight s = n"
  shows "\<exists>is. selections n s = Some is \<and> (\<forall>i < length (up_list s). count_list is i = unat (up_weight (up_list s ! i)))"
  using assms
proof (induction n arbitrary: s)
  case 0
  then show ?case by (auto simp: total_def sum_list_eq_0_iff)
next
  case (Suc n)
  have "\<exists>u \<in> set (up_list s). up_weight u \<noteq> 0"
  proof (rule ccontr)
    assume "\<not> (\<exists>u \<in> set (up_list s). up_weight u \<noteq> 0)"
    then have "total up_weight s = 0" by (simp add: total_def sum_list_eq_0_iff)
    then show False using Suc.prems(3) by simp
  qed
  then obtain u where u: "u \<in> set (up_list s)" "up_weight u \<noteq> 0" by blast
  then have "\<not> up_dead u" using Suc.prems(2) by blast
  from select_weighted [OF Suc.prems(1) u(1) this u(2)] obtain k where k: "k < length (up_list s)"
    "UPSTREAM_SELECT_ROUND_ROBIN s = Some (k, take_weight k s)" "up_weight (up_list s ! k) \<noteq> 0" by blast
  let ?s = "take_weight k s"
  have w: "unat (up_weight (up_list s ! k)) = Suc (unat (up_weight (up_list s ! k) - 1))" using k(3) by (simp add: unat_minus_one unat_gt_0)
  have "total up_weight s = Suc (total up_weight ?s)"
    using sum_list_update_less [of k "map (unat \<circ> up_weight) (up_list s)"] w k(1) by (simp add: total_def take_weight_def map_update)
  then have "total up_weight ?s = n" using Suc.prems(3) by simp
  moreover have "up_alive ?s \<noteq> 0" "\<forall>u \<in> set (up_list ?s). \<not> up_dead u"
    using Suc.prems(1,2) k(1) by (auto simp: take_weight_def dest!: set_update_subset_insert [THEN subsetD])
  ultimately obtain js where js: "selections n ?s = Some js" "\<forall>i < length (up_list ?s). count_list js i = unat (up_weight (up_list ?s ! i))"
    using Suc.IH by blast
  have "count_list (k # js) i = unat (up_weight (up_list s ! i))" if "i < length (up_list s)" for i
    using js(2) that w by (cases "i = k") (simp_all add: take_weight_def)
  then show ?case using k(2) js(1) by auto
qed

section \<open>Properties\<close>

text \<open>C38. The record of the servers stays well formed, as long as servers that are dead neither fail again nor are removed before
  the last one: adding a server, a failure, a success, the periodic check, a choice and the removal of the first server keep
  the number of elements and of live servers equal to what the list holds, every priority nonzero, and the
  array of pointers large enough, so the store of a new server is inside it.  A server is added with a priority that is not
  positive, as the program does, or not a multiple of 65536, and there are less than \<open>2\<^sup>31\<close> servers.\<close>

theorem upstreams_well_formed:
  assumes "upstream_step s s'" "upstreams_inv s" "array_ok s"
  shows "upstreams_inv s' \<and> array_ok s'"
  using upstream_step_inv [OF assms(1,2)] array_step [OF assms] by blast

theorem upstreams_well_formed_witness: "upstreams_inv (UPSTREAM_ADD 5 no_upstreams) \<and> array_ok (UPSTREAM_ADD 5 no_upstreams)"
  by (rule upstreams_well_formed [of no_upstreams], rule upstream_step.added)
    (simp_all add: no_upstreams_def upstreams_inv_def array_ok_def live_def)

text \<open>As long as only servers that are alive fail, choosing a server works in every state of a list that is not empty:
  the count of live servers is exact, the null pointer is never followed, and the chosen server is alive, because
  all are revived when none is left.\<close>

theorem selection_safe:
  assumes "upstream_step\<^sup>*\<^sup>* no_upstreams s" "up_list s \<noteq> []"
  shows "unat (up_alive s) = live (up_list s) \<and>
    (\<exists>i s'. UPSTREAM_SELECT_ROUND_ROBIN s = Some (i, s') \<and> i < length (up_list s') \<and> \<not> up_dead (up_list s' ! i))"
proof -
  have "upstreams_inv no_upstreams" by (simp add: upstreams_inv_def no_upstreams_def live_def)
  with assms(1) have inv: "upstreams_inv s" by (induction rule: rtranclp_induct) (auto intro: upstream_step_inv)
  show ?thesis using alive_word [OF inv] select_inv [OF inv assms(2)] by blast
qed

theorem selection_safe_witness:
  "\<exists>i s'. UPSTREAM_SELECT_ROUND_ROBIN (UPSTREAM_ADD 5 no_upstreams) = Some (i, s') \<and> \<not> up_dead (up_list s' ! i)"
proof -
  have "upstream_step no_upstreams (UPSTREAM_ADD 5 no_upstreams)" by (rule upstream_step.added) (simp_all add: no_upstreams_def)
  moreover have "up_list (UPSTREAM_ADD 5 no_upstreams) \<noteq> []" by (simp add: UPSTREAM_ADD_def no_upstreams_def)
  ultimately show ?thesis using selection_safe [OF r_into_rtranclp] by blast
qed

text \<open>C39. The choice is fair: when no server is dead, a round of as many choices as there is weight takes every server exactly
  as often as its weight, so after a refill exactly as often as its priority.\<close>

theorem selection_fair:
  assumes "up_alive s \<noteq> 0" "\<forall>u \<in> set (up_list s). \<not> up_dead u \<and> up_weight u = up_priority u"
  shows "\<exists>is. selections (total up_priority s) s = Some is \<and>
    (\<forall>i < length (up_list s). count_list is i = unat (up_priority (up_list s ! i)))"
proof -
  have "map (unat \<circ> up_weight) (up_list s) = map (unat \<circ> up_priority) (up_list s)" using assms(2) by simp
  then have "total up_weight s = total up_priority s" by (simp only: total_def)
  then obtain "is" where "is": "selections (total up_priority s) s = Some is"
    "\<forall>i < length (up_list s). count_list is i = unat (up_weight (up_list s ! i))"
    using selections_by_weight [OF assms(1)] assms(2) by blast
  then show ?thesis using assms(2) by auto
qed

theorem selection_fair_witness:
  "\<exists>is. selections 5 (UPSTREAM_ADD 2 (UPSTREAM_ADD 3 no_upstreams)) = Some is \<and> count_list is 0 = 2 \<and> count_list is 1 = 3"
proof -
  let ?s = "UPSTREAM_ADD 2 (UPSTREAM_ADD 3 no_upstreams)"
  have "\<forall>u \<in> set (up_list ?s). \<not> up_dead u \<and> up_weight u = up_priority u" "up_alive ?s \<noteq> 0" "total up_priority ?s = 5"
    "length (up_list ?s) = 2" "unat (up_priority (up_list ?s ! 0)) = 2" "unat (up_priority (up_list ?s ! 1)) = 3"
    by (simp_all add: UPSTREAM_ADD_def no_upstreams_def total_def)
  with selection_fair [OF this(2,1)] show ?thesis by (metis Suc_1 lessI zero_less_numeral)
qed

lemma select_best_dead: "\<forall>u \<in> set us. up_dead u \<Longrightarrow> select_best f i m sel us = (m, sel)"
  by (induction us arbitrary: i) auto

text \<open>C40. A failure of a server that is dead is counted again.  When the only live server of a list dies of its errors and a
  request still waiting for it fails ten seconds or more later, before a choice or a check has revived the list, the
  count of live servers wraps below zero, nothing is revived any more, and the next choice follows the null pointer.\<close>

theorem second_death_crashes:
  assumes "upstreams_inv s" "live (up_list s) = 1" "i < length (up_list s)" "\<not> up_dead (up_list s ! i)"
    "UPSTREAM_MAX_ERRORS \<le> up_errors (up_list s ! i)" "up_time (up_list s ! i) \<noteq> 0"
    "UPSTREAM_ERROR_TIME \<le> now - up_time (up_list s ! i)" "now \<noteq> 0" "UPSTREAM_ERROR_TIME \<le> later - now"
  shows "up_alive (UPSTREAM_FAIL i now s) = 0 \<and> up_alive (UPSTREAM_FAIL i later (UPSTREAM_FAIL i now s)) = - 1 \<and>
    UPSTREAM_SELECT_ROUND_ROBIN (UPSTREAM_FAIL i later (UPSTREAM_FAIL i now s)) = None"
proof -
  let ?u = "\<lambda>t. (up_list s ! i)\<lparr>up_dead := True, up_time := t\<rparr>"
  let ?s = "s\<lparr>up_list := (up_list s)[i := ?u later], up_alive := - 1\<rparr>"
  have one: "up_alive s = 1" using assms(1,2) by (simp add: upstreams_inv_def)
  have "live ((up_list s)[i := ?u later]) = 0" using live_update [OF assms(3), of "?u later"] assms(2,4) by simp
  then have dead: "\<forall>u \<in> set (up_list ?s). up_dead u" by (simp add: live_zero)
  have fails: "UPSTREAM_FAIL i now s = s\<lparr>up_list := (up_list s)[i := ?u now], up_alive := 0\<rparr>"
    "UPSTREAM_FAIL i later (UPSTREAM_FAIL i now s) = ?s"
    using assms one by (simp_all add: UPSTREAM_FAIL_def fail_entry_def)
  have "UPSTREAM_SELECT_ROUND_ROBIN ?s = None" using select_best_dead [OF dead] by (simp add: UPSTREAM_SELECT_ROUND_ROBIN_def)
  with fails show ?thesis by simp
qed

theorem second_death_crashes_witness:
  "UPSTREAM_SELECT_ROUND_ROBIN (fold (UPSTREAM_FAIL 0) (replicate 10 100 @ [110, 120]) (UPSTREAM_ADD 0 no_upstreams)) = None"
proof -
  define s where "s = fold (UPSTREAM_FAIL 0) (replicate 10 100) (UPSTREAM_ADD 0 no_upstreams)"
  have s: "s = \<lparr>up_list = [\<lparr>up_errors = 10, up_dead = False, up_priority = 65535, up_weight = 65535, up_time = 100\<rparr>],
      up_allocated = 8, up_nelts = 1, up_alive = 1\<rparr>" unfolding s_def by code_simp
  have "fold (UPSTREAM_FAIL 0) (replicate 10 100 @ [110, 120]) (UPSTREAM_ADD 0 no_upstreams) = UPSTREAM_FAIL 0 120 (UPSTREAM_FAIL 0 110 s)"
    by (simp only: s_def fold_append comp_apply fold_simps)
  moreover have "UPSTREAM_SELECT_ROUND_ROBIN (UPSTREAM_FAIL 0 120 (UPSTREAM_FAIL 0 110 s)) = None"
    by (intro second_death_crashes [THEN conjunct2, THEN conjunct2]) (simp_all add: s upstreams_inv_def live_def)
  ultimately show ?thesis by (simp only:)
qed

end
