(* ===== verification/DNS_Resolv_Conf.thy ===== *)
theory DNS_Resolv_Conf
  imports DNS_Upstream Ini_Reader
begin

text \<open>
  The servers of the system's \<open>resolv.conf\<close> (\<open>tysocks/3rd/librdns/src/util.c\<close>, \<open>rdns_resolver_add_server\<close> of \<open>resolver.c\<close>).  A
  line is a C string; whether a text is an address is the answer of \<open>inet_pton\<close>, a parameter.
\<close>

section \<open>Operations\<close>

text \<open>Name, port and number of channels of each server, the newest first, beside their entries.\<close>

record server_list =
  servers :: "(string \<times> u32 \<times> u32) list"
  ups :: upstreams

definition rdns_resolver_add_server :: "(string \<Rightarrow> bool) \<Rightarrow> string \<Rightarrow> u32 \<Rightarrow> int \<Rightarrow> u32 \<Rightarrow> server_list \<Rightarrow> bool \<times> server_list" where
  "rdns_resolver_add_server valid_ip name port priority io_cnt s =
     (if \<not> valid_ip name \<or> io_cnt = 0 \<or> port = 0 \<or> 65535 < port then (False, s)
      else (True, s\<lparr>servers := (name, port, io_cnt) # servers s, ups := UPSTREAM_ADD priority (ups s)\<rparr>))"

definition isxdigit :: "char \<Rightarrow> bool" where
  "isxdigit c \<longleftrightarrow> c \<in> set ''0123456789abcdefABCDEF''"

definition address_char :: "char \<Rightarrow> bool" where
  "address_char c \<longleftrightarrow> isxdigit c \<or> c = CHR '':'' \<or> c = CHR ''.''"

text \<open>\<open>strtoul\<close> with base 10, on 64 bits.\<close>

definition strtoul :: "string \<Rightarrow> nat" where
  "strtoul s = (let s = lskip s;
       neg = (s \<noteq> [] \<and> hd s = CHR ''-'');
       s = (if s \<noteq> [] \<and> hd s \<in> {CHR ''-'', CHR ''+''} then tl s else s);
       n = foldl (\<lambda>v c. 10 * v + (of_char c - 48)) 0 (takeWhile (\<lambda>c. c \<in> set ''0123456789'') s)
     in if 2 ^ 64 \<le> n then 2 ^ 64 - 1 else if neg \<and> 0 < n then 2 ^ 64 - n else n)"

definition rdns_resolver_conf_process_line :: "(string \<Rightarrow> bool) \<Rightarrow> string \<Rightarrow> server_list \<Rightarrow> bool \<times> server_list" where
  "rdns_resolver_conf_process_line valid_ip line s =
     (if take 10 line = ''nameserver'' then
        let p = dropWhile (\<lambda>c. c = CHR '' '' \<or> c = CHR 0x09) (drop 10 line);
            has_obrace = (p \<noteq> [] \<and> hd p = CHR ''['');
            p = (if has_obrace then tl p else p)
        in if p \<noteq> [] \<and> (isxdigit (hd p) \<or> hd p = CHR '':'') then
             let c = takeWhile address_char p;
                 p = dropWhile address_char p
             in if has_obrace \<and> (p = [] \<or> hd p \<noteq> CHR '']'') then (False, s)
                else if p \<noteq> [] \<and> \<not> isspace (hd p) \<and> hd p \<noteq> CHR ''#'' then (False, s)
                else if has_obrace \<and> 1 < length p \<and> p ! 1 = CHR '':'' then
                  let port = (of_nat (strtoul (drop 2 p)) :: u32)
                  in if port = 0 \<or> 65535 < port then (False, s) else rdns_resolver_add_server valid_ip c port 0 8 s
                else rdns_resolver_add_server valid_ip c 53 0 8 s
           else (False, s)
      else (True, s))"

text \<open>The lines are what \<open>fgets\<close> gives; the first that cannot be parsed ends it.\<close>

fun rdns_resolver_parse_resolv_conf :: "(string \<Rightarrow> bool) \<Rightarrow> string list \<Rightarrow> server_list \<Rightarrow> bool \<times> server_list" where
  "rdns_resolver_parse_resolv_conf valid_ip [] s = (True, s)"
| "rdns_resolver_parse_resolv_conf valid_ip (line # lines) s =
     (case rdns_resolver_conf_process_line valid_ip line s of
       (False, s) \<Rightarrow> (False, s)
     | (True, s) \<Rightarrow> rdns_resolver_parse_resolv_conf valid_ip lines s)"

section \<open>Properties\<close>

definition server_line :: "string \<Rightarrow> string" where
  "server_line a = ''nameserver '' @ a @ [CHR 0x0A]"

definition address_ok :: "(string \<Rightarrow> bool) \<Rightarrow> string \<Rightarrow> bool" where
  "address_ok valid_ip a \<longleftrightarrow> valid_ip a \<and> a \<noteq> [] \<and> (isxdigit (hd a) \<or> hd a = CHR '':'') \<and> (\<forall>c \<in> set a. address_char c)"

lemma server_line_read:
  assumes "address_ok valid_ip a"
  shows "rdns_resolver_conf_process_line valid_ip (server_line a) s =
    (True, s\<lparr>servers := (a, 53, 8) # servers s, ups := UPSTREAM_ADD 0 (ups s)\<rparr>)"
proof -
  obtain c b where a: "a = c # b" "isxdigit c \<or> c = CHR '':''" using assms by (cases a) (auto simp: address_ok_def)
  have first: "c \<noteq> CHR '' ''" "c \<noteq> CHR 0x09" "c \<noteq> CHR ''[''" using a(2) by (auto simp: isxdigit_def)
  have all: "\<forall>c \<in> set a. address_char c" "valid_ip a" using assms by (auto simp: address_ok_def)
  have nl: "\<not> address_char (CHR 0x0A)" "isspace (CHR 0x0A)" by (simp_all add: address_char_def isxdigit_def isspace_def)
  have "takeWhile address_char (a @ [CHR 0x0A]) = a" "dropWhile address_char (a @ [CHR 0x0A]) = [CHR 0x0A]"
    using all(1) nl(1) by (simp_all add: takeWhile_append2 dropWhile_append2)
  then show ?thesis using a first all(2) nl(2)
    by (simp add: rdns_resolver_conf_process_line_def server_line_def Let_def rdns_resolver_add_server_def)
qed

text \<open>Every server of a well-formed file is taken, in order, with the standard port and eight channels, whatever stood in
  the list before.\<close>

theorem resolv_conf_read:
  assumes "\<forall>a \<in> set as. address_ok valid_ip a"
  shows "\<exists>s'. rdns_resolver_parse_resolv_conf valid_ip (map server_line as) s = (True, s') \<and>
    servers s' = rev (map (\<lambda>a. (a, 53, 8)) as) @ servers s \<and> length (up_list (ups s')) = length as + length (up_list (ups s))"
  using assms
proof (induction "as" arbitrary: s)
  case (Cons a "as")
  let ?s = "s\<lparr>servers := (a, 53, 8) # servers s, ups := UPSTREAM_ADD 0 (ups s)\<rparr>"
  have "length (up_list (ups ?s)) = Suc (length (up_list (ups s)))" by (simp add: UPSTREAM_ADD_def Let_def)
  then show ?case using Cons.IH [of ?s] Cons.prems server_line_read [of valid_ip a s] by auto
qed simp

theorem resolv_conf_read_witness:
  "\<exists>s'. rdns_resolver_parse_resolv_conf (\<lambda>_. True) [''nameserver 8.8.8.8'' @ [CHR 0x0A]] \<lparr>servers = [], ups = no_upstreams\<rparr> = (True, s') \<and>
     servers s' = [(''8.8.8.8'', 53, 8)]"
  using resolv_conf_read [of "[''8.8.8.8'']" "\<lambda>_. True" "\<lparr>servers = [], ups = no_upstreams\<rparr>"]
  by (auto simp: address_ok_def address_char_def isxdigit_def server_line_def)

text \<open>An address in brackets, the only form with a port, is never taken: the closing bracket passes the test that asks for
  it and fails the next one.  The line ends the reading of the file, and the servers behind it are lost.\<close>

theorem bracketed_server_refused:
  "rdns_resolver_parse_resolv_conf valid_ip ((''nameserver ['' @ rest) # lines) s = (False, s)"
proof -
  have "\<not> isspace CHR '']''" by (simp add: isspace_def)
  then show ?thesis by (auto simp: rdns_resolver_conf_process_line_def Let_def)
qed

end
