(* ===== verification/Spec2Isabelle.thy ===== *)
theory Spec2Isabelle
  imports Atomic_Bitmap Epoll_Server Socket_Server TCP_Server DNS_Cache Ini_Reader Simple_Transfer Wait_Ack_Queue Blocking_Queue Ack_Collector Timer_Wheel Complex_Writer
    Buffer_Pool HDS_UDP_API Connection_Sender Tunnel_Control DNS_Reply DNS_Punycode DNS_Requests DNS_Resolv_Conf
begin

text \<open>
  \<^bold>\<open>A verification library for the repository's two programs.\<close>

  \<^emph>\<open>HDS\_UDP\<close> (\<open>src/hds_udp\<close>) is a library for reliable transfer of messages over datagrams.  An application
  calls \<open>CSend\<close> (\<open>include/HDS_UDP.cpp\<close>); the connection layer (\<open>connection/\<close>) makes a writer, a simple one that
  sends one packet at a time for messages of at most 16 packets, or a complex one with a congestion window;
  a sender thread and a timer thread drive it; the other host's filter (\<open>connection::filter_data\<close>) makes a
  reader, which acknowledges and finally hands the message to the method processor
  (\<open>method_processor/\<close>), whose workers call the processor registered for the message type.  Below are a
  timer wheel, blocking queues, a red-black tree map, bitmaps on atomic words, a buffer pool
  (\<open>common/\<close>, \<open>buffer/\<close>) and a socket kernel (\<open>kernel/\<close>).  \<^emph>\<open>tysocks\<close> (\<open>src/tysocks\<close>) is a SOCKS5 proxy over a
  tunnel: client and server relay TCP connections as numbered packets.

  \<^bold>\<open>Theories and sources.\<close>
  \<^item> \<open>HDS_Prelude\<close>: machine words, little-endian bytes, buffers, shared lemma collections.
  \<^item> \<open>HDS_Config\<close>: \<open>config/HDS_UDP_Kernel_Config.h\<close>.  \<open>Atomic_T\<close>: \<open>common/atomic_t.h\<close>, each member one
    indivisible step.  \<open>Atomic_Bitmap\<close>: \<open>common/Atomic_Bitmap.h\<close>, updates and the four word-skipping searches
    against a bit-by-bit scan.  \<open>HDS_CDR\<close>: \<open>common/HDS_ReadCDR.h\<close>, \<open>HDS_WriteCDR.h\<close>.  \<open>HDS_Unistd\<close>: clock and
    address helpers.
  \<^item> \<open>Connection_ID\<close>, \<open>Connection_State\<close>, \<open>Connection_Macros\<close>: the identifiers, the connection record with its status
    bits, the header, payload and retransmission macros of \<open>connection/HDS_UDP_Connection.h\<close>.
    \<open>Connection_Core\<close>: \<open>HDS_UDP_Connection.cpp\<close> over a \<open>world\<close> (object heap, identifier table, timers, queues,
    sent datagrams, delivered messages, handler events).  A step whose C++ behaviour is undefined has the
    result \<open>None\<close>.
  \<^item> \<open>Simple_Connection\<close> (\<open>HDS_UDP_Simple_Connection.cpp\<close>), with \<open>Host_Invariant\<close>, \<open>Transfer_Sender\<close>,
    \<open>Transfer_Receiver\<close>, \<open>Simple_Transfer\<close>: two hosts over a network that loses, duplicates, delays and
    reorders; integrity and honesty of the success report by rule induction over \<open>transfer_step\<close>, for the first
    message between two idle hosts, of at most 23232 bytes.
  \<^item> \<open>Single_Float\<close>, \<open>Complex_Connection\<close> (\<open>HDS_UDP_Complex_Connection.cpp\<close>), \<open>Complex_Reader\<close>, \<open>Complex_Writer\<close>:
    the windowed connections; integrity and completion of the reader, bounds of the window, the burst and
    the retries of the writer.  \<open>Ack_Collector\<close>: the sliding bitmap of received packets as a refinement of a
    set of positions.
  \<^item> \<open>RB_Tree\<close>, \<open>RB_Balance\<close>, \<open>RB_Operations\<close>, \<open>HP_Map\<close>: the red-black tree of \<open>common/HP_Map.h\<close> as a tree
    with a zipper in place of parent pointers, and the map over it as a refinement of a finite map; \<open>Wait_Ack_Queue\<close> uses its interpretation.
  \<^item> \<open>S_List\<close> (\<open>common/s_list.h\<close>), \<open>Blocking_Queue\<close> (\<open>common/HDS_Blocking_Queue.h\<close>), \<open>Timer_Wheel\<close>
    (\<open>common/HDS_Timer_Wheel.cpp\<close>), \<open>Connection_Sender\<close> (\<open>connection/HDS_UDP_Connection_Sender.cpp\<close>, the sender threads over
    the blocking queue, with their shutdown), \<open>Buffer_Pool\<close> (\<open>buffer/HDS_Buffer_Pool.cpp\<close>).
  \<^item> \<open>Socket_Server\<close> and \<open>Epoll_Server\<close>: the two Linux kernels; the lock-free receive ring as a refinement of a
    bounded queue for one worker, and its overrun with two.
  \<^item> \<open>Method_Processor\<close>, \<open>HDS_UDP_API\<close>: workers and the public interface.  This theory: from \<open>CSend\<close> to the
    processor.
  \<^item> \<open>TCP_Handler\<close> (\<open>tysocks/common/TCPHandler.cpp\<close>), \<open>Socks5_Server\<close> (\<open>server/S5Server.cpp\<close>, \<open>Connector.cpp\<close>), \<open>TCP_Server\<close>
    (\<open>client/TCPServer.cpp\<close>), \<open>DNS_Cache\<close> (\<open>server/DNS.cpp\<close>), \<open>Ini_Reader\<close> (\<open>common/ini.c\<close>, \<open>INIReader.cpp\<close>): the two ends of
    the tunnel.  A connector's two watchers, the sockets, the
    \<open>connect\<close> calls and the lookups are state of the server.  Bytes keep their order while one operation runs at a time, a session
    opens end to end for an IPv4 target, each connector answers at most once, also with the resolver in between, and an IPv6
    address given as text is refused because of the address length the code passes.  \<open>Tunnel_Control\<close>: the options from the client's configuration file to the
    server's sockets (\<open>common/sockopt.hpp\<close>), and the server's loop, its stop report and its end.
  \<^item> \<open>DNS_Labels\<close>, \<open>DNS_Records\<close>, \<open>DNS_Query\<close>, \<open>DNS_Punycode\<close>, \<open>DNS_Reply\<close>: what the vendored resolver library
    \<open>tysocks/3rd/librdns\<close> does with bytes, in \<open>src/parse.c\<close>, \<open>compression.c\<close>, \<open>packet.c\<close>, \<open>punycode.c\<close> and the parts of \<open>resolver.c\<close>
    that build a query and read a reply.  Hostile packets cannot make it loop or follow a chain of pointers
    without end; names written are read back; a reply with a plain question is taken only for the question that
    was asked; the reads and writes outside a packet that are possible are stated as such.
  \<^item> \<open>DNS_Requests\<close> (\<open>resolver.c\<close>, \<open>util.c\<close>): the life of a request between table, timer and socket; each is answered once as
    long as the socket can be written, which is what \<open>DNS_Cache\<close> relies on, and goes wrong otherwise.
    \<open>DNS_Upstream\<close> (\<open>upstream.h\<close>): error counts, adding, removing and weighted choice of servers.  \<open>DNS_Resolv_Conf\<close> (\<open>util.c\<close>): the
    servers of the system's configuration.

  \<^bold>\<open>Interfaces.\<close>  Locales state what a component relies on and are interpreted on the model's own definitions:
  readers and writers of the packet format, host invariants kept by every operation of the connection layer
  (for the sending and for the receiving host), maps, queues and pipes.

  \<^bold>\<open>Bounds.\<close>  Machine integers have the widths of x86-64 Linux; counters wrap.  Loops are structural or have a
  termination proof; the send loop is bounded by the code's own limit of 16 packets.  The outer loop of the
  punycode encoder has a bound of one round for each character, which is proved to be enough.  Times in the timer wheel
  are bounded where its slot array ends; the theorems about it state the horizon.  Allocations of the connection
  layer, those of the map of pending acknowledgements too, may fail at any step of a run.

  \<^bold>\<open>Configuration.\<close>  The shipped configuration defines \<open>_SUPPORT_ACE_\<close>, which adds entry points for message blocks
  of the third-party ACE library; the model is of the code that remains without it.  For connections that
  do not come from those entry points both builds take the same steps: the constructors clear the object, so
  \<open>_ace_transmit_block\<close> is null.

  \<^bold>\<open>Not modelled.\<close>  The Windows branches and \<open>kernel/iocp\<close> (Windows system calls); thread creation and joining
  beyond their result codes; \<open>test/\<close>; the ACE entry points; \<open>HDS_UDP_Connection_Timer.cpp\<close>, which only forwards to
  the timer wheel; of tysocks the mains, logging and the wrappers of the tunnel library; of \<open>tysocks/3rd/librdns\<close> the
  opening and replacing of sockets, the reference counts of channels, the encryption plugin, failed allocations
  while parsing, and its own vendored hash tables, lists and cryptography.
\<close>

section \<open>From CSend to the registered processor\<close>

text \<open>A message of five bytes, type 1, from one fresh host to another, computed by the definitions.\<close>

definition csend_message :: "u8 list" where
  "csend_message = [1, 0, 0, 0, 9]"

definition csend_a1 :: "(int \<times> Connection_ID option \<times> world) option" where
  "csend_a1 = CSend csend_message 5 (replicate 16 0) NO_DELETE_AFTER_SEND (Some 0) fresh_host"

definition csend_a2 :: "world option" where
  "csend_a2 = do { (_, _, w) \<leftarrow> csend_a1;
     connection_do_sender library_ops 1 (replicate MAX_UDP_PACKET_SIZE 0) w }"

definition csend_b1 :: "world option" where
  "csend_b1 = do { w \<leftarrow> csend_a2; filter_data library_ops (arrival (hd (sent w))) fresh_host }"

lemma csend_a2_result: "map_option (\<lambda>w. map (length \<circ> d_data) (sent w)) csend_a2 = Some [25]"
  by code_simp

lemma csend_b1_result: "map_option (\<lambda>w. map rp_data (processed w)) csend_b1 = Some [csend_message]"
  by code_simp

lemma csend_obtain:
  obtains r i a1 a2 b1 where
    "CSend csend_message (of_nat (length csend_message)) (replicate 16 0) NO_DELETE_AFTER_SEND (Some 0) fresh_host = Some (r, i, a1)"
    "(transfer_step complex_ops)\<^sup>*\<^sup>* \<lparr>host_a = a1, host_b = fresh_host\<rparr> \<lparr>host_a = a2, host_b = b1\<rparr>"
    "map rp_data (processed b1) = [csend_message]"
proof -
  obtain b1 where p1: "csend_b1 = Some b1" "map rp_data (processed b1) = [csend_message]"
    using csend_b1_result that unfolding map_option_eq_Some by (elim exE conjE) (rule that)
  from p1(1) have "\<exists>a2. csend_a2 = Some a2 \<and> filter_data library_ops (arrival (hd (sent a2))) fresh_host = Some b1"
    unfolding csend_b1_def bind_eq_Some_conv .
  then obtain a2 where b1: "csend_a2 = Some a2"
    "filter_data library_ops (arrival (hd (sent a2))) fresh_host = Some b1" by (elim exE conjE) (rule that)
  from b1(1) obtain r i a1 where a1: "csend_a1 = Some (r, i, a1)"
    "connection_do_sender library_ops 1 (replicate MAX_UDP_PACKET_SIZE 0) a1 = Some a2"
    unfolding csend_a2_def bind_eq_Some_conv by (auto simp del: One_nat_def)
  have "map (length \<circ> d_data) (sent a2) = [25]" using csend_a2_result unfolding b1(1) by simp
  then have sent: "hd (sent a2) \<in> set (sent a2)" "length (d_data (hd (sent a2))) = 25" by (cases "sent a2"; simp)+
  have "transfer_step complex_ops \<lparr>host_a = a1, host_b = fresh_host\<rparr> \<lparr>host_a = a2, host_b = fresh_host\<rparr>"
    using transfer_step.a_send [of complex_ops 1 "replicate 1472 0" "\<lparr>host_a = a1, host_b = fresh_host\<rparr>" a2] a1(2)
    by (simp add: library_ops_def)
  moreover have "transfer_step complex_ops \<lparr>host_a = a2, host_b = fresh_host\<rparr> \<lparr>host_a = a2, host_b = b1\<rparr>"
    using transfer_step.b_recv [of "hd (sent a2)" "\<lparr>host_a = a2, host_b = fresh_host\<rparr>" "arrival (hd (sent a2))" complex_ops b1] sent b1(2)
    by (simp add: library_ops_def receives_def arrival_def)
  ultimately show ?thesis using that [of r i a1 a2 b1] a1(1) p1(2)
    by (simp add: csend_a1_def csend_message_def) (meson converse_rtranclp_into_rtranclp rtranclp.rtrancl_refl)
qed

text \<open>C3. From one application to the other.  Two hosts are idle.  An application of one gives a block of 4 to 23232 bytes that
  starts with message type \<open>t\<close> to \<open>CSend\<close>, the first message between them; the other has a processor registered for \<open>t\<close>.  Whatever the network and the timers do, every
  message the receiving library ever queues is the whole block, and the worker that takes it calls that
  processor and no other.\<close>

theorem CSend_reaches_processor:
  assumes "transfer_size (le_bytes32 t @ body)" "idle_host a0" "idle_host b0"
    "CSend (le_bytes32 t @ body) (of_nat (length (le_bytes32 t @ body))) addr dtype handler a0 = Some (r, i, a1)"
    "(transfer_step complex_ops)\<^sup>*\<^sup>* \<lparr>host_a = a1, host_b = b0\<rparr> s"
    "rb_ok tree" "HP_map_contents tree t = Some p"
  shows "\<forall>m \<in> set (processed (host_b s)). rp_data_length m = of_nat (4 + length body) \<and>
    take (4 + length body) (rp_data m) = le_bytes32 t @ body \<and>
    method_processor_round procs tree m = Some (Some p, dispose (procs p m))"
proof
  fix m assume m: "m \<in> set (processed (host_b s))"
  let ?D = "le_bytes32 t @ body"
  obtain res where st: "start_sender [] (Some ?D) (of_nat (length ?D)) addr sizeof_sockaddr_in dtype handler
       HDS_UDP_DEFAULT_SSTHRESH_SIZE (- 1) a0 = Some (res, a1)"
    using assms(4) by (auto simp: CSend_def started_def split: option.splits prod.splits)
  have "transfer_inv ?D s"
    by (rule transfer_reachable_inv [OF assms(5) transfer_start_inv [OF st assms(2,3,1)] assms(1)])
      (simp add: send_request_ok_def)
  then have ok: "rp_data_length m = of_nat (length ?D)" "take (length ?D) (rp_data m) = ?D"
    using m by (auto simp: transfer_inv_def world_inv_def message_ok_def)
  have len: "length ?D = 4 + length body" by (simp add: le_bytes32_def)
  have "message_of_type t (body @ drop (length ?D) (rp_data m)) m"
    using append_take_drop_id [of "length ?D" "rp_data m"] unfolding ok(2) message_of_type_def by simp
  from round_eq [OF assms(6) this, of procs] assms(7) ok len
  show "rp_data_length m = of_nat (4 + length body) \<and> take (4 + length body) (rp_data m) = ?D \<and>
      method_processor_round procs tree m = Some (Some p, dispose (procs p m))" by simp
qed

theorem CSend_reaches_processor_witness:
  "\<exists>a1 s (tree :: method_tree). (transfer_step complex_ops)\<^sup>*\<^sup>* \<lparr>host_a = a1, host_b = fresh_host\<rparr> s \<and> processed (host_b s) \<noteq> [] \<and>
     (\<forall>m \<in> set (processed (host_b s)). method_processor_round (\<lambda>_. id) tree m = Some (Some 7, dispose m))"
proof (rule csend_obtain)
  fix r i a1 a2 b1
  let ?s = "\<lparr>host_a = a2, host_b = b1\<rparr>"
  have D: "csend_message = le_bytes32 1 @ [9]" by (simp add: csend_message_def le_bytes32_def)
  assume st: "CSend csend_message (of_nat (length csend_message)) (replicate 16 0) NO_DELETE_AFTER_SEND (Some 0) fresh_host = Some (r, i, a1)"
    and run: "(transfer_step complex_ops)\<^sup>*\<^sup>* \<lparr>host_a = a1, host_b = fresh_host\<rparr> ?s"
    and m: "map rp_data (processed b1) = [csend_message]"
  obtain tree :: method_tree where t: "rb_ok tree" "HP_map_contents tree 1 = Some 7"
    using hp_map.ins_new [OF no_methods(1), of 1 7] no_methods(2) by auto
  have "transfer_size (le_bytes32 1 @ [9])" "idle_host fresh_host"
    by (simp_all add: transfer_size_def idle_host_def fresh_host_def le_bytes32_def)
  from CSend_reaches_processor [OF this this(2) st [unfolded D] run t, of "\<lambda>_. id"] run m show ?thesis by force
qed

end
